(* ===== verification/Prelude.thy ===== *)
theory Prelude
  imports Main "HOL-Library.Monad_Syntax" "HOL-Library.Word" "HOL-Library.List_Lexorder"
    "HOL-Library.Char_ord"
begin

text \<open>
  Generic material shared by the theories of the development: C arrays with bounds, C strings and
  their comparison, 32 bit arithmetic, and the predicate \<open>runs\<close> by which the
  specifications of the operations are stated.

  An operation of the library is a function from a state to \<open>(result \<times> state) option\<close>. The value
  \<open>None\<close> stands for everything C gives no meaning to (an access outside an array, a use of an
  uninitialised variable, a NULL dereference) and for a loop that does not end. So a theorem
  \<open>runs (f x s) Q\<close> says that the call returns, that it stays within its arrays, and that its result
  satisfies \<open>Q\<close>.
\<close>

named_theorems specs \<open>total specifications of operations, as \<open>runs\<close> facts\<close>
named_theorems evals \<open>equations that evaluate operations on concrete states\<close>

unbundle bit_operations_syntax

section \<open>Computations that may go wrong\<close>

definition runs :: "'a option \<Rightarrow> ('a \<Rightarrow> bool) \<Rightarrow> bool" where
  "runs m P \<longleftrightarrow> (\<exists>x. m = Some x \<and> P x)"

lemma runs_Some [simp]: "runs (Some x) P \<longleftrightarrow> P x"
  by (simp add: runs_def)

lemma runs_None [simp]: "\<not> runs None P"
  by (simp add: runs_def)

lemma runs_bind: "runs (Option.bind m f) P \<longleftrightarrow> runs m (\<lambda>x. runs (f x) P)"
  by (cases m) (auto simp: runs_def)

lemma runs_conseq: "runs m P \<Longrightarrow> (\<And>x. P x \<Longrightarrow> Q x) \<Longrightarrow> runs m Q"
  by (auto simp: runs_def)

lemma runs_bindI: "runs m P \<Longrightarrow> (\<And>x. P x \<Longrightarrow> runs (f x) Q) \<Longrightarrow> runs (Option.bind m f) Q"
  by (auto simp: runs_bind intro: runs_conseq)

lemma runsE:
  assumes "runs m P" obtains x where "m = Some x" and "P x"
  using assms by (auto simp: runs_def)

lemma runs_obtain2:
  assumes "runs m (\<lambda>(a, s). Q a s)"
  obtains a s where "m = Some (a, s)" "Q a s"
  using assms by (auto simp: runs_def)

lemma runs_obtain3:
  assumes "runs m (\<lambda>((a, b), s). Q a b s)"
  obtains a b s where "m = Some ((a, b), s)" "Q a b s"
  using assms by (auto simp: runs_def)

lemma runs_mono: "runs m P \<Longrightarrow> P \<le> Q \<Longrightarrow> runs m Q"
  by (auto simp: runs_def)

lemma runs_conj: "runs m P \<Longrightarrow> runs m Q \<Longrightarrow> runs m (\<lambda>x. P x \<and> Q x)"
  by (auto simp: runs_def)

text \<open>Evaluation of a computation from left to right: the continuation is left alone until the
  first part is a value.\<close>

lemma bind_weak_cong: "m = m' \<Longrightarrow> Option.bind m f = Option.bind m' f"
  by simp

lemma runs_weak_cong: "m = m' \<Longrightarrow> runs m P = runs m' P"
  by simp

section \<open>C arrays\<close>

definition arr_get :: "'a list \<Rightarrow> int \<Rightarrow> 'a option" where
  "arr_get xs i = (if 0 \<le> i \<and> i < int (length xs) then Some (xs ! nat i) else None)"

definition arr_set :: "'a list \<Rightarrow> int \<Rightarrow> 'a \<Rightarrow> 'a list option" where
  "arr_set xs i x = (if 0 \<le> i \<and> i < int (length xs) then Some (xs[nat i := x]) else None)"

text \<open>\<open>memcpy\<close> out of and into an array of bytes.\<close>

definition arr_slice :: "'a list \<Rightarrow> int \<Rightarrow> int \<Rightarrow> 'a list option" where
  "arr_slice xs off n =
     (if 0 \<le> off \<and> 0 \<le> n \<and> off + n \<le> int (length xs)
      then Some (take (nat n) (drop (nat off) xs)) else None)"

definition arr_blit :: "'a list \<Rightarrow> int \<Rightarrow> 'a list \<Rightarrow> 'a list option" where
  "arr_blit xs off ys =
     (if 0 \<le> off \<and> off + int (length ys) \<le> int (length xs)
      then Some (take (nat off) xs @ ys @ drop (nat off + length ys) xs) else None)"

lemma arr_get_in [simp]: "0 \<le> i \<Longrightarrow> i < int (length xs) \<Longrightarrow> arr_get xs i = Some (xs ! nat i)"
  by (simp add: arr_get_def)

lemma arr_set_in [simp]: "0 \<le> i \<Longrightarrow> i < int (length xs) \<Longrightarrow> arr_set xs i x = Some (xs[nat i := x])"
  by (simp add: arr_set_def)

lemma arr_get_nat [simp]: "arr_get xs (int n) = (if n < length xs then Some (xs ! n) else None)"
  by (simp add: arr_get_def)

lemma arr_set_nat [simp]: "arr_set xs (int n) x = (if n < length xs then Some (xs[n := x]) else None)"
  by (simp add: arr_set_def)

lemma arr_get_neg [simp]: "i < 0 \<Longrightarrow> arr_get xs i = None"
  by (simp add: arr_get_def)

lemma length_arr_blit: "arr_blit xs off ys = Some zs \<Longrightarrow> length zs = length xs"
  by (auto simp: arr_blit_def split: if_splits)

text \<open>What is read back after a \<open>memcpy\<close>: the bytes written, or the old ones elsewhere.\<close>

lemma slice_blit_same:
  assumes "arr_blit xs off ys = Some zs"
  shows "arr_slice zs off (int (length ys)) = Some ys"
  using assms by (auto simp: arr_blit_def arr_slice_def split: if_splits)

lemma slice_blit_before:
  assumes "arr_blit xs off ys = Some zs" and "0 \<le> o'" "0 \<le> n" "o' + n \<le> off"
  shows "arr_slice zs o' n = arr_slice xs o' n"
proof -
  have "take (nat n) (drop (nat o') zs) = take (nat n) (drop (nat o') xs)"
    if "zs = take (nat off) xs @ ys @ drop (nat off + length ys) xs"
      and "nat o' + nat n \<le> nat off" and "nat off \<le> length xs"
    using that by (simp add: take_drop min.absorb1 min.absorb2 add.commute)
  moreover have "nat o' + nat n \<le> nat off"
    using assms(2-4) by linarith
  ultimately show ?thesis
    using assms by (auto simp: arr_blit_def arr_slice_def split: if_splits)
qed

lemma slice_blit_after:
  assumes "arr_blit xs off ys = Some zs" and "off + int (length ys) \<le> o'"
  shows "arr_slice zs o' n = arr_slice xs o' n"
proof -
  have "drop (nat o') zs = drop (nat o') xs"
    if "zs = take (nat off) xs @ ys @ drop (nat off + length ys) xs"
      and "nat off + length ys \<le> nat o'" and "nat off \<le> length xs"
    using that by (simp add: min_absorb2)
  moreover have "nat off + length ys \<le> nat o'" if "0 \<le> off"
    using assms(2) that by linarith
  ultimately show ?thesis
    using assms by (auto simp: arr_blit_def arr_slice_def split: if_splits)
qed

section \<open>C strings\<close>

text \<open>
  A C string is the list of its characters before the terminating NUL. \<open>strcmp\<close> compares as
  unsigned bytes; only the sign of its result is used by the library. \<open>strncpy\<close> into a buffer of
  \<open>n\<close> bytes followed by \<open>buf[n-1] = NUL\<close> keeps the first \<open>n-1\<close> characters.
\<close>

fun strcmp :: "string \<Rightarrow> string \<Rightarrow> int" where
  "strcmp [] [] = 0"
| "strcmp [] (b # bs) = -1"
| "strcmp (a # as) [] = 1"
| "strcmp (a # as) (b # bs) =
     (if (of_char a :: nat) < of_char b then -1
      else if (of_char a :: nat) > of_char b then 1
      else strcmp as bs)"

definition strncpy_term :: "nat \<Rightarrow> string \<Rightarrow> string" where
  "strncpy_term n x = take (n - 1) x"

text \<open>\<open>strcmp\<close> is the comparison of the linear order on strings.\<close>

lemma strcmp_cases:
  "(strcmp a b < 0 \<longleftrightarrow> a < b) \<and> (strcmp a b = 0 \<longleftrightarrow> a = b) \<and> (strcmp a b > 0 \<longleftrightarrow> b < a)"
proof (induction a b rule: strcmp.induct)
  case (4 a as b bs)
  have eq: "(of_char a :: nat) = of_char b \<longleftrightarrow> a = b"
    by simp
  show ?case
    using 4 eq by (auto simp: less_char_def dest: less_asym)
qed simp_all

lemma strcmp_less [simp]: "strcmp a b < 0 \<longleftrightarrow> a < b"
  and strcmp_eq [simp]: "strcmp a b = 0 \<longleftrightarrow> a = b"
  and strcmp_greater [simp]: "strcmp a b > 0 \<longleftrightarrow> b < a"
  using strcmp_cases by blast+

lemma strcmp_le [simp]: "strcmp a b \<le> 0 \<longleftrightarrow> a \<le> b"
  by (metis strcmp_greater linorder_not_less)

section \<open>Fixed width integers\<close>

text \<open>The value a 32 bit \<open>int\<close> has after two's complement wrap-around.\<close>

definition to_int32 :: "int \<Rightarrow> int" where
  "to_int32 x = signed_take_bit 31 x"

lemma to_int32_id [simp]: "-(2 ^ 31) \<le> x \<Longrightarrow> x < 2 ^ 31 \<Longrightarrow> to_int32 x = x"
  by (simp add: to_int32_def signed_take_bit_int_eq_self)

lemma to_int32_range: "-(2 ^ 31) \<le> to_int32 x \<and> to_int32 x < 2 ^ 31"
  unfolding to_int32_def
  using signed_take_bit_int_greater_eq_minus_exp signed_take_bit_int_less_exp by blast

type_synonym byte = "8 word"

text \<open>C's division truncates towards zero; on the non-negative addresses it is \<open>div\<close>.\<close>

definition cdiv :: "int \<Rightarrow> int \<Rightarrow> int" where
  "cdiv a b = sgn a * sgn b * (\<bar>a\<bar> div \<bar>b\<bar>)"

lemma cdiv_nonneg [simp]: "0 \<le> a \<Longrightarrow> 0 < b \<Longrightarrow> cdiv a b = a div b"
  by (cases "a = 0") (simp_all add: cdiv_def)

section \<open>Lists and maps\<close>

lemma takeWhile_length_less: "length (takeWhile P xs) < length xs \<longleftrightarrow> (\<exists>x \<in> set xs. \<not> P x)"
  by (induction xs) auto

lemma nth_length_takeWhile': "length (takeWhile P xs) < length xs \<Longrightarrow> \<not> P (xs ! length (takeWhile P xs))"
  by (rule nth_length_takeWhile)

lemma length_takeWhile_eq:
  "i < length xs \<Longrightarrow> \<not> P (xs ! i) \<Longrightarrow> (\<And>j. j < i \<Longrightarrow> P (xs ! j)) \<Longrightarrow> length (takeWhile P xs) = i"
proof (induction xs arbitrary: i)
  case (Cons x xs)
  then show ?case by (cases i) fastforce+
qed simp

lemma length_takeWhile_cong:
  "length xs = length ys \<Longrightarrow> (\<And>i. i < length xs \<Longrightarrow> P (xs ! i) = Q (ys ! i)) \<Longrightarrow>
   length (takeWhile P xs) = length (takeWhile Q ys)"
proof (induction xs arbitrary: ys)
  case (Cons x xs)
  then obtain y ys' where ys: "ys = y # ys'" by (cases ys) auto
  have "P x = Q y" using Cons.prems(2) [of 0] ys by simp
  moreover have "length (takeWhile P xs) = length (takeWhile Q ys')"
  proof (rule Cons.IH)
    fix i assume "i < length xs"
    then show "P (xs ! i) = Q (ys' ! i)" using Cons.prems(2) [of "Suc i"] ys by simp
  qed (use Cons.prems ys in simp)
  ultimately show ?case using ys by simp
qed simp

text \<open>Insertion into and removal from a list at a position.\<close>

definition insert_at :: "nat \<Rightarrow> 'a \<Rightarrow> 'a list \<Rightarrow> 'a list" where
  "insert_at p x xs = take p xs @ x # drop p xs"

definition remove_at :: "nat \<Rightarrow> 'a list \<Rightarrow> 'a list" where
  "remove_at p xs = take p xs @ drop (Suc p) xs"

lemma length_insert_at [simp]: "length (insert_at p x xs) = Suc (length xs)"
  by (simp add: insert_at_def)

lemma length_remove_at: "p < length xs \<Longrightarrow> length (remove_at p xs) = length xs - 1"
  by (simp add: remove_at_def)

lemma nth_insert_at:
  "p \<le> length xs \<Longrightarrow> i \<le> length xs \<Longrightarrow>
   insert_at p x xs ! i = (if i < p then xs ! i else if i = p then x else xs ! (i - 1))"
  by (auto simp: insert_at_def nth_append nth_Cons' min_absorb2)

lemma nth_remove_at:
  "p < length xs \<Longrightarrow> i < length xs - 1 \<Longrightarrow> remove_at p xs ! i = (if i < p then xs ! i else xs ! Suc i)"
  by (auto simp: remove_at_def nth_append min_absorb2)

lemma set_insert_at: "set (insert_at p x xs) = insert x (set xs)"
  unfolding insert_at_def by (metis Un_insert_right append_take_drop_id list.simps(15) set_append)

lemma map_insert_at: "map f (insert_at p x xs) = insert_at p (f x) (map f xs)"
  by (simp add: insert_at_def take_map drop_map)

lemma map_remove_at: "map f (remove_at p xs) = remove_at p (map f xs)"
  by (simp add: remove_at_def take_map drop_map)

lemma remove_insert_at: "p \<le> length xs \<Longrightarrow> remove_at p (insert_at p x xs) = xs"
  by (simp add: remove_at_def insert_at_def)

lemma sorted_insert_at:
  fixes xs :: "'a :: linorder list"
  assumes "sorted_wrt (<) xs" "p \<le> length xs" "\<And>i. i < p \<Longrightarrow> xs ! i < x"
    "p < length xs \<Longrightarrow> x < xs ! p"
  shows "sorted_wrt (<) (insert_at p x xs)"
proof -
  have "x < y" if y: "y \<in> set (drop p xs)" for y
  proof -
    obtain i where "i < length xs - p" "y = xs ! (p + i)"
      using y by (auto simp: in_set_conv_nth)
    then show ?thesis
      using assms(4) sorted_wrt_nth_less [OF assms(1), of p "p + i"]
      by (cases "i = 0") (auto intro: less_trans [of x "xs ! p"])
  qed
  moreover have "y < x" if "y \<in> set (take p xs)" for y
    using that assms(2,3) by (auto simp: in_set_conv_nth)
  moreover have "sorted_wrt (<) (take p xs @ drop p xs)" using assms(1) by simp
  ultimately show ?thesis
    unfolding insert_at_def sorted_wrt_append by (auto dest: less_trans)
qed

lemma sorted_remove_at: "sorted_wrt P xs \<Longrightarrow> sorted_wrt P (remove_at p xs)"
proof -
  assume s: "sorted_wrt P xs"
  then have "sorted_wrt P (take p xs @ drop p xs)" by simp
  moreover have "set (drop (Suc p) xs) \<subseteq> set (drop p xs)"
    by (metis drop_Suc set_drop_subset_set_drop le_SucI order_refl)
  ultimately show ?thesis
    using sorted_wrt_drop [OF s, of "Suc p"] unfolding remove_at_def sorted_wrt_append by blast
qed

end
