(* ===== verification/Consts.thy ===== *)
theory Consts
  imports Prelude
begin

text \<open>
  The constants of \<open>inc/bc.h\<close>, for the build the Makefile makes when \<open>LFS\<close> is not set: \<open>BTint\<close> is
  \<open>int\<close>, four bytes wide, blocks are 1024 bytes and three blocks are held in memory. The sizes that
  the header computes (\<open>ZMXKEY\<close>, the bytes of a data area) are computed here by the same formulas.
\<close>

section \<open>Sizes\<close>

definition ZBYTEW :: nat where "ZBYTEW = 8"
definition ZBPW :: nat where "ZBPW = 4"
definition ZKYLEN :: nat where "ZKYLEN = 32"
definition ZMXBLK :: nat where "ZMXBLK = 3"
definition ZBLKSZ :: int where "ZBLKSZ = 1024"
definition ZINFSZ :: nat where "ZINFSZ = 6"

definition ZMXKEY :: int where
  "ZMXKEY = (ZBLKSZ - int ZBPW - int ZINFSZ * int ZBPW) div (int ZKYLEN + 3 * int ZBPW)"

definition ZTHRES :: int where "ZTHRES = 3"
definition ZMXACT :: nat where "ZMXACT = 5"
definition BTINT_MAX :: int where "BTINT_MAX = 2147483647"
definition LFSHDR :: int where "LFSHDR = 0xFFBADDEF"
definition ZRNAMESZ :: nat where "ZRNAMESZ = 16"
definition ZMSGSZ :: nat where "ZMSGSZ = 132"
definition FIDSZ :: nat where "FIDSZ = 72"
definition STKMAX :: int where "STKMAX = 40"
definition ZVERS :: int where "ZVERS = 5"

text \<open>The bytes of a block after its info words (\<open>DATBLK.data\<close>), and a segment's prefix.\<close>

definition ZDATSZ :: int where "ZDATSZ = ZBLKSZ - int ZINFSZ * int ZBPW"
definition ZDRSZ :: int where "ZDRSZ = 2"
definition ZDOVRH :: int where "ZDOVRH = ZDRSZ + int ZBPW"
definition ZDSGMN :: int where "ZDSGMN = 7"

section \<open>Info words, block types, positions\<close>

definition ZBTYPE :: int where "ZBTYPE = 0"
definition ZBTVER :: int where "ZBTVER = -1"
definition ZMISC :: int where "ZMISC = 1"
definition ZNXBLK :: int where "ZNXBLK = 2"
definition ZNKEYS :: int where "ZNKEYS = 3"
definition ZNBLKS :: int where "ZNBLKS = 4"
definition ZNXDUP :: int where "ZNXDUP = 5"

definition ZSTART :: int where "ZSTART = 1"
definition ZEND :: int where "ZEND = 2"

definition ZROOT :: int where "ZROOT = 1"
definition ZINUSE :: int where "ZINUSE = 2"
definition ZFREE :: int where "ZFREE = 3"
definition ZDATA :: int where "ZDATA = 4"
definition ZDUP :: int where "ZDUP = 5"
definition ZSUPER :: int where "ZSUPER = 0"
definition ZNULL :: int where "ZNULL = -1"
definition ZPREV :: int where "ZPREV = 1"
definition ZNEXT :: int where "ZNEXT = 2"
definition DEFAULT_ROOT :: int where "DEFAULT_ROOT = 1"

section \<open>Error codes\<close>

definition QBLKNR :: int where "QBLKNR = 1"
definition QCLSIO :: int where "QCLSIO = 2"
definition QCRTIO :: int where "QCRTIO = 3"
definition QCPBLK :: int where "QCPBLK = 4"
definition QWRBLK :: int where "QWRBLK = 5"
definition QRDSUP :: int where "QRDSUP = 6"
definition QWRSUP :: int where "QWRSUP = 7"
definition QOPNIO :: int where "QOPNIO = 8"
definition QRDBLK :: int where "QRDBLK = 9"
definition QIXOPN :: int where "QIXOPN = 10"
definition QSPLIT :: int where "QSPLIT = 11"
definition QINFER :: int where "QINFER = 12"
definition QNOMEM :: int where "QNOMEM = 13"
definition QSTKUF :: int where "QSTKUF = 14"
definition QSTKOF :: int where "QSTKOF = 15"
definition QBLKFL :: int where "QBLKFL = 16"
definition QLOCTB :: int where "QLOCTB = 17"
definition QSPKEY :: int where "QSPKEY = 18"
definition QWRMEM :: int where "QWRMEM = 19"
definition QBALSE :: int where "QBALSE = 20"
definition QDELEX :: int where "QDELEX = 21"
definition QDELER :: int where "QDELER = 22"
definition QDELRP :: int where "QDELRP = 23"
definition QDEMSE :: int where "QDEMSE = 24"
definition QDEMSP :: int where "QDEMSP = 25"
definition QJNSE :: int where "QJNSE = 26"
definition QNODEF :: int where "QNODEF = 27"
definition QDELCR :: int where "QDELCR = 28"
definition QBADIX :: int where "QBADIX = 29"
definition QNOBTF :: int where "QNOBTF = 30"
definition QINERR :: int where "QINERR = 31"
definition QBADOP :: int where "QBADOP = 32"
definition QNOACT :: int where "QNOACT = 33"
definition QBADAP :: int where "QBADAP = 34"
definition QBUSY :: int where "QBUSY = 35"
definition QNOTOP :: int where "QNOTOP = 36"
definition QNOBLK :: int where "QNOBLK = 37"
definition QNEGSZ :: int where "QNEGSZ = 38"
definition QNOTDA :: int where "QNOTDA = 39"
definition QBADCTXT :: int where "QBADCTXT = 40"
definition QDLOOP :: int where "QDLOOP = 41"
definition QUNLCK :: int where "QUNLCK = 42"
definition QLRUER :: int where "QLRUER = 43"
definition QDAERR :: int where "QDAERR = 44"
definition QDNEG :: int where "QDNEG = 45"
definition QDUP :: int where "QDUP = 46"
definition QNOKEY :: int where "QNOKEY = 47"
definition QNOWRT :: int where "QNOWRT = 48"
definition QNOTFR :: int where "QNOTFR = 49"
definition QBADVR :: int where "QBADVR = 50"
definition QDAOVR :: int where "QDAOVR = 51"
definition QF2BIG :: int where "QF2BIG = 52"
definition QBADAL :: int where "QBADAL = 53"
definition QDRANEG :: int where "QDRANEG = 54"
definition QBLKSZERR :: int where "QBLKSZERR = 55"
definition QNODUPS :: int where "QNODUPS = 56"
definition QPOSERR :: int where "QPOSERR = 57"
definition QNOT64BIT :: int where "QNOT64BIT = 58"
definition Q64BIT :: int where "Q64BIT = 59"
definition QNOTDUP :: int where "QNOTDUP = 60"
definition QDUPSZ :: int where "QDUPSZ = 61"
definition QBADIR :: int where "QBADIR = 61"


text \<open>The constants, for proofs that need their values.\<close>

lemmas error_code_defs = QBLKNR_def QCLSIO_def QCRTIO_def QCPBLK_def QWRBLK_def QRDSUP_def
  QWRSUP_def QOPNIO_def QRDBLK_def QIXOPN_def QSPLIT_def QINFER_def QNOMEM_def QSTKUF_def
  QSTKOF_def QBLKFL_def QLOCTB_def QSPKEY_def QWRMEM_def QBALSE_def QDELEX_def QDELER_def
  QDELRP_def QDEMSE_def QDEMSP_def QJNSE_def QNODEF_def QDELCR_def QBADIX_def QNOBTF_def
  QINERR_def QBADOP_def QNOACT_def QBADAP_def QBUSY_def QNOTOP_def QNOBLK_def QNEGSZ_def
  QNOTDA_def QBADCTXT_def QDLOOP_def QUNLCK_def QLRUER_def QDAERR_def QDNEG_def QDUP_def
  QNOKEY_def QNOWRT_def QNOTFR_def QBADVR_def QDAOVR_def QF2BIG_def QBADAL_def QDRANEG_def
  QBLKSZERR_def QNODUPS_def QPOSERR_def QNOT64BIT_def Q64BIT_def QNOTDUP_def QDUPSZ_def
  QBADIR_def

lemmas size_defs = ZBYTEW_def ZBPW_def ZKYLEN_def ZMXBLK_def ZBLKSZ_def ZINFSZ_def ZTHRES_def
  ZMXACT_def BTINT_MAX_def LFSHDR_def ZRNAMESZ_def ZMSGSZ_def FIDSZ_def STKMAX_def ZVERS_def
  ZDRSZ_def ZDSGMN_def

lemmas info_defs = ZBTYPE_def ZBTVER_def ZMISC_def ZNXBLK_def ZNKEYS_def ZNBLKS_def ZNXDUP_def

lemmas type_defs = ZSTART_def ZEND_def ZROOT_def ZINUSE_def ZFREE_def ZDATA_def ZDUP_def
  ZSUPER_def ZNULL_def ZPREV_def ZNEXT_def DEFAULT_ROOT_def

lemma ZMXKEY_val: "ZMXKEY = 22"
  by (simp add: ZMXKEY_def size_defs)

lemma ZDATSZ_val: "ZDATSZ = 1000"
  by (simp add: ZDATSZ_def size_defs)

lemma ZDOVRH_val: "ZDOVRH = 6"
  by (simp add: ZDOVRH_def size_defs)

text \<open>The consistency checks that \<open>bc.h\<close> makes with the preprocessor.\<close>

lemma three_blocks: "3 \<le> ZMXBLK"
  by (simp add: ZMXBLK_def)

lemma joins_possible: "0 < ZMXKEY - ZTHRES"
  by (simp add: ZMXKEY_val ZTHRES_def)

lemmas const_vals = ZMXKEY_val ZDATSZ_val ZDOVRH_val size_defs info_defs type_defs error_code_defs

end
