(* ===== verification/State.thy ===== *)
theory State
  imports Consts
begin

text \<open>
  The data of \<open>inc/bt.h\<close>: the control words of a cached block, the least recently used queue, a
  block, the context of an open index, and the state the library functions work on.

  A block (\<open>MEMREC\<close>) and a data block (\<open>DATBLK\<close>) are two C views of the same 1024 bytes. They share
  the info words; the rest is read through the view that the block type asks for, and every function
  of the library tests the type first. The record \<open>memrec\<close> therefore holds both views side by side:
  \<open>keyblk\<close> and \<open>lnkblk\<close> for an index block, \<open>dat\<close> for a data block. Key buffers are the C strings
  they hold.
\<close>

section \<open>Blocks\<close>

record keyent =
  ke_key :: string
  ke_val :: int
  ke_dup :: int

record memrec =
  infblk :: "int list"
  keyblk :: "keyent list"
  lnkblk :: "int list"
  dat :: "byte list"

record dkey =
  dk_key :: string
  dk_deleted :: int
  dk_val :: int
  dk_flink :: int
  dk_blink :: int

definition zero_keyent :: keyent where
  "zero_keyent = \<lparr>ke_key = [], ke_val = 0, ke_dup = 0\<rparr>"

text \<open>A block of zero bytes: what a file holds where nothing was written before its end.\<close>

definition zero_memrec :: memrec where
  "zero_memrec = \<lparr>infblk = replicate ZINFSZ 0, keyblk = replicate (nat ZMXKEY) zero_keyent,
     lnkblk = replicate (nat ZMXKEY + 1) 0, dat = replicate (nat ZDATSZ) 0\<rparr>"

text \<open>The array bounds of the C declaration.\<close>

definition wf_memrec :: "memrec \<Rightarrow> bool" where
  "wf_memrec m \<longleftrightarrow> length (infblk m) = ZINFSZ \<and> length (keyblk m) = nat ZMXKEY \<and>
     length (lnkblk m) = nat ZMXKEY + 1 \<and> length (dat m) = nat ZDATSZ"

lemma wf_zero_memrec [simp]: "wf_memrec zero_memrec"
  by (simp add: wf_memrec_def zero_memrec_def)

section \<open>Context of an open index\<close>

record cntrl =
  inmem :: int
  busy :: int
  writes :: int
  lrunxt :: int

record lru =
  lrut :: int
  lruh :: int

record lf =
  lfkey :: string
  lfblk :: int
  lfpos :: int
  lfexct :: bool
  draddr :: int

record stats =
  xlogrd :: int
  xlogwr :: int
  xphyrd :: int
  xphywr :: int
  xsplit :: int
  xjoin :: int
  xbal :: int
  xgot :: int
  xrel :: int

record stk =
  stkptr :: int
  stkarr :: "int list"

record super =
  sblkmx :: int
  snfree :: int
  sfreep :: int
  scroot :: int
  smode :: int
  smod :: int
  scclas :: string

definition zero_stats :: stats where
  "zero_stats = \<lparr>xlogrd = 0, xlogwr = 0, xphyrd = 0, xphywr = 0, xsplit = 0, xjoin = 0, xbal = 0,
     xgot = 0, xrel = 0\<rparr>"

text \<open>
  \<open>idxunt\<close> is the open stream: \<open>None\<close> for NULL, otherwise the contents of the file, block by block.
  The pointers \<open>cntrl\<close>, \<open>memrec\<close> and \<open>cntxt\<close> of \<open>struct bt_active\<close> are the components they point
  to, with the members of \<open>CNTXT\<close> in line.
\<close>

record bta =
  idxunt :: "memrec list option"
  idxfid :: string
  fd :: int
  lckcnt :: int
  shared :: bool
  wt_threshold :: int
  cntrls :: "cntrl list"
  mems :: "memrec list"
  lru :: lru
  lf :: lf
  stk :: stk
  stat :: stats
  super :: super

section \<open>The process\<close>

text \<open>
  What the operating system answers: \<open>ioenv op blk\<close> is the \<open>errno\<close> with which it refuses an
  operation on a block (0: it is carried out), and \<open>lkenv\<close> lists the outcomes of the requests for
  the file lock that are still to come (an empty list: every request is granted).
\<close>

datatype ioop = Op_open | Op_seek | Op_read | Op_write | Op_close | Op_unlock

datatype lkres = Lock_granted | Lock_timeout | Lock_refused | Alarm_refused

text \<open>
  The active index (\<open>*btact\<close>) together with the file-scope variables of the library: the error
  record of \<open>bterr.c\<close>, the static key entry of \<open>bsrhbk.c\<close> and that of \<open>btdupkey.c\<close>.
\<close>

record st = bta +
  qerror :: int
  qname :: string
  qcode :: int
  qarg :: string
  syserror :: bool
  errno :: int
  srh_keyent :: keyent
  dup_keyent :: keyent
  ioenv :: "ioop \<Rightarrow> int \<Rightarrow> int"
  lkenv :: "lkres list"

section \<open>Members of the context\<close>

abbreviation s_lfblk :: "'a bta_scheme \<Rightarrow> int" where "s_lfblk s \<equiv> lfblk (lf s)"
abbreviation s_lfpos :: "'a bta_scheme \<Rightarrow> int" where "s_lfpos s \<equiv> lfpos (lf s)"
abbreviation s_lfexct :: "'a bta_scheme \<Rightarrow> bool" where "s_lfexct s \<equiv> lfexct (lf s)"
abbreviation s_lfkey :: "'a bta_scheme \<Rightarrow> string" where "s_lfkey s \<equiv> lfkey (lf s)"
abbreviation s_draddr :: "'a bta_scheme \<Rightarrow> int" where "s_draddr s \<equiv> draddr (lf s)"
abbreviation s_scroot :: "'a bta_scheme \<Rightarrow> int" where "s_scroot s \<equiv> scroot (super s)"

abbreviation set_lfblk :: "int \<Rightarrow> 'a bta_scheme \<Rightarrow> 'a bta_scheme" where
  "set_lfblk v s \<equiv> s\<lparr>lf := (lf s)\<lparr>lfblk := v\<rparr>\<rparr>"
abbreviation set_lfpos :: "int \<Rightarrow> 'a bta_scheme \<Rightarrow> 'a bta_scheme" where
  "set_lfpos v s \<equiv> s\<lparr>lf := (lf s)\<lparr>lfpos := v\<rparr>\<rparr>"
abbreviation set_lfexct :: "bool \<Rightarrow> 'a bta_scheme \<Rightarrow> 'a bta_scheme" where
  "set_lfexct v s \<equiv> s\<lparr>lf := (lf s)\<lparr>lfexct := v\<rparr>\<rparr>"
abbreviation set_lfkey :: "string \<Rightarrow> 'a bta_scheme \<Rightarrow> 'a bta_scheme" where
  "set_lfkey v s \<equiv> s\<lparr>lf := (lf s)\<lparr>lfkey := v\<rparr>\<rparr>"
abbreviation set_draddr :: "int \<Rightarrow> 'a bta_scheme \<Rightarrow> 'a bta_scheme" where
  "set_draddr v s \<equiv> s\<lparr>lf := (lf s)\<lparr>draddr := v\<rparr>\<rparr>"
abbreviation set_scroot :: "int \<Rightarrow> 'a bta_scheme \<Rightarrow> 'a bta_scheme" where
  "set_scroot v s \<equiv> s\<lparr>super := (super s)\<lparr>scroot := v\<rparr>\<rparr>"
abbreviation inc_smod :: "'a bta_scheme \<Rightarrow> 'a bta_scheme" where
  "inc_smod s \<equiv> s\<lparr>super := (super s)\<lparr>smod := smod (super s) + 1\<rparr>\<rparr>"

text \<open>\<open>bclrlf\<close> and \<open>bclrst\<close> reset the find context and the statistics.\<close>

definition bclrlf :: "'a bta_scheme \<Rightarrow> 'a bta_scheme" where
  "bclrlf s = s\<lparr>lf := \<lparr>lfkey = [], lfblk = ZNULL, lfpos = ZNULL, lfexct = False, draddr = ZNULL\<rparr>\<rparr>"

definition bclrst :: "'a bta_scheme \<Rightarrow> 'a bta_scheme" where
  "bclrst s = s\<lparr>stat := zero_stats\<rparr>"

end
