(* ===== verification/Errors.thy ===== *)
theory Errors
  imports State
begin

text \<open>
  The error record (\<open>src-lib/bterr.c\<close>): every function that detects an error calls \<open>bterr\<close>, which
  keeps the first one only; an API function clears the record on entry and returns \<open>btgerr()\<close> at
  its end. \<open>itostr\<close> of \<open>butil.c\<close> prints the block number that goes into the message.
\<close>

section \<open>Printing numbers\<close>

fun nat_digits :: "nat \<Rightarrow> nat \<Rightarrow> string" where
  "nat_digits b n =
     (if n < b \<or> b < 2 then [char_of (if n < 10 then 48 + n else 87 + n)]
      else nat_digits b (n div b) @ [char_of (if n mod b < 10 then 48 + n mod b else 87 + n mod b)])"

declare nat_digits.simps [simp del]

definition itostr :: "int \<Rightarrow> string" where
  "itostr v = (if v < 0 then CHR ''-'' # nat_digits 10 (nat (- v)) else nat_digits 10 (nat v))"

text \<open>The hexadecimal form \<open>ZXFMT\<close>: the value read as unsigned.\<close>

definition itohex :: "int \<Rightarrow> string" where
  "itohex v = nat_digits 16 (nat (take_bit 32 v))"

section \<open>Recording an error\<close>

definition bterr :: "string \<Rightarrow> int \<Rightarrow> string option \<Rightarrow> 'a st_scheme \<Rightarrow> 'a st_scheme" where
  "bterr name errorcode arg s =
     (if length name = 0 then
        s\<lparr>errno := 0, syserror := False, qname := [], qerror := 0, qcode := 0, qarg := []\<rparr>
      else if qerror s = 0 then
        (let s1 = s\<lparr>qname := take (ZRNAMESZ - 1) name, qerror := errorcode,
                     qarg := (case arg of None \<Rightarrow> qarg s | Some a \<Rightarrow> take (ZRNAMESZ - 1) a)\<rparr>
         in if errno s \<noteq> 0 then s1\<lparr>syserror := True, qcode := errno s, errno := 0\<rparr> else s1)
      else s)"

definition btgerr :: "'a st_scheme \<Rightarrow> int" where
  "btgerr s = qerror s"

text \<open>\<open>bterr("",0,NULL)\<close>, with which every API function begins.\<close>

abbreviation clear_err :: "'a st_scheme \<Rightarrow> 'a st_scheme" where
  "clear_err s \<equiv> bterr [] 0 None s"

section \<open>Messages\<close>

definition msgblk :: "string list" where
  \<open>msgblk = [
    ''null'',
    '' Block %s is not a root block'',
    '' Unable to close index file: %s'',
    '' Unable to create index file: %s'',
    '' Unable to read source or destination block '',
    '' I/O error writing block %s'',
    '' I/O error reading super root %s'',
    '' I/O error writing super root'',
    '' I/O error opening index file: %s'',
    '' I/O error reading block %s'',
    '' An index file is already open'',
    '' Can\'t split full block'',
    '' Bad info block index used: %s'',
    '' Unable to acquire a free memory block'',
    '' Stack underflow'',
    '' Stack overflow'',
    '' Can\'t insert key at block: %s'',
    '' Replace location out of range: %s'',
    '' Split: search for middle key failed'',
    '' Requested write block not in memory'',
    '' Balance: search for key failed'',
    '' Exact flag not set for delete'',
    '' Internal inconsistency in delete operation'',
    '' Search for deleted key replacement failed (in block %s)'',
    '' Demote search failed'',
    '' Demote split failed'',
    '' Join search failed'',
    '' Cannot locate default root ($$default)'',
    '' Deletion of the current or super root is forbidden'',
    '' Negative in-memory index encountered'',
    '' No index file open for this operation'',
    '' Index file already in use'',
    '' Debug option not recognised'',
    '' No more index files may be opened (limit reached)'',
    '' Invalid index file context pointer'',
    '' File is busy'',
    '' Function prohibited in shared access mode [OBSOLETE]'',
    '' No block available for data storage'',
    '' Data block usage gone bad: %s'',
    '' Data address pointer references a non-data block: %s'',
    '' Index context invalid for current key operation'',
    '' Circular data segment pointer encountered at: 0x%s'',
    '' Unlock operation failed'',
    '' LRU queue corrupt - index not in list'',
    '' Data record action not permitted for current root'',
    '' Data record length cannot be negative'',
    '' Key "%s" already exists in index'',
    '' Key "%s" does not exist in index'',
    '' Write access to index prohibited'',
    '' Block on free list is not marked as free'',
    '' Index file is incompatible with current version: %s'',
    '' Data capacity exceeded at block: %s'',
    '' Index file is at maximum size'',
    '' Unable to set alarm for locking'',
    '' Data record address is negative: %s'',
    '' Defined block size is not a power of two: %s'',
    '' Duplicates are not permitted in superroot.'',
    '' Location search exceeds key count at block: %s'',
    '' Index file likely not LFS (64bit) enabled; doesn\'t match library.'',
    '' Index file likely LFS (64bit) enabled; doesn\'t match library.'',
    '' Duplicate key address does not reference a duplicate block: %s.'',
    '' Duplicate key entry has wrong size.'',
    '' Bad direction parameter.'',
    '' No message exists for this error code''
  ]\<close>

definition MSGBLKMAX :: int where
  "MSGBLKMAX = int (length msgblk)"

text \<open>\<open>printf\<close> with one string argument.\<close>

fun fmt_s :: "string \<Rightarrow> string \<Rightarrow> string" where
  "fmt_s [] a = []"
| "fmt_s [c] a = [c]"
| "fmt_s (c # d # cs) a =
     (if c = CHR ''%'' \<and> d = CHR ''s'' then a @ cs else c # fmt_s (d # cs) a)"

text \<open>
  \<open>btcerr\<close> returns the error code, the I/O code, the name of the function and the message; it also
  clamps \<open>qerror\<close>. The argument \<open>strerror\<close> is the C library's table of system messages.
\<close>

definition btcerr ::
  "(int \<Rightarrow> string) \<Rightarrow> 'a st_scheme \<Rightarrow> ((int \<times> int \<times> string \<times> string) \<times> 'a st_scheme) option" where
  "btcerr strerror s =
     (if qerror s = 0 then Some ((0, 0, [], []), s)
      else do {
        let s' = (if MSGBLKMAX \<le> qerror s then s\<lparr>qerror := MSGBLKMAX - 1\<rparr> else s);
        m \<leftarrow> arr_get msgblk (qerror s');
        let msg =
          (if qcode s \<noteq> 0 then
             (let tmpfmt =
                take (ZMSGSZ - 2)
                  (if syserror s then m @ '' (System error: '' @ strerror (qcode s) @ '')''
                   else m @ '' (Info: '' @ itostr (qcode s) @ '')'')
              in if length (qarg s) \<noteq> 0 then take (ZMSGSZ - 2) (fmt_s tmpfmt (qarg s))
                 else take (ZMSGSZ - 1) tmpfmt)
           else take (ZMSGSZ - 2) (fmt_s m (qarg s)));
        Some ((qerror s, qcode s, take (ZRNAMESZ - 1) (qname s), msg), s')
      })"

section \<open>The first error is the one that is kept\<close>

lemma bterr_keeps_first: "qerror s \<noteq> 0 \<Longrightarrow> name \<noteq> [] \<Longrightarrow> bterr name c a s = s"
  by (simp add: bterr_def)

lemma bterr_records: "qerror s = 0 \<Longrightarrow> name \<noteq> [] \<Longrightarrow> qerror (bterr name c a s) = c"
  by (simp add: bterr_def Let_def)

lemma btgerr_clear [simp]: "btgerr (clear_err s) = 0" "qerror (clear_err s) = 0"
  by (simp_all add: bterr_def btgerr_def)

text \<open>Recording an error touches nothing of the index.\<close>

lemma bterr_frame [simp]:
  "idxunt (bterr n c a s) = idxunt s" "idxfid (bterr n c a s) = idxfid s"
  "fd (bterr n c a s) = fd s" "lckcnt (bterr n c a s) = lckcnt s"
  "shared (bterr n c a s) = shared s" "wt_threshold (bterr n c a s) = wt_threshold s"
  "cntrls (bterr n c a s) = cntrls s" "mems (bterr n c a s) = mems s"
  "lru (bterr n c a s) = lru s" "lf (bterr n c a s) = lf s" "stk (bterr n c a s) = stk s"
  "stat (bterr n c a s) = stat s" "super (bterr n c a s) = super s"
  "srh_keyent (bterr n c a s) = srh_keyent s" "dup_keyent (bterr n c a s) = dup_keyent s"
  "ioenv (bterr n c a s) = ioenv s" "lkenv (bterr n c a s) = lkenv s"
  by (simp_all add: bterr_def Let_def)

text \<open>A sequence of error reports, and what is left of it.\<close>

fun bterrs :: "(string \<times> int \<times> string option) list \<Rightarrow> 'a st_scheme \<Rightarrow> 'a st_scheme" where
  "bterrs [] s = s"
| "bterrs ((n, c, a) # es) s = bterrs es (bterr n c a s)"

lemma bterrs_keep: "qerror s \<noteq> 0 \<Longrightarrow> \<forall>(n, c, a) \<in> set es. n \<noteq> [] \<Longrightarrow> bterrs es s = s"
  by (induction es) (auto simp: bterr_keeps_first)

end
