(* ===== verification/Stack.thy ===== *)
theory Stack
  imports Errors
begin

text \<open>
  The stack of (block, position) pairs on the path from the root (\<open>src-lib/btstk.c\<close>). The array has
  \<open>STKMAX\<close> entries, the stack pointer starts at -1, and the guard of \<open>bpush\<close> is
  \<open>stkptr >= STKMAX\<close>: the array's last index is \<open>STKMAX - 1\<close>, so a push at \<open>stkptr = STKMAX - 1\<close>
  passes the guard and writes after the end of the array.
\<close>

section \<open>Operations\<close>

definition bstkin :: "'a bta_scheme \<Rightarrow> 'a bta_scheme" where
  "bstkin s = s\<lparr>stk := (stk s)\<lparr>stkptr := -1\<rparr>\<rparr>"

definition bpush :: "int \<Rightarrow> 'a st_scheme \<Rightarrow> 'a st_scheme option" where
  "bpush val s =
     (if STKMAX \<le> stkptr (stk s) then Some (bterr ''BPUSH'' QSTKOF None s)
      else do {
        let p = stkptr (stk s) + 1;
        arr \<leftarrow> arr_set (stkarr (stk s)) p val;
        Some (s\<lparr>stk := \<lparr>stkptr = p, stkarr = arr\<rparr>\<rparr>)
      })"

definition bpull :: "'a st_scheme \<Rightarrow> (int \<times> 'a st_scheme) option" where
  "bpull s =
     (if stkptr (stk s) < 0 then Some (0, bterr ''BPULL'' QSTKUF None s)
      else do {
        val \<leftarrow> arr_get (stkarr (stk s)) (stkptr (stk s));
        Some (val, s\<lparr>stk := (stk s)\<lparr>stkptr := stkptr (stk s) - 1\<rparr>\<rparr>)
      })"

definition btstk_depth :: "'a bta_scheme \<Rightarrow> int" where
  "btstk_depth s = stkptr (stk s) + 1"

text \<open>The pair that a descent pushes and the return pulls.\<close>

definition push_pos :: "int \<Rightarrow> int \<Rightarrow> 'a st_scheme \<Rightarrow> 'a st_scheme option" where
  "push_pos blk pos s = do { s \<leftarrow> bpush blk s; bpush pos s }"

definition pull_pos :: "'a st_scheme \<Rightarrow> 'a st_scheme option" where
  "pull_pos s = do {
     (p, s) \<leftarrow> bpull s;
     let s = set_lfpos p s;
     (b, s) \<leftarrow> bpull s;
     Some (set_lfblk b s)
   }"

section \<open>Last in, first out\<close>

text \<open>The contract that the walks rely on, and what follows from it for sequences of calls.\<close>

fun push_all :: "('v \<Rightarrow> 's \<Rightarrow> 's option) \<Rightarrow> 'v list \<Rightarrow> 's \<Rightarrow> 's option" where
  "push_all push [] s = Some s"
| "push_all push (v # vs) s = do { s \<leftarrow> push v s; push_all push vs s }"

fun pull_n :: "('s \<Rightarrow> ('v \<times> 's) option) \<Rightarrow> nat \<Rightarrow> 's \<Rightarrow> ('v list \<times> 's) option" where
  "pull_n pull 0 s = Some ([], s)"
| "pull_n pull (Suc n) s = do { (v, s) \<leftarrow> pull s; (vs, s) \<leftarrow> pull_n pull n s; Some (v # vs, s) }"

locale bounded_stack =
  fixes push :: "'v \<Rightarrow> 's \<Rightarrow> 's option" and pull :: "'s \<Rightarrow> ('v \<times> 's) option"
    and contents :: "'s \<Rightarrow> 'v list" and ok :: "'s \<Rightarrow> bool" and cap :: nat
  assumes push_spec: "ok s \<Longrightarrow> length (contents s) < cap \<Longrightarrow>
      runs (push v s) (\<lambda>s'. ok s' \<and> contents s' = contents s @ [v])"
    and pull_spec: "ok s \<Longrightarrow> contents s = xs @ [v] \<Longrightarrow>
      runs (pull s) (\<lambda>(w, s'). w = v \<and> ok s' \<and> contents s' = xs)"
begin

lemma push_all_spec:
  "ok s \<Longrightarrow> length (contents s) + length vs \<le> cap \<Longrightarrow>
   runs (push_all push vs s) (\<lambda>s'. ok s' \<and> contents s' = contents s @ vs)"
proof (induction vs arbitrary: s)
  case (Cons v vs)
  show ?case
    unfolding push_all.simps
  proof (rule runs_bindI [OF push_spec [of s v]])
    fix s1 assume "ok s1 \<and> contents s1 = contents s @ [v]"
    then show "runs (push_all push vs s1) (\<lambda>s'. ok s' \<and> contents s' = contents s @ v # vs)"
      using Cons.IH [of s1] Cons.prems by simp
  qed (use Cons.prems in auto)
qed simp

lemma pull_n_spec:
  "ok s \<Longrightarrow> contents s = xs @ rev vs \<Longrightarrow>
   runs (pull_n pull (length vs) s) (\<lambda>(ws, s'). ws = vs \<and> ok s' \<and> contents s' = xs)"
proof (induction vs arbitrary: s)
  case (Cons v vs)
  have "runs (pull s) (\<lambda>(w, s'). w = v \<and> ok s' \<and> contents s' = xs @ rev vs)"
    using Cons.prems by (intro pull_spec) auto
  then show ?case
    using Cons.IH by (fastforce simp: runs_def)
qed simp

text \<open>What is pushed is pulled in reverse order, and the stack is as before.\<close>

lemma push_pull:
  assumes "ok s" "length (contents s) + length vs \<le> cap"
  shows "runs (do { s \<leftarrow> push_all push vs s; pull_n pull (length vs) s })
    (\<lambda>(ws, s'). ws = rev vs \<and> ok s' \<and> contents s' = contents s)"
proof (rule runs_bindI [OF push_all_spec [OF assms]])
  fix s1 assume s1: "ok s1 \<and> contents s1 = contents s @ vs"
  then show "runs (pull_n pull (length vs) s1) (\<lambda>(ws, s'). ws = rev vs \<and> ok s' \<and> contents s' = contents s)"
    using pull_n_spec [of s1 "contents s" "rev vs"] by simp
qed

end

section \<open>The stack of the library\<close>

definition stack_of :: "stk \<Rightarrow> int list" where
  "stack_of t = take (nat (stkptr t + 1)) (stkarr t)"

definition wf_stk :: "stk \<Rightarrow> bool" where
  "wf_stk t \<longleftrightarrow> length (stkarr t) = nat STKMAX \<and> -1 \<le> stkptr t \<and> stkptr t < STKMAX"

text \<open>All that \<open>bstkin\<close> needs is the array.\<close>

abbreviation stk_array :: "'a bta_scheme \<Rightarrow> bool" where
  "stk_array s \<equiv> length (stkarr (stk s)) = nat STKMAX"

lemma stack_length: "wf_stk t \<Longrightarrow> int (length (stack_of t)) = stkptr t + 1"
  by (auto simp: wf_stk_def stack_of_def STKMAX_def)

lemma bstkin_spec:
  "wf_stk (stk s) \<Longrightarrow> wf_stk (stk (bstkin s)) \<and> stack_of (stk (bstkin s)) = []"
  by (simp add: bstkin_def wf_stk_def stack_of_def STKMAX_def)

lemma bpush_stk:
  assumes w: "wf_stk (stk s)" and l: "length (stack_of (stk s)) < nat STKMAX"
  shows "\<exists>t. bpush v s = Some (s\<lparr>stk := t\<rparr>) \<and> wf_stk t \<and> stack_of t = stack_of (stk s) @ [v]"
proof -
  define p where "p = nat (stkptr (stk s) + 1)"
  have p: "stkptr (stk s) + 1 = int p" using w by (simp add: p_def wf_stk_def)
  have "p < nat STKMAX" using l stack_length [OF w] p by simp
  moreover have "length (stkarr (stk s)) = nat STKMAX" using w by (simp add: wf_stk_def)
  ultimately show ?thesis
    using p by (intro exI [of _ "\<lparr>stkptr = int p, stkarr = (stkarr (stk s))[p := v]\<rparr>"])
      (auto simp: bpush_def wf_stk_def stack_of_def take_Suc_conv_app_nth nat_add_distrib)
qed

lemma bpull_stk:
  assumes w: "wf_stk (stk s)" and c: "stack_of (stk s) = xs @ [v]"
  shows "\<exists>t. bpull s = Some (v, s\<lparr>stk := t\<rparr>) \<and> wf_stk t \<and> stack_of t = xs"
proof -
  define p where "p = length xs"
  have p: "stkptr (stk s) = int p" using stack_length [OF w] c by (simp add: p_def)
  have l: "p < length (stkarr (stk s))" using w p by (simp add: wf_stk_def STKMAX_def)
  have "take (Suc p) (stkarr (stk s)) = xs @ [v]"
    using c p by (simp add: stack_of_def nat_add_distrib)
  then have "stkarr (stk s) ! p = v" "take p (stkarr (stk s)) = xs"
    using l by (simp_all add: take_Suc_conv_app_nth p_def)
  then show ?thesis
    using p l w by (intro exI [of _ "(stk s)\<lparr>stkptr := int p - 1\<rparr>"])
      (auto simp: bpull_def wf_stk_def stack_of_def)
qed

interpretation bstk: bounded_stack bpush bpull "\<lambda>s. stack_of (stk s)" "\<lambda>s. wf_stk (stk s)" "nat STKMAX"
proof unfold_locales
  show "runs (bpush v s) (\<lambda>s'. wf_stk (stk s') \<and> stack_of (stk s') = stack_of (stk s) @ [v])"
    if "wf_stk (stk s)" "length (stack_of (stk s)) < nat STKMAX" for s :: "'a st_scheme" and v
    using bpush_stk [OF that, of v] by (auto simp: runs_def)
  show "runs (bpull s) (\<lambda>(w, s'). w = v \<and> wf_stk (stk s') \<and> stack_of (stk s') = xs)"
    if "wf_stk (stk s)" "stack_of (stk s) = xs @ [v]" for s :: "'a st_scheme" and xs v
    using bpull_stk [OF that] by (auto simp: runs_def)
qed

text \<open>The pairs of the walks.\<close>

lemma push_pos_stk:
  assumes w: "wf_stk (stk s)" and l: "length (stack_of (stk s)) + 2 \<le> nat STKMAX"
  shows "\<exists>t. push_pos b p s = Some (s\<lparr>stk := t\<rparr>) \<and> wf_stk t \<and> stack_of t = stack_of (stk s) @ [b, p]"
proof -
  obtain t where t: "bpush b s = Some (s\<lparr>stk := t\<rparr>)" "wf_stk t" "stack_of t = stack_of (stk s) @ [b]"
    using bpush_stk [OF w, of b] l by auto
  obtain u where "bpush p (s\<lparr>stk := t\<rparr>) = Some (s\<lparr>stk := u\<rparr>)" "wf_stk u" "stack_of u = stack_of t @ [p]"
    using bpush_stk [of "s\<lparr>stk := t\<rparr>" p] t l by auto
  then show ?thesis using t by (auto simp: push_pos_def)
qed

lemma pull_pos_stk:
  assumes w: "wf_stk (stk s)" and c: "stack_of (stk s) = xs @ [b, p]"
  shows "\<exists>t. pull_pos s = Some (s\<lparr>stk := t, lf := (lf s)\<lparr>lfpos := p, lfblk := b\<rparr>\<rparr>) \<and> wf_stk t \<and>
    stack_of t = xs"
proof -
  obtain t where t: "bpull s = Some (p, s\<lparr>stk := t\<rparr>)" "wf_stk t" "stack_of t = xs @ [b]"
    using bpull_stk [OF w, of "xs @ [b]" p] c by auto
  let ?s = "s\<lparr>stk := t, lf := (lf s)\<lparr>lfpos := p\<rparr>\<rparr>"
  obtain u where "bpull ?s = Some (b, ?s\<lparr>stk := u\<rparr>)" "wf_stk u" "stack_of u = xs"
    using bpull_stk [of ?s xs b] t by auto
  then show ?thesis using t by (intro exI [of _ u]) (simp add: pull_pos_def)
qed

text \<open>A push on a full stack: the guard lets it through, and it misses the array.\<close>

lemma bpush_full: "wf_stk (stk s) \<Longrightarrow> length (stack_of (stk s)) = nat STKMAX \<Longrightarrow> bpush v s = None"
  using stack_length [of "stk s"] by (auto simp: bpush_def wf_stk_def STKMAX_def arr_set_def)

lemma bpull_empty: "wf_stk (stk s) \<Longrightarrow> stack_of (stk s) = [] \<Longrightarrow> bpull s = Some (0, bterr ''BPULL'' QSTKUF None s)"
  using stack_length [of "stk s"] by (simp add: bpull_def)

end
