(* ===== verification/Lru.thy ===== *)
theory Lru
  imports Stack
begin

text \<open>
  The least recently used queue over the in-memory slots (\<open>src-lib/btque.c\<close>): a singly linked list
  threaded through \<open>cntrl[i].lrunxt\<close>, with head \<open>lruh\<close> and tail \<open>lrut\<close>. \<open>bqmove\<close> moves a slot to the
  tail, \<open>bqhead\<close> returns the first slot that is not busy, moving busy ones to the tail on its way.
\<close>

section \<open>Operations\<close>

definition upd_cntrl :: "int \<Rightarrow> (cntrl \<Rightarrow> cntrl) \<Rightarrow> st \<Rightarrow> st option" where
  "upd_cntrl i f s = do {
     c \<leftarrow> arr_get (cntrls s) i;
     cs \<leftarrow> arr_set (cntrls s) i (f c);
     Some (s\<lparr>cntrls := cs\<rparr>)
   }"

definition set_lruh :: "int \<Rightarrow> st \<Rightarrow> st" where
  "set_lruh i s = s\<lparr>lru := (lru s)\<lparr>lruh := i\<rparr>\<rparr>"

definition set_lrut :: "int \<Rightarrow> st \<Rightarrow> st" where
  "set_lrut i s = s\<lparr>lru := (lru s)\<lparr>lrut := i\<rparr>\<rparr>"

definition bqadd :: "int \<Rightarrow> st \<Rightarrow> st option" where
  "bqadd idx s = do {
     s \<leftarrow> (if lruh (lru s) < 0 then Some (set_lruh idx s)
           else upd_cntrl (lrut (lru s)) (\<lambda>c. c\<lparr>lrunxt := idx\<rparr>) s);
     upd_cntrl idx (\<lambda>c. c\<lparr>lrunxt := -1\<rparr>) (set_lrut idx s)
   }"

text \<open>The loop of \<open>bqmove\<close> that looks for the slot before \<open>idx\<close>, from slot \<open>i\<close> on.\<close>

partial_function (option) lru_pred :: "cntrl list \<Rightarrow> int \<Rightarrow> int \<Rightarrow> int option" where
  "lru_pred cs idx i =
     (if i < 0 then Some i
      else do {
        c \<leftarrow> arr_get cs i;
        if lrunxt c = idx then Some i else lru_pred cs idx (lrunxt c)
      })"

definition bqmove :: "int \<Rightarrow> st \<Rightarrow> st option" where
  "bqmove idx s =
     (if idx < 0 then Some (bterr ''BQMOVE'' QBADIX (Some (itostr idx)) s)
      else if idx = lrut (lru s) then Some s
      else do {
        s \<leftarrow> (if idx = lruh (lru s) then do {
                c \<leftarrow> arr_get (cntrls s) idx;
                Some (set_lruh (lrunxt c) s)
              } else do {
                i \<leftarrow> lru_pred (cntrls s) idx (lruh (lru s));
                if 0 \<le> i then do {
                  c \<leftarrow> arr_get (cntrls s) idx;
                  upd_cntrl i (\<lambda>d. d\<lparr>lrunxt := lrunxt c\<rparr>) s
                } else Some (bterr ''BQMOVE'' QLRUER (Some (itostr idx)) s)
              });
        s \<leftarrow> upd_cntrl (lrut (lru s)) (\<lambda>c. c\<lparr>lrunxt := idx\<rparr>) s;
        s \<leftarrow> upd_cntrl idx (\<lambda>c. c\<lparr>lrunxt := -1\<rparr>) s;
        Some (set_lrut idx s)
      })"

partial_function (option) bqhead :: "st \<Rightarrow> (int \<times> st) option" where
  "bqhead s =
     (let idx = lruh (lru s)
      in if 0 \<le> idx then do {
           c \<leftarrow> arr_get (cntrls s) idx;
           if busy c \<noteq> 0 then do { s \<leftarrow> bqmove idx s; bqhead s }
           else Some (idx, s)
         } else Some (idx, s))"

section \<open>The queue as a list\<close>

text \<open>\<open>lru_chain cs h q\<close>: following \<open>lrunxt\<close> from \<open>h\<close> visits the slots of \<open>q\<close> and then ends.\<close>

fun lru_chain :: "cntrl list \<Rightarrow> int \<Rightarrow> int list \<Rightarrow> bool" where
  "lru_chain cs h [] \<longleftrightarrow> h = -1"
| "lru_chain cs h (i # q) \<longleftrightarrow>
     h = i \<and> 0 \<le> i \<and> i < int (length cs) \<and> lru_chain cs (lrunxt (cs ! nat i)) q"

definition lru_queue :: "st \<Rightarrow> int list \<Rightarrow> bool" where
  "lru_queue s q \<longleftrightarrow>
     length (cntrls s) = ZMXBLK \<and> distinct q \<and> set q = {0..<int ZMXBLK} \<and>
     lru_chain (cntrls s) (lruh (lru s)) q \<and> lrut (lru s) = last q"

text \<open>The control words without the queue's links.\<close>

abbreviation unlinked :: "cntrl list \<Rightarrow> cntrl list" where
  "unlinked cs \<equiv> map (\<lambda>c. c\<lparr>lrunxt := 0\<rparr>) cs"

text \<open>What the queue operations leave alone: everything but the links.\<close>

definition same_slots :: "st \<Rightarrow> st \<Rightarrow> bool" where
  "same_slots s s' \<longleftrightarrow>
     s'\<lparr>cntrls := cntrls s, lru := lru s\<rparr> = s \<and> unlinked (cntrls s') = unlinked (cntrls s)"

lemma same_slots_refl [simp]: "same_slots s s"
  by (simp add: same_slots_def)

lemma same_slots_trans: "same_slots s t \<Longrightarrow> same_slots t u \<Longrightarrow> same_slots s u"
  unfolding same_slots_def by (cases s, cases t, cases u) simp

lemma unlinked_update: "unlinked (cs[i := (cs ! i)\<lparr>lrunxt := v\<rparr>]) = unlinked cs"
  by (cases "i < length cs") (auto intro!: nth_equalityI simp: nth_list_update)

lemma unlinked_nth:
  assumes "unlinked cs = unlinked ds" "i < length cs"
  shows "inmem (cs ! i) = inmem (ds ! i)" "busy (cs ! i) = busy (ds ! i)"
    "writes (cs ! i) = writes (ds ! i)"
proof -
  have "length cs = length ds" using assms(1) map_eq_imp_length_eq by blast
  then have "(cs ! i)\<lparr>lrunxt := 0\<rparr> = (ds ! i)\<lparr>lrunxt := 0\<rparr>"
    using assms by (metis (no_types, lifting) nth_map)
  then show "inmem (cs ! i) = inmem (ds ! i)" "busy (cs ! i) = busy (ds ! i)"
    "writes (cs ! i) = writes (ds ! i)"
    by (metis cntrl.ext_inject cntrl.surjective cntrl.update_convs(4))+
qed

lemma lru_chain_upd_notin:
  "i \<notin> set q \<Longrightarrow> \<forall>x \<in> set q. 0 \<le> x \<Longrightarrow> 0 \<le> i \<Longrightarrow> lru_chain (cs[nat i := c]) h q = lru_chain cs h q"
  by (induction q arbitrary: h) (auto simp: nth_list_update)

lemma lru_chain_nonneg: "lru_chain cs h q \<Longrightarrow> \<forall>x \<in> set q. 0 \<le> x \<and> x < int (length cs)"
  by (induction q arbitrary: h) auto

text \<open>Setting the link of the last slot of a chain appends another chain.\<close>

lemma lru_chain_append:
  assumes "lru_chain cs h (q @ [t])" "distinct (q @ [t])"
    "lru_chain cs h' r" "t \<notin> set r" "c = (cs ! nat t)\<lparr>lrunxt := h'\<rparr>"
  shows "lru_chain (cs[nat t := c]) h ((q @ [t]) @ r)"
  using assms
proof (induction q arbitrary: h)
  case Nil
  then show ?case using lru_chain_nonneg [OF Nil.prems(3)]
    by (simp add: lru_chain_upd_notin nat_less_iff)
next
  case (Cons x q)
  then have "x \<noteq> t" "0 \<le> x" "0 \<le> t"
    using lru_chain_nonneg [OF Cons.prems(1)] by auto
  with Cons show ?case by (auto simp: nth_list_update)
qed

lemma lru_chain_mono_end:
  assumes "lru_chain cs h (q @ [t])" "distinct (q @ [t])"
  shows "lrunxt (cs ! nat t) = -1"
  using assms by (induction q arbitrary: h) auto

lemma lru_pred_finds:
  assumes "lru_chain cs h (p @ x # i # q)" "i \<notin> set p" "i \<noteq> x"
  shows "lru_pred cs i h = Some x"
  using assms
proof (induction p arbitrary: h)
  case Nil
  then show ?case by (subst lru_pred.simps) auto
next
  case (Cons y p)
  then have h: "h = y" "0 \<le> y" "y < int (length cs)" "lru_chain cs (lrunxt (cs ! nat y)) (p @ x # i # q)"
    by auto
  moreover have "lrunxt (cs ! nat y) \<noteq> i"
    using Cons.prems h by (cases p) auto
  ultimately show ?case using Cons.IH [OF h(4)] Cons.prems
    by (subst lru_pred.simps) auto
qed


lemma lru_chain_skip:
  assumes "lru_chain cs h (p @ x # i # q)" "distinct (p @ x # i # q)"
    "c = (cs ! nat x)\<lparr>lrunxt := lrunxt (cs ! nat i)\<rparr>"
  shows "lru_chain (cs[nat x := c]) h (p @ x # q)"
  using assms
proof (induction p arbitrary: h)
  case Nil
  then show ?case using lru_chain_nonneg [OF Nil.prems(1)]
    by (auto simp: lru_chain_upd_notin nat_less_iff)
next
  case (Cons y p)
  then have "x \<noteq> y" "0 \<le> y" "0 \<le> x"
    using lru_chain_nonneg [OF Cons.prems(1)] by auto
  with Cons show ?case by (auto simp: nth_list_update)
qed

lemma lru_chain_hd: "lru_chain cs h q \<Longrightarrow> q \<noteq> [] \<Longrightarrow> h = hd q"
  by (cases q) auto

section \<open>The operations on the list\<close>

text \<open>Re-linking the tail to \<open>i\<close> and ending the chain at \<open>i\<close>.\<close>

lemma relink_tail:
  assumes ch: "lru_chain cs h (q @ [t])" and d: "distinct (q @ [t])" and i: "i \<notin> set (q @ [t])"
    "0 \<le> i" "i < int (length cs)"
  defines "cs1 \<equiv> cs[nat t := (cs ! nat t)\<lparr>lrunxt := i\<rparr>]"
  shows "lru_chain (cs1[nat i := (cs1 ! nat i)\<lparr>lrunxt := -1\<rparr>]) h (q @ [t, i])"
proof -
  have t: "0 \<le> t" "t < int (length cs)" "t \<noteq> i" "nat t \<noteq> nat i"
    using lru_chain_nonneg [OF ch] i by auto
  define cs2 where "cs2 = cs[nat i := (cs ! nat i)\<lparr>lrunxt := -1\<rparr>]"
  have "lru_chain cs2 h (q @ [t])"
    using lru_chain_upd_notin [OF i(1)] lru_chain_nonneg [OF ch] i ch by (auto simp: cs2_def)
  moreover have "lru_chain cs2 i [i]"
    using i by (simp add: cs2_def nat_less_iff)
  ultimately have "lru_chain (cs2[nat t := (cs2 ! nat t)\<lparr>lrunxt := i\<rparr>]) h ((q @ [t]) @ [i])"
    using d t by (intro lru_chain_append) auto
  moreover have "cs2[nat t := (cs2 ! nat t)\<lparr>lrunxt := i\<rparr>]
      = cs1[nat i := (cs1 ! nat i)\<lparr>lrunxt := -1\<rparr>]"
    using t by (simp add: cs1_def cs2_def list_update_swap)
  ultimately show ?thesis by simp
qed

lemma bqmove_chain:
  assumes q: "lru_queue s (p @ [t])" and i: "i \<in> set p"
  shows "\<exists>s'. bqmove i s = Some s' \<and> lru_queue s' (remove1 i p @ [t, i]) \<and> same_slots s s'"
proof -
  let ?n = "length (cntrls s)"
  have ch: "lru_chain (cntrls s) (lruh (lru s)) (p @ [t])" and d: "distinct (p @ [t])"
    and set: "set (p @ [t]) = {0..<int ZMXBLK}" and len: "?n = ZMXBLK" and lt: "lrut (lru s) = t"
    using q by (simp_all add: lru_queue_def)
  have it: "i \<noteq> t" "0 \<le> i" "i < int ?n" "0 \<le> t" "t < int ?n"
    using d i set len lru_chain_nonneg [OF ch] by auto
  define cs1 where "cs1 = (if i = lruh (lru s) then cntrls s
    else (cntrls s)[nat (the (lru_pred (cntrls s) i (lruh (lru s)))) :=
       (cntrls s ! nat (the (lru_pred (cntrls s) i (lruh (lru s)))))
         \<lparr>lrunxt := lrunxt (cntrls s ! nat i)\<rparr>])"
  define h1 where "h1 = (if i = lruh (lru s) then lrunxt (cntrls s ! nat i) else lruh (lru s))"
  let ?cs2 = "cs1[nat t := (cs1 ! nat t)\<lparr>lrunxt := i\<rparr>]"
  let ?cs3 = "?cs2[nat i := (?cs2 ! nat i)\<lparr>lrunxt := -1\<rparr>]"
  let ?s' = "s\<lparr>lru := \<lparr>lrut = i, lruh = h1\<rparr>, cntrls := ?cs3\<rparr>"
  have main: "length cs1 = ?n \<and> lru_chain cs1 h1 (remove1 i p @ [t]) \<and>
      unlinked cs1 = unlinked (cntrls s) \<and> bqmove i s = Some ?s'"
  proof (cases "i = lruh (lru s)")
    case True
    then obtain p' where p: "p = i # p'" using ch i by (cases p) auto
    show ?thesis using True p ch it lt
      by (auto simp: bqmove_def cs1_def h1_def upd_cntrl_def set_lruh_def set_lrut_def)
  next
    case False
    from i obtain a b where ab: "p = a @ i # b" by (meson split_list)
    moreover have "a \<noteq> []" using ab False lru_chain_hd [OF ch] by auto
    ultimately obtain a' x where p: "p = a' @ x # i # b"
      by (metis append.assoc append_Cons append_Nil rev_exhaust)
    have nx: "i \<notin> set a'" "i \<noteq> x" "i \<notin> set b" using d p by auto
    have pred: "lru_pred (cntrls s) i (lruh (lru s)) = Some x"
      using lru_pred_finds [of "cntrls s" _ a' x i "b @ [t]"] ch p nx by simp
    have x: "0 \<le> x" "x < int ?n" using lru_chain_nonneg [OF ch] p by auto
    have "lru_chain cs1 (lruh (lru s)) (a' @ x # b @ [t])"
      using lru_chain_skip [of "cntrls s" _ a' x i "b @ [t]"] ch d p pred False
      by (simp add: cs1_def)
    moreover have "remove1 i p = a' @ x # b" using p nx by (simp add: remove1_append)
    ultimately show ?thesis using False pred it lt x
      by (auto simp: bqmove_def cs1_def h1_def upd_cntrl_def set_lruh_def set_lrut_def unlinked_update)
  qed
  have d': "distinct (remove1 i p @ [t])" "i \<notin> set (remove1 i p @ [t])"
    using d it by (auto simp: distinct_remove1)
  have "lru_chain ?cs3 h1 (remove1 i p @ [t, i])"
    using relink_tail [of cs1 h1 "remove1 i p" t i] main d' it by simp
  moreover have "set (remove1 i p @ [t, i]) = {0..<int ZMXBLK}"
    using set i d by auto
  ultimately have "lru_queue ?s' (remove1 i p @ [t, i])"
    using d' it main len by (auto simp: lru_queue_def)
  moreover have "same_slots s ?s'"
    using main by (simp add: same_slots_def unlinked_update)
  ultimately show ?thesis using main by blast
qed

text \<open>\<open>bqmove\<close> moves a slot to the tail of the queue and keeps the rest in order.\<close>

lemma bqmove_spec:
  assumes "lru_queue s q" and "i \<in> set q"
  shows "runs (bqmove i s) (\<lambda>s'. lru_queue s' (remove1 i q @ [i]) \<and> same_slots s s')"
proof -
  have "q \<noteq> []" using assms by auto
  then obtain p t where q: "q = p @ [t]" by (metis rev_exhaust)
  show ?thesis
  proof (cases "i = t")
    case True
    have "distinct q" using assms by (simp add: lru_queue_def)
    then have "remove1 i q @ [i] = q" using q True by (simp add: remove1_append)
    moreover have "bqmove i s = Some s"
      using assms q True lru_chain_nonneg by (fastforce simp: bqmove_def lru_queue_def)
    ultimately show ?thesis using assms by simp
  next
    case False
    then have "i \<in> set p" using assms q by simp
    moreover from this have "remove1 i q @ [i] = remove1 i p @ [t, i]"
      using q by (simp add: remove1_append)
    ultimately show ?thesis using bqmove_chain [of s p t i] assms q by (auto simp: runs_def)
  qed
qed

lemma same_slots_length: "same_slots s s' \<Longrightarrow> length (cntrls s') = length (cntrls s)"
  unfolding same_slots_def using map_eq_imp_length_eq by blast

lemma same_slots_busy:
  "same_slots s s' \<Longrightarrow> i < length (cntrls s) \<Longrightarrow> busy (cntrls s' ! i) = busy (cntrls s ! i)"
  unfolding same_slots_def by (metis unlinked_nth(2) map_eq_imp_length_eq)

text \<open>
  \<open>bqhead\<close> ends if some slot is not busy: it returns the first such slot of the queue, with the busy
  slots that preceded it moved, in order, to the tail.
\<close>

lemma bqhead_spec:
  assumes "lru_queue s (p @ i # r)" and "\<forall>x \<in> set p. busy (cntrls s ! nat x) \<noteq> 0"
    and "busy (cntrls s ! nat i) = 0"
  shows "runs (bqhead s) (\<lambda>(j, s'). j = i \<and> lru_queue s' (i # r @ p) \<and> same_slots s s')"
  using assms
proof (induction p arbitrary: s r)
  case Nil
  then have "lruh (lru s) = i" "0 \<le> i" "i < int (length (cntrls s))"
    by (simp_all add: lru_queue_def)
  then show ?case using Nil by (subst bqhead.simps) simp
next
  case (Cons x p)
  then have x: "lruh (lru s) = x" "0 \<le> x" "x < int (length (cntrls s))"
    by (simp_all add: lru_queue_def)
  obtain s1 where s1: "bqmove x s = Some s1" "lru_queue s1 (p @ i # r @ [x])" "same_slots s s1"
    using bqmove_spec [OF Cons.prems(1), of x] by (auto simp: runs_def)
  have n: "\<forall>y \<in> set (p @ [i]). nat y < length (cntrls s)"
    using Cons.prems(1) by (auto simp: lru_queue_def nat_less_iff dest!: lru_chain_nonneg)
  have "runs (bqhead s1) (\<lambda>(j, s'). j = i \<and> lru_queue s' (i # (r @ [x]) @ p) \<and> same_slots s1 s')"
    using s1 Cons.prems(2,3) n by (intro Cons.IH) (auto simp: same_slots_busy [OF s1(3)])
  then show ?case using x s1 Cons.prems(2)
    by (subst bqhead.simps) (auto simp: runs_def intro: same_slots_trans)
qed

lemma bqadd_empty:
  assumes "cntrls s = cs" "lruh (lru s) = -1" "0 \<le> i" "i < int (length cs)"
  shows "bqadd i s = Some (s\<lparr>lru := \<lparr>lrut = i, lruh = i\<rparr>, cntrls := cs[nat i := (cs ! nat i)\<lparr>lrunxt := -1\<rparr>]\<rparr>)"
  using assms by (simp add: bqadd_def upd_cntrl_def set_lruh_def set_lrut_def)

text \<open>The loops, for evaluation.\<close>

declare lru_pred.simps [code] and
  bqhead.simps [code]

end
