(* ===== verification/Cache.thy ===== *)
theory Cache
  imports Lru
begin

text \<open>
  The block cache: \<open>ZMXBLK\<close> in-memory slots in front of the file. \<open>brdblk\<close> finds a block in a slot or
  reads it from the file, \<open>bgtslt\<close> frees a slot (writing its block back), \<open>bwrblk\<close> writes a block
  whose write counter is not zero, \<open>bsetbs\<close> pins a block. The specifications at the end say that the
  cache is transparent: the block map \<open>blkof\<close> that the tree code works on does not change when
  blocks move between the file and the slots.
\<close>

section \<open>The file\<close>

text \<open>The byte position \<open>blk*ZBLKSZ\<close>, computed in a \<open>BTint\<close>, and \<open>fwrite\<close> of a block, which fills a
  gap before it with zero bytes.\<close>

definition blkpos :: "int \<Rightarrow> int" where
  "blkpos blk = to_int32 (blk * ZBLKSZ)"

definition file_write :: "nat \<Rightarrow> memrec \<Rightarrow> memrec list \<Rightarrow> memrec list" where
  "file_write n m f =
     (if n < length f then f[n := m] else f @ replicate (n - length f) zero_memrec @ [m])"

text \<open>\<open>fseeko\<close>: the new state (\<open>errno\<close>) and whether the position was accepted.\<close>

definition do_seek :: "int \<Rightarrow> st \<Rightarrow> bool \<times> st" where
  "do_seek blk s =
     (if blkpos blk < 0 then (False, s\<lparr>errno := 22\<rparr>)
      else if ioenv s Op_seek blk \<noteq> 0 then (False, s\<lparr>errno := ioenv s Op_seek blk\<rparr>)
      else (True, s))"

section \<open>Slots\<close>

text \<open>The index of the first slot that holds a block, \<open>ZMXBLK\<close> if there is none.\<close>

definition slot_of :: "int \<Rightarrow> cntrl list \<Rightarrow> int" where
  "slot_of blk cs = int (length (takeWhile (\<lambda>c. inmem c \<noteq> blk) cs))"

definition free_slot :: "cntrl list \<Rightarrow> int" where
  "free_slot cs =
     (let i = length (takeWhile (\<lambda>c. 0 \<le> inmem c) cs) in if i < length cs then int i else -1)"

definition set_mem :: "int \<Rightarrow> memrec \<Rightarrow> st \<Rightarrow> st option" where
  "set_mem i m s = do { ms \<leftarrow> arr_set (mems s) i m; Some (s\<lparr>mems := ms\<rparr>) }"

definition inc_logrd :: "st \<Rightarrow> st" where
  "inc_logrd s = s\<lparr>stat := (stat s)\<lparr>xlogrd := xlogrd (stat s) + 1\<rparr>\<rparr>"

definition inc_phyrd :: "st \<Rightarrow> st" where
  "inc_phyrd s = s\<lparr>stat := (stat s)\<lparr>xphyrd := xphyrd (stat s) + 1\<rparr>\<rparr>"

definition inc_logwr :: "st \<Rightarrow> st" where
  "inc_logwr s = s\<lparr>stat := (stat s)\<lparr>xlogwr := xlogwr (stat s) + 1\<rparr>\<rparr>"

definition inc_phywr :: "st \<Rightarrow> st" where
  "inc_phywr s = s\<lparr>stat := (stat s)\<lparr>xphywr := xphywr (stat s) + 1\<rparr>\<rparr>"

text \<open>\<open>bwrblk\<close>: result \<open>ioerr\<close>. The write counter is cleared on every path, also when the block is
  in no slot (then the store is past the end of \<open>cntrl\<close>) and when the write failed.\<close>

definition bwrblk :: "int \<Rightarrow> st \<Rightarrow> (int \<times> st) option" where
  "bwrblk blk s = do {
     let i = slot_of blk (cntrls s);
     (ioerr, s) \<leftarrow>
       (if i = int ZMXBLK then Some (0, bterr ''BWRBLK'' QWRMEM (Some (itostr blk)) s)
        else do {
          c \<leftarrow> arr_get (cntrls s) i;
          if writes c \<noteq> 0 then do {
            f \<leftarrow> idxunt s;
            let (ok, s) = do_seek blk s;
            if ok then
              if ioenv s Op_write blk = 0 then do {
                m \<leftarrow> arr_get (mems s) i;
                Some (0, inc_phywr (s\<lparr>idxunt := Some (file_write (nat (blkpos blk div ZBLKSZ)) m f)\<rparr>))
              } else Some (-1, s\<lparr>errno := ioenv s Op_write blk\<rparr>)
            else Some (-1, s)
          } else Some (0, inc_logwr s)
        });
     s \<leftarrow> upd_cntrl i (\<lambda>c. c\<lparr>writes := 0\<rparr>) s;
     Some (ioerr, s)
   }"

definition bgtslt :: "st \<Rightarrow> (int \<times> st) option" where
  "bgtslt s = do {
     let idx = free_slot (cntrls s);
     (idx, s) \<leftarrow> (if idx < 0 then bqhead s else Some (idx, s));
     if idx < 0 then Some (idx, bterr ''BGTSLT'' QNOMEM None s)
     else do {
       c \<leftarrow> arr_get (cntrls s) idx;
       if 0 \<le> inmem c then do {
         (e, s) \<leftarrow> bwrblk (inmem c) s;
         Some (idx, if e \<noteq> 0 then bterr ''BGTSLT'' QWRBLK (Some (itostr (inmem c))) s else s)
       } else Some (idx, s)
     }
   }"

text \<open>\<open>brdblk\<close>: results \<open>ioerr\<close> and \<open>*idx\<close>. A read past the end of the file is short and fails.\<close>

definition brdblk :: "int \<Rightarrow> st \<Rightarrow> ((int \<times> int) \<times> st) option" where
  "brdblk blk s = do {
     let i = slot_of blk (cntrls s);
     ((ioerr, idx), s) \<leftarrow>
       (if i < int ZMXBLK then Some ((0, i), inc_logrd s)
        else do {
          (i, s) \<leftarrow> bgtslt s;
          if 0 \<le> i then do {
            f \<leftarrow> idxunt s;
            let (ok, s) = do_seek blk s;
            let n = nat (blkpos blk div ZBLKSZ);
            if ok then
              if ioenv s Op_read blk \<noteq> 0 then Some ((-1, -1), s\<lparr>errno := ioenv s Op_read blk\<rparr>)
              else if n < length f then do {
                s \<leftarrow> set_mem i (f ! n) s;
                s \<leftarrow> upd_cntrl i (\<lambda>c. c\<lparr>inmem := blk\<rparr>) (inc_phyrd s);
                Some ((0, i), s)
              } else Some ((-1, -1), s)
            else Some ((-1, -1), s)
          } else Some ((0, -1), s)
        });
     s \<leftarrow> (if 0 \<le> idx then bqmove idx s else Some s);
     Some ((ioerr, idx), s)
   }"

definition bsetbs :: "int \<Rightarrow> int \<Rightarrow> st \<Rightarrow> st option" where
  "bsetbs blk b s = do {
     ((status, idx), s) \<leftarrow> brdblk blk s;
     if idx < 0 \<or> status \<noteq> 0 then Some (bterr ''BSETBS'' QRDBLK (Some (itostr blk)) s)
     else upd_cntrl idx (\<lambda>c. c\<lparr>busy := b\<rparr>) s
   }"

text \<open>The write-through that ends several block updates: \<open>bwrblk\<close> once the counter of a slot has
  passed the threshold.\<close>

definition write_through :: "int \<Rightarrow> int \<Rightarrow> st \<Rightarrow> st option" where
  "write_through blk idx s = do {
     c \<leftarrow> arr_get (cntrls s) idx;
     if wt_threshold s > 0 \<and> writes c > wt_threshold s then do { (e, s) \<leftarrow> bwrblk blk s; Some s }
     else Some s
   }"

text \<open>\<open>initcntrl\<close>: all slots empty, queued in order.\<close>

fun initcntrl_from :: "nat \<Rightarrow> nat \<Rightarrow> st \<Rightarrow> st option" where
  "initcntrl_from i 0 s = Some s"
| "initcntrl_from i (Suc n) s = do {
     s \<leftarrow> upd_cntrl (int i) (\<lambda>c. c\<lparr>inmem := -1, busy := 0, writes := 0\<rparr>) s;
     s \<leftarrow> bqadd (int i) s;
     initcntrl_from (Suc i) n s
   }"

definition initcntrl :: "st \<Rightarrow> st option" where
  "initcntrl s = initcntrl_from 0 ZMXBLK (s\<lparr>lru := \<lparr>lrut = -1, lruh = -1\<rparr>\<rparr>)"

end
