(* ===== verification/Store.thy ===== *)
theory Store
  imports Cache
begin

text \<open>
  The contract of the block cache. Seen through the cache an index is a list of blocks (\<open>logical\<close>:
  what each block holds, whether in a slot or in the file) together with the set of blocks that are
  pinned (\<open>pins\<close>) and the state that the cache does not touch (\<open>rest\<close>). \<open>repr s B P R\<close> says that
  \<open>s\<close> represents such an abstract store; the specifications of the cache operations say what they
  make of \<open>B\<close>, \<open>P\<close> and \<open>R\<close>, and hold when the operating system carries out every operation.
\<close>

section \<open>The abstract store\<close>

definition blkof :: "st \<Rightarrow> int \<Rightarrow> memrec" where
  "blkof s b =
     (let i = slot_of b (cntrls s)
      in if i < int ZMXBLK then mems s ! nat i else the (idxunt s) ! nat b)"

definition logical :: "st \<Rightarrow> memrec list" where
  "logical s = map (\<lambda>n. blkof s (int n)) [0..<length (the (idxunt s))]"

definition pins :: "st \<Rightarrow> int set" where
  "pins s = inmem ` {c \<in> set (cntrls s). busy c \<noteq> 0}"

definition rest :: "st \<Rightarrow> st" where
  "rest s = s\<lparr>idxunt := None, cntrls := [], mems := [], lru := \<lparr>lrut = 0, lruh = 0\<rparr>,
     stat := zero_stats\<rparr>"

text \<open>A block of the file whose byte position fits an \<open>int\<close>.\<close>

definition MXBLKS :: nat where "MXBLKS = 2 ^ 21"

definition slot_ok :: "memrec list \<Rightarrow> cntrl \<Rightarrow> memrec \<Rightarrow> bool" where
  "slot_ok f c m \<longleftrightarrow>
     -1 \<le> inmem c \<and> inmem c < int (length f) \<and> 0 \<le> writes c \<and> wf_memrec m \<and>
     (busy c \<noteq> 0 \<longrightarrow> 0 \<le> inmem c) \<and> (inmem c < 0 \<longrightarrow> writes c = 0) \<and>
     (0 \<le> inmem c \<and> writes c = 0 \<longrightarrow> m = f ! nat (inmem c))"

definition slots_distinct :: "cntrl list \<Rightarrow> bool" where
  "slots_distinct cs \<longleftrightarrow>
     (\<forall>i < length cs. \<forall>j < length cs.
        0 \<le> inmem (cs ! i) \<and> inmem (cs ! i) = inmem (cs ! j) \<longrightarrow> i = j)"

definition cache_inv :: "st \<Rightarrow> bool" where
  "cache_inv s \<longleftrightarrow>
     (\<exists>f q. idxunt s = Some f \<and> length f \<le> MXBLKS \<and> list_all wf_memrec f \<and>
        length (mems s) = ZMXBLK \<and> lru_queue s q \<and> slots_distinct (cntrls s) \<and>
        (\<forall>i < ZMXBLK. slot_ok f (cntrls s ! i) (mems s ! i)) \<and> ioenv s = (\<lambda>_ _. 0))"

definition repr :: "st \<Rightarrow> memrec list \<Rightarrow> int set \<Rightarrow> st \<Rightarrow> bool" where
  "repr s B P R \<longleftrightarrow> cache_inv s \<and> logical s = B \<and> pins s = P \<and> rest s = R"

section \<open>The slot of a block\<close>

lemma slot_of_found:
  assumes "slots_distinct cs" "i < length cs" "inmem (cs ! i) = b" "0 \<le> b"
  shows "slot_of b cs = int i"
proof -
  have "inmem (cs ! j) \<noteq> b" if "j < i" for j
    using assms that unfolding slots_distinct_def by (metis less_trans less_irrefl)
  then have "length (takeWhile (\<lambda>c. inmem c \<noteq> b) cs) = i"
    using assms by (intro length_takeWhile_eq) auto
  then show ?thesis by (simp add: slot_of_def)
qed

lemma slot_of_less:
  assumes "slot_of b cs < int (length cs)"
  shows "nat (slot_of b cs) < length cs" "inmem (cs ! nat (slot_of b cs)) = b"
    "slot_of b cs = int (nat (slot_of b cs))"
  using assms nth_length_takeWhile' [of "\<lambda>c. inmem c \<noteq> b" cs] by (auto simp: slot_of_def)

lemma slot_of_nonneg [simp]: "0 \<le> slot_of b cs"
  by (simp add: slot_of_def)

lemma slot_of_le: "slot_of b cs \<le> int (length cs)"
  by (simp add: slot_of_def length_takeWhile_le)

lemma slot_of_absent: "slot_of b cs = int (length cs) \<longleftrightarrow> (\<forall>i < length cs. inmem (cs ! i) \<noteq> b)"
proof -
  have "slot_of b cs = int (length cs) \<longleftrightarrow> \<not> (\<exists>c \<in> set cs. inmem c = b)"
    using takeWhile_length_less [of "\<lambda>c. inmem c \<noteq> b" cs] length_takeWhile_le [of "\<lambda>c. inmem c \<noteq> b" cs]
    by (auto simp: slot_of_def)
  then show ?thesis by (metis in_set_conv_nth)
qed

text \<open>The slot depends on what is in memory only.\<close>

lemma slot_of_cong:
  "length cs = length ds \<Longrightarrow> (\<And>i. i < length cs \<Longrightarrow> inmem (cs ! i) = inmem (ds ! i)) \<Longrightarrow>
   slot_of b cs = slot_of b ds"
  unfolding slot_of_def by (intro arg_cong [where f = int] length_takeWhile_cong) auto

lemma slot_of_upd:
  "(\<And>c. inmem (g c) = inmem c) \<Longrightarrow> slot_of b (cs[i := g (cs ! i)]) = slot_of b cs"
  by (cases "i < length cs") (auto intro!: slot_of_cong simp: nth_list_update)

lemma free_slot_found:
  assumes "0 \<le> free_slot cs"
  shows "nat (free_slot cs) < length cs" "inmem (cs ! nat (free_slot cs)) < 0"
  using assms nth_length_takeWhile' [of "\<lambda>c. 0 \<le> inmem c" cs]
  by (auto simp: free_slot_def Let_def split: if_splits)

section \<open>Representation, slot by slot\<close>

text \<open>\<open>reps s f B P R\<close> spells \<open>repr\<close> out: \<open>f\<close> is the file, \<open>B\<close> is given by the slots where they hold a
  block and by the file elsewhere.\<close>

definition reps :: "st \<Rightarrow> memrec list \<Rightarrow> memrec list \<Rightarrow> int set \<Rightarrow> st \<Rightarrow> bool" where
  "reps s f B P R \<longleftrightarrow>
     idxunt s = Some f \<and> length f \<le> MXBLKS \<and> list_all wf_memrec f \<and> length (mems s) = ZMXBLK \<and>
     (\<exists>q. lru_queue s q) \<and> slots_distinct (cntrls s) \<and>
     (\<forall>i < ZMXBLK. slot_ok f (cntrls s ! i) (mems s ! i)) \<and> ioenv s = (\<lambda>_ _. 0) \<and>
     length B = length f \<and>
     (\<forall>i < ZMXBLK. 0 \<le> inmem (cntrls s ! i) \<longrightarrow> B ! nat (inmem (cntrls s ! i)) = mems s ! i) \<and>
     (\<forall>n < length f. (\<forall>i < ZMXBLK. inmem (cntrls s ! i) \<noteq> int n) \<longrightarrow> B ! n = f ! n) \<and>
     P = {b. \<exists>i < ZMXBLK. busy (cntrls s ! i) \<noteq> 0 \<and> inmem (cntrls s ! i) = b} \<and> rest s = R"

lemma lru_queue_length [simp]: "lru_queue s q \<Longrightarrow> length (cntrls s) = ZMXBLK"
  by (simp add: lru_queue_def)

lemma lru_queue_set: "lru_queue s q \<Longrightarrow> set q = {0..<int ZMXBLK}"
  by (simp add: lru_queue_def)

lemma blkof_cached:
  "slots_distinct (cntrls s) \<Longrightarrow> length (cntrls s) = ZMXBLK \<Longrightarrow> i < ZMXBLK \<Longrightarrow>
   inmem (cntrls s ! i) = b \<Longrightarrow> 0 \<le> b \<Longrightarrow> blkof s b = mems s ! i"
  by (simp add: blkof_def slot_of_found)

lemma blkof_uncached:
  "length (cntrls s) = ZMXBLK \<Longrightarrow> \<forall>i < ZMXBLK. inmem (cntrls s ! i) \<noteq> b \<Longrightarrow>
   blkof s b = the (idxunt s) ! nat b"
  using slot_of_absent [of b "cntrls s"] by (simp add: blkof_def)

lemma reps_logical:
  assumes "idxunt s = Some f" "slots_distinct (cntrls s)" "length (cntrls s) = ZMXBLK"
    "\<forall>i < ZMXBLK. slot_ok f (cntrls s ! i) (mems s ! i)"
  shows "logical s = B \<longleftrightarrow> length B = length f \<and>
     (\<forall>i < ZMXBLK. 0 \<le> inmem (cntrls s ! i) \<longrightarrow> B ! nat (inmem (cntrls s ! i)) = mems s ! i) \<and>
     (\<forall>n < length f. (\<forall>i < ZMXBLK. inmem (cntrls s ! i) \<noteq> int n) \<longrightarrow> B ! n = f ! n)"
    (is "?l \<longleftrightarrow> ?r")
proof
  assume ?l
  then show ?r using assms
    by (auto simp: logical_def blkof_cached blkof_uncached slot_ok_def nat_less_iff)
next
  assume r: ?r
  have "logical s ! n = B ! n" if n: "n < length f" for n
  proof (cases "\<forall>i < ZMXBLK. inmem (cntrls s ! i) \<noteq> int n")
    case True
    then show ?thesis using r n assms by (simp add: logical_def blkof_uncached)
  next
    case False
    then obtain i where "i < ZMXBLK" "inmem (cntrls s ! i) = int n" by blast
    then show ?thesis using r n assms blkof_cached [of s i "int n"]
      by (simp add: logical_def) (metis nat_int of_nat_0_le_iff)
  qed
  then show ?l using r assms(1) by (auto intro!: nth_equalityI simp: logical_def)
qed

lemma repr_reps: "repr s B P R \<longleftrightarrow> (\<exists>f. reps s f B P R)"
proof -
  have pins: "pins s = {b. \<exists>i < ZMXBLK. busy (cntrls s ! i) \<noteq> 0 \<and> inmem (cntrls s ! i) = b}"
    if "length (cntrls s) = ZMXBLK"
    using that by (auto simp: pins_def in_set_conv_nth image_iff)
  show ?thesis
  proof
    assume r: "repr s B P R"
    then obtain f q where f: "idxunt s = Some f" "length f \<le> MXBLKS" "list_all wf_memrec f"
        "length (mems s) = ZMXBLK" "lru_queue s q" "slots_distinct (cntrls s)"
        "\<forall>i < ZMXBLK. slot_ok f (cntrls s ! i) (mems s ! i)" "ioenv s = (\<lambda>_ _. 0)"
      by (auto simp: repr_def cache_inv_def)
    then show "\<exists>f. reps s f B P R"
      using r pins reps_logical [of s f B] by (auto simp: repr_def reps_def)
  next
    assume "\<exists>f. reps s f B P R"
    then obtain f where f: "reps s f B P R" ..
    then show "repr s B P R"
      using pins reps_logical [of s f B] unfolding repr_def reps_def cache_inv_def by auto
  qed
qed

lemma reps_D:
  assumes "reps s f B P R"
  shows "idxunt s = Some f" "length (cntrls s) = ZMXBLK" "length (mems s) = ZMXBLK"
    "length B = length f" "slots_distinct (cntrls s)" "\<exists>q. lru_queue s q" "ioenv s = (\<lambda>_ _. 0)"
    "\<And>i. i < ZMXBLK \<Longrightarrow> slot_ok f (cntrls s ! i) (mems s ! i)"
    "length f \<le> MXBLKS" "list_all wf_memrec f" "rest s = R"
  using assms by (auto simp: reps_def)

section \<open>Changes that the representation allows\<close>

lemma lru_queue_upd:
  assumes "lru_queue s q" "lru s' = lru s" "length (cntrls s') = length (cntrls s)"
    and nx: "\<And>i. i < length (cntrls s) \<Longrightarrow> lrunxt (cntrls s' ! i) = lrunxt (cntrls s ! i)"
  shows "lru_queue s' q"
proof -
  have "lru_chain (cntrls s') h q = lru_chain (cntrls s) h q" for h
    using assms(3) nx by (induction q arbitrary: h) (auto simp: nat_less_iff)
  then show ?thesis using assms by (simp add: lru_queue_def)
qed

lemma same_slots_D:
  assumes "same_slots s s'"
  shows "idxunt s' = idxunt s" "mems s' = mems s" "ioenv s' = ioenv s" "rest s' = rest s"
    "length (cntrls s') = length (cntrls s)"
    "\<And>i. i < length (cntrls s) \<Longrightarrow> inmem (cntrls s' ! i) = inmem (cntrls s ! i)"
    "\<And>i. i < length (cntrls s) \<Longrightarrow> busy (cntrls s' ! i) = busy (cntrls s ! i)"
    "\<And>i. i < length (cntrls s) \<Longrightarrow> writes (cntrls s' ! i) = writes (cntrls s ! i)"
    "stat s' = stat s"
proof -
  have e: "s'\<lparr>cntrls := cntrls s, lru := lru s\<rparr> = s" and u: "unlinked (cntrls s) = unlinked (cntrls s')"
    using assms by (simp_all add: same_slots_def)
  from e have "rest (s'\<lparr>cntrls := cntrls s, lru := lru s\<rparr>) = rest s" by simp
  then show "rest s' = rest s" by (simp add: rest_def)
  show "idxunt s' = idxunt s" "mems s' = mems s" "ioenv s' = ioenv s" "stat s' = stat s"
    using arg_cong [OF e, of idxunt] arg_cong [OF e, of mems] arg_cong [OF e, of ioenv]
      arg_cong [OF e, of stat] by simp_all
  show "length (cntrls s') = length (cntrls s)" by (rule same_slots_length [OF assms])
  show "\<And>i. i < length (cntrls s) \<Longrightarrow> inmem (cntrls s' ! i) = inmem (cntrls s ! i)"
    "\<And>i. i < length (cntrls s) \<Longrightarrow> busy (cntrls s' ! i) = busy (cntrls s ! i)"
    "\<And>i. i < length (cntrls s) \<Longrightarrow> writes (cntrls s' ! i) = writes (cntrls s ! i)"
    using unlinked_nth [OF u] by simp_all
qed

text \<open>Moving slots in the queue and counting accesses change nothing that is represented.\<close>

lemma reps_cong:
  assumes r: "reps s f B P R" and q: "lru_queue s' q"
    and "idxunt s' = idxunt s" "mems s' = mems s" "ioenv s' = ioenv s" "rest s' = R'"
    and c: "length (cntrls s') = length (cntrls s)"
      "\<And>i. i < length (cntrls s) \<Longrightarrow> inmem (cntrls s' ! i) = inmem (cntrls s ! i)"
      "\<And>i. i < length (cntrls s) \<Longrightarrow> busy (cntrls s' ! i) = busy (cntrls s ! i)"
      "\<And>i. i < length (cntrls s) \<Longrightarrow> writes (cntrls s' ! i) = writes (cntrls s ! i)"
  shows "reps s' f B P R'"
proof -
  have l: "length (cntrls s) = ZMXBLK" using reps_D(2) [OF r] .
  have sl: "slot_ok f (cntrls s' ! i) (mems s ! i)" if "i < ZMXBLK" for i
    using reps_D(8) [OF r that] c(2-4) [of i] that l by (simp add: slot_ok_def)
  have "slots_distinct (cntrls s')"
    using reps_D(5) [OF r] c(1,2) by (simp add: slots_distinct_def)
  then show ?thesis
    using r assms(2-6) sl c l unfolding reps_def by auto
qed

lemma reps_requeue: "reps s f B P R \<Longrightarrow> same_slots s s' \<Longrightarrow> lru_queue s' q \<Longrightarrow> reps s' f B P R"
  using reps_cong [of s f B P R s' q R] by (simp add: same_slots_D reps_D)

lemma reps_stat: "reps s f B P R \<Longrightarrow> reps (s\<lparr>stat := x\<rparr>) f B P R"
  by (auto simp: reps_def rest_def lru_queue_def)

text \<open>A change of one slot (and of the file).\<close>

lemma reps_slot:
  assumes r: "reps s f B P R" and i: "i < ZMXBLK" "i' = int i"
    and s': "cntrls s' = (cntrls s)[i := c]" "mems s' = (mems s)[i := m]" "idxunt s' = Some f'"
      "lru s' = lru s" "ioenv s' = ioenv s" "rest s' = R'"
    and c: "lrunxt c = lrunxt (cntrls s ! i)" "slot_ok f' c m"
    and f': "length f' \<le> MXBLKS" "list_all wf_memrec f'"
      "\<And>j. j < ZMXBLK \<Longrightarrow> j \<noteq> i \<Longrightarrow> slot_ok f' (cntrls s ! j) (mems s ! j)"
    and d: "\<And>j. j < ZMXBLK \<Longrightarrow> j \<noteq> i \<Longrightarrow> 0 \<le> inmem c \<Longrightarrow> inmem (cntrls s ! j) \<noteq> inmem c"
    and B': "length B' = length f'" "0 \<le> inmem c \<Longrightarrow> B' ! nat (inmem c) = m"
      "\<And>j. j < ZMXBLK \<Longrightarrow> j \<noteq> i \<Longrightarrow> 0 \<le> inmem (cntrls s ! j) \<Longrightarrow>
         B' ! nat (inmem (cntrls s ! j)) = mems s ! j"
      "\<And>n. n < length f' \<Longrightarrow> (\<forall>j < ZMXBLK. j \<noteq> i \<longrightarrow> inmem (cntrls s ! j) \<noteq> int n) \<Longrightarrow>
         inmem c \<noteq> int n \<Longrightarrow> B' ! n = f' ! n"
    and P': "\<And>b. b \<in> P' \<longleftrightarrow> busy c \<noteq> 0 \<and> inmem c = b \<or>
       (\<exists>j < ZMXBLK. j \<noteq> i \<and> busy (cntrls s ! j) \<noteq> 0 \<and> inmem (cntrls s ! j) = b)"
  shows "reps s' f' B' P' R'"
proof -
  note D = reps_D [OF r]
  obtain q where q: "lru_queue s q" using D by blast
  have "lru_queue s' q"
    by (rule lru_queue_upd [OF q]) (use s' c i D in \<open>auto simp: nth_list_update\<close>)
  moreover have "slots_distinct (cntrls s')"
    unfolding slots_distinct_def
  proof (intro allI impI)
    fix j k
    assume "j < length (cntrls s')" "k < length (cntrls s')"
      "0 \<le> inmem (cntrls s' ! j) \<and> inmem (cntrls s' ! j) = inmem (cntrls s' ! k)"
    then show "j = k"
      using D(2,5) d [of j] d [of k] s'(1) i unfolding slots_distinct_def
      by (cases "j = i"; cases "k = i") auto
  qed
  moreover have "slot_ok f' (cntrls s' ! j) (mems s' ! j)" if "j < ZMXBLK" for j
    using that s' c f' i D by (cases "j = i") auto
  moreover have "B' ! n = f' ! n" if n: "n < length f'"
      and a: "\<forall>j < ZMXBLK. inmem (cntrls s' ! j) \<noteq> int n" for n
  proof (rule B'(4))
    show "n < length f'" by (rule n)
    show "\<forall>j < ZMXBLK. j \<noteq> i \<longrightarrow> inmem (cntrls s ! j) \<noteq> int n"
      using a s' by auto
    show "inmem c \<noteq> int n" using a s' i D by auto
  qed
  moreover have "B' ! nat (inmem (cntrls s' ! j)) = mems s' ! j"
    if "j < ZMXBLK" "0 \<le> inmem (cntrls s' ! j)" for j
    using that s' B' i D by (cases "j = i") auto
  moreover have "b \<in> P' \<longleftrightarrow> (\<exists>j < ZMXBLK. busy (cntrls s' ! j) \<noteq> 0 \<and> inmem (cntrls s' ! j) = b)" for b
    unfolding P' s'(1) using i D(2) by (metis nth_list_update_eq nth_list_update_neq)
  then have "P' = {b. \<exists>j < ZMXBLK. busy (cntrls s' ! j) \<noteq> 0 \<and> inmem (cntrls s' ! j) = b}"
    by blast
  ultimately show ?thesis
    unfolding reps_def using s' D f' B' by auto
qed

section \<open>Writing back\<close>

lemma blkpos_in:
  assumes "0 \<le> b" "b < int MXBLKS"
  shows "blkpos b div ZBLKSZ = b" "0 \<le> blkpos b"
proof -
  have "blkpos b = b * ZBLKSZ"
    using assms by (simp add: blkpos_def ZBLKSZ_def MXBLKS_def)
  then show "blkpos b div ZBLKSZ = b" "0 \<le> blkpos b"
    using assms by (simp_all add: ZBLKSZ_def)
qed

lemma do_seek_ok: "reps s f B P R \<Longrightarrow> 0 \<le> b \<Longrightarrow> b < int (length f) \<Longrightarrow> do_seek b s = (True, s)"
  using reps_D(7,9) [of s f B P R] blkpos_in(2) [of b] by (simp add: do_seek_def)

lemma reps_cached:
  "reps s f B P R \<Longrightarrow> i < ZMXBLK \<Longrightarrow> inmem (cntrls s ! i) = b \<Longrightarrow> 0 \<le> b \<Longrightarrow> B ! nat b = mems s ! i"
  unfolding reps_def by auto

lemma reps_uncached:
  "reps s f B P R \<Longrightarrow> n < length f \<Longrightarrow> \<forall>i < ZMXBLK. inmem (cntrls s ! i) \<noteq> int n \<Longrightarrow> B ! n = f ! n"
  unfolding reps_def by auto

lemma reps_pins:
  "reps s f B P R \<Longrightarrow> b \<in> P \<longleftrightarrow> (\<exists>i < ZMXBLK. busy (cntrls s ! i) \<noteq> 0 \<and> inmem (cntrls s ! i) = b)"
  unfolding reps_def by auto

lemma slot_range: "reps s f B P R \<Longrightarrow> i < ZMXBLK \<Longrightarrow> inmem (cntrls s ! i) < int (length f)"
  using reps_D(8) by (simp add: slot_ok_def)

text \<open>\<open>bwrblk\<close> of a cached block: the slot is clean afterwards, and nothing else changes.\<close>

lemma bwrblk_cached:
  assumes r: "reps s f B P R" and i: "i < ZMXBLK" "inmem (cntrls s ! i) = blk" "0 \<le> blk"
  shows "runs (bwrblk blk s) (\<lambda>(e, s'). e = 0 \<and> reps s' (f[nat blk := mems s ! i]) B P R \<and>
    cntrls s' = (cntrls s)[i := (cntrls s ! i)\<lparr>writes := 0\<rparr>] \<and> mems s' = mems s \<and> lru s' = lru s)"
proof -
  note D = reps_D [OF r]
  let ?c = "cntrls s ! i" and ?f = "f[nat blk := mems s ! i]"
  have b: "nat blk < length f" using slot_range [OF r i(1)] i by simp
  have slot: "slot_of blk (cntrls s) = int i"
    using D i by (intro slot_of_found) auto
  have ok: "slot_ok f ?c (mems s ! i)" using D(8) i by simp
  have same: "?f = f" if "writes ?c = 0"
    using ok i that b by (simp add: slot_ok_def list_update_same_conv)
  have neq: "inmem (cntrls s ! j) \<noteq> blk" if "j < ZMXBLK" "j \<noteq> i" for j
    using D(2,5) that i unfolding slots_distinct_def by metis
  have other: "slot_ok ?f (cntrls s ! j) (mems s ! j)" if "j < ZMXBLK" "j \<noteq> i" for j
    using D(8) [OF that(1)] neq [OF that] i by (auto simp: slot_ok_def nth_list_update)
  have wf: "list_all wf_memrec ?f"
    using D(10) ok b by (auto simp: slot_ok_def list_all_iff dest: set_update_subset_insert [THEN subsetD])
  have reps': "reps s' ?f B P R"
    if s': "cntrls s' = (cntrls s)[i := ?c\<lparr>writes := 0\<rparr>]" "mems s' = mems s" "idxunt s' = Some ?f"
      "lru s' = lru s" "ioenv s' = ioenv s" "rest s' = rest s" for s'
  proof (rule reps_slot [OF r i(1) refl s'(1) _ s'(3,4,5,6) [unfolded D(11)]])
    show "mems s' = (mems s)[i := mems s ! i]" using s' by simp
    show "slot_ok ?f (?c\<lparr>writes := 0\<rparr>) (mems s ! i)"
      using ok i b by (simp add: slot_ok_def)
    show "B ! nat (inmem (?c\<lparr>writes := 0\<rparr>)) = mems s ! i"
      using reps_cached [OF r i] i by simp
    show "b \<in> P \<longleftrightarrow> busy (?c\<lparr>writes := 0\<rparr>) \<noteq> 0 \<and> inmem (?c\<lparr>writes := 0\<rparr>) = b \<or>
        (\<exists>j < ZMXBLK. j \<noteq> i \<and> busy (cntrls s ! j) \<noteq> 0 \<and> inmem (cntrls s ! j) = b)" for b
      using reps_pins [OF r] i by auto
    show "inmem (cntrls s ! j) \<noteq> inmem (?c\<lparr>writes := 0\<rparr>)"
      if "j < ZMXBLK" "j \<noteq> i" "0 \<le> inmem (?c\<lparr>writes := 0\<rparr>)" for j
      using neq that i by auto
    show "B ! n = ?f ! n" if "n < length ?f" "\<forall>j < ZMXBLK. j \<noteq> i \<longrightarrow> inmem (cntrls s ! j) \<noteq> int n"
      "inmem (?c\<lparr>writes := 0\<rparr>) \<noteq> int n" for n
    proof -
      have "\<forall>j < ZMXBLK. inmem (cntrls s ! j) \<noteq> int n" using that i by auto
      then show ?thesis using reps_uncached [OF r, of n] that i by auto
    qed
  qed (use r other wf D reps_cached in \<open>auto\<close>)
  show ?thesis
  proof (cases "writes ?c = 0")
    case True
    then show ?thesis
      using slot i D(1-10) same
      by (auto simp: bwrblk_def upd_cntrl_def inc_logwr_def intro!: reps' [unfolded same [OF True]])
         (simp_all add: rest_def)
  next
    case False
    define s' where "s' = s\<lparr>cntrls := (cntrls s)[i := ?c\<lparr>writes := 0\<rparr>], idxunt := Some ?f,
      stat := (stat s)\<lparr>xphywr := xphywr (stat s) + 1\<rparr>\<rparr>"
    have b': "blk < int (length f)" "blk < int MXBLKS" using b D(9) i(3) by linarith+
    have "bwrblk blk s = Some (0, s')"
      using False slot i(1) b D(1-3,7) do_seek_ok [OF r i(3) b'(1)] blkpos_in [OF i(3) b'(2)]
      by (simp add: bwrblk_def upd_cntrl_def inc_phywr_def file_write_def s'_def)
    moreover have "reps s' ?f B P R"
      by (rule reps') (simp_all add: s'_def rest_def)
    ultimately show ?thesis by (simp add: s'_def)
  qed
qed

section \<open>Freeing a slot\<close>

text \<open>No slot has become dirty, and the pinned blocks are where they were.\<close>

definition settled :: "st \<Rightarrow> st \<Rightarrow> bool" where
  "settled s s' \<longleftrightarrow> (\<forall>j < ZMXBLK.
     (writes (cntrls s' ! j) \<noteq> 0 \<longrightarrow>
        writes (cntrls s ! j) \<noteq> 0 \<and> inmem (cntrls s' ! j) = inmem (cntrls s ! j)) \<and>
     (busy (cntrls s ! j) \<noteq> 0 \<longrightarrow>
        busy (cntrls s' ! j) \<noteq> 0 \<and> inmem (cntrls s' ! j) = inmem (cntrls s ! j)))"

lemma settled_refl [simp]: "settled s s"
  by (simp add: settled_def)

lemma settled_trans: "settled s t \<Longrightarrow> settled t u \<Longrightarrow> settled s u"
  by (simp add: settled_def)

lemma same_slots_dirty: "same_slots s s' \<Longrightarrow> length (cntrls s) = ZMXBLK \<Longrightarrow> settled s s'"
  by (simp add: settled_def same_slots_D)

text \<open>With fewer pinned blocks than slots there is a slot that is not busy.\<close>

lemma idle_slot:
  assumes r: "reps s f B P R" and P: "card P < ZMXBLK"
  shows "\<exists>i < ZMXBLK. busy (cntrls s ! i) = 0"
proof (rule ccontr)
  assume "\<not> ?thesis"
  then have b: "busy (cntrls s ! i) \<noteq> 0" if "i < ZMXBLK" for i using that by blast
  note D = reps_D [OF r]
  have "P = (\<lambda>i. inmem (cntrls s ! i)) ` {..<ZMXBLK}"
    using b reps_pins [OF r] by auto
  moreover have "inj_on (\<lambda>i. inmem (cntrls s ! i)) {..<ZMXBLK}"
    using D(2,5,8) b by (auto simp: inj_on_def slots_distinct_def slot_ok_def)
  ultimately show False using P by (simp add: card_image)
qed

text \<open>\<open>bgtslt\<close> returns a slot that may be filled: it is not busy, and if it still holds a block the
  file has that block's contents.\<close>

lemma bgtslt_spec:
  assumes r: "reps s f B P R" and P: "card P < ZMXBLK"
  shows "runs (bgtslt s) (\<lambda>(i, s'). \<exists>f'. reps s' f' B P R \<and> 0 \<le> i \<and> i < int ZMXBLK \<and>
    busy (cntrls s' ! nat i) = 0 \<and> writes (cntrls s' ! nat i) = 0 \<and>
    (\<forall>j < ZMXBLK. inmem (cntrls s' ! j) = inmem (cntrls s ! j)) \<and> settled s s')"
proof (cases "0 \<le> free_slot (cntrls s)")
  case True
  note D = reps_D [OF r]
  note fs = free_slot_found [OF True]
  have "busy (cntrls s ! nat (free_slot (cntrls s))) = 0"
    "writes (cntrls s ! nat (free_slot (cntrls s))) = 0"
    using D(8) [of "nat (free_slot (cntrls s))"] D(2) fs by (auto simp: slot_ok_def)
  then show ?thesis
    using True fs D(2) r by (auto simp: bgtslt_def Let_def)
next
  case False
  note D = reps_D [OF r]
  obtain i0 where i0: "i0 < ZMXBLK" "busy (cntrls s ! i0) = 0" using idle_slot [OF r P] by blast
  obtain q where q: "lru_queue s q" using D(6) by blast
  have "int i0 \<in> set q" using q i0 by (simp add: lru_queue_def)
  then have "\<exists>x \<in> set q. busy (cntrls s ! nat x) = 0" using i0 by force
  then obtain p i t where q': "q = p @ i # t" "busy (cntrls s ! nat i) = 0"
      "\<forall>y \<in> set p. busy (cntrls s ! nat y) \<noteq> 0"
    using split_list_first_prop [of q "\<lambda>x. busy (cntrls s ! nat x) = 0"] by blast
  obtain s1 where s1: "bqhead s = Some (i, s1)" "lru_queue s1 (i # t @ p)" "same_slots s s1"
    using bqhead_spec [of s p i t] q q' by (auto simp: runs_def)
  have "i \<in> {0..<int ZMXBLK}" using lru_queue_set [OF q] q'(1) by auto
  then have i: "0 \<le> i" "nat i < ZMXBLK" by auto
  have r1: "reps s1 f B P R" using reps_requeue [OF r s1(3,2)] .
  note S = same_slots_D [OF s1(3)]
  have in1: "inmem (cntrls s1 ! j) = inmem (cntrls s ! j)" if "j < ZMXBLK" for j
    using S(6) D(2) that by simp
  have wr1: "writes (cntrls s1 ! j) = writes (cntrls s ! j)" if "j < ZMXBLK" for j
    using S(8) D(2) that by simp
  have bs1: "busy (cntrls s1 ! j) = busy (cntrls s ! j)" if "j < ZMXBLK" for j
    using S(7) D(2) that by simp
  have b1: "busy (cntrls s1 ! nat i) = 0" using S(7) D(2) i q' by simp
  show ?thesis
  proof (cases "0 \<le> inmem (cntrls s1 ! nat i)")
    case True
    note w = bwrblk_cached [OF r1 i(2) refl True]
    obtain s2 where s2: "bwrblk (inmem (cntrls s1 ! nat i)) s1 = Some (0, s2)"
        "\<exists>f'. reps s2 f' B P R"
        "cntrls s2 = (cntrls s1)[nat i := (cntrls s1 ! nat i)\<lparr>writes := 0\<rparr>]"
      using w by (auto simp: runs_def)
    have "inmem (cntrls s2 ! j) = inmem (cntrls s ! j)" if "j < ZMXBLK" for j
      using s2(3) in1 [OF that] reps_D(2) [OF r1] i that by (cases "j = nat i") auto
    moreover have "settled s s2"
      using s2(3) in1 wr1 bs1 reps_D(2) [OF r1] i by (auto simp: settled_def nth_list_update)
    ultimately show ?thesis
      using False s1 s2 i b1 reps_D(2) [OF r1] True
      by (auto simp: bgtslt_def Let_def)
  next
    case free: False
    have "writes (cntrls s1 ! nat i) = 0"
      using reps_D(8) [OF r1 i(2)] free by (simp add: slot_ok_def)
    then show ?thesis
      using False s1 i b1 reps_D(2) [OF r1] in1 wr1 bs1 r1 free
      by (auto simp: bgtslt_def Let_def settled_def)
  qed
qed

section \<open>Reading a block\<close>

text \<open>The cache is transparent: \<open>brdblk\<close> puts block \<open>blk\<close> of the store into a slot.\<close>

lemma brdblk_reps:
  assumes r: "reps s f B P R" and blk: "0 \<le> blk" "blk < int (length B)"
    and room: "blk \<in> P \<or> card P < ZMXBLK"
  shows "runs (brdblk blk s) (\<lambda>((e, i), s'). e = 0 \<and> 0 \<le> i \<and> i < int ZMXBLK \<and>
    inmem (cntrls s' ! nat i) = blk \<and> (\<exists>f'. reps s' f' B P R) \<and> settled s s')"
proof -
  note D = reps_D [OF r]
  have move: "runs (bqmove i s1) (\<lambda>s'. inmem (cntrls s' ! nat i) = blk \<and> (\<exists>f'. reps s' f' B P R) \<and>
      settled s1 s')"
    if r1: "reps s1 f1 B P R" and i: "0 \<le> i" "i < int ZMXBLK" "inmem (cntrls s1 ! nat i) = blk"
    for s1 f1 i
  proof -
    obtain q where q: "lru_queue s1 q" using reps_D(6) [OF r1] by blast
    moreover have "i \<in> set q" using q i by (simp add: lru_queue_def)
    ultimately show ?thesis
    proof (rule runs_conseq [OF bqmove_spec], elim conjE)
      fix s' assume "lru_queue s' (remove1 i q @ [i])" "same_slots s1 s'"
      then show "inmem (cntrls s' ! nat i) = blk \<and> (\<exists>f'. reps s' f' B P R) \<and> settled s1 s'"
        using reps_requeue [OF r1] same_slots_D(6) [of s1 s' "nat i"] reps_D(2) [OF r1] i
          same_slots_dirty [of s1 s'] by auto
    qed
  qed
  show ?thesis
  proof (cases "slot_of blk (cntrls s) < int ZMXBLK")
    case True
    note sl = slot_of_less [of blk "cntrls s", unfolded D(2), OF True]
    have "reps (inc_logrd s) f B P R" unfolding inc_logrd_def by (rule reps_stat [OF r])
    then have "runs (bqmove (slot_of blk (cntrls s)) (inc_logrd s)) (\<lambda>s'.
      inmem (cntrls s' ! nat (slot_of blk (cntrls s))) = blk \<and> (\<exists>f'. reps s' f' B P R) \<and>
      settled (inc_logrd s) s')"
      using sl True by (intro move) (auto simp: inc_logrd_def)
    then show ?thesis
      using True sl by (auto simp: brdblk_def runs_def Let_def settled_def inc_logrd_def)
  next
    case False
    then have absent: "\<forall>i < ZMXBLK. inmem (cntrls s ! i) \<noteq> blk"
      using slot_of_absent [of blk "cntrls s"] slot_of_le [of blk "cntrls s"] D(2) by simp
    then have cP: "card P < ZMXBLK" using room reps_pins [OF r] by blast
    obtain i s1 f1 where s1: "bgtslt s = Some (i, s1)"
        "reps s1 f1 B P R" "0 \<le> i" "i < int ZMXBLK" "busy (cntrls s1 ! nat i) = 0"
        "writes (cntrls s1 ! nat i) = 0"
        "\<forall>j < ZMXBLK. inmem (cntrls s1 ! j) = inmem (cntrls s ! j)" "settled s s1"
      using bgtslt_spec [OF r cP, unfolded runs_def split_paired_Ex prod.case] by blast
    note D1 = reps_D [OF s1(2)]
    let ?c = "(cntrls s1 ! nat i)\<lparr>inmem := blk\<rparr>" and ?m = "f1 ! nat blk"
    have ni: "nat i < ZMXBLK" using s1 by simp
    have nb: "nat blk < length f1" "blk < int (length f1)" "blk < int MXBLKS"
      using blk D1(4,9) by linarith+
    have Bm: "B ! nat blk = ?m"
      using reps_uncached [OF s1(2) nb(1)] absent s1(7) blk by simp
    define s2 where "s2 = s1\<lparr>mems := (mems s1)[nat i := ?m],
      stat := (stat s1)\<lparr>xphyrd := xphyrd (stat s1) + 1\<rparr>, cntrls := (cntrls s1)[nat i := ?c]\<rparr>"
    have "reps s2 f1 B P R"
    proof (rule reps_slot [OF s1(2) ni refl, where c = ?c and m = ?m])
      show "slot_ok f1 ?c ?m"
        using D1(8) [OF ni] D1(10) s1(5) nb blk by (simp add: slot_ok_def list_all_length)
      show "b \<in> P \<longleftrightarrow> busy ?c \<noteq> 0 \<and> inmem ?c = b \<or>
          (\<exists>j < ZMXBLK. j \<noteq> nat i \<and> busy (cntrls s1 ! j) \<noteq> 0 \<and> inmem (cntrls s1 ! j) = b)" for b
        using reps_pins [OF s1(2)] s1(5) by auto
      show "B ! n = f1 ! n" if "n < length f1"
        "\<forall>j < ZMXBLK. j \<noteq> nat i \<longrightarrow> inmem (cntrls s1 ! j) \<noteq> int n" "inmem ?c \<noteq> int n" for n
      proof (cases "inmem (cntrls s1 ! nat i) = int n")
        case True
        then have "B ! n = mems s1 ! nat i" using reps_cached [OF s1(2) ni True] by simp
        also have "\<dots> = f1 ! n" using D1(8) [OF ni] s1(6) True by (simp add: slot_ok_def)
        finally show ?thesis .
      next
        case False
        then have "\<forall>j < ZMXBLK. inmem (cntrls s1 ! j) \<noteq> int n" using that(2) by metis
        then show ?thesis by (rule reps_uncached [OF s1(2) that(1)])
      qed
    qed (use s1 D1 absent Bm reps_cached [OF s1(2)] in \<open>auto simp: s2_def rest_def\<close>)
    then have "runs (bqmove i s2) (\<lambda>s'. inmem (cntrls s' ! nat i) = blk \<and> (\<exists>f'. reps s' f' B P R) \<and>
        settled s2 s')"
      using s1 D1(2) ni by (intro move) (auto simp: s2_def)
    moreover have "settled s s2"
    proof -
      have "busy (cntrls s ! nat i) = 0" using s1(5,8) ni by (auto simp: settled_def)
      then show ?thesis using s1(6,8) D1(2) ni by (auto simp: settled_def s2_def nth_list_update)
    qed
    moreover have "i' < int ZMXBLK \<longleftrightarrow> False" if "i' = slot_of blk (cntrls s)" for i'
      using False that by simp
    ultimately show ?thesis
      using False s1 D1(1-3,7) ni nb do_seek_ok [OF s1(2) blk(1) nb(2)] blkpos_in [OF blk(1) nb(3)]
      by (auto simp: brdblk_def runs_def set_mem_def upd_cntrl_def inc_phyrd_def s2_def Let_def
          intro: settled_trans)
  qed
qed

section \<open>The operations of the store\<close>

text \<open>Slot \<open>i\<close> holds block \<open>b\<close>; \<open>same_cached\<close>: every slot holds the block it held.\<close>

definition at_slot :: "st \<Rightarrow> int \<Rightarrow> int \<Rightarrow> bool" where
  "at_slot s i b \<longleftrightarrow> 0 \<le> i \<and> i < int ZMXBLK \<and> 0 \<le> b \<and> inmem (cntrls s ! nat i) = b"

definition same_cached :: "st \<Rightarrow> st \<Rightarrow> bool" where
  "same_cached s s' \<longleftrightarrow> (\<forall>i b. at_slot s' i b \<longleftrightarrow> at_slot s i b)"

text \<open>A block can be brought into a slot: it is pinned in one, or some slot is not pinned.\<close>

definition room :: "int set \<Rightarrow> int \<Rightarrow> bool" where
  "room P b \<longleftrightarrow> b \<in> P \<or> card P < ZMXBLK"

definition valid_blk :: "memrec list \<Rightarrow> int \<Rightarrow> bool" where
  "valid_blk B b \<longleftrightarrow> 0 \<le> b \<and> b < int (length B)"

lemma at_slot_pos: "at_slot s i b \<Longrightarrow> \<not> i < 0"
  by (simp add: at_slot_def)

lemma repr_wf:
  assumes "repr s B P R"
  shows "list_all wf_memrec B" "length B \<le> MXBLKS"
proof -
  obtain f where r: "reps s f B P R" using assms repr_reps by blast
  have "wf_memrec (B ! n)" if n: "n < length B" for n
  proof (cases "\<forall>i < ZMXBLK. inmem (cntrls s ! i) \<noteq> int n")
    case True
    then show ?thesis using reps_uncached [OF r _ True] reps_D [OF r] n by (simp add: list_all_length)
  next
    case False
    then obtain i where i: "i < ZMXBLK" "inmem (cntrls s ! i) = int n" by blast
    then show ?thesis
      using reps_cached [OF r i] reps_D(8) [OF r i(1)] by (simp add: slot_ok_def)
  qed
  then show "list_all wf_memrec B" by (simp add: list_all_length)
  show "length B \<le> MXBLKS" using reps_D [OF r] by simp
qed

lemma repr_wf_nth: "repr s B P R \<Longrightarrow> valid_blk B b \<Longrightarrow> wf_memrec (B ! nat b)"
  using repr_wf(1) [of s B P R] unfolding list_all_length valid_blk_def by (metis nat_less_iff)

lemma at_slot_valid: "repr s B P R \<Longrightarrow> at_slot s i b \<Longrightarrow> valid_blk B b"
  using slot_range reps_D(4) by (fastforce simp: repr_reps at_slot_def valid_blk_def)

lemma brdblk_dirty:
  assumes "repr s B P R" "valid_blk B blk" "room P blk"
  shows "runs (brdblk blk s) (\<lambda>((e, i), s'). e = 0 \<and> at_slot s' i blk \<and> repr s' B P R \<and> settled s s')"
proof -
  obtain f where "reps s f B P R" using assms repr_reps by blast
  then show ?thesis
    using brdblk_reps [of s f B P R blk] assms(2,3)
    by (auto simp: valid_blk_def room_def at_slot_def repr_reps elim!: runs_conseq)
qed

lemma brdblk_spec [specs]:
  assumes "repr s B P R" "valid_blk B blk" "room P blk"
  shows "runs (brdblk blk s) (\<lambda>((e, i), s'). e = 0 \<and> at_slot s' i blk \<and> repr s' B P R)"
  using brdblk_dirty [OF assms] by (auto elim!: runs_conseq)

lemma slot_block:
  assumes "repr s B P R" "at_slot s i b"
  shows "0 \<le> i" "i < int (length (mems s))" "mems s ! nat i = B ! nat b"
proof -
  obtain f where f: "reps s f B P R" using assms repr_reps by blast
  have i: "nat i < ZMXBLK" "0 \<le> b" using assms(2) by (auto simp: at_slot_def)
  show "0 \<le> i" "i < int (length (mems s))" using assms(2) reps_D(3) [OF f] by (auto simp: at_slot_def)
  show "mems s ! nat i = B ! nat b"
    using reps_cached [OF f i(1) _ i(2)] assms(2) by (simp add: at_slot_def)
qed

text \<open>\<open>bsetbs\<close> pins and unpins.\<close>

lemma set_busy:
  assumes s': "repr s' B P R" "at_slot s' i blk"
  shows "runs (upd_cntrl i (\<lambda>c. c\<lparr>busy := b\<rparr>) s') (\<lambda>s''.
    repr s'' B (if b = 0 then P - {blk} else insert blk P) R \<and> (\<forall>j x. at_slot s'' j x = at_slot s' j x))"
proof -
  let ?P = "if b = 0 then P - {blk} else insert blk P"
  obtain f where f: "reps s' f B P R" using s' repr_reps by blast
  note D = reps_D [OF f]
  let ?c = "(cntrls s' ! nat i)\<lparr>busy := b\<rparr>"
  let ?s'' = "s'\<lparr>cntrls := (cntrls s')[nat i := ?c]\<rparr>"
  have i: "nat i < ZMXBLK" "0 \<le> i" "inmem (cntrls s' ! nat i) = blk" "0 \<le> blk"
    using s' by (auto simp: at_slot_def)
  have neq: "inmem (cntrls s' ! j) \<noteq> blk" if "j < ZMXBLK" "j \<noteq> nat i" for j
    using D(2,5) that i unfolding slots_distinct_def by metis
  have "reps ?s'' f B ?P R"
  proof (rule reps_slot [OF f i(1), where i' = "int (nat i)" and c = ?c and m = "mems s' ! nat i"])
    show "slot_ok f ?c (mems s' ! nat i)"
      using D(8) [OF i(1)] i by (simp add: slot_ok_def)
    show "x \<in> ?P \<longleftrightarrow> busy ?c \<noteq> 0 \<and> inmem ?c = x \<or>
        (\<exists>j < ZMXBLK. j \<noteq> nat i \<and> busy (cntrls s' ! j) \<noteq> 0 \<and> inmem (cntrls s' ! j) = x)" for x
      using reps_pins [OF f] neq i by auto
    show "B ! n = f ! n" if "n < length f"
      "\<forall>j < ZMXBLK. j \<noteq> nat i \<longrightarrow> inmem (cntrls s' ! j) \<noteq> int n" "inmem ?c \<noteq> int n" for n
    proof -
      note n = that
      have "inmem (cntrls s' ! j) \<noteq> int n" if j: "j < ZMXBLK" for j
        using n(2,3) j by (cases "j = nat i") simp_all
      then have "\<forall>j < ZMXBLK. inmem (cntrls s' ! j) \<noteq> int n" by blast
      then show ?thesis by (rule reps_uncached [OF f that(1)])
    qed
  qed (use D i neq reps_cached [OF f] in \<open>auto simp: rest_def\<close>)
  then show ?thesis
    using i D(2) repr_reps by (auto simp: upd_cntrl_def at_slot_def nth_list_update)
qed

lemma bsetbs_spec [specs]:
  assumes r: "repr s B P R" and v: "valid_blk B blk" "room P blk"
  shows "runs (bsetbs blk b s)
    (\<lambda>s'. repr s' B (if b = 0 then P - {blk} else insert blk P) R)"
  unfolding bsetbs_def
  by (rule runs_bindI [OF brdblk_spec [OF r v]])
    (auto simp: at_slot_pos elim!: runs_conseq dest: set_busy [where b = b])

text \<open>A pinned block stays in its slot when another block is read.\<close>

lemma pinned_busy:
  assumes "repr s B P R" "at_slot s j x" "x \<in> P"
  shows "busy (cntrls s ! nat j) \<noteq> 0"
proof -
  obtain f where f: "reps s f B P R" using assms(1) repr_reps by blast
  obtain i where i: "i < ZMXBLK" "busy (cntrls s ! i) \<noteq> 0" "inmem (cntrls s ! i) = x"
    using reps_pins [OF f] assms(3) by blast
  have "nat j < ZMXBLK" "inmem (cntrls s ! nat j) = x" "0 \<le> x" using assms(2) by (auto simp: at_slot_def)
  then have "nat j = i" using i reps_D(2,5) [OF f] unfolding slots_distinct_def by metis
  then show ?thesis using i by simp
qed

lemma brdblk_pinned:
  assumes "repr s B P R" "valid_blk B blk" "room P blk" "at_slot s j x" "x \<in> P"
  shows "runs (brdblk blk s) (\<lambda>((e, i), s'). e = 0 \<and> at_slot s' i blk \<and> repr s' B P R \<and> at_slot s' j x)"
proof -
  have "at_slot s' j x" if "settled s s'" for s'
    using that assms(4) pinned_busy [OF assms(1,4,5)] by (auto simp: settled_def at_slot_def)
  then show ?thesis using brdblk_dirty [OF assms(1-3)] by (auto elim!: runs_conseq)
qed

text \<open>A new content for the block of a slot, with its write counter raised.\<close>

lemma repr_update:
  assumes r: "repr s B P R" and a: "at_slot s i b" and m: "wf_memrec m" and n: "0 < n"
    and c: "c = (cntrls s ! nat i)\<lparr>writes := writes (cntrls s ! nat i) + n\<rparr>"
  defines "s' \<equiv> s\<lparr>mems := (mems s)[nat i := m], cntrls := (cntrls s)[nat i := c]\<rparr>"
  shows "repr s' (B[nat b := m]) P R" "same_cached s s'"
proof -
  obtain f where f: "reps s f B P R" using r repr_reps by blast
  note D = reps_D [OF f]
  have i: "nat i < ZMXBLK" "0 \<le> i" "inmem (cntrls s ! nat i) = b" "0 \<le> b"
    using a by (auto simp: at_slot_def)
  have b: "nat b < length f" using slot_range [OF f i(1)] i by simp
  have neq: "inmem (cntrls s ! j) \<noteq> b" if "j < ZMXBLK" "j \<noteq> nat i" for j
    using D(2,5) that i unfolding slots_distinct_def by metis
  have neqn: "nat (inmem (cntrls s ! j)) \<noteq> nat b"
    if "j < ZMXBLK" "j \<noteq> nat i" "0 \<le> inmem (cntrls s ! j)" for j
    using neq [OF that(1,2)] that(3) i(4) by simp
  have "reps s' f (B[nat b := m]) P R"
  proof (rule reps_slot [OF f i(1), where i' = "int (nat i)" and c = c and m = m])
    show "slot_ok f c m"
      using D(8) [OF i(1)] m n i(3,4) by (simp add: slot_ok_def c)
    show "x \<in> P \<longleftrightarrow> busy c \<noteq> 0 \<and> inmem c = x \<or>
        (\<exists>j < ZMXBLK. j \<noteq> nat i \<and> busy (cntrls s ! j) \<noteq> 0 \<and> inmem (cntrls s ! j) = x)" for x
      using reps_pins [OF f] neq i by (auto simp: c)
    show "B[nat b := m] ! k = f ! k" if k: "k < length f"
      "\<forall>j < ZMXBLK. j \<noteq> nat i \<longrightarrow> inmem (cntrls s ! j) \<noteq> int k" "inmem c \<noteq> int k" for k
    proof -
      have "inmem (cntrls s ! j) \<noteq> int k" if j: "j < ZMXBLK" for j
        using k(2,3) j by (cases "j = nat i") (simp_all add: c)
      then have "B ! k = f ! k" using reps_uncached [OF f k(1)] by blast
      moreover have "nat b \<noteq> k" using k(3) i by (auto simp: c)
      ultimately show ?thesis by simp
    qed
    show "B[nat b := m] ! nat (inmem (cntrls s ! j)) = mems s ! j"
      if "j < ZMXBLK" "j \<noteq> nat i" "0 \<le> inmem (cntrls s ! j)" for j
      using neqn [OF that] reps_cached [OF f that(1) refl that(3)] by simp
    show "inmem (cntrls s ! j) \<noteq> inmem c" if "j < ZMXBLK" "j \<noteq> nat i" "0 \<le> inmem c" for j
      using neq [OF that(1,2)] i by (simp add: c)
  qed (use D i b in \<open>auto simp: rest_def s'_def c\<close>)
  then show "repr s' (B[nat b := m]) P R" using repr_reps by blast
  show "same_cached s s'"
    unfolding same_cached_def at_slot_def
    using D(2) i by (auto simp: s'_def c nth_list_update)
qed

text \<open>\<open>bwrblk\<close> on a block in a slot, as the write-through uses it.\<close>

lemma bwrblk_spec:
  assumes r: "repr s B P R" and a: "at_slot s i b"
  shows "runs (bwrblk b s) (\<lambda>(e, s'). e = 0 \<and> repr s' B P R \<and> same_cached s s')"
proof -
  obtain f where f: "reps s f B P R" using r repr_reps by blast
  have i: "nat i < ZMXBLK" "inmem (cntrls s ! nat i) = b" "0 \<le> b"
    using a by (auto simp: at_slot_def)
  show ?thesis
    by (rule runs_conseq [OF bwrblk_cached [OF f i]])
      (use repr_reps reps_D(2) [OF f] i(1) in
        \<open>auto simp: same_cached_def at_slot_def nth_list_update\<close>)
qed

lemma write_through_spec:
  assumes r: "repr s B P R" and a: "at_slot s i b"
  shows "runs (write_through b i s) (\<lambda>s'. repr s' B P R \<and> same_cached s s')"
proof -
  have l: "length (cntrls s) = ZMXBLK" using r reps_D(2) repr_reps by blast
  have "arr_get (cntrls s) i = Some (cntrls s ! nat i)"
    using a l by (simp add: at_slot_def)
  then show ?thesis
    using bwrblk_spec [OF r a] r
    by (auto simp: write_through_def runs_def same_cached_def)
qed

section \<open>The state beside the store\<close>

lemma repr_fields:
  assumes "repr s B P R"
  shows "idxfid s = idxfid R" "fd s = fd R" "lckcnt s = lckcnt R" "shared s = shared R"
    "wt_threshold s = wt_threshold R" "lf s = lf R" "stk s = stk R" "super s = super R"
    "qerror s = qerror R" "qname s = qname R" "qcode s = qcode R" "qarg s = qarg R"
    "syserror s = syserror R" "errno s = errno R" "srh_keyent s = srh_keyent R"
    "dup_keyent s = dup_keyent R" "ioenv s = (\<lambda>_ _. 0)" "lkenv s = lkenv R" "idxunt s \<noteq> None"
    "length (cntrls s) = ZMXBLK" "length (mems s) = ZMXBLK"
  using assms by (auto simp: repr_def rest_def cache_inv_def)

lemma repr_frame_gen:
  assumes "repr s B P R" and "idxunt s' = idxunt s" "cntrls s' = cntrls s" "mems s' = mems s"
    "lru s' = lru s" "ioenv s' = ioenv s" and "rest s' = R'"
  shows "repr s' B P R'"
proof -
  have "lru_queue s' q = lru_queue s q" for q using assms(2-6) by (simp add: lru_queue_def)
  moreover have "logical s' = logical s" using assms(2-6) by (simp add: logical_def blkof_def Let_def)
  moreover have "pins s' = pins s" using assms(2-6) by (simp add: pins_def)
  ultimately show ?thesis using assms by (simp add: repr_def cache_inv_def)
qed

lemma rest_upd:
  "rest (s\<lparr>lf := x1\<rparr>) = (rest s)\<lparr>lf := x1\<rparr>" "rest (s\<lparr>stk := x2\<rparr>) = (rest s)\<lparr>stk := x2\<rparr>"
  "rest (s\<lparr>super := x3\<rparr>) = (rest s)\<lparr>super := x3\<rparr>" "rest (s\<lparr>stat := x4\<rparr>) = rest s"
  "rest (s\<lparr>lckcnt := x5\<rparr>) = (rest s)\<lparr>lckcnt := x5\<rparr>"
  "rest (s\<lparr>srh_keyent := x6\<rparr>) = (rest s)\<lparr>srh_keyent := x6\<rparr>"
  "rest (s\<lparr>dup_keyent := x7\<rparr>) = (rest s)\<lparr>dup_keyent := x7\<rparr>"
  "rest (s\<lparr>errno := x8\<rparr>) = (rest s)\<lparr>errno := x8\<rparr>"
  "rest (s\<lparr>wt_threshold := x9\<rparr>) = (rest s)\<lparr>wt_threshold := x9\<rparr>"
  "rest (bterr n c a s) = bterr n c a (rest s)"
  by (simp_all add: rest_def bterr_def Let_def split: option.split)

lemma repr_rest: "repr s B P R \<Longrightarrow> rest s = R"
  by (simp add: repr_def)

lemma repr_frame [intro]:
  assumes "repr s B P R"
  shows "repr (s\<lparr>lf := x1\<rparr>) B P (R\<lparr>lf := x1\<rparr>)" "repr (s\<lparr>stk := x2\<rparr>) B P (R\<lparr>stk := x2\<rparr>)"
    "repr (s\<lparr>super := x3\<rparr>) B P (R\<lparr>super := x3\<rparr>)" "repr (s\<lparr>stat := x4\<rparr>) B P R"
    "repr (s\<lparr>lckcnt := x5\<rparr>) B P (R\<lparr>lckcnt := x5\<rparr>)"
    "repr (s\<lparr>srh_keyent := x6\<rparr>) B P (R\<lparr>srh_keyent := x6\<rparr>)"
    "repr (s\<lparr>dup_keyent := x7\<rparr>) B P (R\<lparr>dup_keyent := x7\<rparr>)"
    "repr (s\<lparr>errno := x8\<rparr>) B P (R\<lparr>errno := x8\<rparr>)"
    "repr (s\<lparr>wt_threshold := x9\<rparr>) B P (R\<lparr>wt_threshold := x9\<rparr>)"
    "repr (bterr n c a s) B P (bterr n c a R)"
  by (rule repr_frame_gen [OF assms]; simp add: rest_upd repr_rest [OF assms])+

section \<open>A block that is in a slot\<close>

text \<open>\<open>brdblk\<close> of a cached block finds it where it is, and no slot changes its block.\<close>

lemma same_cached_refl [simp]: "same_cached s s"
  by (simp add: same_cached_def)

lemma same_cached_trans: "same_cached s t \<Longrightarrow> same_cached t u \<Longrightarrow> same_cached s u"
  by (simp add: same_cached_def)

lemma same_cached_at: "same_cached s s' \<Longrightarrow> at_slot s i b \<Longrightarrow> at_slot s' i b"
  by (simp add: same_cached_def)

lemma bqmove_repr:
  assumes r: "repr s B P R" and i: "0 \<le> i" "i < int ZMXBLK"
  shows "runs (bqmove i s) (\<lambda>s'. repr s' B P R \<and> same_cached s s')"
proof -
  obtain f where f: "reps s f B P R" using r repr_reps by blast
  obtain q where q: "lru_queue s q" using reps_D(6) [OF f] by blast
  moreover have "i \<in> set q" using q i by (simp add: lru_queue_def)
  ultimately show ?thesis
  proof (rule runs_conseq [OF bqmove_spec], elim conjE)
    fix s' assume s': "lru_queue s' (remove1 i q @ [i])" "same_slots s s'"
    have "inmem (cntrls s' ! nat j) = inmem (cntrls s ! nat j)" if "j < int ZMXBLK" "0 \<le> j" for j
      using same_slots_D(6) [OF s'(2), of "nat j"] reps_D(2) [OF f] that by simp
    then have "same_cached s s'" by (auto simp: same_cached_def at_slot_def)
    then show "repr s' B P R \<and> same_cached s s'"
      using reps_requeue [OF f s'(2,1)] repr_reps by blast
  qed
qed

lemma brdblk_hit [specs]:
  assumes r: "repr s B P R" and a: "at_slot s i blk"
  shows "runs (brdblk blk s) (\<lambda>((e, j), s'). e = 0 \<and> j = i \<and> repr s' B P R \<and> same_cached s s')"
proof -
  obtain f where f: "reps s f B P R" using r repr_reps by blast
  have i: "nat i < ZMXBLK" "0 \<le> i" "inmem (cntrls s ! nat i) = blk" "0 \<le> blk" "i < int ZMXBLK"
    using a by (auto simp: at_slot_def)
  have "slot_of blk (cntrls s) = i"
    using slot_of_found [of "cntrls s" "nat i" blk] reps_D [OF f] i by simp
  moreover have "repr (inc_logrd s) B P R" using r by (auto simp: inc_logrd_def)
  moreover have "same_cached s (inc_logrd s)"
    by (simp add: same_cached_def at_slot_def inc_logrd_def)
  ultimately show ?thesis
    using bqmove_repr [of "inc_logrd s" B P R i] i
    by (auto simp: brdblk_def runs_def Let_def intro: same_cached_trans)
qed

text \<open>The same as rules that step over a read.\<close>

lemma brdblk_bind:
  assumes "repr s B P R" "valid_blk B blk" "room P blk"
    and "\<And>i s'. repr s' B P R \<Longrightarrow> at_slot s' i blk \<Longrightarrow> \<not> i < 0 \<Longrightarrow> runs (k ((0, i), s')) Q"
  shows "runs (brdblk blk s \<bind> k) Q"
  by (rule runs_bindI [OF brdblk_spec [OF assms(1-3)]]) (auto intro: assms(4) dest: at_slot_pos)

lemma brdblk_hit_bind:
  assumes "repr s B P R" "at_slot s i blk"
    and "\<And>s'. repr s' B P R \<Longrightarrow> same_cached s s' \<Longrightarrow> at_slot s' i blk \<Longrightarrow> \<not> i < 0 \<Longrightarrow>
      runs (k ((0, i), s')) Q"
  shows "runs (brdblk blk s \<bind> k) Q"
  by (rule runs_bindI [OF brdblk_hit [OF assms(1,2)]])
    (auto intro: assms(3) same_cached_at [OF _ assms(2)] dest: at_slot_pos [OF assms(2), THEN notE])

section \<open>An empty cache\<close>

text \<open>\<open>initcntrl\<close> forgets what the slots hold: the store is then what the file holds.\<close>

lemma length3: "length xs = ZMXBLK \<Longrightarrow> \<exists>a b c. xs = [a, b, c]"
  by (simp add: ZMXBLK_def numeral_eq_Suc length_Suc_conv) blast

lemma initcntrl_repr:
  assumes "idxunt s = Some f" "length f \<le> MXBLKS" "list_all wf_memrec f" "ioenv s = (\<lambda>_ _. 0)"
    and "length (cntrls s) = ZMXBLK" "length (mems s) = ZMXBLK" "list_all wf_memrec (mems s)"
  shows "runs (initcntrl s) (\<lambda>s'. repr s' f {} (rest s) \<and> idxunt s' = Some f)"
proof -
  obtain c0 c1 c2 where c: "cntrls s = [c0, c1, c2]" using length3 [OF assms(5)] by blast
  obtain m0 m1 m2 where m: "mems s = [m0, m1, m2]" using length3 [OF assms(6)] by blast
  let ?e = "\<lambda>c n. c\<lparr>inmem := -1, busy := 0, writes := 0, lrunxt := n\<rparr>"
  let ?s = "s\<lparr>cntrls := [?e c0 1, ?e c1 2, ?e c2 (-1)], lru := \<lparr>lrut = 2, lruh = 0\<rparr>\<rparr>"
  have "initcntrl s = Some ?s"
    using c by (simp add: initcntrl_def ZMXBLK_def numeral_eq_Suc upd_cntrl_def bqadd_def
        set_lruh_def set_lrut_def)
  moreover have "reps ?s f f {} (rest s)"
  proof -
    have "{0..<3::int} = {0, 1, 2}" by auto
    then have "lru_queue ?s [0, 1, 2]"
      by (simp add: lru_queue_def ZMXBLK_def)
    then have "\<exists>q. lru_queue ?s q" ..
    then show ?thesis
      using assms m
      by (auto simp: reps_def slots_distinct_def slot_ok_def rest_def ZMXBLK_def less_Suc_eq
          numeral_eq_Suc nth_Cons')
  qed
  ultimately show ?thesis using repr_reps assms(1) by auto
qed

lemma bsetbs_hit [specs]:
  assumes r: "repr s B P R" and a: "at_slot s i blk"
  shows "runs (bsetbs blk b s) (\<lambda>s'. repr s' B (if b = 0 then P - {blk} else insert blk P) R \<and>
    same_cached s s')"
  unfolding bsetbs_def
proof (rule runs_bindI [OF brdblk_hit [OF r a]], clarify)
  fix s1 assume s1: "repr s1 B P R" "same_cached s s1"
  note a1 = same_cached_at [OF s1(2) a]
  show "runs (if i < 0 \<or> (0::int) \<noteq> 0 then Some (bterr ''BSETBS'' QRDBLK (Some (itostr blk)) s1)
      else upd_cntrl i (\<lambda>c. c\<lparr>busy := b\<rparr>) s1)
    (\<lambda>s'. repr s' B (if b = 0 then P - {blk} else insert blk P) R \<and> same_cached s s')"
    using set_busy [OF s1(1) a1, of b] s1(2) at_slot_pos [OF a1]
    by (auto simp: same_cached_def elim!: runs_conseq)
qed

end
