(* ===== verification/Info.thy ===== *)
theory Info
  imports Store
begin

text \<open>
  The info words of a block: \<open>bgtinf\<close>, \<open>bstinf\<close> and \<open>bsetbk\<close>. Word 0 holds the block type in its
  low 16 bits and the library version above it.
\<close>

section \<open>Info words of a block in memory\<close>

definition MASK :: int where "MASK = 0xffff"

definition get_mem :: "int \<Rightarrow> st \<Rightarrow> memrec option" where
  "get_mem i s = arr_get (mems s) i"

definition mem_info :: "memrec \<Rightarrow> int \<Rightarrow> int option" where
  "mem_info m t =
     (if t = ZBTYPE then do { w \<leftarrow> arr_get (infblk m) ZBTYPE; Some (w AND MASK) }
      else if t = ZBTVER then do {
        w \<leftarrow> arr_get (infblk m) ZBTYPE;
        Some (drop_bit (2 * ZBYTEW) w AND MASK)
      } else arr_get (infblk m) t)"

definition mem_set_info :: "int \<Rightarrow> int \<Rightarrow> memrec \<Rightarrow> memrec option" where
  "mem_set_info t v m =
     (if t = ZBTYPE then do {
        w \<leftarrow> arr_set (infblk m) t (push_bit (2 * ZBYTEW) ZVERS OR v);
        Some (m\<lparr>infblk := w\<rparr>)
      } else do { w \<leftarrow> arr_set (infblk m) t v; Some (m\<lparr>infblk := w\<rparr>) })"

definition upd_mem :: "int \<Rightarrow> (memrec \<Rightarrow> memrec option) \<Rightarrow> st \<Rightarrow> st option" where
  "upd_mem i f s = do { m \<leftarrow> get_mem i s; m \<leftarrow> f m; set_mem i m s }"

definition inc_writes :: "int \<Rightarrow> int \<Rightarrow> st \<Rightarrow> st option" where
  "inc_writes idx n s = upd_cntrl idx (\<lambda>c. c\<lparr>writes := writes c + n\<rparr>) s"

section \<open>The library functions\<close>

definition bgtinf :: "int \<Rightarrow> int \<Rightarrow> st \<Rightarrow> (int \<times> st) option" where
  "bgtinf blk type s =
     (if int ZINFSZ \<le> type then Some (0, bterr ''BGTINF'' QINFER None s)
      else do {
        ((ioerr, idx), s) \<leftarrow> brdblk blk s;
        if idx < 0 \<or> ioerr \<noteq> 0 then Some (0, bterr ''BGTINF'' QRDBLK (Some (itostr blk)) s)
        else do {
          m \<leftarrow> get_mem idx s;
          v \<leftarrow> mem_info m type;
          Some (v, s)
        }
      })"

definition bstinf :: "int \<Rightarrow> int \<Rightarrow> int \<Rightarrow> st \<Rightarrow> st option" where
  "bstinf blk type val s =
     (if int ZINFSZ \<le> type \<or> type < 0 then Some (bterr ''BSTINF'' QINFER None s)
      else do {
        ((ioerr, idx), s) \<leftarrow> brdblk blk s;
        if idx < 0 \<or> ioerr \<noteq> 0 then Some (bterr ''BSTINF'' QRDBLK (Some (itostr blk)) s)
        else do {
          s \<leftarrow> upd_mem idx (mem_set_info type val) s;
          inc_writes idx 1 s
        }
      })"

definition bsetbk :: "int \<Rightarrow> int \<Rightarrow> int \<Rightarrow> int \<Rightarrow> int \<Rightarrow> int \<Rightarrow> int \<Rightarrow> st \<Rightarrow> st option" where
  "bsetbk blk type misc nxblk nkeys nblks dupblk s = do {
     ((ioerr, idx), s) \<leftarrow> brdblk blk s;
     if idx < 0 \<or> ioerr \<noteq> 0 then Some (bterr ''BSETBK'' QRDBLK (Some (itostr blk)) s)
     else do {
       s \<leftarrow> bstinf blk ZBTYPE type s;
       s \<leftarrow> upd_mem idx (mem_set_info ZMISC misc) s;
       s \<leftarrow> upd_mem idx (mem_set_info ZNXBLK nxblk) s;
       s \<leftarrow> upd_mem idx (mem_set_info ZNKEYS nkeys) s;
       s \<leftarrow> upd_mem idx (mem_set_info ZNBLKS nblks) s;
       s \<leftarrow> upd_mem idx (mem_set_info ZNXDUP dupblk) s;
       inc_writes idx 1 s
     }
   }"

section \<open>Info words of a block\<close>

definition word_of :: "memrec \<Rightarrow> int \<Rightarrow> int" where
  "word_of m t = infblk m ! nat t"

definition btype_of :: "memrec \<Rightarrow> int" where
  "btype_of m = word_of m 0 AND MASK"

abbreviation nkeys_of :: "memrec \<Rightarrow> int" where
  "nkeys_of m \<equiv> word_of m ZNKEYS"

definition set_word :: "int \<Rightarrow> int \<Rightarrow> memrec \<Rightarrow> memrec" where
  "set_word t v m =
     m\<lparr>infblk := (infblk m)[nat t := if t = ZBTYPE then push_bit (2 * ZBYTEW) ZVERS OR v else v]\<rparr>"

lemma wf_set_word [simp]: "wf_memrec m \<Longrightarrow> wf_memrec (set_word t v m)"
  by (simp add: wf_memrec_def set_word_def)

lemma set_word_other [simp]:
  "keyblk (set_word t v m) = keyblk m" "lnkblk (set_word t v m) = lnkblk m" "dat (set_word t v m) = dat m"
  by (simp_all add: set_word_def)

lemma word_of_set_word:
  assumes "wf_memrec m" "0 \<le> t" "t < int ZINFSZ" "0 \<le> u"
  shows "word_of (set_word t v m) u =
    (if u = t then (if t = ZBTYPE then push_bit (2 * ZBYTEW) ZVERS OR v else v) else word_of m u)"
  using assms by (auto simp: word_of_def set_word_def wf_memrec_def nth_list_update)

lemma mem_info_word:
  "wf_memrec m \<Longrightarrow> 0 < t \<Longrightarrow> t < int ZINFSZ \<Longrightarrow> mem_info m t = Some (word_of m t)"
  by (simp add: mem_info_def word_of_def wf_memrec_def ZBTYPE_def ZBTVER_def)

lemma mem_info_type: "wf_memrec m \<Longrightarrow> mem_info m ZBTYPE = Some (btype_of m)"
  by (simp add: mem_info_def btype_of_def word_of_def wf_memrec_def ZBTYPE_def ZINFSZ_def)

lemma mem_set_info_word:
  "wf_memrec m \<Longrightarrow> 0 \<le> t \<Longrightarrow> t < int ZINFSZ \<Longrightarrow> mem_set_info t v m = Some (set_word t v m)"
  by (auto simp: mem_set_info_def set_word_def wf_memrec_def)

text \<open>The block type and the version share word 0: each is read back, for types of 16 bits.\<close>

lemma pack_type:
  assumes "0 \<le> v" "v < 2 ^ 16"
  shows "(push_bit (2 * ZBYTEW) ZVERS OR v) AND MASK = v"
    "drop_bit (2 * ZBYTEW) (push_bit (2 * ZBYTEW) ZVERS OR v) AND MASK = ZVERS"
proof -
  have m: "x AND MASK = take_bit 16 x" for x
    by (simp add: MASK_def take_bit_eq_mask mask_eq_exp_minus_1)
  have v: "take_bit 16 v = v" using assms by (simp add: take_bit_int_eq_self)
  have "take_bit 16 (push_bit 16 ZVERS OR v) = v"
    by (subst v [symmetric], rule bit_eqI) (auto simp: bit_simps)
  moreover have "drop_bit 16 v = 0" "drop_bit 16 (push_bit 16 ZVERS) = ZVERS"
    using assms by (simp_all add: drop_bit_eq_div push_bit_eq_mult)
  then have "drop_bit 16 (push_bit 16 ZVERS OR v) = ZVERS"
    unfolding drop_bit_or by simp
  ultimately show "(push_bit (2 * ZBYTEW) ZVERS OR v) AND MASK = v"
    "drop_bit (2 * ZBYTEW) (push_bit (2 * ZBYTEW) ZVERS OR v) AND MASK = ZVERS"
    by (simp_all add: m ZBYTEW_def ZVERS_def take_bit_int_eq_self)
qed

lemma btype_of_set_type:
  "wf_memrec m \<Longrightarrow> 0 \<le> v \<Longrightarrow> v < 2 ^ 16 \<Longrightarrow> btype_of (set_word ZBTYPE v m) = v"
  using pack_type(1) [of v] word_of_set_word [of m ZBTYPE ZBTYPE v]
  by (simp add: btype_of_def ZBTYPE_def ZINFSZ_def)

section \<open>Specifications\<close>

lemma get_mem_slot: "repr s B P R \<Longrightarrow> at_slot s i b \<Longrightarrow> get_mem i s = Some (B ! nat b)"
  using slot_block [of s B P R i b] by (simp add: get_mem_def)

text \<open>Changing the block of a slot and counting the change.\<close>

definition modify :: "int \<Rightarrow> int \<Rightarrow> (memrec \<Rightarrow> memrec option) \<Rightarrow> st \<Rightarrow> st option" where
  "modify i n f s = do { s \<leftarrow> upd_mem i f s; inc_writes i n s }"

lemma modify_fold:
  "do { s \<leftarrow> upd_mem i f s; s \<leftarrow> inc_writes i n s; k s } = do { s \<leftarrow> modify i n f s; k s }"
  "do { s \<leftarrow> upd_mem i f s; inc_writes i n s } = modify i n f s"
  by (simp_all add: modify_def)

lemma upd_upd:
  "do { s \<leftarrow> upd_mem i f s; s \<leftarrow> upd_mem i g s; k s } =
   do { s \<leftarrow> upd_mem i (\<lambda>m. do { m \<leftarrow> f m; g m }) s; k s }"
  by (cases "0 \<le> i \<and> i < int (length (mems s))"; cases "f (mems s ! nat i)")
    (auto simp: upd_mem_def get_mem_def set_mem_def arr_get_def arr_set_def split: bind_split)

lemma upd_modify:
  "do { s \<leftarrow> upd_mem i f s; modify i n g s } = modify i n (\<lambda>m. do { m \<leftarrow> f m; g m }) s"
  "do { s \<leftarrow> upd_mem i f s; s \<leftarrow> modify i n g s; k s } =
   do { s \<leftarrow> modify i n (\<lambda>m. do { m \<leftarrow> f m; g m }) s; k s }"
  by (simp_all add: modify_def upd_upd)

lemma modify_spec:
  assumes r: "repr s B P R" and a: "at_slot s i b" and f: "f (B ! nat b) = Some m"
    and m: "wf_memrec m" and n: "0 < n"
  shows "runs (modify i n f s) (\<lambda>s'. repr s' (B[nat b := m]) P R \<and> same_cached s s')"
proof -
  note sb = slot_block [OF r a] and u = repr_update [OF r a m n refl]
  have i: "nat i < ZMXBLK" using a by (auto simp: at_slot_def)
  show ?thesis
    using u sb f i repr_fields(20,21) [OF r]
    by (simp add: modify_def upd_mem_def get_mem_def set_mem_def inc_writes_def upd_cntrl_def)
qed

lemma bgtinf_spec [specs]:
  assumes r: "repr s B P R" and b: "valid_blk B blk" "room P blk"
    and t: "t < int ZINFSZ" "mem_info (B ! nat blk) t = Some v"
  shows "runs (bgtinf blk t s) (\<lambda>(w, s'). w = v \<and> repr s' B P R)"
  unfolding bgtinf_def using t by (auto intro!: brdblk_bind [OF r b] simp: get_mem_slot)

lemma bgtinf_hit [specs]:
  assumes r: "repr s B P R" and a: "at_slot s i blk"
    and t: "t < int ZINFSZ" "mem_info (B ! nat blk) t = Some v"
  shows "runs (bgtinf blk t s) (\<lambda>(w, s'). w = v \<and> repr s' B P R \<and> same_cached s s')"
  unfolding bgtinf_def using t by (auto intro!: brdblk_hit_bind [OF r a] simp: get_mem_slot)

lemma bstinf_spec [specs]:
  assumes r: "repr s B P R" and b: "valid_blk B blk" "room P blk"
    and t: "0 \<le> t" "t < int ZINFSZ"
  shows "runs (bstinf blk t v s) (\<lambda>s'. repr s' (B[nat blk := set_word t v (B ! nat blk)]) P R)"
proof -
  have wf: "wf_memrec (B ! nat blk)" using repr_wf_nth [OF r b(1)] .
  have "runs (modify i 1 (mem_set_info t v) s1)
      (\<lambda>s'. repr s' (B[nat blk := set_word t v (B ! nat blk)]) P R)"
    if "repr s1 B P R" "at_slot s1 i blk" for s1 i
    using modify_spec [where f = "mem_set_info t v" and n = 1, OF that mem_set_info_word [OF wf t]] wf
    by (auto elim!: runs_conseq)
  then show ?thesis
    unfolding bstinf_def modify_fold using t by (auto intro!: brdblk_bind [OF r b])
qed

lemma bstinf_hit [specs]:
  assumes r: "repr s B P R" and a: "at_slot s i blk" and t: "0 \<le> t" "t < int ZINFSZ"
  shows "runs (bstinf blk t v s)
    (\<lambda>s'. repr s' (B[nat blk := set_word t v (B ! nat blk)]) P R \<and> same_cached s s')"
proof -
  have wf: "wf_memrec (B ! nat blk)" using repr_wf_nth [OF r at_slot_valid [OF r a]] .
  have "runs (modify i 1 (mem_set_info t v) s1)
      (\<lambda>s'. repr s' (B[nat blk := set_word t v (B ! nat blk)]) P R \<and> same_cached s s')"
    if "repr s1 B P R" "at_slot s1 i blk" "same_cached s s1" for s1
    using modify_spec [where f = "mem_set_info t v" and n = 1, OF that(1,2) mem_set_info_word [OF wf t]] wf
      same_cached_trans [OF that(3)] by (auto elim!: runs_conseq)
  then show ?thesis
    unfolding bstinf_def modify_fold using t by (auto intro!: brdblk_hit_bind [OF r a])
qed

text \<open>\<open>bsetbk\<close> sets all six words.\<close>

definition set_words :: "int \<Rightarrow> int \<Rightarrow> int \<Rightarrow> int \<Rightarrow> int \<Rightarrow> int \<Rightarrow> memrec \<Rightarrow> memrec" where
  "set_words type misc nx nk nb dup m =
     m\<lparr>infblk := [push_bit (2 * ZBYTEW) ZVERS OR type, misc, nx, nk, nb, dup]\<rparr>"

lemma wf_set_words [simp]: "wf_memrec m \<Longrightarrow> wf_memrec (set_words ty mi nx nk nb du m)"
  by (simp add: wf_memrec_def set_words_def ZINFSZ_def)

lemma set_words_other [simp]:
  "keyblk (set_words ty mi nx nk nb du m) = keyblk m"
  "lnkblk (set_words ty mi nx nk nb du m) = lnkblk m"
  by (simp_all add: set_words_def)

lemma bsetbk_spec [specs]:
  assumes r: "repr s B P R" and b: "valid_blk B blk" "room P blk"
  shows "runs (bsetbk blk type misc nx nk nb dup s)
    (\<lambda>s'. repr s' (B[nat blk := set_words type misc nx nk nb dup (B ! nat blk)]) P R)"
proof -
  have wf: "wf_memrec (B ! nat blk)" using repr_wf_nth [OF r b(1)] .
  have nb': "nat blk < length B" "0 \<le> blk" using b(1) by (auto simp: valid_blk_def)
  let ?m = "set_word ZBTYPE type (B ! nat blk)"
  define f where "f = (\<lambda>m. do { m \<leftarrow> mem_set_info ZMISC misc m; m \<leftarrow> mem_set_info ZNXBLK nx m;
     m \<leftarrow> mem_set_info ZNKEYS nk m; m \<leftarrow> mem_set_info ZNBLKS nb m; mem_set_info ZNXDUP dup m })"
  have step: "f ?m = Some (set_words type misc nx nk nb dup (B ! nat blk))"
  proof -
    obtain a0 a1 a2 a3 a4 a5 where "infblk (B ! nat blk) = [a0, a1, a2, a3, a4, a5]"
      using wf by (auto simp: wf_memrec_def ZINFSZ_def numeral_eq_Suc length_Suc_conv)
    then show ?thesis
      by (simp add: f_def mem_set_info_def set_word_def set_words_def info_defs)
  qed
  have t: "0 \<le> ZBTYPE" "ZBTYPE < int ZINFSZ" by (simp_all add: ZBTYPE_def ZINFSZ_def)
  have body: "runs (do { s \<leftarrow> bstinf blk ZBTYPE type s1; modify i 1 f s })
       (\<lambda>s'. repr s' (B[nat blk := set_words type misc nx nk nb dup (B ! nat blk)]) P R)"
    if s1: "repr s1 B P R" "at_slot s1 i blk" for s1 i
  proof (rule runs_bindI [OF bstinf_hit [OF s1 t]], elim conjE)
    fix s2
    assume s2: "repr s2 (B[nat blk := ?m]) P R" "same_cached s1 s2"
    show "runs (modify i 1 f s2)
       (\<lambda>s'. repr s' (B[nat blk := set_words type misc nx nk nb dup (B ! nat blk)]) P R)"
      by (rule runs_conseq [OF modify_spec [OF s2(1) same_cached_at [OF s2(2) s1(2)],
            where m = "set_words type misc nx nk nb dup (B ! nat blk)"]])
        (use step nb' wf in auto)
  qed
  show ?thesis
    unfolding bsetbk_def upd_upd modify_fold upd_modify bind_assoc f_def [symmetric]
    by (auto intro!: brdblk_bind [OF r b] body)
qed

end
