(* ===== verification/Alloc.thy ===== *)
theory Alloc
  imports Info
begin

text \<open>
  The allocator of blocks: \<open>bgtfre\<close> takes the head of the free list, or extends the file by a block
  when the list is empty; \<open>bmkfre\<close> puts a block at the head of the free list. The list is linked
  through \<open>ZNXBLK\<close>, its head and length are \<open>sfreep\<close> and \<open>snfree\<close> of the super root.
\<close>

abbreviation inc_got :: "st \<Rightarrow> st" where
  "inc_got s \<equiv> s\<lparr>stat := (stat s)\<lparr>xgot := xgot (stat s) + 1\<rparr>\<rparr>"

abbreviation inc_rel :: "st \<Rightarrow> st" where
  "inc_rel s \<equiv> s\<lparr>stat := (stat s)\<lparr>xrel := xrel (stat s) + 1\<rparr>\<rparr>"

abbreviation set_sfreep :: "int \<Rightarrow> st \<Rightarrow> st" where
  "set_sfreep b s \<equiv> s\<lparr>super := (super s)\<lparr>sfreep := b\<rparr>\<rparr>"

abbreviation add_snfree :: "int \<Rightarrow> st \<Rightarrow> st" where
  "add_snfree d s \<equiv> s\<lparr>super := (super s)\<lparr>snfree := snfree (super s) + d\<rparr>\<rparr>"

abbreviation inc_sblkmx :: "st \<Rightarrow> st" where
  "inc_sblkmx s \<equiv> s\<lparr>super := (super s)\<lparr>sblkmx := sblkmx (super s) + 1\<rparr>\<rparr>"

definition bgtfre :: "st \<Rightarrow> (int \<times> st) option" where
  "bgtfre s =
     (if sfreep (super s) = ZNULL then
        (let blk = sblkmx (super s);
             faddr = to_int32 (blk * ZBLKSZ + ZBLKSZ)
         in if faddr < 0 \<or> BTINT_MAX \<le> faddr then Some (ZNULL, bterr ''BGTFRE'' QF2BIG None s)
            else do {
              (idx, s) \<leftarrow> bgtslt s;
              if 0 \<le> idx then do {
                s \<leftarrow> bqmove idx s;
                s \<leftarrow> upd_cntrl idx (\<lambda>c. c\<lparr>inmem := blk, writes := 1\<rparr>) s;
                (e, s) \<leftarrow> bwrblk blk s;
                if e \<noteq> 0 then Some (ZNULL, bterr ''BGTFRE'' QWRBLK (Some (itostr blk)) s)
                else Some (blk, inc_smod (inc_got (inc_sblkmx s)))
              } else Some (ZNULL, inc_smod s)
            })
      else do {
        let blk = sfreep (super s);
        ((ioerr, idx), s) \<leftarrow> brdblk blk s;
        (stop, s) \<leftarrow>
          (if idx < 0 \<or> ioerr \<noteq> 0 then
             Some (False, bterr ''BGTFRE'' QRDBLK (Some (itostr blk)) s)
           else do {
             (t, s) \<leftarrow> bgtinf blk ZBTYPE s;
             if t \<noteq> ZFREE then Some (True, bterr ''BGTFRE'' QNOTFR (Some (itostr blk)) s)
             else do {
               (n, s) \<leftarrow> bgtinf blk ZNXBLK s;
               Some (False, set_sfreep n s)
             }
           });
        if stop then Some (ZNULL, s)
        else do {
          let s = (if 0 \<le> blk then add_snfree (-1) (inc_got s) else s);
          Some (blk, inc_smod s)
        }
      })"

definition bmkfre :: "int \<Rightarrow> st \<Rightarrow> st option" where
  "bmkfre blk s = do {
     let croot = s_scroot s;
     (t, s) \<leftarrow> bgtinf blk ZBTYPE s;
     (isact, s) \<leftarrow> (if t = ZDUP then do {
                      (d, s) \<leftarrow> bgtinf croot ZNXDUP s;
                      Some (d = blk, s)
                    } else Some (False, s));
     s \<leftarrow> (if isact then bstinf croot ZNXDUP ZNULL s else Some s);
     s \<leftarrow> bsetbk blk ZFREE 0 (sfreep (super s)) 0 0 ZNULL s;
     Some (inc_smod (inc_rel (add_snfree 1 (set_sfreep blk s))))
   }"

section \<open>The free list\<close>

fun free_chain :: "memrec list \<Rightarrow> int \<Rightarrow> int list \<Rightarrow> bool" where
  "free_chain B h [] \<longleftrightarrow> h = ZNULL"
| "free_chain B h (b # bs) \<longleftrightarrow> h = b \<and> valid_blk B b \<and> btype_of (B ! nat b) = ZFREE \<and>
     free_chain B (word_of (B ! nat b) ZNXBLK) bs"

text \<open>The super root in memory describes the blocks: the free list, its length, and the length of the
  file.\<close>

definition free_list :: "memrec list \<Rightarrow> st \<Rightarrow> int list \<Rightarrow> bool" where
  "free_list B R bs \<longleftrightarrow> free_chain B (sfreep (super R)) bs \<and> distinct bs \<and>
     snfree (super R) = int (length bs) \<and> sblkmx (super R) = int (length B)"

lemma free_chain_cong:
  "free_chain B h bs \<Longrightarrow> length B \<le> length B' \<Longrightarrow> \<forall>b \<in> set bs. B' ! nat b = B ! nat b \<Longrightarrow>
   free_chain B' h bs"
  by (induction bs arbitrary: h) (auto simp: valid_blk_def)

lemma free_chain_valid: "free_chain B h bs \<Longrightarrow> b \<in> set bs \<Longrightarrow> valid_blk B b \<and> btype_of (B ! nat b) = ZFREE"
  by (induction bs arbitrary: h) auto

lemma free_chain_unique: "free_chain B h bs \<Longrightarrow> free_chain B h cs \<Longrightarrow> bs = cs"
proof (induction bs arbitrary: h cs)
  case Nil
  then show ?case by (cases cs) (auto simp: valid_blk_def ZNULL_def)
next
  case (Cons b bs)
  then show ?case by (cases cs) (auto simp: valid_blk_def ZNULL_def)
qed

text \<open>Taking a block from a list that is not empty: its head, and no block changes.\<close>

definition popped :: "st \<Rightarrow> int \<Rightarrow> st" where
  "popped R n = inc_smod (add_snfree (-1) (set_sfreep n R))"

lemma bgtfre_pop:
  assumes r: "repr s B P R" and f: "free_list B R (b # bs)" and P: "room P b"
  shows "runs (bgtfre s) (\<lambda>(x, s'). x = b \<and> (\<exists>n. repr s' B P (popped R n) \<and> free_list B (popped R n) bs))"
proof -
  have F: "sfreep (super R) = b" "valid_blk B b" "btype_of (B ! nat b) = ZFREE"
    "free_chain B (word_of (B ! nat b) ZNXBLK) bs"
    using f by (auto simp: free_list_def)
  have wf: "wf_memrec (B ! nat b)" using repr_wf_nth [OF r F(2)] .
  have nb: "sfreep (super s) = b" "b \<noteq> ZNULL" "0 \<le> b"
    using F repr_fields(8) [OF r] by (auto simp: valid_blk_def ZNULL_def)
  note w = mem_info_type [OF wf, unfolded F(3)] mem_info_word [OF wf, of ZNXBLK]
  let ?n = "word_of (B ! nat b) ZNXBLK"
  obtain i s1 where s1: "brdblk b s = Some ((0, i), s1)" "at_slot s1 i b" "repr s1 B P R"
    using brdblk_spec [OF r F(2) P] by (auto simp: runs_def)
  obtain s2 where s2: "bgtinf b ZBTYPE s1 = Some (ZFREE, s2)" "repr s2 B P R" "same_cached s1 s2"
    using bgtinf_hit [OF s1(3,2) _ w(1)] by (auto simp: runs_def ZBTYPE_def ZINFSZ_def)
  obtain s3 where s3: "bgtinf b ZNXBLK s2 = Some (?n, s3)" "repr s3 B P R"
    using bgtinf_hit [OF s2(2) same_cached_at [OF s2(3) s1(2)] _ w(2)]
    by (auto simp: runs_def ZNXBLK_def ZINFSZ_def)
  have "repr (popped (inc_got s3) ?n) B P (popped R ?n)"
    unfolding popped_def using repr_fields(8) [OF s3(2)]
    by (intro repr_frame_gen [OF s3(2)]) (simp_all add: rest_upd repr_rest [OF s3(2)])
  moreover have "bgtfre s = Some (b, popped (inc_got s3) ?n)"
    using nb s1(1) s2(1) s3(1) at_slot_pos [OF s1(2)] by (simp add: bgtfre_def popped_def Let_def)
  moreover have "free_list B (popped R ?n) bs"
    using f F by (simp add: free_list_def popped_def)
  ultimately show ?thesis by (auto simp: runs_def)
qed

text \<open>An empty list: the file grows by a block, which the cache holds.\<close>

lemma faddr_ok:
  assumes "int n + 1 < int MXBLKS"
  shows "to_int32 (int n * ZBLKSZ + ZBLKSZ) = (int n + 1) * ZBLKSZ"
    "(int n + 1) * ZBLKSZ < BTINT_MAX" "0 \<le> (int n + 1) * ZBLKSZ"
proof -
  have "int n * 1024 + 1024 < 2 ^ 31 - 1" using assms by (simp add: MXBLKS_def)
  then show "to_int32 (int n * ZBLKSZ + ZBLKSZ) = (int n + 1) * ZBLKSZ"
    "(int n + 1) * ZBLKSZ < BTINT_MAX" "0 \<le> (int n + 1) * ZBLKSZ"
    by (simp_all add: ZBLKSZ_def BTINT_MAX_def to_int32_id)
qed

definition grown :: "st \<Rightarrow> st" where
  "grown R = inc_smod (inc_sblkmx R)"

text \<open>The slot \<open>i\<close> is given to the block at the end of the file and written there.\<close>

lemma extend_reps:
  assumes r: "reps s f B P R" and i: "i < ZMXBLK" and len: "length f < MXBLKS"
    and idle: "busy (cntrls s ! i) = 0" "0 \<le> inmem (cntrls s ! i) \<Longrightarrow> writes (cntrls s ! i) = 0"
  defines "n \<equiv> int (length f)" and "m \<equiv> mems s ! i"
  shows "runs (do { s \<leftarrow> upd_cntrl (int i) (\<lambda>c. c\<lparr>inmem := n, writes := 1\<rparr>) s; bwrblk n s })
    (\<lambda>(e, s'). e = 0 \<and> wf_memrec m \<and> reps s' (f @ [m]) (B @ [m]) P R)"
proof -
  note D = reps_D [OF r]
  define c where "c = (cntrls s ! i)\<lparr>inmem := n, writes := 0\<rparr>"
  define s1 where "s1 = s\<lparr>cntrls := (cntrls s)[i := (cntrls s ! i)\<lparr>inmem := n, writes := 1\<rparr>]\<rparr>"
  define s2 where "s2 = s1\<lparr>idxunt := Some (f @ [m]), stat := (stat s)\<lparr>xphywr := xphywr (stat s) + 1\<rparr>,
    cntrls := (cntrls s)[i := c]\<rparr>"
  have wf: "wf_memrec m" using D(8) [OF i] by (simp add: slot_ok_def m_def)
  have lt: "inmem (cntrls s ! j) < n" if "j < ZMXBLK" for j
    using slot_range [OF r that] by (simp add: n_def)
  have slot: "slot_of n (cntrls s1) = int i"
  proof -
    have "takeWhile (\<lambda>c. inmem c \<noteq> n) (cntrls s1) = take i (cntrls s1)"
      by (rule takeWhile_eq_take_P_nth)
        (use lt i D(2) in \<open>auto simp: s1_def nth_list_update less_imp_neq\<close>)
    then show ?thesis using i D(2) by (simp add: slot_of_def s1_def)
  qed
  have n: "0 \<le> n" "n < int MXBLKS" using len by (simp_all add: n_def)
  have seek: "do_seek n s1 = (True, s1)"
    using blkpos_in(2) [OF n] D(7) by (simp add: do_seek_def s1_def)
  have b: "bwrblk n s1 = Some (0, s2)"
    using slot i D(1-3,7) seek blkpos_in(1) [OF n]
    by (simp add: bwrblk_def upd_cntrl_def inc_phywr_def file_write_def s2_def s1_def c_def n_def m_def)
  have "reps s2 (f @ [m]) (B @ [m]) P R"
  proof (rule reps_slot [OF r i refl, where c = c and m = m])
    show "mems s2 = (mems s)[i := m]" by (simp add: s2_def s1_def m_def)
    show "slot_ok (f @ [m]) c m" using wf D(8) [OF i] by (simp add: slot_ok_def c_def n_def)
    show "slot_ok (f @ [m]) (cntrls s ! j) (mems s ! j)" if "j < ZMXBLK" for j
      using D(8) [OF that] by (auto simp: slot_ok_def nth_append)
    show "(B @ [m]) ! nat (inmem c) = m" using D(4) by (simp add: c_def n_def nth_append)
    show "(B @ [m]) ! nat (inmem (cntrls s ! j)) = mems s ! j"
      if "j < ZMXBLK" "0 \<le> inmem (cntrls s ! j)" for j
      using reps_cached [OF r that(1) refl that(2)] lt [OF that(1)] that(2) D(4)
      by (simp add: nth_append n_def nat_less_iff)
    show "(B @ [m]) ! k = (f @ [m]) ! k" if k: "k < length (f @ [m])"
      "\<forall>j < ZMXBLK. j \<noteq> i \<longrightarrow> inmem (cntrls s ! j) \<noteq> int k" "inmem c \<noteq> int k" for k
    proof -
      have k': "k < length f" using k(1,3) by (simp add: c_def n_def)
      have "B ! k = f ! k"
      proof (cases "inmem (cntrls s ! i) = int k")
        case True
        then show ?thesis
          using reps_cached [OF r i True] D(8) [OF i] idle(2) by (simp add: slot_ok_def)
      next
        case False
        then have "\<forall>j < ZMXBLK. inmem (cntrls s ! j) \<noteq> int k" using k(2) by metis
        then show ?thesis by (rule reps_uncached [OF r k'])
      qed
      then show ?thesis using k' D(4) by (simp add: nth_append)
    qed
    show "b \<in> P \<longleftrightarrow> busy c \<noteq> 0 \<and> inmem c = b \<or>
        (\<exists>j < ZMXBLK. j \<noteq> i \<and> busy (cntrls s ! j) \<noteq> 0 \<and> inmem (cntrls s ! j) = b)" for b
      using reps_pins [OF r] idle(1) by (auto simp: c_def)
    show "inmem (cntrls s ! j) \<noteq> inmem c" if "j < ZMXBLK" for j
      using lt [OF that] by (simp add: c_def)
  qed (use D wf len in \<open>auto simp: s2_def s1_def c_def rest_def\<close>)
  then show ?thesis
    using b wf i D(2) by (simp add: upd_cntrl_def s1_def [symmetric])
qed

lemma bgtfre_grow:
  assumes r: "repr s B P R" and f: "free_list B R []" and P: "card P < ZMXBLK"
    and len: "length B + 1 < MXBLKS"
  shows "runs (bgtfre s) (\<lambda>(x, s'). x = int (length B) \<and> (\<exists>m. wf_memrec m \<and>
    repr s' (B @ [m]) P (grown R) \<and> free_list (B @ [m]) (grown R) []))"
proof -
  let ?n = "int (length B)"
  have F: "sfreep (super s) = ZNULL" "sblkmx (super s) = ?n" "sblkmx (super R) = ?n"
    using f repr_fields(8) [OF r] by (auto simp: free_list_def)
  obtain g where "reps s g B P R" using r repr_reps by blast
  from bgtslt_spec [OF this P] obtain i s1 g1 where s1: "bgtslt s = Some (i, s1)" "reps s1 g1 B P R"
      "0 \<le> i" "i < int ZMXBLK" "busy (cntrls s1 ! nat i) = 0"
      "writes (cntrls s1 ! nat i) = 0"
    unfolding runs_def split_paired_Ex prod.case by blast
  note D1 = reps_D [OF s1(2)]
  obtain q where q: "lru_queue s1 q" using D1(6) by blast
  have "i \<in> set q" using q s1(3,4) by (simp add: lru_queue_def)
  with q obtain s2 where s2: "bqmove i s1 = Some s2" "lru_queue s2 (remove1 i q @ [i])" "same_slots s1 s2"
    using bqmove_spec [of s1 q i] by (auto simp: runs_def)
  have r2: "reps s2 g1 B P R" using reps_requeue [OF s1(2) s2(3,2)] .
  have ni: "nat i < ZMXBLK" "int (nat i) = i" using s1(3,4) by auto
  note S = same_slots_D [OF s2(3), unfolded D1(2)]
  have idle: "busy (cntrls s2 ! nat i) = 0"
    "0 \<le> inmem (cntrls s2 ! nat i) \<Longrightarrow> writes (cntrls s2 ! nat i) = 0"
    using S(6-8) [OF ni(1)] s1(5,6) by simp_all
  have g1: "length g1 = length B" using D1(4) by simp
  obtain s4 where s4: "do { s \<leftarrow> upd_cntrl i (\<lambda>c. c\<lparr>inmem := ?n, writes := 1\<rparr>) s2; bwrblk ?n s } = Some (0, s4)"
      "wf_memrec (mems s2 ! nat i)"
      "reps s4 (g1 @ [mems s2 ! nat i]) (B @ [mems s2 ! nat i]) P R"
    using extend_reps [OF r2 ni(1) _ idle] len g1 ni by (auto simp: runs_def)
  obtain s3 where s3: "upd_cntrl i (\<lambda>c. c\<lparr>inmem := ?n, writes := 1\<rparr>) s2 = Some s3" "bwrblk ?n s3 = Some (0, s4)"
    using s4(1) by (auto simp: bind_eq_Some_conv)
  let ?s = "inc_smod (inc_got (inc_sblkmx s4))" and ?B = "B @ [mems s2 ! nat i]"
  have r4: "repr s4 ?B P R" using s4(3) repr_reps by blast
  have "bgtfre s = Some (?n, ?s)"
    using F(1,2) faddr_ok [of "length B"] len s1(1,3) s2(1) s3
    by (simp add: bgtfre_def Let_def algebra_simps)
  moreover have "repr ?s ?B P (grown R)"
    using repr_fields(8) [OF r4]
    by (intro repr_frame_gen [OF r4]) (simp_all add: rest_upd repr_rest [OF r4] grown_def)
  moreover have "free_list ?B (grown R) []"
    using f F(3) by (simp add: free_list_def grown_def)
  ultimately show ?thesis using s4(2) by (auto simp: runs_def)
qed

text \<open>The largest file: a further block would end at a position that a \<open>BTint\<close> cannot hold.\<close>

lemma bgtfre_full:
  assumes r: "repr s B P R" and f: "free_list B R []" and len: "MXBLKS \<le> length B + 1"
  shows "bgtfre s = Some (ZNULL, bterr ''BGTFRE'' QF2BIG None s)"
proof -
  have F: "sfreep (super s) = ZNULL" "sblkmx (super s) = int (length B)"
    using f repr_fields(8) [OF r] by (auto simp: free_list_def)
  have "length B = 2 ^ 21 \<or> length B + 1 = 2 ^ 21"
    using len repr_wf(2) [OF r] by (auto simp: MXBLKS_def)
  then have "to_int32 (int (length B) * ZBLKSZ + ZBLKSZ) < 0 \<or>
      BTINT_MAX \<le> to_int32 (int (length B) * ZBLKSZ + ZBLKSZ)"
  proof
    assume a: "length B = 2 ^ 21"
    show ?thesis unfolding a by (simp add: ZBLKSZ_def to_int32_def)
  next
    assume "length B + 1 = 2 ^ 21"
    then have a: "int (length B) = 2 ^ 21 - 1" by simp
    show ?thesis unfolding a by (simp add: ZBLKSZ_def to_int32_def)
  qed
  then show ?thesis using F by (auto simp: bgtfre_def Let_def)
qed

text \<open>Giving a block back: it becomes the head of the list, the other blocks do not change.\<close>

definition pushed :: "st \<Rightarrow> int \<Rightarrow> st" where
  "pushed R b = inc_smod (add_snfree 1 (set_sfreep b R))"

lemma bmkfre_push:
  assumes r: "repr s B P R" and f: "free_list B R bs" and b: "valid_blk B b" "b \<notin> set bs" "room P b"
    and t: "btype_of (B ! nat b) \<noteq> ZDUP"
  shows "runs (bmkfre b s) (\<lambda>s'. \<exists>m. repr s' (B[nat b := m]) P (pushed R b) \<and>
    free_list (B[nat b := m]) (pushed R b) (b # bs))"
proof -
  have wf: "wf_memrec (B ! nat b)" using repr_wf_nth [OF r b(1)] .
  let ?m = "set_words ZFREE 0 (sfreep (super R)) 0 0 ZNULL (B ! nat b)"
  have nb: "0 \<le> b" "nat b < length B" using b(1) by (auto simp: valid_blk_def)
  obtain s1 where s1: "bgtinf b ZBTYPE s = Some (btype_of (B ! nat b), s1)" "repr s1 B P R"
    using bgtinf_spec [OF r b(1,3) _ mem_info_type [OF wf]] by (auto simp: runs_def ZBTYPE_def ZINFSZ_def)
  have "sfreep (super s1) = sfreep (super R)" using repr_fields(8) [OF s1(2)] by simp
  then obtain s2 where s2: "bsetbk b ZFREE 0 (sfreep (super s1)) 0 0 ZNULL s1 = Some s2"
      "repr s2 (B[nat b := ?m]) P R"
    using bsetbk_spec [OF s1(2) b(1,3), of ZFREE 0 "sfreep (super R)" 0 0 ZNULL] by (auto simp: runs_def)
  let ?s = "inc_smod (inc_rel (add_snfree 1 (set_sfreep b s2)))" and ?B = "B[nat b := ?m]"
  have "bmkfre b s = Some ?s" using s1(1) s2(1) t by (simp add: bmkfre_def)
  moreover have "repr ?s ?B P (pushed R b)"
    using repr_fields(8) [OF s2(2)]
    by (intro repr_frame_gen [OF s2(2)]) (simp_all add: rest_upd repr_rest [OF s2(2)] pushed_def)
  moreover have "free_list ?B (pushed R b) (b # bs)"
  proof -
    have "free_chain ?B (sfreep (super R)) bs"
    proof (rule free_chain_cong)
      show "free_chain B (sfreep (super R)) bs" using f by (simp add: free_list_def)
      show "\<forall>c \<in> set bs. ?B ! nat c = B ! nat c"
      proof
        fix c assume c: "c \<in> set bs"
        then have "0 \<le> c" using free_chain_valid f by (auto simp: free_list_def valid_blk_def)
        moreover have "c \<noteq> b" using c b(2) by blast
        ultimately show "?B ! nat c = B ! nat c" using nb by (simp add: eq_nat_nat_iff)
      qed
    qed simp
    moreover have "btype_of ?m = ZFREE" "word_of ?m ZNXBLK = sfreep (super R)"
      using pack_type(1) [of ZFREE]
      by (simp_all add: btype_of_def word_of_def set_words_def ZFREE_def ZNXBLK_def)
    ultimately show ?thesis
      using f b nb by (simp add: free_list_def pushed_def valid_blk_def)
  qed
  ultimately show ?thesis by (auto simp: runs_def)
qed

end
