(* ===== verification/Lock.thy ===== *)
theory Lock
  imports Alloc
begin

text \<open>
  The super root on disk (\<open>bsuper.c\<close>), the write-back of the whole cache (\<open>btsync\<close> in \<open>btcls.c\<close>) and
  the lock of the index file (\<open>bsemap.c\<close>). The lock is counted: only the outermost \<open>block\<close> asks the
  operating system, only the outermost \<open>bulock\<close> writes the cache back and gives the lock up.
\<close>

section \<open>Super root\<close>

definition brdsup :: "st \<Rightarrow> (int \<times> st) option" where
  "brdsup s = do {
     ((errcode, idx), s) \<leftarrow> brdblk ZSUPER s;
     s \<leftarrow> (if errcode \<noteq> 0 then
             Some (bterr ''BRDSUP'' QRDSUP (Some (if errcode < 0 then ''(EOF?)'' else '''')) s)
           else do {
             (ver, s) \<leftarrow> bgtinf ZSUPER ZBTVER s;
             (type, s) \<leftarrow> bgtinf ZSUPER ZBTYPE s;
             (misc, s) \<leftarrow> bgtinf ZSUPER ZMISC s;
             if type \<noteq> ZROOT then Some (bterr ''BRDSUP'' QBLKNR (Some (itostr ZSUPER)) s)
             else if ver = LFSHDR then Some (bterr ''BRDSUP'' QNOT64BIT None s)
             else if ver \<noteq> ZVERS then Some (bterr ''BRDSUP'' QBADVR (Some (itostr ZVERS)) s)
             else if misc = to_int32 LFSHDR then Some (bterr ''BRDSUP'' Q64BIT None s)
             else do {
               (nx, s) \<leftarrow> bgtinf ZSUPER ZNXBLK (s\<lparr>super := (super s)\<lparr>snfree := misc\<rparr>\<rparr>);
               (nb, s) \<leftarrow> bgtinf ZSUPER ZNBLKS (s\<lparr>super := (super s)\<lparr>sfreep := nx\<rparr>\<rparr>);
               Some (s\<lparr>super := (super s)\<lparr>sblkmx := nb\<rparr>\<rparr>)
             }
           });
     Some (btgerr s, s)
   }"

definition bwrsup :: "st \<Rightarrow> (int \<times> st) option" where
  "bwrsup s = do {
     ((errcode, idx), s) \<leftarrow> brdblk ZSUPER s;
     if errcode \<noteq> 0 then Some (errcode, bterr ''BWRSUP'' QRDSUP (Some (itostr ZSUPER)) s)
     else do {
       (nkeys, s) \<leftarrow> bgtinf ZSUPER ZNKEYS s;
       s \<leftarrow> bsetbk ZSUPER ZROOT (snfree (super s)) (sfreep (super s)) nkeys
              (sblkmx (super s)) ZNULL s;
       (errcode, s) \<leftarrow> bwrblk ZSUPER s;
       Some (errcode,
             if errcode \<noteq> 0 then bterr ''BWRSUP'' QWRSUP (Some (itostr ZSUPER)) s else s)
     }
   }"

section \<open>Write-back\<close>

text \<open>The loop over the slots; the flag says that a write failed.\<close>

fun sync_loop :: "int \<Rightarrow> nat \<Rightarrow> st \<Rightarrow> (bool \<times> st) option" where
  "sync_loop i 0 s = Some (False, s)"
| "sync_loop i (Suc n) s = do {
     c \<leftarrow> arr_get (cntrls s) i;
     (e, s) \<leftarrow> bwrblk (inmem c) s;
     if e \<noteq> 0 then do {
       c \<leftarrow> arr_get (cntrls s) i;
       Some (True, bterr ''BTSYNC'' QWRBLK (Some (itostr (inmem c))) s)
     } else sync_loop (i + 1) n s
   }"

definition btsync :: "st \<Rightarrow> (int \<times> st) option" where
  "btsync s = do {
     (stop, s) \<leftarrow>
       (if idxunt s \<noteq> None then do {
          (stop, s) \<leftarrow> sync_loop 0 ZMXBLK s;
          if stop then Some (True, s)
          else if smod (super s) \<noteq> 0 then do {
            (e, s) \<leftarrow> bwrsup s;
            if e \<noteq> 0 then Some (True, s)
            else Some (False, s\<lparr>super := (super s)\<lparr>smod := 0\<rparr>\<rparr>)
          } else Some (False, s)
        } else Some (False, s));
     if stop then Some (btgerr s, s)
     else do {
       s \<leftarrow> initcntrl s;
       Some (btgerr s, s)
     }
   }"

section \<open>Lock and unlock\<close>

text \<open>The next answer of the operating system to a lock request.\<close>

definition ask_lock :: "st \<Rightarrow> lkres \<times> st" where
  "ask_lock s =
     (case lkenv s of [] \<Rightarrow> (Lock_granted, s) | r # rs \<Rightarrow> (r, s\<lparr>lkenv := rs\<rparr>))"

definition block :: "st \<Rightarrow> (bool \<times> st) option" where
  "block s =
     (if 0 < lckcnt s then Some (True, s\<lparr>lckcnt := lckcnt s + 1\<rparr>)
      else
        (let (r, s) = ask_lock s
         in case r of
              Alarm_refused \<Rightarrow> Some (False, bterr ''BLOCK'' QBADAL None s)
            | Lock_timeout \<Rightarrow> Some (False, s)
            | Lock_refused \<Rightarrow> Some (False, s)
            | Lock_granted \<Rightarrow> do {
                s \<leftarrow> (if shared s \<and> s_scroot s \<noteq> ZNULL then do {
                        (e, s) \<leftarrow> brdsup s;
                        ((ierr, i), s) \<leftarrow> brdblk (s_scroot s) s;
                        if ierr = 0 then bsetbs (s_scroot s) 1 s else Some s
                      } else Some s);
                Some (True, s\<lparr>lckcnt := 1\<rparr>)
              }))"

definition bulock :: "st \<Rightarrow> st option" where
  "bulock s =
     (if 1 < lckcnt s then Some (s\<lparr>lckcnt := lckcnt s - 1\<rparr>)
      else if lckcnt s = 1 then do {
        (e, s) \<leftarrow> btsync s;
        let s = (if 0 \<le> fd s \<and> ioenv s Op_unlock 0 \<noteq> 0
                 then bterr ''BULOCK'' QUNLCK None (s\<lparr>errno := ioenv s Op_unlock 0\<rparr>) else s);
        Some (s\<lparr>lckcnt := 0\<rparr>)
      } else Some s)"

text \<open>Every API function of a shared index locks first and unlocks at its end.\<close>

definition lock_if_shared :: "string \<Rightarrow> st \<Rightarrow> (bool \<times> st) option" where
  "lock_if_shared fn s =
     (if shared s then do {
        (ok, s) \<leftarrow> block s;
        Some (ok, if ok then s else bterr fn QBUSY None s)
      } else Some (True, s))"

definition unlock_if_shared :: "st \<Rightarrow> st option" where
  "unlock_if_shared s = (if shared s then bulock s else Some s)"

text \<open>\<open>bvalap\<close> for a handle inside \<open>btat\<close>: the stream must be open.\<close>

definition bvalap :: "string \<Rightarrow> st \<Rightarrow> int \<times> st" where
  "bvalap fn s =
     (if idxunt s = None then (QBADAP, bterr fn QBADAP None s) else (0, s))"

section \<open>What is written back\<close>

text \<open>Only the block \<open>b\<close> may differ between its slot and the file.\<close>

definition dirty_only :: "int \<Rightarrow> st \<Rightarrow> bool" where
  "dirty_only b s \<longleftrightarrow> (\<forall>i < ZMXBLK. writes (cntrls s ! i) \<noteq> 0 \<longrightarrow> inmem (cntrls s ! i) = b)"

abbreviation clean :: "st \<Rightarrow> bool" where
  "clean s \<equiv> \<forall>i < ZMXBLK. writes (cntrls s ! i) = 0"

lemma settled_only: "settled s s' \<Longrightarrow> dirty_only b s \<Longrightarrow> dirty_only b s'"
  by (auto simp: settled_def dirty_only_def)

lemma clean_file:
  assumes r: "reps s f B P R" and c: "clean s"
  shows "f = B"
proof (rule nth_equalityI)
  show "length f = length B" using reps_D(4) [OF r] by simp
  show "f ! n = B ! n" if n: "n < length f" for n
  proof (cases "\<forall>i < ZMXBLK. inmem (cntrls s ! i) \<noteq> int n")
    case True
    then show ?thesis using reps_uncached [OF r n] by simp
  next
    case False
    then obtain i where i: "i < ZMXBLK" "inmem (cntrls s ! i) = int n" by blast
    then show ?thesis using reps_cached [OF r i] reps_D(8) [OF r i(1)] c by (simp add: slot_ok_def)
  qed
qed

text \<open>Writing the block of slot \<open>i\<close>, if any, makes the slot clean and no other dirty.\<close>

lemma sync_step:
  assumes r: "reps s f B P R" and i: "i < ZMXBLK"
  shows "runs (bwrblk (inmem (cntrls s ! i)) s) (\<lambda>(e, s'). e = 0 \<and> (\<exists>f'. reps s' f' B P R) \<and>
    writes (cntrls s' ! i) = 0 \<and> settled s s')"
proof (cases "0 \<le> inmem (cntrls s ! i)")
  case True
  show ?thesis
    by (rule runs_conseq [OF bwrblk_cached [OF r i refl True]])
      (use reps_D(2) [OF r] i in \<open>auto simp: settled_def nth_list_update split: if_splits\<close>)
next
  case False
  note D = reps_D [OF r]
  let ?b = "inmem (cntrls s ! i)"
  have "slot_of ?b (cntrls s) \<noteq> int (length (cntrls s))"
    using slot_of_absent [of ?b "cntrls s"] i D(2) by auto
  then have lt: "slot_of ?b (cntrls s) < int (length (cntrls s))"
    using slot_of_le [of ?b "cntrls s"] by simp
  define k where "k = nat (slot_of ?b (cntrls s))"
  have k: "k < ZMXBLK" "inmem (cntrls s ! k) = ?b" "slot_of ?b (cntrls s) = int k"
    using slot_of_less [OF lt, unfolded D(2)] by (simp_all add: k_def)
  have w: "writes (cntrls s ! k) = 0" "writes (cntrls s ! i) = 0"
    using D(8) [OF k(1)] D(8) [OF i] k(2) False by (simp_all add: slot_ok_def)
  have same: "(cntrls s)[k := (cntrls s ! k)\<lparr>writes := 0\<rparr>] = cntrls s"
    using w(1) by (simp add: list_update_same_conv D(2) k(1))
  have "reps (inc_logwr s) f B P R" unfolding inc_logwr_def by (rule reps_stat [OF r])
  moreover have "bwrblk ?b s = Some (0, (inc_logwr s)\<lparr>cntrls := cntrls s\<rparr>)"
    using k(1,3) w(1) D(2) same
    by (simp add: bwrblk_def upd_cntrl_def inc_logwr_def)
  moreover have "(inc_logwr s)\<lparr>cntrls := cntrls s\<rparr> = inc_logwr s" by (simp add: inc_logwr_def)
  ultimately show ?thesis using w(2) by (auto simp: inc_logwr_def settled_def)
qed

lemma sync_loop_spec:
  assumes "reps s f B P R" "i + n = ZMXBLK" "\<forall>j < i. writes (cntrls s ! j) = 0"
  shows "runs (sync_loop (int i) n s) (\<lambda>(stop, s'). \<not> stop \<and> reps s' B B P R \<and> clean s')"
  using assms
proof (induction n arbitrary: i s f)
  case 0
  then have c: "clean s" by simp
  then show ?case using 0 clean_file [OF "0.prems"(1) c] by auto
next
  case (Suc n)
  have i: "i < ZMXBLK" "int i < int (length (cntrls s))"
    using Suc.prems(2) reps_D(2) [OF Suc.prems(1)] by simp_all
  obtain s1 f1 where s1: "bwrblk (inmem (cntrls s ! i)) s = Some (0, s1)" "reps s1 f1 B P R"
      "writes (cntrls s1 ! i) = 0" "settled s s1"
    using sync_step [OF Suc.prems(1) i(1)] by (auto simp: runs_def)
  have "writes (cntrls s1 ! j) = 0" if "j < Suc i" for j
  proof (cases "j = i")
    case False
    then have "j < i" "j < ZMXBLK" using that i(1) by simp_all
    then show ?thesis using s1(4) Suc.prems(3) by (auto simp: settled_def)
  qed (use s1(3) in simp)
  then have "runs (sync_loop (int (Suc i)) n s1) (\<lambda>(stop, s'). \<not> stop \<and> reps s' B B P R \<and> clean s')"
    using Suc.prems(2) by (intro Suc.IH [OF s1(2)]) auto
  then show ?case using s1(1) i(2) by (simp add: add.commute)
qed

text \<open>The super root.\<close>

lemma bgtinf_dirty:
  assumes r: "repr s B P R" "valid_blk B blk" "room P blk" and d: "dirty_only b s"
    and t: "t < int ZINFSZ" "mem_info (B ! nat blk) t = Some v"
  shows "runs (bgtinf blk t s) (\<lambda>(w, s'). w = v \<and> repr s' B P R \<and> dirty_only b s')"
proof -
  have "runs (do {
      ((ioerr, idx), s) \<leftarrow> brdblk blk s;
      if idx < 0 \<or> ioerr \<noteq> 0 then Some (0, bterr ''BGTINF'' QRDBLK (Some (itostr blk)) s)
      else do { m \<leftarrow> get_mem idx s; v \<leftarrow> mem_info m t; Some (v, s) } })
    (\<lambda>(w, s'). w = v \<and> repr s' B P R \<and> dirty_only b s')"
    by (rule runs_bindI [OF brdblk_dirty [OF r]])
      (use t d settled_only in \<open>auto simp: get_mem_slot dest: at_slot_pos\<close>)
  then show ?thesis using t(1) by (simp add: bgtinf_def)
qed

lemma modify_dirty:
  assumes "at_slot s i b" "dirty_only b s" "modify i n f s = Some s'"
  shows "dirty_only b s'"
  using assms
  by (auto simp: modify_def upd_mem_def get_mem_def set_mem_def inc_writes_def upd_cntrl_def
      bind_eq_Some_conv arr_get_def arr_set_def dirty_only_def at_slot_def nth_list_update
      split: if_splits)

lemma upd_mem_at: "upd_mem i f s = Some s' \<Longrightarrow> cntrls s' = cntrls s"
  by (auto simp: upd_mem_def set_mem_def bind_eq_Some_conv)

lemma same_cntrls: "cntrls s' = cntrls s \<Longrightarrow> at_slot s' = at_slot s \<and> dirty_only b s' = dirty_only b s"
  by (simp add: fun_eq_iff at_slot_def dirty_only_def)

lemma modify_at: "modify i n f s = Some s' \<Longrightarrow> at_slot s j b \<Longrightarrow> at_slot s' j b"
  by (auto simp: modify_def upd_mem_def set_mem_def inc_writes_def upd_cntrl_def at_slot_def
      bind_eq_Some_conv arr_get_def arr_set_def nth_list_update split: if_splits)

lemma bsetbk_at:
  assumes r: "repr s B P R" and b: "valid_blk B blk" "room P blk"
    and s': "bsetbk blk type misc nx nk nb dup s = Some s'"
  shows "\<exists>i. at_slot s' i blk" "dirty_only blk s \<Longrightarrow> dirty_only blk s'"
proof -
  obtain i s1 where s1: "brdblk blk s = Some ((0, i), s1)" "at_slot s1 i blk" "repr s1 B P R"
      "settled s s1"
    using brdblk_dirty [OF r b] by (auto simp: runs_def)
  obtain s2 where s2: "brdblk blk s1 = Some ((0, i), s2)" "repr s2 B P R" "same_cached s1 s2"
    using brdblk_hit [OF s1(3,2)] by (auto simp: runs_def)
  have a2: "at_slot s2 i blk" using same_cached_at [OF s2(3) s1(2)] .
  have d2: "dirty_only blk s2" if "dirty_only blk s"
    using brdblk_dirty [OF s1(3) b] s2(1) settled_only [OF _ settled_only [OF s1(4) that]]
    by (auto simp: runs_def)
  obtain s3 where s3: "modify i 1 (mem_set_info ZBTYPE type) s2 = Some s3"
      "modify i 1 (\<lambda>m. do { m \<leftarrow> mem_set_info ZMISC misc m; m \<leftarrow> mem_set_info ZNXBLK nx m;
        m \<leftarrow> mem_set_info ZNKEYS nk m; m \<leftarrow> mem_set_info ZNBLKS nb m; mem_set_info ZNXDUP dup m }) s3 = Some s'"
    using s' s1(1) s2(1) at_slot_pos [OF s1(2)]
    unfolding bsetbk_def bstinf_def upd_upd modify_fold upd_modify bind_assoc
    by (auto simp: bind_eq_Some_conv ZBTYPE_def ZINFSZ_def)
  have a3: "at_slot s3 i blk" by (rule modify_at [OF s3(1) a2])
  then show "\<exists>i. at_slot s' i blk" using modify_at [OF s3(2)] by blast
  show "dirty_only blk s'" if "dirty_only blk s"
    by (rule modify_dirty [OF a3 modify_dirty [OF a2 d2 [OF that] s3(1)] s3(2)])
qed

text \<open>The words of the super root on disk, and back.\<close>

definition super_block :: "st \<Rightarrow> memrec \<Rightarrow> memrec" where
  "super_block R m = set_words ZROOT (snfree (super R)) (sfreep (super R)) (nkeys_of m)
     (sblkmx (super R)) ZNULL m"

definition load_super :: "memrec \<Rightarrow> st \<Rightarrow> st" where
  "load_super m R = R\<lparr>super := (super R)\<lparr>snfree := word_of m ZMISC, sfreep := word_of m ZNXBLK,
     sblkmx := word_of m ZNBLKS\<rparr>\<rparr>"

text \<open>A super root of this version of the library, on a host of the same word size.\<close>

definition super_ok :: "memrec \<Rightarrow> bool" where
  "super_ok m \<longleftrightarrow> btype_of m = ZROOT \<and> drop_bit (2 * ZBYTEW) (word_of m 0) AND MASK = ZVERS \<and>
     word_of m ZMISC \<noteq> to_int32 LFSHDR"

lemma load_super_block: "load_super (super_block R m) R = R"
  by (simp add: load_super_def super_block_def set_words_def word_of_def info_defs)

lemma super_block_ok: "snfree (super R) \<noteq> to_int32 LFSHDR \<Longrightarrow> super_ok (super_block R m)"
  using pack_type [of ZROOT]
  by (simp add: super_ok_def super_block_def set_words_def btype_of_def word_of_def ZMISC_def ZROOT_def)

lemma bwrsup_spec:
  assumes r: "repr s B P R" and b: "valid_blk B ZSUPER" "room P ZSUPER"
  defines "B' \<equiv> B[nat ZSUPER := super_block R (B ! nat ZSUPER)]"
  shows "runs (bwrsup s) (\<lambda>(e, s'). e = 0 \<and> repr s' B' P R \<and> (dirty_only ZSUPER s \<longrightarrow> clean s'))"
proof -
  let ?m = "B ! nat ZSUPER"
  have wf: "wf_memrec ?m" using repr_wf_nth [OF r b(1)] .
  have nk: "ZNKEYS < int ZINFSZ" "mem_info ?m ZNKEYS = Some (nkeys_of ?m)"
    using mem_info_word [OF wf, of ZNKEYS] by (simp_all add: ZNKEYS_def ZINFSZ_def)
  obtain i s1 where s1: "brdblk ZSUPER s = Some ((0, i), s1)" "at_slot s1 i ZSUPER" "repr s1 B P R"
      "settled s s1"
    using brdblk_dirty [OF r b] by (auto simp: runs_def)
  obtain s2 where s2: "bgtinf ZSUPER ZNKEYS s1 = Some (nkeys_of ?m, s2)" "repr s2 B P R"
    using bgtinf_spec [OF s1(3) b nk] by (auto simp: runs_def)
  have d2: "dirty_only ZSUPER s2" if "dirty_only ZSUPER s"
    using bgtinf_dirty [OF s1(3) b settled_only [OF s1(4) that] nk] s2(1) by (auto simp: runs_def)
  have sup: "super s2 = super R" using repr_fields(8) [OF s2(2)] .
  obtain s3 where s3: "bsetbk ZSUPER ZROOT (snfree (super s2)) (sfreep (super s2)) (nkeys_of ?m)
        (sblkmx (super s2)) ZNULL s2 = Some s3" "repr s3 B' P R"
    using bsetbk_spec [OF s2(2) b, of ZROOT "snfree (super R)" "sfreep (super R)" "nkeys_of ?m"
        "sblkmx (super R)" ZNULL]
    by (auto simp: runs_def sup B'_def super_block_def)
  have d3: "dirty_only ZSUPER s3" if "dirty_only ZSUPER s"
    using bsetbk_at(2) [OF s2(2) b s3(1) d2 [OF that]] .
  obtain j' where "at_slot s3 j' ZSUPER" using bsetbk_at(1) [OF s2(2) b s3(1)] ..
  then have "nat j' < ZMXBLK \<and> inmem (cntrls s3 ! nat j') = ZSUPER" by (auto simp: at_slot_def)
  then obtain j where j: "j < ZMXBLK" "inmem (cntrls s3 ! j) = ZSUPER" by blast
  obtain f where f: "reps s3 f B' P R" using s3(2) repr_reps by blast
  obtain s4 where s4: "bwrblk ZSUPER s3 = Some (0, s4)" "\<exists>f'. reps s4 f' B' P R"
      "cntrls s4 = (cntrls s3)[j := (cntrls s3 ! j)\<lparr>writes := 0\<rparr>]"
    using bwrblk_cached [OF f j] by (auto simp: runs_def ZSUPER_def)
  have "clean s4" if "dirty_only ZSUPER s"
  proof (intro allI impI)
    fix k assume k: "k < ZMXBLK"
    show "writes (cntrls s4 ! k) = 0"
    proof (cases "k = j")
      case False
      then have "inmem (cntrls s3 ! k) \<noteq> ZSUPER"
        using reps_D(2,5) [OF f] j k unfolding slots_distinct_def ZSUPER_def by (metis order_refl)
      then show ?thesis using d3 [OF that] k False s4(3) by (auto simp: dirty_only_def)
    qed (use s4(3) reps_D(2) [OF f] j in simp)
  qed
  moreover have "bwrsup s = Some (0, s4)"
    using s1(1) s2(1) s3(1) s4(1) by (simp add: bwrsup_def)
  ultimately show ?thesis using s4(2) repr_reps by auto
qed

lemma brdsup_spec:
  assumes r: "repr s B P R" and b: "valid_blk B ZSUPER" "room P ZSUPER"
    and ok: "super_ok (B ! nat ZSUPER)" and q: "qerror R = 0"
  shows "runs (brdsup s) (\<lambda>(e, s'). e = 0 \<and> repr s' B P (load_super (B ! nat ZSUPER) R))"
proof -
  let ?m = "B ! nat ZSUPER"
  have wf: "wf_memrec ?m" using repr_wf_nth [OF r b(1)] .
  have info: "mem_info ?m ZBTVER = Some ZVERS" "mem_info ?m ZBTYPE = Some ZROOT"
    "mem_info ?m ZMISC = Some (word_of ?m ZMISC)" "mem_info ?m ZNXBLK = Some (word_of ?m ZNXBLK)"
    "mem_info ?m ZNBLKS = Some (word_of ?m ZNBLKS)"
    using wf ok mem_info_type [OF wf] mem_info_word [OF wf]
    by (simp_all add: super_ok_def info_defs ZINFSZ_def)
       (simp add: mem_info_def word_of_def wf_memrec_def info_defs ZINFSZ_def)
  have get: "runs (bgtinf ZSUPER t s') (\<lambda>(w, s''). w = v \<and> repr s'' B P R')"
    if "repr s' B P R'" "mem_info ?m t = Some v" "t < int ZINFSZ" for s' R' t v
    using bgtinf_spec [OF that(1) b that(3,2)] .
  obtain i s1 where s1: "brdblk ZSUPER s = Some ((0, i), s1)" "repr s1 B P R"
    using brdblk_spec [OF r b] by (auto simp: runs_def)
  obtain s2 where s2: "bgtinf ZSUPER ZBTVER s1 = Some (ZVERS, s2)" "repr s2 B P R"
    using get [OF s1(2) info(1)] by (auto simp: runs_def ZBTVER_def ZINFSZ_def)
  obtain s3 where s3: "bgtinf ZSUPER ZBTYPE s2 = Some (ZROOT, s3)" "repr s3 B P R"
    using get [OF s2(2) info(2)] by (auto simp: runs_def ZBTYPE_def ZINFSZ_def)
  obtain s4 where s4: "bgtinf ZSUPER ZMISC s3 = Some (word_of ?m ZMISC, s4)" "repr s4 B P R"
    using get [OF s3(2) info(3)] by (auto simp: runs_def ZMISC_def ZINFSZ_def)
  let ?R5 = "R\<lparr>super := (super R)\<lparr>snfree := word_of ?m ZMISC\<rparr>\<rparr>"
  have r5: "repr (s4\<lparr>super := (super s4)\<lparr>snfree := word_of ?m ZMISC\<rparr>\<rparr>) B P ?R5"
    using repr_frame(3) [OF s4(2)] repr_fields(8) [OF s4(2)] by simp
  obtain s6 where s6: "bgtinf ZSUPER ZNXBLK (s4\<lparr>super := (super s4)\<lparr>snfree := word_of ?m ZMISC\<rparr>\<rparr>) =
      Some (word_of ?m ZNXBLK, s6)" "repr s6 B P ?R5"
    using get [OF r5 info(4)] by (auto simp: runs_def ZNXBLK_def ZINFSZ_def)
  let ?R7 = "?R5\<lparr>super := (super ?R5)\<lparr>sfreep := word_of ?m ZNXBLK\<rparr>\<rparr>"
  have r7: "repr (s6\<lparr>super := (super s6)\<lparr>sfreep := word_of ?m ZNXBLK\<rparr>\<rparr>) B P ?R7"
    using repr_frame(3) [OF s6(2)] repr_fields(8) [OF s6(2)] by simp
  obtain s8 where s8: "bgtinf ZSUPER ZNBLKS (s6\<lparr>super := (super s6)\<lparr>sfreep := word_of ?m ZNXBLK\<rparr>\<rparr>) =
      Some (word_of ?m ZNBLKS, s8)" "repr s8 B P ?R7"
    using get [OF r7 info(5)] by (auto simp: runs_def ZNBLKS_def ZINFSZ_def)
  have r9: "repr (s8\<lparr>super := (super s8)\<lparr>sblkmx := word_of ?m ZNBLKS\<rparr>\<rparr>) B P (load_super ?m R)"
    using repr_frame(3) [OF s8(2)] repr_fields(8) [OF s8(2)] by (simp add: load_super_def)
  have "qerror s8 = 0" using repr_fields(9) [OF s8(2)] q by simp
  then have "brdsup s = Some (0, s8\<lparr>super := (super s8)\<lparr>sblkmx := word_of ?m ZNBLKS\<rparr>\<rparr>)"
    using s1(1) s2(1) s3(1) s4(1) s6(1) s8(1) ok
    by (simp add: brdsup_def super_ok_def btgerr_def ZVERS_def LFSHDR_def ZROOT_def)
  then show ?thesis using r9 by simp
qed

section \<open>Write-back of the whole cache\<close>

text \<open>\<open>btsync\<close>: the file then holds every block, with the super root if it was modified; the slots are
  empty, so nothing is pinned.\<close>

definition synced :: "memrec list \<Rightarrow> st \<Rightarrow> memrec list" where
  "synced B R =
     (if smod (super R) \<noteq> 0 then B[nat ZSUPER := super_block R (B ! nat ZSUPER)] else B)"

definition sync_rest :: "st \<Rightarrow> st" where
  "sync_rest R = R\<lparr>super := (super R)\<lparr>smod := 0\<rparr>\<rparr>"

lemma forget_cache:
  assumes f: "reps s f B P R"
  shows "runs (initcntrl s) (\<lambda>s'. repr s' f {} R \<and> idxunt s' = Some f)"
proof -
  note D = reps_D [OF f]
  have "list_all wf_memrec (mems s)"
    using D(3,8) by (auto simp: list_all_length slot_ok_def)
  then show ?thesis using initcntrl_repr [OF D(1,9,10,7,2,3)] D(11) by simp
qed

lemma btsync_spec:
  assumes r: "repr s B P R" and b: "valid_blk B ZSUPER" "room P ZSUPER"
  shows "runs (btsync s) (\<lambda>(e, s'). e = qerror R \<and> repr s' (synced B R) {} (sync_rest R) \<and>
    idxunt s' = Some (synced B R))"
proof -
  obtain f where "reps s f B P R" using r repr_reps by blast
  from sync_loop_spec [OF this, of 0 ZMXBLK] obtain s1 where
    s1: "sync_loop 0 ZMXBLK s = Some (False, s1)" "reps s1 B B P R" "clean s1"
    by (auto simp: runs_def)
  have r1: "repr s1 B P R" using s1(2) repr_reps by blast
  have open_s: "idxunt s \<noteq> None" using repr_fields(19) [OF r] .
  have init: "runs (do { s \<leftarrow> initcntrl s2; Some (btgerr s, s) })
      (\<lambda>(e, s'). e = qerror R \<and> repr s' C {} R' \<and> idxunt s' = Some C)"
    if s2: "repr s2 C P R'" "clean s2" "qerror R' = qerror R" for s2 C R'
  proof -
    obtain g where g: "reps s2 g C P R'" using s2(1) repr_reps by blast
    have "g = C" by (rule clean_file [OF g s2(2)])
    then obtain s3 where "initcntrl s2 = Some s3" "repr s3 C {} R'" "idxunt s3 = Some C"
      using forget_cache [OF g] by (auto simp: runs_def)
    then show ?thesis using reps_D(1) [OF g] repr_fields(9) s2(3) by (auto simp: btgerr_def)
  qed
  show ?thesis
  proof (cases "smod (super R) = 0")
    case True
    then have "smod (super s1) = 0" using repr_fields(8) [OF r1] by simp
    moreover have "sync_rest R = R" using True by (simp add: sync_rest_def)
    ultimately show ?thesis
      using open_s s1(1) init [OF r1 s1(3) refl] True by (auto simp: btsync_def synced_def)
  next
    case False
    then have sm: "smod (super s1) \<noteq> 0" using repr_fields(8) [OF r1] by simp
    have "dirty_only ZSUPER s1" using s1(3) by (simp add: dirty_only_def)
    then obtain s2 where s2: "bwrsup s1 = Some (0, s2)" "repr s2 (synced B R) P R" "clean s2"
      using bwrsup_spec [OF r1 b] False by (auto simp: runs_def synced_def)
    let ?s3 = "s2\<lparr>super := (super s2)\<lparr>smod := 0\<rparr>\<rparr>"
    have "repr ?s3 (synced B R) P (sync_rest R)"
      using repr_frame(3) [OF s2(2)] repr_fields(8) [OF s2(2)] by (simp add: sync_rest_def)
    moreover have "clean ?s3" "qerror (sync_rest R) = qerror R" using s2(3) by (simp_all add: sync_rest_def)
    ultimately show ?thesis
      using open_s s1(1) sm s2(1) init [of ?s3] by (auto simp: btsync_def)
  qed
qed

section \<open>Nesting of locks\<close>

text \<open>Inside a lock only the count changes.\<close>

lemma block_nested: "0 < lckcnt s \<Longrightarrow> block s = Some (True, s\<lparr>lckcnt := lckcnt s + 1\<rparr>)"
  by (simp add: block_def)

lemma bulock_nested: "1 < lckcnt s \<Longrightarrow> bulock s = Some (s\<lparr>lckcnt := lckcnt s - 1\<rparr>)"
  by (simp add: bulock_def)

text \<open>The outermost \<open>bulock\<close> leaves every block in the file.\<close>

lemma bulock_spec:
  assumes r: "repr s B P R" and b: "valid_blk B ZSUPER" "room P ZSUPER" and l: "lckcnt R = 1"
  shows "runs (bulock s) (\<lambda>s'. repr s' (synced B R) {} ((sync_rest R)\<lparr>lckcnt := 0\<rparr>) \<and>
    idxunt s' = Some (synced B R))"
proof -
  obtain s1 where s1: "btsync s = Some (qerror R, s1)" "repr s1 (synced B R) {} (sync_rest R)"
      "idxunt s1 = Some (synced B R)"
    using btsync_spec [OF r b] by (auto simp: runs_def)
  have "lckcnt s = 1" "ioenv s1 = (\<lambda>_ _. 0)" using repr_fields(3) [OF r] repr_fields(17) [OF s1(2)] l by simp_all
  then have "bulock s = Some (s1\<lparr>lckcnt := 0\<rparr>)" using s1(1) by (simp add: bulock_def)
  moreover have "repr (s1\<lparr>lckcnt := 0\<rparr>) (synced B R) {} ((sync_rest R)\<lparr>lckcnt := 0\<rparr>)"
    using s1(2) by auto
  ultimately show ?thesis using s1(3) by simp
qed

text \<open>\<open>block\<close> of a shared index with a current root reads the super root anew and pins the root.\<close>

lemma block_granted:
  assumes r: "repr s B {} R" and l: "lckcnt R = 0" "lkenv R = []" "shared R"
    and b: "valid_blk B ZSUPER" "super_ok (B ! nat ZSUPER)" "qerror R = 0"
    and root: "s_scroot R = c" "valid_blk B c"
  shows "runs (block s) (\<lambda>(ok, s'). ok \<and>
    repr s' B {c} ((load_super (B ! nat ZSUPER) R)\<lparr>lckcnt := 1\<rparr>))"
proof -
  let ?R = "load_super (B ! nat ZSUPER) R"
  have rm: "room {} ZSUPER" "room {} c" by (simp_all add: room_def ZMXBLK_def)
  have S: "\<not> 0 < lckcnt s" "lkenv s = []" "shared s" "s_scroot s = c" "c \<noteq> ZNULL"
    using repr_fields [OF r] l root by (auto simp: valid_blk_def ZNULL_def)
  obtain s1 where s1: "brdsup s = Some (0, s1)" "repr s1 B {} ?R"
    using brdsup_spec [OF r b(1) rm(1) b(2,3)] by (auto simp: runs_def)
  have c1: "s_scroot s1 = c" using repr_fields(8) [OF s1(2)] root by (simp add: load_super_def)
  obtain i s2 where s2: "brdblk c s1 = Some ((0, i), s2)" "repr s2 B {} ?R"
    using brdblk_spec [OF s1(2) root(2) rm(2)] by (auto simp: runs_def)
  have c2: "s_scroot s2 = c" using repr_fields(8) [OF s2(2)] root by (simp add: load_super_def)
  obtain s3 where s3: "bsetbs c 1 s2 = Some s3" "repr s3 B {c} ?R"
    using bsetbs_spec [OF s2(2) root(2) rm(2), of 1] by (auto simp: runs_def)
  have "block s = Some (True, s3\<lparr>lckcnt := 1\<rparr>)"
    using S s1(1) s2(1) s3(1) c1 c2 by (simp add: block_def ask_lock_def)
  moreover have "repr (s3\<lparr>lckcnt := 1\<rparr>) B {c} (?R\<lparr>lckcnt := 1\<rparr>)" using s3(2) by auto
  ultimately show ?thesis by simp
qed

text \<open>\<open>n\<close> calls in a row.\<close>

fun iterate :: "nat \<Rightarrow> ('s \<Rightarrow> 's option) \<Rightarrow> 's \<Rightarrow> 's option" where
  "iterate 0 f s = Some s"
| "iterate (Suc n) f s = do { s \<leftarrow> f s; iterate n f s }"

lemma nested_locks:
  "0 < lckcnt s \<Longrightarrow>
   iterate n (\<lambda>s. do { (ok, s) \<leftarrow> block s; Some s }) s = Some (s\<lparr>lckcnt := lckcnt s + int n\<rparr>)"
  by (induction n arbitrary: s) (simp_all add: block_nested algebra_simps)

lemma nested_unlocks:
  "0 < c \<Longrightarrow> iterate n bulock (s\<lparr>lckcnt := c + int n\<rparr>) = Some (s\<lparr>lckcnt := c\<rparr>)"
proof (induction n)
  case (Suc n)
  have "bulock (s\<lparr>lckcnt := c + int (Suc n)\<rparr>) = Some (s\<lparr>lckcnt := c + int n\<rparr>)"
    using Suc.prems by (simp add: bulock_nested)
  then show ?case using Suc by simp
qed simp

end
