(* ===== verification/Bytes.thy ===== *)
theory Bytes
  imports State
begin

text \<open>
  The byte encodings of \<open>btdata.c\<close>: segment sizes (\<open>rdsz\<close>, \<open>wrsz\<close>), block addresses (\<open>rdint\<close>,
  \<open>wrint\<close>, little endian), the packing of a data address (\<open>mkdraddr\<close>, \<open>cnvdraddr\<close>), and the memory
  image of a duplicate key entry (\<open>struct bt_dkey\<close>) that \<open>btdupkey.c\<close> stores as a data record.
\<close>

section \<open>Encodings\<close>

fun le_int :: "byte list \<Rightarrow> int" where
  "le_int [] = 0"
| "le_int (b # bs) = uint b OR push_bit ZBYTEW (le_int bs)"

definition le_bytes :: "nat \<Rightarrow> int \<Rightarrow> byte list" where
  "le_bytes n i = map (\<lambda>k. word_of_int (drop_bit (ZBYTEW * k) i)) [0..<n]"

definition rdsz :: "byte list \<Rightarrow> int \<Rightarrow> int option" where
  "rdsz d a = do { bs \<leftarrow> arr_slice d a ZDRSZ; Some (le_int bs) }"

definition rdint :: "byte list \<Rightarrow> int \<Rightarrow> int option" where
  "rdint d a = do { bs \<leftarrow> arr_slice d a (int ZBPW); Some (to_int32 (le_int bs)) }"

definition wrsz :: "int \<Rightarrow> byte list \<Rightarrow> int \<Rightarrow> byte list option" where
  "wrsz i d a = arr_blit d a (le_bytes (nat ZDRSZ) i)"

definition wrint :: "int \<Rightarrow> byte list \<Rightarrow> int \<Rightarrow> byte list option" where
  "wrint i d a = arr_blit d a (le_bytes ZBPW i)"

definition cnvdraddr :: "int \<Rightarrow> int \<times> int" where
  "cnvdraddr da = (cdiv da ZBLKSZ, da AND (ZBLKSZ - 1))"

definition mkdraddr :: "int \<Rightarrow> int \<Rightarrow> int" where
  "mkdraddr dblk offset = (to_int32 (dblk * ZBLKSZ)) OR offset"

section \<open>Duplicate key entries\<close>

definition SIZEOF_DKEY :: int where
  "SIZEOF_DKEY = int ZKYLEN + 4 + 3 * int ZBPW"

definition key_bytes :: "string \<Rightarrow> byte list" where
  "key_bytes k = map of_char k @ replicate (ZKYLEN - length k) 0"

definition bytes_key :: "byte list \<Rightarrow> string" where
  "bytes_key bs = map (\<lambda>b. char_of (unat b)) (takeWhile (\<lambda>b. b \<noteq> 0) bs)"

definition dkey_bytes :: "dkey \<Rightarrow> byte list" where
  "dkey_bytes d =
     key_bytes (dk_key d) @ le_bytes 4 (dk_deleted d) @ le_bytes ZBPW (dk_val d) @
     le_bytes ZBPW (dk_flink d) @ le_bytes ZBPW (dk_blink d)"

definition bytes_dkey :: "byte list \<Rightarrow> dkey" where
  "bytes_dkey bs =
     (let w = (\<lambda>k. to_int32 (le_int (take 4 (drop (ZKYLEN + 4 * k) bs))))
      in \<lparr>dk_key = bytes_key (take ZKYLEN bs), dk_deleted = w 0, dk_val = w 1, dk_flink = w 2,
          dk_blink = w 3\<rparr>)"

section \<open>Round trips\<close>

locale codec =
  fixes enc :: "'a \<Rightarrow> 'b list" and dec :: "'b list \<Rightarrow> 'a" and ok :: "'a \<Rightarrow> bool" and width :: nat
  assumes dec_enc: "ok x \<Longrightarrow> dec (enc x) = x"
    and enc_length: "ok x \<Longrightarrow> length (enc x) = width"
begin

text \<open>A value written into a buffer is read back, and survives writes that do not overlap it.\<close>

lemma read_written:
  assumes "ok x" and "arr_blit d a (enc x) = Some d'"
  shows "map_option dec (arr_slice d' a (int width)) = Some x"
  using slice_blit_same [OF assms(2)] assms(1) by (simp add: dec_enc enc_length)

lemma read_after_other_write:
  assumes "ok x" and "arr_slice d a (int width) = Some (enc x)" and "arr_blit d b ys = Some d'"
    and "0 \<le> a" and "b + int (length ys) \<le> a \<or> a + int width \<le> b"
  shows "map_option dec (arr_slice d' a (int width)) = Some x"
  using assms(5)
proof
  assume "b + int (length ys) \<le> a"
  then show ?thesis using slice_blit_after [OF assms(3)] assms by (simp add: dec_enc)
next
  assume "a + int width \<le> b"
  then show ?thesis using slice_blit_before [OF assms(3,4)] assms by (simp add: dec_enc)
qed

lemma enc_inj: "ok x \<Longrightarrow> ok y \<Longrightarrow> enc x = enc y \<Longrightarrow> x = y"
  by (metis dec_enc)

end

lemma length_le_bytes [simp]: "length (le_bytes n i) = n"
  by (simp add: le_bytes_def)

lemma le_bytes_Suc: "le_bytes (Suc n) i = word_of_int i # le_bytes n (drop_bit ZBYTEW i)"
  by (simp add: le_bytes_def upt_rec [of 0] map_Suc_upt [symmetric] del: upt_Suc)
     (simp add: map_Suc_upt [symmetric] drop_bit_drop_bit ac_simps del: upt_Suc)

lemma uint_byte: "uint (word_of_int i :: byte) = take_bit 8 i"
  by (simp add: uint_word_of_int take_bit_eq_mod)

lemma take_bit_split8: "take_bit (8 + n) (i::int) = take_bit 8 i OR push_bit 8 (take_bit n (drop_bit 8 i))"
  by (rule bit_eqI) (auto simp: bit_simps)

lemma le_int_bytes: "le_int (le_bytes n i) = take_bit (8 * n) i"
proof (induction n arbitrary: i)
  case 0
  then show ?case by (simp add: le_bytes_def)
next
  case (Suc n)
  then show ?case
    using take_bit_split8 [of "8 * n" i] by (simp add: le_bytes_Suc uint_byte ZBYTEW_def)
qed

lemma rdsz_codec: "codec (le_bytes (nat ZDRSZ)) le_int (\<lambda>i. 0 \<le> i \<and> i < 2 ^ 16) (nat ZDRSZ)"
  by unfold_locales (auto simp: le_int_bytes ZDRSZ_def take_bit_int_eq_self)

lemma to_int32_take_bit [simp]: "to_int32 (take_bit 32 i) = to_int32 i"
  by (rule bit_eqI) (auto simp: to_int32_def bit_simps min_def)

lemma rdint_codec:
  "codec (le_bytes ZBPW) (\<lambda>bs. to_int32 (le_int bs)) (\<lambda>i. - (2 ^ 31) \<le> i \<and> i < 2 ^ 31) ZBPW"
  by unfold_locales (auto simp: le_int_bytes ZBPW_def)

interpretation sz: codec "le_bytes (nat ZDRSZ)" le_int "\<lambda>i. 0 \<le> i \<and> i < 2 ^ 16" "nat ZDRSZ"
  by (rule rdsz_codec)

interpretation word: codec "le_bytes ZBPW" "\<lambda>bs. to_int32 (le_int bs)"
  "\<lambda>i. - (2 ^ 31) \<le> i \<and> i < 2 ^ 31" ZBPW
  by (rule rdint_codec)

section \<open>Images of entries and addresses\<close>

lemma length_key_bytes: "length k \<le> ZKYLEN \<Longrightarrow> length (key_bytes k) = ZKYLEN"
  by (simp add: key_bytes_def)

lemma unat_of_char [simp]: "unat (of_char c :: byte) = of_char c"
proof -
  have "(of_char c :: byte) = word_of_nat (of_char c)" by (simp add: of_nat_of_char)
  then show ?thesis by (simp add: unsigned_of_nat take_bit_eq_mod)
qed

lemma byte_of_char_eq_0: "(of_char c :: byte) = 0 \<longleftrightarrow> c = CHR 0x00"
proof
  assume "(of_char c :: byte) = 0"
  then have "unat (of_char c :: byte) = 0" by simp
  then have "(of_char c :: nat) = of_char (CHR 0x00)" by simp
  then show "c = CHR 0x00" by (rule of_char_eqI)
qed simp

lemma bytes_key_bytes:
  assumes "length k < ZKYLEN" "CHR 0x00 \<notin> set k"
  shows "bytes_key (key_bytes k) = k"
proof -
  have "takeWhile (\<lambda>b. b \<noteq> 0) (map of_char k @ replicate (ZKYLEN - length k) (0::byte)) = map of_char k"
    using assms by (subst takeWhile_append2) (auto simp: byte_of_char_eq_0 image_iff)
  then show ?thesis by (simp add: bytes_key_def key_bytes_def comp_def map_idI)
qed

definition dkey_ok :: "dkey \<Rightarrow> bool" where
  "dkey_ok d \<longleftrightarrow> length (dk_key d) < ZKYLEN \<and> CHR 0x00 \<notin> set (dk_key d) \<and>
     (\<forall>v \<in> {dk_deleted d, dk_val d, dk_flink d, dk_blink d}. - (2 ^ 31) \<le> v \<and> v < 2 ^ 31)"

lemma dkey_codec: "codec dkey_bytes bytes_dkey dkey_ok (nat SIZEOF_DKEY)"
proof
  fix d assume d: "dkey_ok d"
  have l: "length (key_bytes (dk_key d)) = ZKYLEN"
    using d by (simp add: dkey_ok_def length_key_bytes)
  show "length (dkey_bytes d) = nat SIZEOF_DKEY"
    using l by (simp add: dkey_bytes_def SIZEOF_DKEY_def ZBPW_def ZKYLEN_def)
  have "to_int32 (take_bit 32 v) = v" if "- (2 ^ 31) \<le> v" "v < 2 ^ 31" for v
    using that by simp
  then show "bytes_dkey (dkey_bytes d) = d"
    using d l
    by (simp add: bytes_dkey_def dkey_bytes_def dkey_ok_def bytes_key_bytes le_int_bytes ZBPW_def Let_def)
qed

interpretation dk: codec dkey_bytes bytes_dkey dkey_ok "nat SIZEOF_DKEY"
  by (rule dkey_codec)

text \<open>A data address packs a block and an offset within it.\<close>

lemma mkdraddr_sum:
  assumes "0 \<le> b" "b < 2 ^ 21" "0 \<le> off" "off < ZBLKSZ"
  shows "mkdraddr b off = b * ZBLKSZ + off"
proof -
  have o: "off = take_bit 10 off" using assms by (simp add: ZBLKSZ_def take_bit_int_eq_self)
  have "push_bit 10 b AND off = 0" by (subst o, rule bit_eqI) (auto simp: bit_simps)
  then have "push_bit 10 b OR off = push_bit 10 b + off" by (simp add: disjunctive_add_eq_or)
  moreover have "to_int32 (b * ZBLKSZ) = b * ZBLKSZ" using assms by (simp add: ZBLKSZ_def)
  ultimately show ?thesis by (simp add: mkdraddr_def push_bit_eq_mult ZBLKSZ_def)
qed

lemma cnvdraddr_mkdraddr:
  assumes "0 \<le> b" "b < 2 ^ 21" "0 \<le> off" "off < ZBLKSZ"
  shows "cnvdraddr (mkdraddr b off) = (b, off)"
proof -
  have "(b * 1024 + off) AND 1023 = take_bit 10 (b * 1024 + off)"
    by (simp add: take_bit_eq_mask mask_eq_exp_minus_1)
  then show ?thesis
    using assms by (simp add: cnvdraddr_def mkdraddr_sum ZBLKSZ_def take_bit_eq_mod)
qed

end
