(* ===== verification/Data.thy ===== *)
theory Data
  imports Lock Bytes
begin

text \<open>
  Data records (the internal routines of \<open>src-lib/btdata.c\<close>). A record is a chain of segments, each
  prefixed by its size and the address of the next segment (0 at the end). Segments are appended to
  the active data block of a root; a record that does not fit is split, its last segment stored
  first. Info words of a data block: \<open>ZMISC\<close> bytes free, \<open>ZNXBLK\<close> and \<open>ZNBLKS\<close> links of the chain of
  data blocks, \<open>ZNKEYS\<close> next free byte, \<open>ZNXDUP\<close> minimum segment size.
\<close>

section \<open>Segments\<close>

definition upd_dat :: "int \<Rightarrow> (byte list \<Rightarrow> byte list option) \<Rightarrow> st \<Rightarrow> st option" where
  "upd_dat idx f s = upd_mem idx (\<lambda>m. do { d \<leftarrow> f (dat m); Some (m\<lparr>dat := d\<rparr>) }) s"

definition getseginfo :: "int \<Rightarrow> st \<Rightarrow> ((int \<times> (int \<times> int) option) \<times> st) option" where
  "getseginfo da s = do {
     let (blk, offset) = cnvdraddr da;
     ((status, idx), s) \<leftarrow> brdblk blk s;
     if status \<noteq> 0 then Some ((status, None), s)
     else do {
       m \<leftarrow> get_mem idx s;
       sz \<leftarrow> rdsz (dat m) offset;
       nextseg \<leftarrow> rdint (dat m) (offset + ZDRSZ);
       Some ((0, Some (sz, nextseg)), s)
     }
   }"

definition mkdblk :: "int \<Rightarrow> st \<Rightarrow> (int \<times> st) option" where
  "mkdblk blk_type s = do {
     (blk, s) \<leftarrow> bgtfre s;
     if blk \<noteq> ZNULL then
       if mkdraddr blk 0 = 0 then Some (ZNULL, bterr ''MKDBLK'' QDAOVR (Some (itostr blk)) s)
       else if blk_type = ZDATA then do {
         s \<leftarrow> bsetbk blk blk_type ZDATSZ ZNULL 0 ZNULL ZDSGMN s;
         Some (blk, s)
       } else if blk_type = ZDUP then do {
         s \<leftarrow> bsetbk blk blk_type ZDATSZ ZNULL 0 ZNULL SIZEOF_DKEY s;
         Some (blk, s)
       } else Some (ZNULL, bterr ''MKDBLK'' (-1) (Some (itostr blk_type)) s)
     else Some (ZNULL, s)
   }"

definition insdat :: "int \<Rightarrow> byte list \<Rightarrow> int \<Rightarrow> st \<Rightarrow> (int \<times> st) option" where
  "insdat blk data prevseg s = do {
     let dsize = int (length data);
     (offset, s) \<leftarrow> bgtinf blk ZNKEYS s;
     ((ioerr, idx), s) \<leftarrow> brdblk blk s;
     s \<leftarrow> upd_dat idx (\<lambda>d. wrsz dsize d offset) s;
     s \<leftarrow> upd_dat idx (\<lambda>d. wrint prevseg d (offset + ZDRSZ)) s;
     s \<leftarrow> upd_dat idx (\<lambda>d. arr_blit d (offset + ZDOVRH) data) s;
     s \<leftarrow> inc_writes idx 1 s;
     s \<leftarrow> bstinf blk ZNKEYS (offset + ZDOVRH + dsize) s;
     (freesz, s) \<leftarrow> bgtinf blk ZMISC s;
     s \<leftarrow> bstinf blk ZMISC (freesz - (ZDOVRH + dsize)) s;
     s \<leftarrow> write_through blk idx s;
     Some (offset, s)
   }"

text \<open>\<open>deldat\<close> gives the bytes of a segment back; the last segment of a block frees the block.\<close>

definition deldat :: "int \<Rightarrow> int \<Rightarrow> st \<Rightarrow> (int \<times> st) option" where
  "deldat blk offset s = do {
     ((status, idx), s) \<leftarrow> brdblk blk s;
     if status \<noteq> 0 then Some (status, s)
     else do {
       (freesz, s) \<leftarrow> bgtinf blk ZMISC s;
       m \<leftarrow> get_mem idx s;
       sz \<leftarrow> rdsz (dat m) offset;
       let freesz = freesz + (sz + ZDOVRH);
       s \<leftarrow>
         (if freesz = ZDATSZ then do {
            s \<leftarrow> bstinf blk ZMISC freesz s;
            s \<leftarrow> bstinf blk ZNKEYS 0 s;
            (pblk, s) \<leftarrow> bgtinf blk ZNBLKS s;
            (nblk, s) \<leftarrow> bgtinf blk ZNXBLK s;
            s \<leftarrow> (if nblk \<noteq> ZNULL then bstinf nblk ZNBLKS pblk s else Some s);
            s \<leftarrow> (if pblk \<noteq> ZNULL then bstinf pblk ZNXBLK nblk s else Some s);
            s \<leftarrow> bmkfre blk s;
            (act, s) \<leftarrow> bgtinf (s_scroot s) ZNXBLK s;
            if blk = act then bstinf (s_scroot s) ZNXBLK ZNULL s else Some s
          } else if freesz < 0 \<or> ZDATSZ < freesz then
            Some (bterr ''DELDAT'' QNEGSZ (Some (itostr freesz)) s)
          else bstinf blk ZMISC freesz s);
       s \<leftarrow> write_through blk idx s;
       Some (0, s)
     }
   }"

section \<open>Records\<close>

text \<open>
  The loop of \<open>binsdt\<close>: \<open>remsize\<close> bytes of \<open>data\<close> (its first ones) are still to be stored, \<open>segaddr\<close>
  is the address of the segment that follows them. Result: \<open>None\<close> after \<open>goto fin\<close>, otherwise the
  block and offset of the segment stored last.
\<close>

partial_function (option) binsdt_loop ::
  "int \<Rightarrow> int \<Rightarrow> int \<Rightarrow> byte list \<Rightarrow> int \<Rightarrow> int \<Rightarrow> int \<Rightarrow> int option \<Rightarrow> st \<Rightarrow>
   ((int \<times> int option) option \<times> st) option" where
  "binsdt_loop type listidx minseg data dblk remsize segaddr offset s =
     (if 0 \<le> remsize then do {
        (used, s) \<leftarrow> bgtinf dblk ZNKEYS s;
        let freesz = ZDATSZ - used;
        if remsize + ZDOVRH \<le> freesz then do {
          seg \<leftarrow> arr_slice data 0 remsize;
          (o', s) \<leftarrow> insdat dblk seg segaddr s;
          binsdt_loop type listidx minseg data dblk (-1) segaddr (Some o') s
        } else if freesz < ZDOVRH + minseg then do {
          (nblk, s) \<leftarrow> mkdblk type s;
          if nblk = ZNULL then Some (None, bterr ''BINSDT'' QNOBLK None s)
          else do {
            s \<leftarrow> bstinf nblk ZNXBLK dblk s;
            s \<leftarrow> bstinf dblk ZNBLKS nblk s;
            s \<leftarrow> bstinf (s_scroot s) listidx nblk s;
            binsdt_loop type listidx minseg data nblk remsize segaddr offset s
          }
        } else do {
          let n = freesz - ZDOVRH;
          seg \<leftarrow> arr_slice data (remsize - n) n;
          (o', s) \<leftarrow> insdat dblk seg segaddr s;
          binsdt_loop type listidx minseg data dblk (remsize - n) (mkdraddr dblk o') (Some o') s
        }
      } else Some (Some (dblk, offset), s))"

definition binsdt :: "int \<Rightarrow> byte list \<Rightarrow> st \<Rightarrow> (int \<times> st) option" where
  "binsdt type data s = do {
     let listidx = (if type = ZDATA then ZNXBLK else ZNXDUP);
     (dblk, s) \<leftarrow> bgtinf (s_scroot s) listidx s;
     (stop, dblk, s) \<leftarrow>
       (if dblk = ZNULL then do {
          (dblk, s) \<leftarrow> mkdblk type s;
          if dblk = ZNULL then Some (True, dblk, bterr ''BINSDT'' QNOBLK None s)
          else do { s \<leftarrow> bstinf (s_scroot s) listidx dblk s; Some (False, dblk, s) }
        } else Some (False, dblk, s));
     if stop then Some (ZNULL, s)
     else do {
       (t, s) \<leftarrow> bgtinf dblk ZBTYPE s;
       if t \<noteq> type then Some (ZNULL, bterr ''BINSDT'' QNOTDA (Some (itostr dblk)) s)
       else do {
         (minseg, s) \<leftarrow> bgtinf dblk ZNXDUP s;
         (r, s) \<leftarrow> binsdt_loop type listidx minseg data dblk (int (length data)) 0 None s;
         case r of
           None \<Rightarrow> Some (ZNULL, s)
         | Some (dblk, offset) \<Rightarrow> do {
             offset \<leftarrow> offset;
             if offset = ZNULL then Some (ZNULL, s) else Some (mkdraddr dblk offset, s)
           }
       }
     }
   }"

text \<open>\<open>bseldt\<close>: the total size copied (-1 after an error) and the bytes copied.\<close>

partial_function (option) bseldt_loop ::
  "int \<Rightarrow> int \<Rightarrow> int \<Rightarrow> byte list \<Rightarrow> st \<Rightarrow> ((int \<times> byte list) \<times> st) option" where
  "bseldt_loop da sprem totsz out s =
     (if 0 < sprem \<and> da \<noteq> 0 then do {
        let (dblk, offset) = cnvdraddr da;
        (type, s) \<leftarrow> bgtinf dblk ZBTYPE s;
        if type \<noteq> ZDATA \<and> type \<noteq> ZDUP then
          Some ((-1, out), bterr ''BSELDT'' QNOTDA (Some (itostr dblk)) s)
        else do {
          ((ioerr, idx), s) \<leftarrow> brdblk dblk s;
          m \<leftarrow> get_mem idx s;
          segsz \<leftarrow> rdsz (dat m) offset;
          nxt \<leftarrow> rdint (dat m) (offset + ZDRSZ);
          let cpsz = (if sprem < segsz then sprem else segsz);
          bs \<leftarrow> arr_slice (dat m) (offset + ZDOVRH) cpsz;
          bseldt_loop nxt (sprem - cpsz) (totsz + cpsz) (out @ bs) s
        }
      } else Some ((totsz, out), s))"

definition bseldt :: "int \<Rightarrow> int \<Rightarrow> st \<Rightarrow> ((int \<times> byte list) \<times> st) option" where
  "bseldt da dsize s = bseldt_loop da dsize 0 [] s"

text \<open>\<open>bdeldt\<close>: the status is uninitialised (\<open>None\<close>) for the address 0.\<close>

partial_function (option) bdeldt_loop ::
  "int \<Rightarrow> int option \<Rightarrow> st \<Rightarrow> (int option \<times> st) option" where
  "bdeldt_loop da status s =
     (if da \<noteq> 0 then do {
        let (dblk, offset) = cnvdraddr da;
        (t, s) \<leftarrow> bgtinf dblk ZBTYPE s;
        if t \<noteq> ZDATA then Some (Some QNOTDA, bterr ''BDELDT'' QNOTDA None s)
        else do {
          ((e, seg), s) \<leftarrow> getseginfo da s;
          (status, s) \<leftarrow> deldat dblk offset s;
          bdeldt_loop (case seg of None \<Rightarrow> da | Some (sz, nxt) \<Rightarrow> nxt) (Some status) s
        }
      } else Some (status, s))"

definition bdeldt :: "int \<Rightarrow> st \<Rightarrow> (int option \<times> st) option" where
  "bdeldt da s = bdeldt_loop da None s"

text \<open>The loop of \<open>bupddt\<close>. Result: \<open>None\<close> after \<open>goto fin\<close>, otherwise the address that follows the
  segments used, the data not stored and its size, and the last segment with its type.\<close>

partial_function (option) bupddt_loop ::
  "int \<Rightarrow> byte list \<Rightarrow> int \<Rightarrow> (int \<times> int \<times> int) option \<Rightarrow> st \<Rightarrow>
   ((int \<times> byte list \<times> int \<times> (int \<times> int \<times> int) option) option \<times> st) option" where
  "bupddt_loop da data remsz lastseg s =
     (if da \<noteq> 0 \<and> 0 \<le> remsz then do {
        let (dblk, offset) = cnvdraddr da;
        (type, s) \<leftarrow> bgtinf dblk ZBTYPE s;
        if type \<noteq> ZDATA \<and> type \<noteq> ZDUP then
          Some (None, bterr ''BUPDDT'' QNOTDA (Some (itostr da)) s)
        else do {
          ((e, seg), s) \<leftarrow> getseginfo da s;
          (segsz, nxt) \<leftarrow> seg;
          ((e, idx), s) \<leftarrow> brdblk dblk s;
          let cpsz = (if remsz < segsz then remsz else segsz);
          bs \<leftarrow> arr_slice data 0 cpsz;
          s \<leftarrow> upd_dat idx (\<lambda>d. arr_blit d (offset + ZDOVRH) bs) s;
          s \<leftarrow> inc_writes idx 1 s;
          (remsz, s) \<leftarrow>
            (if cpsz = remsz then do {
               s \<leftarrow> upd_dat idx (\<lambda>d. wrsz cpsz d offset) s;
               s \<leftarrow> upd_dat idx (\<lambda>d. wrint 0 d (offset + ZDRSZ)) s;
               (freesz, s) \<leftarrow> bgtinf dblk ZMISC s;
               s \<leftarrow> bstinf dblk ZMISC (freesz + (segsz - cpsz)) s;
               Some (if cpsz = 0 then -1 else remsz, s)
             } else Some (remsz, s));
          bupddt_loop nxt (drop (nat cpsz) data) (remsz - cpsz) (Some (dblk, offset, type)) s
        }
      } else Some (Some (da, data, remsz, lastseg), s))"

definition bupddt :: "int \<Rightarrow> byte list \<Rightarrow> st \<Rightarrow> (int \<times> st) option" where
  "bupddt da data s = do {
     (r, s) \<leftarrow> bupddt_loop da data (int (length data)) None s;
     s \<leftarrow> (case r of
             None \<Rightarrow> Some s
           | Some (da, data, remsz, lastseg) \<Rightarrow>
               if da \<noteq> 0 then do { (e, s) \<leftarrow> bdeldt da s; Some s }
               else if 0 < remsz then do {
                 (dblk, offset, type) \<leftarrow> lastseg;
                 (n, s) \<leftarrow> binsdt type (take (nat remsz) data) s;
                 let n = (if n = ZNULL then 0 else n);
                 ((e, idx), s) \<leftarrow> brdblk dblk s;
                 s \<leftarrow> upd_dat idx (\<lambda>d. wrint n d (offset + ZDRSZ)) s;
                 inc_writes idx 1 s
               } else Some s);
     Some (btgerr s, s)
   }"

text \<open>\<open>brecsz\<close> outside recovery mode (\<open>dr_index == NULL\<close>): the sum of the segment sizes.\<close>

partial_function (option) brecsz_loop :: "int \<Rightarrow> int \<Rightarrow> st \<Rightarrow> (int \<times> st) option" where
  "brecsz_loop da recsz s =
     (if da \<noteq> 0 then do {
        let (blk, offset) = cnvdraddr da;
        (t, s) \<leftarrow> bgtinf blk ZBTYPE s;
        if t \<noteq> ZDATA then Some (0, bterr ''BRECSZ'' QNOTDA (Some (itostr blk)) s)
        else do {
          ((e, seg), s) \<leftarrow> getseginfo da s;
          (segsz, nxt) \<leftarrow> seg;
          if nxt = da then Some (0, bterr ''BRECSZ'' QDLOOP (Some (itohex da)) s)
          else brecsz_loop nxt (recsz + segsz) s
        }
      } else Some (recsz, s))"

definition brecsz :: "int \<Rightarrow> st \<Rightarrow> (int \<times> st) option" where
  "brecsz da s = brecsz_loop da 0 s"

definition dataok :: "st \<Rightarrow> bool" where
  "dataok s \<longleftrightarrow> s_scroot s \<noteq> ZSUPER"

text \<open>The loops, for evaluation.\<close>

declare binsdt_loop.simps [code] and
  bseldt_loop.simps [code] and
  bdeldt_loop.simps [code] and
  bupddt_loop.simps [code] and
  brecsz_loop.simps [code]

end
