(* ===== verification/KeyBlock.thy ===== *)
theory KeyBlock
  imports Info
begin

text \<open>
  The operations on the keys of one index block: search (\<open>bsrhbk\<close>), insertion in order (\<open>bputky\<close>),
  replacement (\<open>brepky\<close>), removal (\<open>bremky\<close>) and the copy of a range of keys with their links
  between two blocks (\<open>bcpybk\<close>).
\<close>

section \<open>Search\<close>

text \<open>
  The parameters of \<open>bsrhbk\<close>: \<open>key\<close> and \<open>*loc\<close> go in and out, the others out only. \<open>None\<close> is an
  uninitialised variable of the caller; some paths leave them so.
\<close>

record srh =
  s_key :: "string option"
  s_loc :: int
  s_val :: "int option"
  s_link1 :: "int option"
  s_link2 :: "int option"
  s_result :: "int option"

definition srh_args :: "string option \<Rightarrow> int \<Rightarrow> srh" where
  "srh_args key loc =
     \<lparr>s_key = key, s_loc = loc, s_val = None, s_link1 = None, s_link2 = None, s_result = None\<rparr>"

text \<open>The loop of the binary search; the result is \<open>md\<close> and the last comparison.\<close>

function bsearch ::
  "keyent list \<Rightarrow> string \<Rightarrow> int \<Rightarrow> int \<Rightarrow> bool \<Rightarrow> int \<Rightarrow> int \<Rightarrow> (int \<times> int) option" where
  "bsearch ks key lo hi quit md result =
     (if lo \<le> hi \<and> \<not> quit then do {
        let quit = (lo = hi);
        let md = (lo + hi) div 2;
        e \<leftarrow> arr_get ks md;
        let result = strcmp key (ke_key e);
        if result > 0 then bsearch ks key (md + 1) hi quit md result
        else if result < 0 then bsearch ks key lo (md - 1) quit md result
        else Some (md, result)
      } else Some (md, result))"
  by pat_completeness auto
termination
  by (relation "measure (\<lambda>(ks, key, lo, hi, quit, md, result). nat (hi - lo + 1))") auto

declare bsearch.simps [simp del]

text \<open>\<open>bsrhbk\<close>: whether a key entry is returned (it is then in the static \<open>keyent\<close>), and the
  parameters.\<close>

definition bsrhbk :: "int \<Rightarrow> srh \<Rightarrow> st \<Rightarrow> ((bool \<times> srh) \<times> st) option" where
  "bsrhbk blk r s = do {
     ((ioerr, idx), s) \<leftarrow> brdblk blk s;
     if idx < 0 \<or> ioerr \<noteq> 0 then
       Some ((False, r), bterr ''BSRHBK'' QRDBLK (Some (itostr blk)) s)
     else do {
       m \<leftarrow> get_mem idx s;
       nkeys \<leftarrow> arr_get (infblk m) ZNKEYS;
       if 0 \<le> s_loc r \<and> nkeys \<le> s_loc r then Some ((False, r\<lparr>s_result := Some (-1)\<rparr>), s)
       else do {
         r \<leftarrow> (if 0 \<le> s_loc r then do {
                 e \<leftarrow> arr_get (keyblk m) (s_loc r);
                 Some (r\<lparr>s_result := Some 0, s_key := Some (strncpy_term ZKYLEN (ke_key e))\<rparr>)
               } else do {
                 (md, result) \<leftarrow>
                   (if nkeys \<le> 0 then Some (-1, -1)
                    else do {
                      k \<leftarrow> s_key r;
                      bsearch (keyblk m) k 0 (nkeys - 1) False (-1) (-1)
                    });
                 Some (r\<lparr>s_result := Some result, s_loc := md\<rparr>)
               });
         if s_loc r < 0 then
           Some ((False, r\<lparr>s_val := Some 0, s_link1 := Some ZNULL, s_link2 := Some ZNULL\<rparr>), s)
         else do {
           e \<leftarrow> arr_get (keyblk m) (s_loc r);
           l1 \<leftarrow> arr_get (lnkblk m) (s_loc r);
           l2 \<leftarrow> arr_get (lnkblk m) (s_loc r + 1);
           Some ((True, r\<lparr>s_val := Some (ke_val e), s_link1 := Some l1, s_link2 := Some l2\<rparr>),
                 s\<lparr>srh_keyent := e\<rparr>)
         }
       }
     }
   }"

text \<open>The dereference of the returned pointer.\<close>

definition kep_deref :: "bool \<Rightarrow> st \<Rightarrow> keyent option" where
  "kep_deref kep s = (if kep then Some (srh_keyent s) else None)"

section \<open>Insertion\<close>

text \<open>The loop that makes room: entries from \<open>i - 1\<close> down move one place up until one is smaller.
  The result is the position at which the loop stops.\<close>

fun put_shift :: "keyent \<Rightarrow> nat \<Rightarrow> memrec \<Rightarrow> (int \<times> memrec) option" where
  "put_shift k 0 m = Some (0, m)"
| "put_shift k (Suc j) m = do {
     e \<leftarrow> arr_get (keyblk m) (int j);
     if strcmp (ke_key k) (ke_key e) \<le> 0 then do {
       ks \<leftarrow> arr_set (keyblk m) (int j + 1) e;
       l \<leftarrow> arr_get (lnkblk m) (int j + 1);
       ls \<leftarrow> arr_set (lnkblk m) (int j + 2) l;
       put_shift k j (m\<lparr>keyblk := ks, lnkblk := ls\<rparr>)
     } else Some (int j + 1, m)
   }"

definition mem_set_key :: "int \<Rightarrow> keyent \<Rightarrow> memrec \<Rightarrow> memrec option" where
  "mem_set_key i k m = do { ks \<leftarrow> arr_set (keyblk m) i k; Some (m\<lparr>keyblk := ks\<rparr>) }"

definition mem_set_link :: "int \<Rightarrow> int \<Rightarrow> memrec \<Rightarrow> memrec option" where
  "mem_set_link i l m = do { ls \<leftarrow> arr_set (lnkblk m) i l; Some (m\<lparr>lnkblk := ls\<rparr>) }"

text \<open>The body of \<open>bputky\<close> on the block in memory, without the key count.\<close>

definition mem_putky :: "keyent \<Rightarrow> int \<Rightarrow> int \<Rightarrow> int \<Rightarrow> memrec \<Rightarrow> memrec option" where
  "mem_putky k link1 link2 nkeys m =
     (if nkeys = 0 then do {
        m \<leftarrow> mem_set_key 0 k m;
        m \<leftarrow> mem_set_link 0 link1 m;
        mem_set_link 1 link2 m
      } else if nkeys < 0 then None
      else do {
        (i, m) \<leftarrow> (if link1 = ZNULL \<and> link2 \<noteq> ZNULL then Some (nkeys, m)
                   else put_shift k (nat nkeys) m);
        m \<leftarrow> (if i = 0 then do { l \<leftarrow> arr_get (lnkblk m) 0; mem_set_link 1 l m } else Some m);
        m \<leftarrow> mem_set_key i k m;
        if link1 = ZNULL \<and> link2 = ZNULL then do {
          m \<leftarrow> mem_set_link i ZNULL m;
          mem_set_link (i + 1) ZNULL m
        } else do {
          m \<leftarrow> (if i = 0 then mem_set_link 0 link1 m else Some m);
          if 0 \<le> link2 then mem_set_link (i + 1) link2 m else Some m
        }
      })"

definition mem_add_nkeys :: "int \<Rightarrow> memrec \<Rightarrow> memrec option" where
  "mem_add_nkeys d m = do {
     n \<leftarrow> arr_get (infblk m) ZNKEYS;
     w \<leftarrow> arr_set (infblk m) ZNKEYS (n + d);
     Some (m\<lparr>infblk := w\<rparr>)
   }"

definition bputky :: "int \<Rightarrow> keyent \<Rightarrow> int \<Rightarrow> int \<Rightarrow> st \<Rightarrow> st option" where
  "bputky blk k link1 link2 s = do {
     ((ioerr, idx), s) \<leftarrow> brdblk blk s;
     if idx < 0 \<or> ioerr \<noteq> 0 then do {
       let s = bterr ''BPUTKY'' QRDBLK (Some (itostr blk)) s;
       s \<leftarrow> upd_mem idx (mem_add_nkeys 1) s;
       s \<leftarrow> inc_writes idx 1 s;
       write_through blk idx s
     } else do {
       m \<leftarrow> get_mem idx s;
       nkeys \<leftarrow> arr_get (infblk m) ZNKEYS;
       if nkeys = ZMXKEY then Some (bterr ''BPUTKY'' QBLKFL (Some (itostr blk)) s)
       else do {
         s \<leftarrow> upd_mem idx (mem_putky k link1 link2 nkeys) s;
         s \<leftarrow> upd_mem idx (mem_add_nkeys 1) s;
         s \<leftarrow> inc_writes idx 1 s;
         write_through blk idx s
       }
     }
   }"

section \<open>Replacement and removal\<close>

definition mem_repky :: "int \<Rightarrow> keyent \<Rightarrow> int \<Rightarrow> int \<Rightarrow> memrec \<Rightarrow> memrec option" where
  "mem_repky loc k link1 link2 m = do {
     m \<leftarrow> mem_set_key loc k m;
     m \<leftarrow> mem_set_link loc link1 m;
     mem_set_link (loc + 1) link2 m
   }"

definition brepky :: "int \<Rightarrow> int \<Rightarrow> keyent \<Rightarrow> int \<Rightarrow> int \<Rightarrow> st \<Rightarrow> st option" where
  "brepky blk loc k link1 link2 s =
     (if ZMXKEY \<le> loc \<or> loc < 0 then Some (bterr ''BREPKY'' QLOCTB (Some (itostr loc)) s)
      else do {
        ((ioerr, idx), s) \<leftarrow> brdblk blk s;
        if idx < 0 \<or> ioerr \<noteq> 0 then Some (bterr ''BREPKY'' QRDBLK (Some (itostr blk)) s)
        else do {
          s \<leftarrow> upd_mem idx (mem_repky loc k link1 link2) s;
          inc_writes idx 1 s
        }
      })"

text \<open>The loop of \<open>bremky\<close>: \<open>n\<close> entries from position \<open>i\<close> on are replaced by their successors.\<close>

fun rem_shift :: "nat \<Rightarrow> int \<Rightarrow> memrec \<Rightarrow> memrec option" where
  "rem_shift 0 i m = Some m"
| "rem_shift (Suc n) i m = do {
     e \<leftarrow> arr_get (keyblk m) (i + 1);
     ks \<leftarrow> arr_set (keyblk m) i e;
     l \<leftarrow> arr_get (lnkblk m) (i + 2);
     ls \<leftarrow> arr_set (lnkblk m) (i + 1) l;
     rem_shift n (i + 1) (m\<lparr>keyblk := ks, lnkblk := ls\<rparr>)
   }"

definition mem_remky :: "int \<Rightarrow> memrec \<Rightarrow> memrec option" where
  "mem_remky pos m = do {
     m \<leftarrow> mem_add_nkeys (-1) m;
     n \<leftarrow> arr_get (infblk m) ZNKEYS;
     rem_shift (nat (n - pos)) pos m
   }"

definition bremky :: "int \<Rightarrow> int \<Rightarrow> st \<Rightarrow> st option" where
  "bremky blk pos s = do {
     ((ioerr, idx), s) \<leftarrow> brdblk blk s;
     if idx < 0 \<or> ioerr \<noteq> 0 then Some (bterr ''BREMKY'' QRDBLK (Some (itostr blk)) s)
     else do {
       s \<leftarrow> upd_mem idx (mem_remky pos) s;
       s \<leftarrow> inc_writes idx 1 s;
       write_through blk idx s
     }
   }"

section \<open>Copy of a range of keys\<close>

text \<open>The loop copies entry \<open>j\<close> of slot \<open>fidx\<close> to place \<open>i\<close> of slot \<open>tidx\<close>, \<open>n\<close> times.\<close>

fun cpy_loop :: "int \<Rightarrow> int \<Rightarrow> int \<Rightarrow> nat \<Rightarrow> int \<Rightarrow> int \<Rightarrow> st \<Rightarrow> st option" where
  "cpy_loop tidx fidx inc 0 i j s = Some s"
| "cpy_loop tidx fidx inc (Suc n) i j s = do {
     f \<leftarrow> get_mem fidx s;
     e \<leftarrow> arr_get (keyblk f) j;
     s \<leftarrow> upd_mem tidx (mem_set_key i e) s;
     f \<leftarrow> get_mem fidx s;
     l \<leftarrow> arr_get (lnkblk f) j;
     s \<leftarrow> upd_mem tidx (mem_set_link (i + inc) l) s;
     cpy_loop tidx fidx inc n (i + 1) (j + 1) s
   }"

definition bcpybk :: "int \<Rightarrow> int \<Rightarrow> int \<Rightarrow> int \<Rightarrow> int \<Rightarrow> st \<Rightarrow> st option" where
  "bcpybk tblk fblk ts fs n s = do {
     let inc = (if ts = 0 then 0 else 1);
     ((ioerr, tidx), s) \<leftarrow> brdblk tblk s;
     if tidx < 0 \<or> ioerr \<noteq> 0 then Some (bterr ''BCPYBK'' QCPBLK None s)
     else do {
       s \<leftarrow> bsetbs tblk 1 s;
       ((ioerr, fidx), s) \<leftarrow> brdblk fblk s;
       s \<leftarrow> bsetbs tblk 0 s;
       if fidx < 0 then Some (bterr ''BCPYBK'' QCPBLK None s)
       else do {
         s \<leftarrow> cpy_loop tidx fidx inc (nat n) ts fs s;
         f \<leftarrow> get_mem fidx s;
         l \<leftarrow> arr_get (lnkblk f) (fs + int (nat n));
         s \<leftarrow> upd_mem tidx (mem_set_link (ts + n) l) s;
         inc_writes tidx n s
       }
     }
   }"

section \<open>Keys in order\<close>

definition entries :: "memrec \<Rightarrow> keyent list" where
  "entries m = take (nat (nkeys_of m)) (keyblk m)"

definition links :: "memrec \<Rightarrow> int list" where
  "links m = take (nat (nkeys_of m) + 1) (lnkblk m)"

definition sorted_keys :: "keyent list \<Rightarrow> bool" where
  "sorted_keys es \<longleftrightarrow> sorted_wrt (<) (map ke_key es)"

text \<open>The number of keys below \<open>k\<close>: where \<open>k\<close> is, or belongs.\<close>

definition lower :: "string \<Rightarrow> keyent list \<Rightarrow> nat" where
  "lower k es = length (takeWhile (\<lambda>e. ke_key e < k) es)"

definition wf_keys :: "memrec \<Rightarrow> bool" where
  "wf_keys m \<longleftrightarrow> wf_memrec m \<and> 0 \<le> nkeys_of m \<and> nkeys_of m \<le> ZMXKEY \<and> sorted_keys (entries m)"

lemma wf_keys_D:
  assumes "wf_keys m"
  shows "wf_memrec m" "length (entries m) = nat (nkeys_of m)"
    "length (links m) = nat (nkeys_of m) + 1" "sorted_keys (entries m)"
    "length (keyblk m) = nat ZMXKEY" "length (lnkblk m) = nat ZMXKEY + 1"
    "int (length (entries m)) = nkeys_of m" "nkeys_of m \<le> ZMXKEY"
  using assms by (auto simp: wf_keys_def entries_def links_def wf_memrec_def ZMXKEY_val)

lemma lower_le: "lower k es \<le> length es"
  by (simp add: lower_def length_takeWhile_le)

lemma sorted_keys_nth:
  "sorted_keys es \<Longrightarrow> i < j \<Longrightarrow> j < length es \<Longrightarrow> ke_key (es ! i) < ke_key (es ! j)"
  by (simp add: sorted_keys_def sorted_wrt_iff_nth_less)

lemma lower_eq:
  assumes "sorted_keys es" "p \<le> length es"
    "p = 0 \<or> ke_key (es ! (p - 1)) < k" "p < length es \<Longrightarrow> k \<le> ke_key (es ! p)"
  shows "lower k es = p"
proof -
  have below: "ke_key (es ! j) < k" if "j < p" for j
  proof (cases "j = p - 1")
    case False
    then have "ke_key (es ! j) < ke_key (es ! (p - 1))"
      using sorted_keys_nth [OF assms(1), of j "p - 1"] that assms(2) by simp
    then show ?thesis using assms(3) that by (auto dest: less_trans)
  qed (use assms(3) that in auto)
  show ?thesis
  proof (cases "p = length es")
    case True
    then have "takeWhile (\<lambda>e. ke_key e < k) es = es"
      using below by (auto simp: in_set_conv_nth)
    then show ?thesis using True by (metis lower_def)
  next
    case False
    then show ?thesis
      using assms below unfolding lower_def by (intro length_takeWhile_eq) auto
  qed
qed

lemma lower_below: "j < lower k es \<Longrightarrow> ke_key (es ! j) < k"
  unfolding lower_def by (metis (no_types, lifting) nth_mem set_takeWhileD takeWhile_nth)

lemma lower_at: "lower k es < length es \<Longrightarrow> k \<le> ke_key (es ! lower k es)"
  unfolding lower_def using nth_length_takeWhile [of "\<lambda>e. ke_key e < k" es] by (simp add: not_less)

lemma lower_present:
  assumes "sorted_keys es"
  shows "k \<in> ke_key ` set es \<longleftrightarrow> lower k es < length es \<and> ke_key (es ! lower k es) = k"
proof
  assume "k \<in> ke_key ` set es"
  then obtain i where i: "i < length es" "ke_key (es ! i) = k" by (auto simp: in_set_conv_nth)
  have "lower k es = i"
    using i sorted_keys_nth [OF assms, of "i - 1" i]
    by (intro lower_eq [OF assms]) (cases "i = 0"; auto)+
  then show "lower k es < length es \<and> ke_key (es ! lower k es) = k" using i by simp
qed (metis image_eqI nth_mem)

section \<open>The binary search\<close>

text \<open>The search returns the place of the key, or a place next to where it belongs.\<close>

definition found_at :: "string \<Rightarrow> keyent list \<Rightarrow> int \<Rightarrow> int \<Rightarrow> bool" where
  "found_at k es md res \<longleftrightarrow>
     0 \<le> md \<and> md < int (length es) \<and> (res = 0 \<longleftrightarrow> k \<in> ke_key ` set es) \<and>
     (if res > 0 then int (lower k es) = md + 1 else int (lower k es) = md)"

lemma found_at_cmp:
  assumes "sorted_keys es" "i < length es" "res = strcmp k (ke_key (es ! i))"
    "\<And>j. j < i \<Longrightarrow> ke_key (es ! j) < k" "\<And>j. i < j \<Longrightarrow> j < length es \<Longrightarrow> k < ke_key (es ! j)"
  shows "found_at k es (int i) res"
proof -
  have k: "k \<in> ke_key ` set es \<longleftrightarrow> ke_key (es ! i) = k"
  proof
    assume "k \<in> ke_key ` set es"
    then obtain j where j: "j < length es" "ke_key (es ! j) = k" by (auto simp: in_set_conv_nth)
    then show "ke_key (es ! i) = k"
      using assms(4) [of j] assms(5) [of j] by (cases j i rule: linorder_cases) auto
  qed (use assms(2) in auto)
  have "lower k es = (if res > 0 then i + 1 else i)"
  proof (cases "res > 0")
    case True
    then have "lower k es = i + 1"
      using assms(2,3) assms(5) [of "i + 1"] by (intro lower_eq [OF assms(1)]) auto
    then show ?thesis using True by simp
  next
    case False
    then have "k \<le> ke_key (es ! i)" using assms(3) by simp
    then have "lower k es = i"
      using assms(2) assms(4) [of "i - 1"] by (intro lower_eq [OF assms(1)]) linarith+
    then show ?thesis using False by simp
  qed
  then show ?thesis using k assms(2,3) by (auto simp: found_at_def)
qed

lemma bsearch_found:
  assumes "sorted_keys es" "\<And>i. i < length es \<Longrightarrow> ks ! i = es ! i" "length es \<le> length ks"
    "0 \<le> lo" "hi < int (length es)" "lo \<le> hi"
    "\<And>j. int j < lo \<Longrightarrow> ke_key (es ! j) < k"
    "\<And>j. hi < int j \<Longrightarrow> j < length es \<Longrightarrow> k < ke_key (es ! j)"
  shows "\<exists>md' res'. bsearch ks k lo hi False md res = Some (md', res') \<and> found_at k es md' res'"
  using assms
proof (induction "nat (hi - lo)" arbitrary: lo hi md res rule: less_induct)
  case less
  define i where "i = nat ((lo + hi) div 2)"
  have i: "int i = (lo + hi) div 2" "lo \<le> int i" "int i \<le> hi" "i < length es"
    using less.prems by (auto simp: i_def)
  let ?r = "strcmp k (ke_key (es ! i))"
  have get: "arr_get ks ((lo + hi) div 2) = Some (es ! i)"
    using i less.prems by (simp flip: i(1))
  have lt: "ke_key (es ! j) < k" if "j \<le> i" "?r > 0" for j
    using that sorted_keys_nth [OF less.prems(1), of j i] i
    by (cases "j = i") (auto dest: less_trans)
  have gt: "k < ke_key (es ! j)" if "i \<le> j" "j < length es" "?r < 0" for j
    using that sorted_keys_nth [OF less.prems(1), of i j] i
    by (cases "j = i") (auto dest: less_trans)
  have step: "bsearch ks k lo hi False md res =
      (if ?r > 0 then bsearch ks k ((lo + hi) div 2 + 1) hi (lo = hi) ((lo + hi) div 2) ?r
       else if ?r < 0 then bsearch ks k lo ((lo + hi) div 2 - 1) (lo = hi) ((lo + hi) div 2) ?r
       else Some ((lo + hi) div 2, ?r))"
    using less.prems(6) get by (subst bsearch.simps) (simp add: Let_def)
  show ?case
  proof (cases "lo = hi \<or> ?r = 0 \<or> ?r < 0 \<and> int i = lo")
    case True
    have "\<And>j. j < i \<Longrightarrow> ke_key (es ! j) < k"
    proof -
      fix j assume "j < i"
      show "ke_key (es ! j) < k"
      proof (cases "?r = 0")
        case True
        then show ?thesis using sorted_keys_nth [OF less.prems(1) \<open>j < i\<close> i(4)] by simp
      next
        case False
        then have "int j < lo" using \<open>j < i\<close> i \<open>lo = hi \<or> ?r = 0 \<or> ?r < 0 \<and> int i = lo\<close> by linarith
        then show ?thesis by (rule less.prems(7))
      qed
    qed
    moreover have "\<And>j. i < j \<Longrightarrow> j < length es \<Longrightarrow> k < ke_key (es ! j)"
    proof -
      fix j assume j: "i < j" "j < length es"
      show "k < ke_key (es ! j)"
      proof (cases "?r > 0")
        case False
        then show ?thesis using j sorted_keys_nth [OF less.prems(1) j]
          by (metis gt less_imp_le linorder_neqE_linordered_idom strcmp_eq)
      next
        case True
        then have "hi < int j" using j i \<open>lo = hi \<or> ?r = 0 \<or> ?r < 0 \<and> int i = lo\<close> by linarith
        then show ?thesis using j less.prems(8) by blast
      qed
    qed
    ultimately have "found_at k es (int i) ?r"
      using i by (intro found_at_cmp less.prems(1)) auto
    moreover have "bsearch ks k lo hi False md res = Some (int i, ?r)"
      using True step i by (auto simp: bsearch.simps)
    ultimately show ?thesis by blast
  next
    case False
    then have "lo < hi" "?r \<noteq> 0" using less.prems(6) by auto
    show ?thesis
    proof (cases "?r > 0")
      case True
      have "int i < hi" using i(1) \<open>lo < hi\<close> by simp
      have "\<exists>md' res'. bsearch ks k (int i + 1) hi False (int i) ?r = Some (md', res') \<and>
          found_at k es md' res'"
      proof (rule less.hyps [OF _ less.prems(1-3)])
        show "nat (hi - (int i + 1)) < nat (hi - lo)" "0 \<le> int i + 1" "int i + 1 \<le> hi"
          using i(2) \<open>int i < hi\<close> by linarith+
        show "hi < int (length es)" by (rule less.prems(5))
        show "ke_key (es ! j) < k" if "int j < int i + 1" for j
          using lt [of j] that True by simp
        show "k < ke_key (es ! j)" if "hi < int j" "j < length es" for j
          by (rule less.prems(8) [OF that])
      qed
      then show ?thesis using step True \<open>lo < hi\<close> i by simp
    next
      case neg: False
      then have "?r < 0" "lo < int i" using False i \<open>?r \<noteq> 0\<close> by linarith+
      have "\<exists>md' res'. bsearch ks k lo (int i - 1) False (int i) ?r = Some (md', res') \<and>
          found_at k es md' res'"
      proof (rule less.hyps [OF _ less.prems(1-4)])
        show "nat (int i - 1 - lo) < nat (hi - lo)" "lo \<le> int i - 1" "int i - 1 < int (length es)"
          using i(2-4) \<open>lo < int i\<close> by linarith+
        show "ke_key (es ! j) < k" if "int j < lo" for j
          by (rule less.prems(7) [OF that])
        show "k < ke_key (es ! j)" if "int i - 1 < int j" "j < length es" for j
          using gt [of j] that \<open>?r < 0\<close> by simp
      qed
      then show ?thesis using step neg \<open>?r < 0\<close> \<open>lo < hi\<close> i by simp
    qed
  qed
qed

section \<open>Specification of the search\<close>

lemma block_nkeys:
  "wf_keys m \<Longrightarrow> arr_get (infblk m) ZNKEYS = Some (nkeys_of m)"
  by (simp add: wf_keys_def wf_memrec_def word_of_def ZNKEYS_def ZINFSZ_def)

lemma block_get:
  assumes "wf_keys m" "0 \<le> i" "i < nkeys_of m"
  shows "arr_get (keyblk m) i = Some (entries m ! nat i)"
    "arr_get (lnkblk m) i = Some (links m ! nat i)"
    "arr_get (lnkblk m) (i + 1) = Some (links m ! (nat i + 1))"
proof -
  have "nat i < nat (nkeys_of m)" using assms(2,3) by linarith
  then have "entries m ! nat i = keyblk m ! nat i" "links m ! nat i = lnkblk m ! nat i"
    "links m ! (nat i + 1) = lnkblk m ! (nat i + 1)"
    unfolding entries_def links_def by (simp_all del: zless_nat_conj)
  moreover have "i < int (length (keyblk m))" "i + 1 < int (length (lnkblk m))"
    using wf_keys_D [OF assms(1)] assms(2,3) by linarith+
  ultimately show "arr_get (keyblk m) i = Some (entries m ! nat i)"
    "arr_get (lnkblk m) i = Some (links m ! nat i)"
    "arr_get (lnkblk m) (i + 1) = Some (links m ! (nat i + 1))"
    using assms(2) by (simp_all add: nat_add_distrib)
qed

lemma bsrhbk_search [specs]:
  assumes r: "repr s B P R" and b: "valid_blk B blk" "room P blk" and m: "m = B ! nat blk" "wf_keys m"
    and a: "s_key a = Some k" "s_loc a = -1"
  shows "runs (bsrhbk blk a s) (\<lambda>((kep, a'), s').
    if nkeys_of m = 0 then \<not> kep \<and> repr s' B P R \<and>
      a' = a\<lparr>s_result := Some (-1), s_loc := -1, s_val := Some 0, s_link1 := Some ZNULL,
             s_link2 := Some ZNULL\<rparr>
    else kep \<and> (\<exists>md res. found_at k (entries m) md res \<and>
      repr s' B P (R\<lparr>srh_keyent := entries m ! nat md\<rparr>) \<and>
      a' = a\<lparr>s_result := Some res, s_loc := md, s_val := Some (ke_val (entries m ! nat md)),
             s_link1 := Some (links m ! nat md), s_link2 := Some (links m ! (nat md + 1))\<rparr>))"
proof (cases "nkeys_of m = 0")
  case True
  then show ?thesis
    unfolding bsrhbk_def
    using block_nkeys [OF m(2)] m(1) a by (auto intro!: brdblk_bind [OF r b] simp: get_mem_slot)
next
  case False
  note D = wf_keys_D [OF m(2)]
  have n: "0 < nkeys_of m" using False m(2) by (simp add: wf_keys_def)
  have nth: "keyblk m ! i = entries m ! i" if "i < length (entries m)" for i
    using that D(2) by (simp add: entries_def)
  have "length (entries m) \<le> length (keyblk m)" by (simp add: entries_def)
  then obtain md res where f: "bsearch (keyblk m) k 0 (nkeys_of m - 1) False (-1) (-1) = Some (md, res)"
      "found_at k (entries m) md res"
    using bsearch_found [of "entries m" "keyblk m" 0 "nkeys_of m - 1" k "-1" "-1"] D n nth by auto
  then have md: "0 \<le> md" "md < nkeys_of m" using D(7) by (auto simp: found_at_def)
  show ?thesis
    unfolding bsrhbk_def
    using block_nkeys [OF m(2)] m(1) a f n md block_get [OF m(2) md]
    by (auto intro!: brdblk_bind [OF r b] simp: get_mem_slot)
      (rule exI [of _ md], rule exI [of _ res], auto)
qed

text \<open>The key at a position.\<close>

lemma bsrhbk_pos [specs]:
  assumes r: "repr s B P R" and b: "valid_blk B blk" "room P blk" and m: "m = B ! nat blk" "wf_keys m"
    and a: "0 \<le> s_loc a"
  shows "runs (bsrhbk blk a s) (\<lambda>((kep, a'), s').
    if nkeys_of m \<le> s_loc a then \<not> kep \<and> repr s' B P R \<and> a' = a\<lparr>s_result := Some (-1)\<rparr>
    else kep \<and> repr s' B P (R\<lparr>srh_keyent := entries m ! nat (s_loc a)\<rparr>) \<and>
      a' = a\<lparr>s_result := Some 0,
             s_key := Some (strncpy_term ZKYLEN (ke_key (entries m ! nat (s_loc a)))),
             s_val := Some (ke_val (entries m ! nat (s_loc a))),
             s_link1 := Some (links m ! nat (s_loc a)),
             s_link2 := Some (links m ! (nat (s_loc a) + 1))\<rparr>)"
  unfolding bsrhbk_def
  using block_nkeys [OF m(2)] m(1) a block_get [OF m(2) a]
  by (auto intro!: brdblk_bind [OF r b] repr_frame simp: get_mem_slot)

section \<open>Insertion into a block\<close>

lemma put_shift_spec:
  assumes "j < length (keyblk m)" "j + 1 < length (lnkblk m)"
  shows "\<exists>q ks ls. put_shift k j m = Some (int q, m\<lparr>keyblk := ks, lnkblk := ls\<rparr>) \<and> q \<le> j \<and>
    length ks = length (keyblk m) \<and> length ls = length (lnkblk m) \<and>
    (\<forall>i. ks ! i = (if q < i \<and> i \<le> j then keyblk m ! (i - 1) else keyblk m ! i)) \<and>
    (\<forall>i. ls ! i = (if q + 1 < i \<and> i \<le> j + 1 then lnkblk m ! (i - 1) else lnkblk m ! i)) \<and>
    (q = 0 \<or> ke_key (keyblk m ! (q - 1)) < ke_key k) \<and>
    (\<forall>i. q \<le> i \<and> i < j \<longrightarrow> ke_key k \<le> ke_key (keyblk m ! i))"
  using assms
proof (induction j arbitrary: m)
  case 0
  then show ?case by (intro exI [of _ 0] exI [of _ "keyblk m"] exI [of _ "lnkblk m"]) auto
next
  case (Suc j)
  let ?e = "keyblk m ! j"
  have e: "arr_get (keyblk m) (int j) = Some ?e" using Suc.prems by simp
  show ?case
  proof (cases "ke_key k \<le> ke_key ?e")
    case False
    then show ?thesis using e
      by (intro exI [of _ "Suc j"] exI [of _ "keyblk m"] exI [of _ "lnkblk m"]) (auto simp: not_le)
  next
    case True
    let ?m = "m\<lparr>keyblk := (keyblk m)[Suc j := ?e], lnkblk := (lnkblk m)[j + 2 := lnkblk m ! (j + 1)]\<rparr>"
    obtain q ks ls where IH: "put_shift k j ?m = Some (int q, ?m\<lparr>keyblk := ks, lnkblk := ls\<rparr>)" "q \<le> j"
      "length ks = length (keyblk m)" "length ls = length (lnkblk m)"
      "\<And>i. ks ! i = (if q < i \<and> i \<le> j then keyblk ?m ! (i - 1) else keyblk ?m ! i)"
      "\<And>i. ls ! i = (if q + 1 < i \<and> i \<le> j + 1 then lnkblk ?m ! (i - 1) else lnkblk ?m ! i)"
      "q = 0 \<or> ke_key (keyblk ?m ! (q - 1)) < ke_key k"
      "\<And>i. q \<le> i \<Longrightarrow> i < j \<Longrightarrow> ke_key k \<le> ke_key (keyblk ?m ! i)"
      using Suc.IH [of ?m] Suc.prems by auto
    have step: "put_shift k (Suc j) m = put_shift k j ?m"
      using True e Suc.prems by (simp add: nat_add_distrib arr_get_def arr_set_def)
    have k: "ks ! i = (if q < i \<and> i \<le> Suc j then keyblk m ! (i - 1) else keyblk m ! i)" for i
      using IH(2) IH(5) [of i] Suc.prems by (cases "i = Suc j") auto
    have l: "ls ! i = (if q + 1 < i \<and> i \<le> Suc j + 1 then lnkblk m ! (i - 1) else lnkblk m ! i)" for i
      using IH(2) IH(6) [of i] Suc.prems by (cases "i = j + 2") auto
    have "ke_key k \<le> ke_key (keyblk m ! i)" if "q \<le> i" "i < Suc j" for i
      using IH(8) [of i] True that by (cases "i = j") auto
    moreover have "q = 0 \<or> ke_key (keyblk m ! (q - 1)) < ke_key k"
      using IH(2,7) by auto
    ultimately show ?thesis
      using IH(1-4) step k l
      by (intro exI [of _ q] exI [of _ ks] exI [of _ ls]) auto
  qed
qed

text \<open>What \<open>bputky\<close> makes of the links: the new key takes the link to its left from the caller only
  at the front of the block.\<close>

definition put_links :: "nat \<Rightarrow> int \<Rightarrow> int \<Rightarrow> int list \<Rightarrow> int list" where
  "put_links p l1 l2 ls =
     take p ls @ [if p = 0 \<or> l1 = ZNULL \<and> l2 = ZNULL then l1 else ls ! p, l2] @ drop (Suc p) ls"

lemma length_put_links: "p < length ls \<Longrightarrow> length (put_links p l1 l2 ls) = Suc (length ls)"
  by (simp add: put_links_def)

lemma nth_put_links:
  "p < length ls \<Longrightarrow> i \<le> length ls \<Longrightarrow> put_links p l1 l2 ls ! i =
    (if i < p then ls ! i
     else if i = p then (if p = 0 \<or> l1 = ZNULL \<and> l2 = ZNULL then l1 else ls ! p)
     else if i = Suc p then l2 else ls ! (i - 1))"
  by (auto simp: put_links_def nth_append nth_Cons' min_absorb2 intro!: arg_cong [where f = "(!) ls"])

definition put_ok :: "keyent \<Rightarrow> int \<Rightarrow> int \<Rightarrow> memrec \<Rightarrow> memrec \<Rightarrow> bool" where
  "put_ok k l1 l2 m m' \<longleftrightarrow>
     wf_memrec m' \<and> nkeys_of m' = nkeys_of m + 1 \<and> dat m' = dat m \<and>
     (\<forall>t. 0 \<le> t \<and> t \<noteq> ZNKEYS \<longrightarrow> word_of m' t = word_of m t) \<and>
     entries m' = insert_at (lower (ke_key k) (entries m)) k (entries m) \<and>
     links m' = put_links (lower (ke_key k) (entries m)) l1 l2 (links m)"

lemma mem_putky_spec:
  assumes m: "wf_keys m" "nkeys_of m < ZMXKEY"
    and l: "l1 = ZNULL \<and> l2 = ZNULL \<or> 0 \<le> l1 \<and> 0 \<le> l2"
  shows "\<exists>m'. do { m \<leftarrow> mem_putky k l1 l2 (nkeys_of m) m; mem_add_nkeys 1 m } = Some m' \<and>
    put_ok k l1 l2 m m'"
proof -
  note D = wf_keys_D [OF m(1)]
  define n where "n = nat (nkeys_of m)"
  define p where "p = lower (ke_key k) (entries m)"
  have n: "nkeys_of m = int n" "n < 22" "int n = nkeys_of m"
    using m by (auto simp: n_def wf_keys_def ZMXKEY_val)
  have len: "length (keyblk m) = 22" "length (lnkblk m) = 23" "length (infblk m) = 6"
    using D(1) by (auto simp: wf_memrec_def ZMXKEY_val ZINFSZ_def)
  have ent: "entries m = take n (keyblk m)" and lnk: "links m = take (n + 1) (lnkblk m)"
    by (simp_all add: entries_def links_def n_def)
  have p: "p \<le> n" using lower_le [of "ke_key k" "entries m"] len n by (simp add: p_def ent)
  have zn: "ZNULL = -1" by (simp add: ZNULL_def)
  have fin: "\<exists>m'. mem_add_nkeys 1 (m\<lparr>keyblk := ks, lnkblk := ls\<rparr>) = Some m' \<and> put_ok k l1 l2 m m'"
    if ks: "length ks = 22" "take (n + 1) ks = insert_at p k (entries m)"
      and ls: "length ls = 23" "take (n + 2) ls = put_links p l1 l2 (links m)" for ks ls
  proof -
    let ?m' = "m\<lparr>keyblk := ks, lnkblk := ls, infblk := (infblk m)[3 := int n + 1]\<rparr>"
    have e1: "mem_add_nkeys 1 (m\<lparr>keyblk := ks, lnkblk := ls\<rparr>) = Some ?m'"
      using n len by (simp add: mem_add_nkeys_def ZNKEYS_def word_of_def)
    have w: "word_of ?m' 3 = int n + 1" using len by (simp add: word_of_def)
    have "entries ?m' = take (n + 1) ks" "links ?m' = take (n + 2) ls"
      using w by (simp_all add: entries_def links_def ZNKEYS_def nat_add_distrib)
    moreover have "wf_memrec ?m'"
      using D(1) ks ls by (simp add: wf_memrec_def ZMXKEY_val)
    ultimately have "put_ok k l1 l2 m ?m'"
      using ks ls w n by (auto simp: put_ok_def p_def ZNKEYS_def word_of_def nth_list_update eq_nat_nat_iff)
    then show ?thesis using e1 by blast
  qed
  show ?thesis
  proof (cases "n = 0")
    case True
    then have "p = 0" using p by simp
    have "mem_putky k l1 l2 (nkeys_of m) m =
        Some (m\<lparr>keyblk := (keyblk m)[0 := k], lnkblk := (lnkblk m)[0 := l1, 1 := l2]\<rparr>)"
      using True n len by (simp add: mem_putky_def mem_set_key_def mem_set_link_def)
    moreover have "take (n + 1) ((keyblk m)[0 := k]) = insert_at p k (entries m)"
      using True \<open>p = 0\<close> len by (cases "keyblk m") (auto simp: insert_at_def ent)
    moreover have "take (n + 2) ((lnkblk m)[0 := l1, 1 := l2]) = put_links p l1 l2 (links m)"
    proof -
      obtain x y zs where "lnkblk m = x # y # zs"
        using len(2) by (cases "lnkblk m"; cases "tl (lnkblk m)") auto
      then show ?thesis using True \<open>p = 0\<close> by (simp add: put_links_def lnk)
    qed
    ultimately show ?thesis using fin len by simp
  next
    case False
    obtain q ks ls where ps: "put_shift k n m = Some (int q, m\<lparr>keyblk := ks, lnkblk := ls\<rparr>)" "q \<le> n"
      "length ks = 22" "length ls = 23"
      "\<And>i. ks ! i = (if q < i \<and> i \<le> n then keyblk m ! (i - 1) else keyblk m ! i)"
      "\<And>i. ls ! i = (if q + 1 < i \<and> i \<le> n + 1 then lnkblk m ! (i - 1) else lnkblk m ! i)"
      "q = 0 \<or> ke_key (keyblk m ! (q - 1)) < ke_key k"
      "\<And>i. q \<le> i \<Longrightarrow> i < n \<Longrightarrow> ke_key k \<le> ke_key (keyblk m ! i)"
      using put_shift_spec [of n m k] n len by auto
    have "p = q"
      unfolding p_def
    proof (rule lower_eq [OF D(4)])
      show "q \<le> length (entries m)" using ps(2) n len by (simp add: ent)
      show "q = 0 \<or> ke_key (entries m ! (q - 1)) < ke_key k"
        using ps(2,7) by (cases "q = 0") (auto simp: ent)
      show "ke_key k \<le> ke_key (entries m ! q)" if "q < length (entries m)"
        using that ps(8) [of q] by (simp add: ent)
    qed
    define ks' where "ks' = ks[q := k]"
    define ls' where "ls' = ls[q := if q = 0 \<or> l1 = ZNULL \<and> l2 = ZNULL then l1 else ls ! q, q + 1 := l2]"
    have q: "q < 22" using ps(2) n by simp
    have "mem_putky k l1 l2 (nkeys_of m) m = Some (m\<lparr>keyblk := ks', lnkblk := ls'\<rparr>)"
      using l
    proof (elim disjE conjE)
      assume "l1 = ZNULL" "l2 = ZNULL"
      then show ?thesis
        using False ps(1,3,4) q n(1,2)
        by (cases "q = 0") (auto simp: mem_putky_def mem_set_key_def mem_set_link_def ks'_def ls'_def
            list_update_swap zn nat_add_distrib arr_set_def arr_get_def)
    next
      assume "0 \<le> l1" "0 \<le> l2"
      then show ?thesis
        using False ps(1,3,4) q n(1,2)
        by (cases "q = 0") (auto simp: mem_putky_def mem_set_key_def mem_set_link_def ks'_def ls'_def
            list_update_swap zn nat_add_distrib arr_set_def arr_get_def)
    qed
    moreover have "take (n + 1) ks' = insert_at p k (entries m)"
      using ps(2,3,5) n len q p
      by (intro nth_equalityI) (auto simp: ks'_def \<open>p = q\<close> nth_insert_at nth_list_update ent)
    moreover have "take (n + 2) ls' = put_links p l1 l2 (links m)"
      using ps(2,4,6) n len q p
      by (intro nth_equalityI)
        (auto simp: ls'_def \<open>p = q\<close> nth_put_links length_put_links nth_list_update lnk)
    ultimately show ?thesis
      using fin [of ks' ls'] ps(3,4) by (simp add: ks'_def ls'_def)
  qed
qed

text \<open>A change of a block followed by the write-through, as a step.\<close>

lemma modify_wt_bind:
  assumes "repr s B P R" "at_slot s i b" "f (B ! nat b) = Some m" "wf_memrec m" "0 < n"
    and "\<And>s'. repr s' (B[nat b := m]) P R \<Longrightarrow> at_slot s' i b \<Longrightarrow> same_cached s s' \<Longrightarrow> Q s'"
  shows "runs (do { s \<leftarrow> modify i n f s; write_through b i s }) Q"
proof (rule runs_bindI [OF modify_spec [where f = f and m = m, OF assms(1-5)]], elim conjE)
  fix s1 assume s1: "repr s1 (B[nat b := m]) P R" "same_cached s s1"
  have a: "at_slot s1 i b" using same_cached_at [OF s1(2) assms(2)] .
  show "runs (write_through b i s1) Q"
    by (rule runs_conseq [OF write_through_spec [OF s1(1) a]])
      (use assms(6) a s1(2) same_cached_at same_cached_trans in blast)
qed

lemma put_ok_wf: "put_ok k l1 l2 m m' \<Longrightarrow> wf_memrec m'"
  by (simp add: put_ok_def)

lemma bputky_spec [specs]:
  assumes r: "repr s B P R" and b: "valid_blk B blk" "room P blk"
    and m: "m = B ! nat blk" "wf_keys m" "nkeys_of m < ZMXKEY"
    and l: "l1 = ZNULL \<and> l2 = ZNULL \<or> 0 \<le> l1 \<and> 0 \<le> l2"
  shows "runs (bputky blk k l1 l2 s) (\<lambda>s'. \<exists>m'. put_ok k l1 l2 m m' \<and> repr s' (B[nat blk := m']) P R)"
proof -
  obtain m' where m': "do { m \<leftarrow> mem_putky k l1 l2 (nkeys_of m) m; mem_add_nkeys 1 m } = Some m'"
      "put_ok k l1 l2 m m'"
    using mem_putky_spec [OF m(2,3) l] by blast
  have "runs (do { s \<leftarrow> modify i 1 (\<lambda>m. do { m \<leftarrow> mem_putky k l1 l2 n m; mem_add_nkeys 1 m }) s1;
        write_through blk i s }) (\<lambda>s'. \<exists>m'. put_ok k l1 l2 m m' \<and> repr s' (B[nat blk := m']) P R)"
    if "repr s1 B P R" "at_slot s1 i blk" "n = nkeys_of m" for s1 i n
    by (rule modify_wt_bind [OF that(1,2)]) (use m' m(1) that put_ok_wf in auto)
  then show ?thesis
    unfolding bputky_def modify_fold upd_modify
    using block_nkeys [OF m(2)] m by (auto intro!: brdblk_bind [OF r b] simp: get_mem_slot)
qed

section \<open>Removal from a block\<close>

lemma rem_shift_spec:
  assumes "pos + n < length (keyblk m)" "pos + n + 1 < length (lnkblk m)"
  shows "\<exists>ks ls. rem_shift n (int pos) m = Some (m\<lparr>keyblk := ks, lnkblk := ls\<rparr>) \<and>
    length ks = length (keyblk m) \<and> length ls = length (lnkblk m) \<and>
    (\<forall>i. ks ! i = (if pos \<le> i \<and> i < pos + n then keyblk m ! Suc i else keyblk m ! i)) \<and>
    (\<forall>i. ls ! i = (if pos < i \<and> i \<le> pos + n then lnkblk m ! Suc i else lnkblk m ! i))"
  using assms
proof (induction n arbitrary: pos m)
  case 0
  then show ?case by (intro exI [of _ "keyblk m"] exI [of _ "lnkblk m"]) auto
next
  case (Suc n)
  let ?m = "m\<lparr>keyblk := (keyblk m)[pos := keyblk m ! Suc pos],
    lnkblk := (lnkblk m)[Suc pos := lnkblk m ! (pos + 2)]\<rparr>"
  obtain ks ls where IH: "rem_shift n (int (Suc pos)) ?m = Some (?m\<lparr>keyblk := ks, lnkblk := ls\<rparr>)"
    "length ks = length (keyblk m)" "length ls = length (lnkblk m)"
    "\<And>i. ks ! i = (if Suc pos \<le> i \<and> i < Suc pos + n then keyblk ?m ! Suc i else keyblk ?m ! i)"
    "\<And>i. ls ! i = (if Suc pos < i \<and> i \<le> Suc pos + n then lnkblk ?m ! Suc i else lnkblk ?m ! i)"
    using Suc.IH [of "Suc pos" ?m] Suc.prems by auto
  have "rem_shift (Suc n) (int pos) m = rem_shift n (int (Suc pos)) ?m"
    using Suc.prems by (simp add: arr_get_def arr_set_def nat_add_distrib add.commute)
  moreover have "ks ! i = (if pos \<le> i \<and> i < pos + Suc n then keyblk m ! Suc i else keyblk m ! i)" for i
    using IH(4) [of i] Suc.prems by (cases "i = pos") auto
  moreover have "ls ! i = (if pos < i \<and> i \<le> pos + Suc n then lnkblk m ! Suc i else lnkblk m ! i)" for i
    using IH(5) [of i] Suc.prems by (cases "i = Suc pos") auto
  ultimately show ?case
    using IH(1-3) by (intro exI [of _ ks] exI [of _ ls]) simp
qed

text \<open>The key at \<open>pos\<close> goes with the link to its right.\<close>

definition rem_ok :: "nat \<Rightarrow> memrec \<Rightarrow> memrec \<Rightarrow> bool" where
  "rem_ok p m m' \<longleftrightarrow>
     wf_memrec m' \<and> nkeys_of m' = nkeys_of m - 1 \<and> dat m' = dat m \<and>
     (\<forall>t. 0 \<le> t \<and> t \<noteq> ZNKEYS \<longrightarrow> word_of m' t = word_of m t) \<and>
     entries m' = remove_at p (entries m) \<and> links m' = remove_at (Suc p) (links m)"

lemma mem_remky_spec:
  assumes m: "wf_keys m" "0 \<le> pos" "pos < nkeys_of m"
  shows "\<exists>m'. mem_remky pos m = Some m' \<and> rem_ok (nat pos) m m'"
proof -
  note D = wf_keys_D [OF m(1)]
  define n where "n = nat (nkeys_of m)"
  define p where "p = nat pos"
  have n: "nkeys_of m = int n" "n \<le> 22" "pos = int p" "p < n"
    using m by (auto simp: n_def p_def wf_keys_def ZMXKEY_val)
  have len: "length (keyblk m) = 22" "length (lnkblk m) = 23" "length (infblk m) = 6"
    using D(1) by (auto simp: wf_memrec_def ZMXKEY_val ZINFSZ_def)
  have ent: "entries m = take n (keyblk m)" and lnk: "links m = take (n + 1) (lnkblk m)"
    by (simp_all add: entries_def links_def n_def)
  let ?m = "m\<lparr>infblk := (infblk m)[3 := int n - 1]\<rparr>"
  define d where "d = n - 1 - p"
  have d: "p + d = n - 1" "nat (int n - 1 - int p) = d" using n(4) by (auto simp: d_def)
  have km: "keyblk ?m = keyblk m" "lnkblk ?m = lnkblk m" by simp_all
  have "n - 1 < length (keyblk m)" "n - 1 + 1 < length (lnkblk m)" using n(2,4) len by simp_all
  from rem_shift_spec [of p d ?m, unfolded km d(1), OF this, unfolded len]
  obtain ks ls where rs: "rem_shift d (int p) ?m = Some (?m\<lparr>keyblk := ks, lnkblk := ls\<rparr>)"
    "length ks = 22" "length ls = 23"
    "\<And>i. ks ! i = (if p \<le> i \<and> i < n - 1 then keyblk m ! Suc i else keyblk m ! i)"
    "\<And>i. ls ! i = (if p < i \<and> i \<le> n - 1 then lnkblk m ! Suc i else lnkblk m ! i)"
    by blast
  let ?m' = "?m\<lparr>keyblk := ks, lnkblk := ls\<rparr>"
  have w: "word_of ?m' 3 = int n - 1" using len by (simp add: word_of_def)
  have "mem_remky pos m = Some ?m'"
    using rs(1) n(1,3) len d(2) by (simp add: mem_remky_def mem_add_nkeys_def ZNKEYS_def word_of_def)
  moreover have "take (n - 1) ks = remove_at p (entries m)"
    using rs(2,4) n(2,4) len
    by (intro nth_equalityI) (auto simp: length_remove_at nth_remove_at ent)
  moreover have "take n ls = remove_at (Suc p) (links m)"
    using rs(3,5) n(2,4) len
    by (intro nth_equalityI) (auto simp: length_remove_at nth_remove_at lnk)
  moreover have "entries ?m' = take (n - 1) ks" "links ?m' = take n ls"
    using w n(4) by (simp_all add: entries_def links_def ZNKEYS_def nat_diff_distrib)
  moreover have "wf_memrec ?m'" using D(1) rs(2,3) by (simp add: wf_memrec_def ZMXKEY_val)
  ultimately have "mem_remky pos m = Some ?m'" "rem_ok p m ?m'"
    using w n(1) by (auto simp: rem_ok_def ZNKEYS_def word_of_def nth_list_update eq_nat_nat_iff)
  then show ?thesis unfolding p_def by blast
qed

lemma bremky_spec [specs]:
  assumes r: "repr s B P R" and b: "valid_blk B blk" "room P blk"
    and m: "m = B ! nat blk" "wf_keys m" "0 \<le> pos" "pos < nkeys_of m"
  shows "runs (bremky blk pos s) (\<lambda>s'. \<exists>m'. rem_ok (nat pos) m m' \<and> repr s' (B[nat blk := m']) P R)"
proof -
  obtain m' where m': "mem_remky pos m = Some m'" "rem_ok (nat pos) m m'"
    using mem_remky_spec [OF m(2-4)] by blast
  have "runs (do { s \<leftarrow> modify i 1 (mem_remky pos) s1; write_through blk i s })
      (\<lambda>s'. \<exists>m'. rem_ok (nat pos) m m' \<and> repr s' (B[nat blk := m']) P R)"
    if "repr s1 B P R" "at_slot s1 i blk" for s1 i
    by (rule modify_wt_bind [OF that]) (use m' m(1) in \<open>auto simp: rem_ok_def\<close>)
  then show ?thesis
    unfolding bremky_def modify_fold by (auto intro!: brdblk_bind [OF r b])
qed

text \<open>A well-formed block stays one.\<close>

lemma sorted_keys_insert:
  assumes s: "sorted_keys es" and new: "ke_key e \<notin> ke_key ` set es"
  shows "sorted_keys (insert_at (lower (ke_key e) es) e es)"
proof -
  let ?p = "lower (ke_key e) es"
  have "sorted_wrt (<) (insert_at ?p (ke_key e) (map ke_key es))"
  proof (rule sorted_insert_at)
    show "sorted_wrt (<) (map ke_key es)" using s by (simp add: sorted_keys_def)
    show "?p \<le> length (map ke_key es)" using lower_le by simp
    show "map ke_key es ! i < ke_key e" if "i < ?p" for i
      using lower_below [OF that] that lower_le [of "ke_key e" es] by simp
    show "ke_key e < map ke_key es ! ?p" if "?p < length (map ke_key es)"
      using that lower_at [of "ke_key e" es] new by (auto simp: less_le)
  qed
  then show ?thesis by (simp add: sorted_keys_def map_insert_at)
qed

lemma put_ok_keys:
  assumes "wf_keys m" "put_ok k l1 l2 m m'" "nkeys_of m < ZMXKEY" "ke_key k \<notin> ke_key ` set (entries m)"
  shows "wf_keys m'"
  using assms sorted_keys_insert [of "entries m" k] by (simp add: put_ok_def wf_keys_def)

lemma rem_ok_keys:
  assumes "wf_keys m" "rem_ok p m m'" "0 < nkeys_of m"
  shows "wf_keys m'"
  using assms by (auto simp: rem_ok_def wf_keys_def sorted_keys_def map_remove_at
      intro: sorted_remove_at)

end
