(* ===== verification/Dup.thy ===== *)
theory Dup
  imports Data KeyBlock
begin

text \<open>
  Duplicate keys (\<open>src-lib/btdupkey.c\<close>). The entries of a key with duplicates form a doubly linked
  list of \<open>DKEY\<close> records in blocks of type \<open>ZDUP\<close>; the key entry of the index block holds the
  address of the first in \<open>val\<close> and of the last in \<open>dup\<close>. Deleted entries stay in their block,
  marked and unlinked. \<open>getdkey\<close> fills a static buffer and \<open>getkeyent\<close>/\<open>putkeyent\<close> work on a static
  key entry; where the code holds a pointer to the buffer across no other \<open>getdkey\<close>, the model
  passes the value.
\<close>

section \<open>Entries\<close>

definition getkeyent :: "int \<Rightarrow> int \<Rightarrow> st \<Rightarrow> (bool \<times> st) option" where
  "getkeyent blk pos s = do {
     ((ioerr, idx), s) \<leftarrow> brdblk blk s;
     if ioerr = 0 then do {
       m \<leftarrow> get_mem idx s;
       e \<leftarrow> arr_get (keyblk m) pos;
       Some (True, s\<lparr>dup_keyent := e\<rparr>)
     } else Some (False, bterr ''GETKEYENT'' QRDBLK (Some (itostr blk)) s)
   }"

definition putkeyent :: "int \<Rightarrow> int \<Rightarrow> st \<Rightarrow> (int \<times> st) option" where
  "putkeyent blk pos s = do {
     ((ioerr, idx), s) \<leftarrow> brdblk blk s;
     if ioerr = 0 then do {
       s \<leftarrow> upd_mem idx (mem_set_key pos (dup_keyent s)) s;
       s \<leftarrow> inc_writes idx 1 s;
       Some (0, s)
     } else Some (QRDBLK, bterr ''PUTKEYENT'' QRDBLK (Some (itostr blk)) s)
   }"

abbreviation set_dupval :: "int \<Rightarrow> st \<Rightarrow> st" where
  "set_dupval v s \<equiv> s\<lparr>dup_keyent := (dup_keyent s)\<lparr>ke_val := v\<rparr>\<rparr>"

abbreviation set_duptail :: "int \<Rightarrow> st \<Rightarrow> st" where
  "set_duptail v s \<equiv> s\<lparr>dup_keyent := (dup_keyent s)\<lparr>ke_dup := v\<rparr>\<rparr>"

definition getdkey :: "int \<Rightarrow> st \<Rightarrow> (dkey option \<times> st) option" where
  "getdkey da s = do {
     let (blk, offset) = cnvdraddr da;
     (t, s) \<leftarrow> bgtinf blk ZBTYPE s;
     if t \<noteq> ZDUP then Some (None, bterr ''GETDKEY'' QNOTDUP (Some (itostr da)) s)
     else do {
       ((sz, bs), s) \<leftarrow> bseldt da SIZEOF_DKEY s;
       if sz = SIZEOF_DKEY then Some (Some (bytes_dkey bs), s)
       else Some (None, bterr ''GETDKEY'' QDUPSZ None s)
     }
   }"

definition putdkey :: "int \<Rightarrow> dkey \<Rightarrow> st \<Rightarrow> (int \<times> st) option" where
  "putdkey da d s = do { (e, s) \<leftarrow> bupddt da (dkey_bytes d) s; Some (btgerr s, s) }"

section \<open>Adding a duplicate\<close>

text \<open>
  \<open>btdupkey\<close> adds an entry for the key at the current position: for the first duplicate, an entry
  for the original key is made before it.
\<close>

definition btdupkey :: "string \<Rightarrow> int \<Rightarrow> st \<Rightarrow> (int \<times> st) option" where
  "btdupkey key val s = do {
     let n = s_lfpos s;
     let cblk = s_lfblk s;
     (ok, s) \<leftarrow> getkeyent cblk n s;
     if \<not> ok then (let s = bterr ''BTDUPKEY'' QRDBLK (Some (itostr cblk)) s in Some (btgerr s, s))
     else do {
       let dk = \<lparr>dk_key = strncpy_term ZKYLEN key, dk_deleted = 0, dk_val = 0,
                 dk_flink = ZNULL, dk_blink = ZNULL\<rparr>;
       (fail, s) \<leftarrow>
         (if ke_dup (dup_keyent s) = ZNULL then do {
            (da, s) \<leftarrow> binsdt ZDUP
              (dkey_bytes (dk\<lparr>dk_val := ke_val (dup_keyent s), dk_blink := ZNULL\<rparr>)) s;
            if da = ZNULL then Some (True, s)
            else Some (False, set_duptail da (set_dupval da s))
          } else Some (False, s));
       if fail then Some (btgerr s, s)
       else do {
         (da, s) \<leftarrow> binsdt ZDUP
           (dkey_bytes (dk\<lparr>dk_val := val, dk_blink := ke_dup (dup_keyent s)\<rparr>)) s;
         if da = ZNULL then Some (btgerr s, s)
         else do {
           (d, s) \<leftarrow> getdkey (ke_dup (dup_keyent s)) s;
           case d of
             None \<Rightarrow> Some (btgerr s, s)
           | Some d \<Rightarrow> do {
               (e, s) \<leftarrow> putdkey (ke_dup (dup_keyent s)) (d\<lparr>dk_flink := da\<rparr>) s;
               let s = (if e = 0 then set_duptail da s else s);
               (e, s) \<leftarrow> putkeyent cblk n s;
               Some (btgerr s, s)
             }
         }
       }
     }
   }"

section \<open>Positioning\<close>

text \<open>The walk of \<open>btduppos\<close> over deleted entries from \<open>dk\<close>: the address and entry reached, or how the
  function returns (\<open>Inl\<close>: its return value).\<close>

partial_function (option) duppos_walk ::
  "int \<Rightarrow> dkey \<Rightarrow> st \<Rightarrow> ((int + (int \<times> dkey)) \<times> st) option" where
  "duppos_walk direction dk s = do {
     let newaddr = (if direction = ZNEXT then dk_flink dk else dk_blink dk);
     if newaddr = ZNULL then Some (Inl ZNULL, set_draddr ZNULL (set_lfexct True s))
     else do {
       (d, s) \<leftarrow> getdkey newaddr s;
       case d of
         None \<Rightarrow> Some (Inl (btgerr s), s)
       | Some d \<Rightarrow>
           if dk_deleted d \<noteq> 0 then duppos_walk direction d s
           else Some (Inr (newaddr, d), s)
     }
   }"

text \<open>\<open>btduppos\<close>: the return value and \<open>*val\<close>.\<close>

definition btduppos :: "int \<Rightarrow> int option \<Rightarrow> st \<Rightarrow> ((int \<times> int option) \<times> st) option" where
  "btduppos direction val s =
     (if direction \<noteq> ZNEXT \<and> direction \<noteq> ZPREV then
        (let s = bterr ''BTDUPPOS'' QBADIR None s in Some ((btgerr s, val), s))
      else if s_draddr s = ZNULL \<and> \<not> s_lfexct s then Some ((ZNULL, val), s)
      else do {
        (r, s) \<leftarrow>
          (if s_draddr s = ZNULL then do {
             (ok, s) \<leftarrow> getkeyent (s_lfblk s) (s_lfpos s) s;
             if \<not> ok \<or> ke_dup (dup_keyent s) = ZNULL then Some (Inl ZNULL, s)
             else do {
               let newaddr =
                 (if direction = ZNEXT then ke_val (dup_keyent s) else ke_dup (dup_keyent s));
               (d, s) \<leftarrow> getdkey newaddr s;
               case d of
                 None \<Rightarrow> Some (Inl (btgerr s), s)
               | Some d \<Rightarrow> Some (Inr (newaddr, d), s)
             }
           } else do {
             (d, s) \<leftarrow> getdkey (s_draddr s) s;
             case d of
               None \<Rightarrow>
                 if shared s \<and> btgerr s = QNOTDUP then Some (Inl ZNULL, clear_err s)
                 else Some (Inl (btgerr s), s)
             | Some d \<Rightarrow> duppos_walk direction d s
           });
        case r of
          Inl ret \<Rightarrow> Some ((ret, val), s)
        | Inr (newaddr, d) \<Rightarrow>
            Some ((0, Some (dk_val d)), set_lfexct True (set_draddr newaddr s))
      })"

section \<open>Deletion and update\<close>

definition deldkey :: "int \<Rightarrow> dkey \<Rightarrow> st \<Rightarrow> (int \<times> st) option" where
  "deldkey da d s = do {
     (e, s) \<leftarrow> putdkey da (d\<lparr>dk_deleted := 1\<rparr>) s;
     if e \<noteq> 0 then Some (btgerr s, s)
     else do {
       let (blk, offset) = cnvdraddr da;
       (e, s) \<leftarrow> deldat blk offset s;
       Some (0, s)
     }
   }"

text \<open>Reading an entry, changing it, writing it back; the result is the code's early return.\<close>

definition relink_dkey :: "int \<Rightarrow> (dkey \<Rightarrow> dkey) \<Rightarrow> st \<Rightarrow> (bool \<times> st) option" where
  "relink_dkey da f s =
     (if da \<noteq> ZNULL then do {
        (d, s) \<leftarrow> getdkey da s;
        case d of
          None \<Rightarrow> Some (False, s)
        | Some d \<Rightarrow> do { (e, s) \<leftarrow> putdkey da (f d) s; Some (e = 0, s) }
      } else Some (True, s))"

definition btdeldup :: "st \<Rightarrow> (int \<times> st) option" where
  "btdeldup s = do {
     let da = s_draddr s;
     let cblk = s_lfblk s;
     let pos = s_lfpos s;
     if da = ZNULL then Some (ZNULL, s)
     else do {
       (d, s) \<leftarrow> getdkey da s;
       case d of
         None \<Rightarrow> Some (btgerr s, s)
       | Some d \<Rightarrow> do {
           (ok, s) \<leftarrow> getkeyent cblk pos s;
           if \<not> ok then Some (btgerr s, s)
           else do {
             let (status, flink, blink, s) =
               (if dk_blink d = ZNULL \<and> dk_flink d = ZNULL then
                  (ZNULL, ZNULL, ZNULL, set_draddr ZNULL s)
                else if dk_blink d = ZNULL then
                  (0, dk_flink d, ZNULL, set_dupval (dk_flink d) s)
                else if dk_flink d = ZNULL then
                  (0, ZNULL, dk_blink d, set_duptail (dk_blink d) s)
                else (0, dk_flink d, dk_blink d, s));
             (e, s) \<leftarrow> deldkey da d s;
             if e \<noteq> 0 then Some (btgerr s, s)
             else do {
               (ok, s) \<leftarrow> relink_dkey blink (\<lambda>d. d\<lparr>dk_flink := flink\<rparr>) s;
               if \<not> ok then Some (btgerr s, s)
               else do {
                 (ok, s) \<leftarrow> relink_dkey flink (\<lambda>d. d\<lparr>dk_blink := blink\<rparr>) s;
                 if \<not> ok then Some (btgerr s, s)
                 else do {
                   (e, s) \<leftarrow> putkeyent cblk pos (set_lfexct False s);
                   Some (status, s)
                 }
               }
             }
           }
         }
     }
   }"

definition btdupupd :: "int \<Rightarrow> st \<Rightarrow> (int \<times> st) option" where
  "btdupupd val s = do {
     let da = s_draddr s;
     if da \<noteq> ZNULL then do {
       (d, s) \<leftarrow> getdkey da s;
       case d of
         None \<Rightarrow> Some (btgerr s, s)
       | Some d \<Rightarrow> do { (e, s) \<leftarrow> putdkey da (d\<lparr>dk_val := val\<rparr>) s; Some (da, s) }
     } else Some (da, s)
   }"

section \<open>Counting\<close>

partial_function (option) btcntdups :: "int \<Rightarrow> int \<Rightarrow> st \<Rightarrow> (int \<times> st) option" where
  "btcntdups da count s =
     (if da \<noteq> ZNULL then do {
        (d, s) \<leftarrow> getdkey da s;
        d \<leftarrow> d;
        btcntdups (dk_flink d) (count + 1) s
      } else Some (count, s))"

fun cntkeys_loop :: "int \<Rightarrow> nat \<Rightarrow> int \<Rightarrow> int \<Rightarrow> st \<Rightarrow> (int \<times> st) option" where
  "cntkeys_loop blk 0 i tcnt s = Some (tcnt, s)"
| "cntkeys_loop blk (Suc n) i tcnt s = do {
     (ok, s) \<leftarrow> getkeyent blk i s;
     if \<not> ok then Some (ZNULL, s)
     else do {
       (kcnt, s) \<leftarrow>
         (if ke_dup (dup_keyent s) \<noteq> ZNULL then btcntdups (ke_val (dup_keyent s)) 0 s
          else Some (1, s));
       cntkeys_loop blk n (i + 1) (tcnt + kcnt) s
     }
   }"

definition btcntkeys :: "int \<Rightarrow> st \<Rightarrow> (int \<times> st) option" where
  "btcntkeys blk s = do {
     (nkeys, s) \<leftarrow> bgtinf blk ZNKEYS s;
     cntkeys_loop blk (nat nkeys) 0 0 s
   }"

text \<open>The loops, for evaluation.\<close>

declare duppos_walk.simps [code] and
  btcntdups.simps [code]

end
