(* ===== verification/Find.thy ===== *)
theory Find
  imports Dup
begin

text \<open>
  Descent into a tree: the split of a full block (\<open>bsptbk\<close>), the search for a key, which splits
  every full block it meets unless the index is read-only (\<open>bfndky\<close>), the walk down to a leaf
  (\<open>bleaf\<close>), and the operations that rest on the search: insertion (\<open>binsky\<close>) and update of a value
  (\<open>bmodky\<close>, \<open>bupdky\<close>).
\<close>

abbreviation inc_split :: "st \<Rightarrow> st" where
  "inc_split s \<equiv> s\<lparr>stat := (stat s)\<lparr>xsplit := xsplit (stat s) + 1\<rparr>\<rparr>"

section \<open>Split\<close>

text \<open>The keys kept, and those moved to the new block; the one between them is promoted.\<close>

definition split_sp :: int where "split_sp = ZMXKEY div 2"
definition split_sp2 :: int where
  "split_sp2 = (if ZMXKEY mod 2 = 0 then split_sp - 1 else split_sp)"

text \<open>\<open>bsptbk\<close>: the return value and \<open>*newblk\<close>.\<close>

definition bsptbk :: "int \<Rightarrow> st \<Rightarrow> ((int \<times> int) \<times> st) option" where
  "bsptbk blk s = do {
     (type, s) \<leftarrow> bgtinf blk ZBTYPE s;
     if type = ZROOT then do {
       (blk1, s) \<leftarrow> bgtfre s;
       if blk1 < 0 then Some ((ZNULL, ZNULL), s)
       else do {
         (blk2, s) \<leftarrow> bgtfre s;
         if blk2 < 0 then Some ((ZNULL, ZNULL), s)
         else do {
           s \<leftarrow> bcpybk blk1 blk 0 0 split_sp s;
           s \<leftarrow> bcpybk blk2 blk 0 (split_sp + 1) split_sp2 s;
           s \<leftarrow> bsetbk blk1 ZINUSE 0 blk split_sp (s_scroot s) ZNULL s;
           s \<leftarrow> bsetbk blk2 ZINUSE 0 blk split_sp2 (s_scroot s) ZNULL s;
           ((kep, r), s) \<leftarrow> bsrhbk blk ((srh_args (Some []) split_sp)\<lparr>s_result := Some 0\<rparr>) s;
           result \<leftarrow> s_result r;
           if result \<noteq> 0 then Some ((ZNULL, ZNULL), bterr ''BSPTBK'' QSPKEY None s)
           else do {
             k \<leftarrow> kep_deref kep s;
             s \<leftarrow> brepky blk 0 k blk1 blk2 s;
             s \<leftarrow> bstinf blk ZNKEYS 1 s;
             Some ((0, blk1), inc_split s)
           }
         }
       }
     } else do {
       s \<leftarrow> bsetbs blk 1 s;
       (newblk, s) \<leftarrow> bgtfre s;
       if newblk < 0 then Some ((ZNULL, newblk), s)
       else do {
         s \<leftarrow> bcpybk newblk blk 0 (split_sp + 1) split_sp2 s;
         let pblk = s_lfblk s;
         s \<leftarrow> bsetbk newblk ZINUSE 0 pblk split_sp2 (s_scroot s) ZNULL s;
         ((kep, r), s) \<leftarrow> bsrhbk blk ((srh_args (Some []) split_sp)\<lparr>s_result := Some 0\<rparr>) s;
         result \<leftarrow> s_result r;
         if result \<noteq> 0 then Some ((ZNULL, newblk), bterr ''BSPTBK'' QSPKEY None s)
         else do {
           s \<leftarrow> bstinf blk ZNKEYS split_sp s;
           k \<leftarrow> kep_deref kep s;
           s \<leftarrow> bputky pblk k blk newblk s;
           s \<leftarrow> bsetbs blk 0 s;
           Some ((0, newblk), inc_split s)
         }
       }
     }
   }"

section \<open>Search\<close>

text \<open>
  The loop of \<open>bfndky\<close>; \<open>r\<close> holds the locals that \<open>bsrhbk\<close> sets, \<open>s_val r\<close> is \<open>*val\<close>. Result: the
  status and \<open>*val\<close>.
\<close>

partial_function (option) bfndky_loop ::
  "string \<Rightarrow> int \<Rightarrow> srh \<Rightarrow> st \<Rightarrow> ((int \<times> int option) \<times> st) option" where
  "bfndky_loop lkey cblk r s =
     (if cblk \<noteq> ZNULL then do {
        (nkeys, s) \<leftarrow> bgtinf cblk ZNKEYS s;
        if nkeys = ZMXKEY \<and> smode (super s) = 0 then do {
          ((e, newblk), s) \<leftarrow> bsptbk cblk s;
          if newblk < 0 then Some ((QNOKEY, s_val r), bterr ''BFNDKY'' QSPLIT None s)
          else if cblk \<noteq> s_scroot s then do {
            let cblk = s_lfblk s;
            s \<leftarrow> pull_pos s;
            bfndky_loop lkey cblk r s
          } else bfndky_loop lkey cblk r s
        } else do {
          s \<leftarrow> push_pos (s_lfblk s) (s_lfpos s) s;
          ((kep, r), s) \<leftarrow> bsrhbk cblk (r\<lparr>s_key := Some lkey, s_loc := -1\<rparr>) s;
          let s = set_lfpos (s_loc r) (set_lfblk cblk s);
          result \<leftarrow> s_result r;
          if result < 0 then do { l \<leftarrow> s_link1 r; bfndky_loop lkey l r s }
          else if 0 < result then do {
            l \<leftarrow> s_link2 r;
            bfndky_loop lkey l r (set_lfpos (s_lfpos s + 1) s)
          } else do {
            ((d, val), s) \<leftarrow> btduppos ZNEXT (s_val r) (set_lfexct True s);
            Some ((0, val), s)
          }
        }
      } else Some ((QNOKEY, s_val r), s))"

text \<open>\<open>bfndky\<close>: the return value and \<open>*val\<close>.\<close>

definition bfndky :: "string \<Rightarrow> int option \<Rightarrow> st \<Rightarrow> ((int \<times> int option) \<times> st) option" where
  "bfndky key val s = do {
     let (e, s) = bvalap ''BFNDKY'' (clear_err s);
     if e \<noteq> 0 then Some ((e, val), s)
     else do {
       let lkey = strncpy_term ZKYLEN key;
       (ok, s) \<leftarrow> lock_if_shared ''BFNDKY'' s;
       ((status, val), s) \<leftarrow>
         (if \<not> ok then Some ((QNOKEY, val), s)
          else bfndky_loop lkey (s_scroot s) ((srh_args (Some lkey) (-1))\<lparr>s_val := val\<rparr>)
                 (set_lfkey lkey (bclrlf (bstkin s))));
       s \<leftarrow> unlock_if_shared s;
       let s = (if status \<noteq> 0 then bterr ''BFNDKY'' QNOKEY (Some lkey) s else s);
       Some ((btgerr s, val), s)
     }
   }"

section \<open>Leaves\<close>

partial_function (option) bleaf_loop :: "int \<Rightarrow> int \<Rightarrow> st \<Rightarrow> (int \<times> st) option" where
  "bleaf_loop dir idx s = do {
     m \<leftarrow> get_mem idx s;
     l \<leftarrow> arr_get (lnkblk m) (s_lfpos s);
     if l \<noteq> ZNULL then do {
       s \<leftarrow> push_pos (s_lfblk s) (s_lfpos s) s;
       let s = set_lfblk l s;
       ((ioerr, idx), s) \<leftarrow> brdblk l s;
       if idx < 0 then Some (idx, bterr ''BLEAF'' QRDBLK (Some (itostr l)) s)
       else if dir = 0 then bleaf_loop dir idx (set_lfpos 0 s)
       else do {
         (n, s) \<leftarrow> bgtinf l ZNKEYS s;
         bleaf_loop dir idx (set_lfpos n s)
       }
     } else Some (idx, s)
   }"

definition bleaf :: "int \<Rightarrow> st \<Rightarrow> (int \<times> st) option" where
  "bleaf dir s = do {
     ((ioerr, idx), s) \<leftarrow> brdblk (s_lfblk s) s;
     if idx < 0 \<or> ioerr \<noteq> 0 then
       Some (idx, bterr ''BLEAF'' QRDBLK (Some (itostr (s_lfblk s))) s)
     else do {
       (n, s) \<leftarrow> bgtinf (s_lfblk s) ZNKEYS s;
       if n = 0 then Some (idx, s) else bleaf_loop dir idx s
     }
   }"

section \<open>Insertion and update\<close>

definition binsky :: "string \<Rightarrow> int \<Rightarrow> st \<Rightarrow> (int \<times> st) option" where
  "binsky key val s = do {
     let (e, s) = bvalap ''BINSKY'' (clear_err s);
     if e \<noteq> 0 then Some (e, s)
     else do {
       (ok, s) \<leftarrow> lock_if_shared ''BINSKY'' s;
       s \<leftarrow>
         (if \<not> ok then Some s
          else if smode (super s) \<noteq> 0 then Some (bterr ''BINSKY'' QNOWRT None s)
          else do {
            (dups_allowed, s) \<leftarrow> bgtinf (s_scroot s) ZMISC s;
            let k = \<lparr>ke_key = strncpy_term ZKYLEN key, ke_val = val, ke_dup = ZNULL\<rparr>;
            ((status, lval), s) \<leftarrow> bfndky (ke_key k) None s;
            if status = QNOKEY \<or> status = 0 \<and> dups_allowed \<noteq> 0 then do {
              let s = clear_err s;
              if status = 0 then do { (e, s) \<leftarrow> btdupkey key val s; Some s }
              else do {
                (idx, s) \<leftarrow> bleaf 1 s;
                bputky (s_lfblk s) k ZNULL ZNULL s
              }
            } else Some (bterr ''BINSKY'' QDUP (Some key) s)
          });
       s \<leftarrow> unlock_if_shared s;
       Some (btgerr s, s)
     }
   }"

definition mem_set_val :: "int \<Rightarrow> int \<Rightarrow> memrec \<Rightarrow> memrec option" where
  "mem_set_val loc v m = do {
     e \<leftarrow> arr_get (keyblk m) loc;
     mem_set_key loc (e\<lparr>ke_val := v\<rparr>) m
   }"

definition bmodky :: "int \<Rightarrow> int \<Rightarrow> int \<Rightarrow> st \<Rightarrow> (int \<times> st) option" where
  "bmodky blk loc val s = do {
     s \<leftarrow>
       (if ZMXKEY \<le> loc \<or> loc < 0 then Some (bterr ''BMODKY'' QLOCTB (Some (itostr loc)) s)
        else do {
          (d, s) \<leftarrow> btdupupd val s;
          if d = ZNULL then do {
            ((ioerr, idx), s) \<leftarrow> brdblk blk s;
            if idx < 0 \<or> ioerr \<noteq> 0 then Some (bterr ''BMODKY'' QRDBLK (Some (itostr blk)) s)
            else do {
              s \<leftarrow> upd_mem idx (mem_set_val loc val) s;
              inc_writes idx 1 s
            }
          } else Some s
        });
     Some (btgerr s, s)
   }"

text \<open>\<open>bupdky\<close>: the key \<open>None\<close> (NULL) updates the key at the current position.\<close>

definition bupdky :: "string option \<Rightarrow> int \<Rightarrow> st \<Rightarrow> (int \<times> st) option" where
  "bupdky key val s = do {
     let (status, s) = bvalap ''BUPDKY'' (clear_err s);
     if status \<noteq> 0 then Some (status, s)
     else do {
       s \<leftarrow>
         (if smode (super s) \<noteq> 0 then Some (bterr ''BUPDKY'' QNOWRT None s)
          else do {
            (ok, s) \<leftarrow> lock_if_shared ''BUPDKY'' s;
            if \<not> ok then Some s
            else do {
              (status, s) \<leftarrow>
                (case key of
                   None \<Rightarrow> Some (status, s)
                 | Some k \<Rightarrow> do { ((e, lval), s) \<leftarrow> bfndky k None s; Some (e, s) });
              if status = 0 then do {
                (e, s) \<leftarrow> bmodky (s_lfblk s) (s_lfpos s) val s;
                Some s
              } else Some s
            }
          });
       s \<leftarrow> unlock_if_shared s;
       Some (btgerr s, s)
     }
   }"

text \<open>The loops, for evaluation.\<close>

declare bfndky_loop.simps [code] and
  bleaf_loop.simps [code]

end
