(* ===== verification/Console.thy ===== *)
theory Console
  imports Errors
begin

text \<open>
  What the programs of \<open>src-main\<close> use of the C library for text: \<open>printf\<close> with field widths, \<open>atoi\<close> and
  \<open>strtol\<close>, \<open>strtok\<close>, \<open>strncmp\<close>, \<open>strncpy\<close> with the terminator that its callers add, and \<open>fgets\<close>. Output
  is a list of lines, each with the stream that it went to; a line that ends with a percentage printed
  as a floating point number keeps the two numbers instead.
\<close>

section \<open>Output\<close>

datatype outp = Out string | Err string | Out_percent string int int

text \<open>\<open>%-ns\<close> and \<open>%ns\<close>, also for numbers printed by \<open>itostr\<close>; \<open>%0nd\<close> for numbers that are not negative.\<close>

definition pad_right :: "nat \<Rightarrow> string \<Rightarrow> string" where
  "pad_right n s = s @ replicate (n - length s) (CHR '' '')"

definition pad_left :: "nat \<Rightarrow> string \<Rightarrow> string" where
  "pad_left n s = replicate (n - length s) (CHR '' '') @ s"

definition pad_zero :: "nat \<Rightarrow> string \<Rightarrow> string" where
  "pad_zero n s = replicate (n - length s) (CHR ''0'') @ s"

abbreviation fmt_d :: "nat \<Rightarrow> int \<Rightarrow> string" where
  "fmt_d n v \<equiv> pad_left n (itostr v)"

section \<open>Strings\<close>

text \<open>A string in a buffer of \<open>n\<close> bytes: \<open>strncmp\<close> compares at most \<open>n\<close> characters.\<close>

definition strncmp_eq :: "nat \<Rightarrow> string \<Rightarrow> string \<Rightarrow> bool" where
  "strncmp_eq n s t = (take n s = take n t)"

definition STREMP :: "string \<Rightarrow> bool" where
  "STREMP s = (s = [])"

text \<open>One call of \<open>strtok\<close>: the token and what the next call goes on with.\<close>

definition strtok :: "string \<Rightarrow> string \<Rightarrow> (string \<times> string) option" where
  "strtok delims s =
     (case dropWhile (\<lambda>c. c \<in> set delims) s of
        [] \<Rightarrow> None
      | c # cs \<Rightarrow> Some (takeWhile (\<lambda>c. c \<notin> set delims) (c # cs),
                       drop 1 (dropWhile (\<lambda>c. c \<notin> set delims) (c # cs))))"

definition newline :: string where
  "newline = [char_of (10 :: nat)]"

definition is_blank :: "char \<Rightarrow> bool" where
  "is_blank c = (c = CHR '' '' \<or> c = char_of (9 :: nat))"

definition is_space :: "char \<Rightarrow> bool" where
  "is_space c = (c = CHR '' '' \<or> 9 \<le> (of_char c :: nat) \<and> (of_char c :: nat) \<le> 13)"

definition is_digit :: "char \<Rightarrow> bool" where
  "is_digit c = (48 \<le> (of_char c :: nat) \<and> (of_char c :: nat) \<le> 57)"

definition digits_val :: "string \<Rightarrow> int" where
  "digits_val ds = foldl (\<lambda>v c. 10 * v + int (of_char c - 48)) 0 ds"

text \<open>\<open>strtol(s,NULL,10)\<close> clamps at the limits of a 64-bit \<open>long\<close>; \<open>atoi\<close> is its conversion to \<open>int\<close>.\<close>

definition strtol :: "string \<Rightarrow> int" where
  "strtol s =
     (let s = dropWhile is_space s;
          neg = (s \<noteq> [] \<and> hd s = CHR ''-'');
          s = (if s \<noteq> [] \<and> (hd s = CHR ''-'' \<or> hd s = CHR ''+'') then tl s else s);
          v = digits_val (takeWhile is_digit s)
      in max (- (2 ^ 63)) (min (2 ^ 63 - 1) (if neg then - v else v)))"

definition atoi :: "string \<Rightarrow> int" where
  "atoi s = to_int32 (strtol s)"

section \<open>Reading lines\<close>

text \<open>\<open>fgets(buf,n,f)\<close> on what is left of a stream: the line read, with its newline if it fits, and
  the rest of the stream.\<close>

definition fgets :: "nat \<Rightarrow> string \<Rightarrow> (string \<times> string) option" where
  "fgets n s =
     (if s = [] then None
      else
        (let line = takeWhile (\<lambda>c. c \<noteq> char_of (10 :: nat)) s;
             line = (if length line < length s then line @ newline else line);
             k = min (length line) (n - 1)
         in Some (take k s, drop k s)))"

lemma fgets_all: "fgets n s = Some (l, r) \<Longrightarrow> l @ r = s"
  by (auto simp: fgets_def Let_def split: if_splits)

lemma fgets_shorter: "1 < n \<Longrightarrow> fgets n s = Some (l, r) \<Longrightarrow> length r < length s"
  by (cases s) (auto simp: fgets_def Let_def newline_def split: if_splits)

lemma strtok_free:
  "strtok delims s = Some (t, r) \<Longrightarrow> t \<noteq> [] \<and> set t \<inter> set delims = {}"
  by (auto simp: strtok_def split: list.splits dest: set_takeWhileD
      dest!: dropWhile_eq_Cons_conv [THEN iffD1])

lemma strtok_none: "strtok delims s = None \<longleftrightarrow> set s \<subseteq> set delims"
proof -
  have "strtok delims s = None \<longleftrightarrow> dropWhile (\<lambda>c. c \<in> set delims) s = []"
    unfolding strtok_def by (cases "dropWhile (\<lambda>c. c \<in> set delims) s") (simp_all del: dropWhile_eq_Nil_conv)
  then show ?thesis by (auto simp: dropWhile_eq_Nil_conv)
qed

text \<open>The first token of a line that starts with one.\<close>

lemma strtok_first:
  assumes "t \<noteq> []" "set t \<inter> set delims = {}" "r = [] \<or> hd r \<in> set delims"
  shows "strtok delims (t @ r) = Some (t, drop 1 r)"
proof -
  have "dropWhile (\<lambda>c. c \<in> set delims) (t @ r) = t @ r"
    using assms(1,2) by (cases t) auto
  moreover have "takeWhile (\<lambda>c. c \<notin> set delims) (t @ r) = t" "dropWhile (\<lambda>c. c \<notin> set delims) (t @ r) = r"
    using assms(2,3) by (cases r; auto simp: takeWhile_append dropWhile_append)+
  ultimately show ?thesis using assms(1) by (cases "t @ r") (auto simp: strtok_def)
qed

end
