(* ===== verification/Walk.thy ===== *)
theory Walk
  imports Find Console
begin

text \<open>
  Walks over a tree: the next and the previous key (\<open>bnxtky\<close>, \<open>bprvky\<close>), a position before the first
  or after the last key (\<open>btpos\<close>), and the walk over the blocks of a tree in post-order (\<open>bnxtbk\<close>)
  with the structure check that uses it (\<open>btkeys\<close>). Out parameters (\<open>key\<close>, \<open>val\<close>) that a call does
  not set keep the caller's value, \<open>None\<close> if that is uninitialised.
\<close>

type_synonym kv = "string option \<times> int option"

section \<open>Next key\<close>

text \<open>What the walks do when they stand on a key: hand it out, remember it, enter its duplicates.\<close>

definition take_key :: "int \<Rightarrow> int \<Rightarrow> st \<Rightarrow> (kv \<times> st) option" where
  "take_key direction idx s = do {
     m \<leftarrow> get_mem idx s;
     e \<leftarrow> arr_get (keyblk m) (s_lfpos s);
     let key = strncpy_term ZKYLEN (ke_key e);
     ((d, val), s) \<leftarrow> btduppos direction (Some (ke_val e)) (set_lfkey key s);
     Some ((Some key, val), s)
   }"

partial_function (option) bnxtky_loop :: "kv \<Rightarrow> st \<Rightarrow> (kv \<times> st) option" where
  "bnxtky_loop kv s =
     (if s_lfblk s \<noteq> ZNULL then do {
        ((ioerr, idx), s) \<leftarrow> brdblk (s_lfblk s) s;
        if idx < 0 then Some (kv, bterr ''BNXTKY'' QRDBLK (Some (itostr (s_lfblk s))) s)
        else do {
          (nkeys, s) \<leftarrow> bgtinf (s_lfblk s) ZNKEYS s;
          if nkeys \<le> s_lfpos s \<or> nkeys = 0 then do {
            s \<leftarrow> pull_pos s;
            bnxtky_loop kv (set_lfexct False s)
          } else do {
            (idx, s) \<leftarrow>
              (if \<not> s_lfexct s then Some (idx, set_lfexct True s)
               else bleaf 0 (set_draddr ZNULL (set_lfpos (s_lfpos s + 1) s)));
            if 0 \<le> idx \<and> s_lfpos s < nkeys then take_key ZNEXT idx s
            else bnxtky_loop kv s
          }
        }
      } else Some (kv, s))"

definition bnxtky :: "kv \<Rightarrow> st \<Rightarrow> ((int \<times> kv) \<times> st) option" where
  "bnxtky kv s = do {
     let (e, s) = bvalap ''BNXTKY'' (clear_err s);
     if e \<noteq> 0 then Some ((e, kv), s)
     else do {
       (ok, s) \<leftarrow> lock_if_shared ''BNXTKY'' s;
       (kv, s) \<leftarrow>
         (if \<not> ok then Some (kv, s)
          else do {
            ((found, val), s) \<leftarrow> btduppos ZNEXT (snd kv) s;
            if 0 < found then Some ((fst kv, val), s)
            else if found = 0 then Some ((Some (strncpy_term ZKYLEN (s_lfkey s)), val), s)
            else do {
              (val, s) \<leftarrow>
                (if shared s \<and> s_lfblk s \<noteq> ZNULL then do {
                   ((e, val), s) \<leftarrow> bfndky (s_lfkey s) val s;
                   Some (val, clear_err s)
                 } else Some (val, s));
              (kv, s) \<leftarrow> bnxtky_loop (fst kv, val) s;
              Some (kv, if s_lfblk s = ZNULL then bterr ''BNXTKY'' QNOKEY None (bclrlf s) else s)
            }
          });
       s \<leftarrow> unlock_if_shared s;
       Some ((btgerr s, kv), s)
     }
   }"

section \<open>Previous key\<close>

partial_function (option) bprvky_loop :: "kv \<Rightarrow> st \<Rightarrow> (kv \<times> st) option" where
  "bprvky_loop kv s =
     (if s_lfblk s \<noteq> ZNULL then do {
        ((ioerr, idx), s) \<leftarrow> brdblk (s_lfblk s) s;
        if idx < 0 then Some (kv, bterr ''BPRVKY'' QRDBLK (Some (itostr (s_lfblk s))) s)
        else do {
          (nkeys, s) \<leftarrow> bgtinf (s_lfblk s) ZNKEYS s;
          if s_lfpos s < 0 \<or> nkeys = 0 then do {
            (p, s) \<leftarrow> bpull s;
            (b, s) \<leftarrow> bpull (set_lfpos (p - 1) s);
            bprvky_loop kv (set_draddr ZNULL (set_lfexct False (set_lfblk b s)))
          } else do {
            (idx, s) \<leftarrow>
              (if s_lfpos s = nkeys then
                 Some (idx, set_draddr ZNULL (set_lfexct True (set_lfpos (s_lfpos s - 1) s)))
               else if s_lfexct s then do {
                 (idx, s) \<leftarrow> bleaf 1 s;
                 Some (idx, if idx < 0 then s else set_draddr ZNULL (set_lfpos (s_lfpos s - 1) s))
               } else do {
                 m \<leftarrow> get_mem idx s;
                 l \<leftarrow> arr_get (lnkblk m) (s_lfpos s);
                 if l = ZNULL then
                   Some (idx, set_draddr ZNULL (set_lfexct True (set_lfpos (s_lfpos s - 1) s)))
                 else Some (idx, set_lfexct True s)
               });
            if 0 \<le> idx \<and> 0 \<le> s_lfpos s then take_key ZPREV idx s
            else bprvky_loop kv s
          }
        }
      } else Some (kv, s))"

definition bprvky :: "kv \<Rightarrow> st \<Rightarrow> ((int \<times> kv) \<times> st) option" where
  "bprvky kv s = do {
     let (e, s) = bvalap ''BPRVKY'' (clear_err s);
     if e \<noteq> 0 then Some ((e, kv), s)
     else do {
       (ok, s) \<leftarrow> lock_if_shared ''BPRVKY'' s;
       (kv, s) \<leftarrow>
         (if \<not> ok then Some (kv, s)
          else do {
            ((found, val), s) \<leftarrow> btduppos ZPREV (snd kv) s;
            if 0 < found then Some ((fst kv, val), s)
            else if found = 0 then Some ((Some (strncpy_term ZKYLEN (s_lfkey s)), val), s)
            else do {
              (val, s) \<leftarrow>
                (if shared s \<and> s_lfblk s \<noteq> ZNULL then do {
                   ((e, val), s) \<leftarrow> bfndky (s_lfkey s) val s;
                   Some (val, clear_err s)
                 } else Some (val, s));
              (kv, s) \<leftarrow> bprvky_loop (fst kv, val) s;
              Some (kv, if s_lfblk s = ZNULL then bterr ''BPRVKY'' QNOKEY None s else s)
            }
          });
       s \<leftarrow> unlock_if_shared s;
       Some ((btgerr s, kv), s)
     }
   }"

section \<open>Position\<close>

text \<open>\<open>key[strlen(key)-1]++\<close>: the last byte plus one; on the empty string the access is outside the
  buffer.\<close>

definition bump_last :: "string \<Rightarrow> string option" where
  "bump_last k =
     (if k = [] then None
      else (let v = (of_char (List.last k) + 1) mod 256 :: nat
            in Some (butlast k @ (if v = 0 then [] else [char_of v]))))"

definition btpos :: "int \<Rightarrow> st \<Rightarrow> (int \<times> st) option" where
  "btpos pos s = do {
     let (e, s) = bvalap ''BTPOS'' (clear_err s);
     if e \<noteq> 0 then Some (e, s)
     else do {
       (ok, s) \<leftarrow> lock_if_shared ''BTPOS'' s;
       if \<not> ok then Some (btgerr s, s)
       else do {
         s \<leftarrow> push_pos ZNULL ZNULL (bstkin (bclrlf s));
         let s = set_lfblk (s_scroot s) s;
         (ret, s) \<leftarrow>
           (if pos = ZSTART then do {
              (idx, s) \<leftarrow> bleaf 0 (set_lfpos 0 (set_lfkey [] s));
              Some (False, s)
            } else if pos = ZEND then do {
              (n, s) \<leftarrow> bgtinf (s_scroot s) ZNKEYS s;
              let s = set_lfpos n s;
              if n = 0 then Some (True, s)
              else do {
                (idx, s) \<leftarrow> bleaf 1 s;
                ((kep, r), s) \<leftarrow>
                  bsrhbk (s_lfblk s) ((srh_args None (s_lfpos s - 1))\<lparr>s_result := Some 0\<rparr>) s;
                status \<leftarrow> s_result r;
                if status < 0 then
                  Some (False, bterr ''BTPOS'' QPOSERR (Some (itostr (s_lfblk s))) s)
                else do {
                  key \<leftarrow> s_key r;
                  key \<leftarrow> bump_last key;
                  Some (False, set_lfkey (strncpy_term ZKYLEN key) s)
                }
              }
            } else Some (False, s));
         if ret then Some (0, s)
         else do {
           s \<leftarrow> unlock_if_shared s;
           Some (btgerr s, s)
         }
       }
     }
   }"

section \<open>Blocks in post-order\<close>

partial_function (option) bnxtbk_loop :: "int \<Rightarrow> st \<Rightarrow> (int \<times> st) option" where
  "bnxtbk_loop blk s =
     (if 0 \<le> s_lfblk s then do {
        ((ioerr, idx), s) \<leftarrow> brdblk (s_lfblk s) s;
        if idx < 0 \<or> ioerr \<noteq> 0 then
          Some (blk, bterr ''BNXTBK'' QRDBLK (Some (itostr (s_lfblk s))) s)
        else do {
          (nkeys, s) \<leftarrow> bgtinf (s_lfblk s) ZNKEYS s;
          if nkeys < s_lfpos s then do {
            let blk = s_lfblk s;
            s \<leftarrow> pull_pos s;
            Some (blk, set_lfpos (s_lfpos s + 1) s)
          } else do {
            (idx, s) \<leftarrow> bleaf 0 s;
            (n, s) \<leftarrow> bgtinf (s_lfblk s) ZNKEYS s;
            bnxtbk_loop blk (set_lfpos (n + 2) s)
          }
        }
      } else Some (blk, s))"

text \<open>\<open>bnxtbk\<close>: the return value and \<open>*blk\<close>.\<close>

definition bnxtbk :: "int \<Rightarrow> st \<Rightarrow> ((int \<times> int) \<times> st) option" where
  "bnxtbk blk s = do {
     s \<leftarrow>
       (if blk = ZNULL then do {
          s \<leftarrow> push_pos (-1) (-1) (bstkin s);
          (idx, s) \<leftarrow> bleaf 0 (set_lfpos 0 (set_lfblk (s_scroot s) s));
          Some s
        } else Some s);
     (blk, s) \<leftarrow> bnxtbk_loop blk s;
     Some ((btgerr s, blk), s)
   }"

text \<open>The locals of \<open>btkeys\<close> that its loop changes.\<close>

record keystat =
  tnkeys :: int
  empty_blk :: int
  leaf_depth :: int
  balanced :: bool
  blk_depth :: "int list"

text \<open>One pass of the loop for block \<open>blkno\<close>: \<open>None\<close> in the result is the early return.\<close>

definition btkeys_block ::
  "int \<Rightarrow> keystat \<Rightarrow> srh \<Rightarrow> st \<Rightarrow> ((keystat \<times> srh) option \<times> st) option" where
  "btkeys_block blkno ks r s = do {
     let depth = cdiv (btstk_depth s) 2;
     n \<leftarrow> arr_get (blk_depth ks) depth;
     bd \<leftarrow> arr_set (blk_depth ks) depth (n + 1);
     let ks = ks\<lparr>blk_depth := bd\<rparr>;
     ((ioerr, idx), s) \<leftarrow> brdblk blkno s;
     (nkeys, s) \<leftarrow> bgtinf blkno ZNKEYS s;
     if nkeys = 0 \<and> empty_blk ks = ZNULL then do {
       (t, s) \<leftarrow> bgtinf blkno ZBTYPE s;
       Some (Some (if t \<noteq> ZROOT then ks\<lparr>empty_blk := blkno\<rparr> else ks, r), s)
     } else do {
       ((kep, r), s) \<leftarrow> bsrhbk blkno r s;
       link1 \<leftarrow> s_link1 r;
       let ks =
         (if link1 \<noteq> ZNULL then ks
          else if leaf_depth ks < 0 then ks\<lparr>leaf_depth := depth\<rparr>
          else if leaf_depth ks \<noteq> depth then
            ks\<lparr>balanced := False, leaf_depth := max (leaf_depth ks) depth\<rparr>
          else ks);
       (nkeys, s) \<leftarrow> btcntkeys blkno s;
       if nkeys = ZNULL then Some (None, s)
       else Some (Some (ks\<lparr>tnkeys := tnkeys ks + nkeys\<rparr>, r), s)
     }
   }"

partial_function (option) btkeys_loop ::
  "int \<Rightarrow> keystat \<Rightarrow> srh \<Rightarrow> st \<Rightarrow> (keystat option \<times> st) option" where
  "btkeys_loop blkno ks r s = do {
     ((e, blkno), s) \<leftarrow> bnxtbk blkno s;
     (res, s) \<leftarrow> btkeys_block blkno ks r s;
     case res of
       None \<Rightarrow> Some (None, s)
     | Some (ks, r) \<Rightarrow>
         if blkno \<noteq> s_scroot s then btkeys_loop blkno ks r s else Some (Some ks, s)
   }"

text \<open>The report that \<open>btkeys\<close> prints when it is asked for.\<close>

definition btkeys_report :: "keystat \<Rightarrow> string list option" where
  "btkeys_report ks = do {
     rows \<leftarrow> those (map (\<lambda>i. do { n \<leftarrow> arr_get (blk_depth ks) i; Some (fmt_d 5 i @ '' '' @ fmt_d 18 n) })
                      [0..leaf_depth ks]);
     Some ([''Block stats:''] @
       (if empty_blk ks \<noteq> ZNULL
        then [''At least one non-root block has no keys.  First encountered was '' @ itostr (empty_blk ks)]
        else []) @
       [''Index balanced: '' @ (if balanced ks then ''YES'' else ''NO''),
        ''Max leaf depth: '' @ itostr (leaf_depth ks), ''Depth   Number of blocks''] @ rows)
   }"

text \<open>\<open>btkeys\<close>: the number of keys, \<open>ZNULL\<close> for a damaged tree, and the lines printed. The code returns
  without unlocking. (It takes the lock on the index that was active before; the model is of a call
  for the active index.)\<close>

definition btkeys :: "bool \<Rightarrow> st \<Rightarrow> ((int \<times> string list) \<times> st) option" where
  "btkeys stats s = do {
     let (e, s) = bvalap ''BTKEYS'' (clear_err s);
     if e \<noteq> 0 then Some ((e, []), s)
     else do {
       (ok, s) \<leftarrow> lock_if_shared ''BTKEYS'' s;
       if \<not> ok then Some ((0, []), s)
       else do {
         (ks, s) \<leftarrow> btkeys_loop ZNULL
           \<lparr>tnkeys = 0, empty_blk = ZNULL, leaf_depth = -1, balanced = True,
            blk_depth = replicate (nat STKMAX + 1) 0\<rparr> (srh_args None 0) s;
         case ks of
           None \<Rightarrow> Some ((0, []), s)
         | Some ks \<Rightarrow> do {
             ls \<leftarrow> (if stats then btkeys_report ks else Some []);
             Some ((if empty_blk ks \<noteq> ZNULL \<or> \<not> balanced ks then ZNULL else tnkeys ks, ls), s)
           }
       }
     }
   }"

definition context_ok :: "string \<Rightarrow> st \<Rightarrow> bool \<times> st" where
  "context_ok fn s =
     (if s_lfblk s = ZNULL \<or> s_lfpos s = ZNULL \<or> \<not> s_lfexct s
      then (False, bterr fn QBADCTXT None s) else (True, s))"

text \<open>The loops, for evaluation.\<close>

declare bnxtky_loop.simps [code] and
  bprvky_loop.simps [code] and
  bnxtbk_loop.simps [code] and
  btkeys_loop.simps [code]

end
