(* ===== verification/Delete.thy ===== *)
theory Delete
  imports Find
begin

text \<open>
  Deletion of a key: \<open>bdelk1\<close> removes it (a key of an inner block is replaced by its predecessor),
  \<open>bjnblk\<close>/\<open>bjoin\<close> join the leaf with a sister, \<open>balblk\<close>/\<open>balbk1\<close> move keys between unbalanced
  sisters, \<open>bdemte\<close> repairs a parent that a join left empty. Every pointer to a key entry that these
  functions hold points to the one static entry of \<open>bsrhbk\<close>: the model reads it at the place where
  the code dereferences the pointer.
\<close>

abbreviation inc_join :: "st \<Rightarrow> st" where
  "inc_join s \<equiv> s\<lparr>stat := (stat s)\<lparr>xjoin := xjoin (stat s) + 1\<rparr>\<rparr>"

abbreviation inc_bal :: "st \<Rightarrow> st" where
  "inc_bal s \<equiv> s\<lparr>stat := (stat s)\<lparr>xbal := xbal (stat s) + 1\<rparr>\<rparr>"

section \<open>Join\<close>

definition bjoin :: "int \<Rightarrow> int \<Rightarrow> bool \<Rightarrow> st \<Rightarrow> st option" where
  "bjoin lblk rblk kep s = do {
     s \<leftarrow> bremky (s_lfblk s) (s_lfpos s) s;
     s \<leftarrow> bsetbs lblk 1 s;
     k \<leftarrow> kep_deref kep s;
     s \<leftarrow> bputky lblk k ZNULL ZNULL s;
     (lnkeys, s) \<leftarrow> bgtinf lblk ZNKEYS s;
     (rnkeys, s) \<leftarrow> bgtinf rblk ZNKEYS s;
     s \<leftarrow> bcpybk lblk rblk lnkeys 0 rnkeys s;
     s \<leftarrow> bstinf lblk ZNKEYS (lnkeys + rnkeys) s;
     s \<leftarrow> bmkfre rblk s;
     s \<leftarrow> bsetbs lblk 0 s;
     Some (inc_join s)
   }"

text \<open>The search at position \<open>lfpos\<close> of the current block, \<open>bsrhbk(lf.lfblk,tkey,&lf.lfpos,...)\<close>,
  with \<open>tkey\<close> not initialised.\<close>

definition srh_parent :: "st \<Rightarrow> ((bool \<times> srh) \<times> st) option" where
  "srh_parent s = do {
     ((kep, r), s) \<leftarrow> bsrhbk (s_lfblk s) (srh_args None (s_lfpos s)) s;
     Some ((kep, r), set_lfpos (s_loc r) s)
   }"

text \<open>\<open>bjnblk\<close>: the result is \<open>*cblk\<close>, \<open>ZNULL\<close> if no join was possible. \<open>try_right\<close> and
  \<open>try_left\<close> are its two blocks; \<open>Some c\<close> is \<open>goto fin\<close> with \<open>*cblk = c\<close>.\<close>

definition join_right :: "int \<Rightarrow> int \<Rightarrow> st \<Rightarrow> (int option \<times> st) option" where
  "join_right cblk cnkeys s = do {
     ((kep, r), s) \<leftarrow> srh_parent s;
     result \<leftarrow> s_result r;
     if result \<noteq> 0 then Some (Some cblk, bterr ''BJNBLK'' QJNSE None s)
     else do {
       rlink \<leftarrow> s_link2 r;
       (nkeys, s) \<leftarrow> bgtinf rlink ZNKEYS s;
       if cnkeys + nkeys < ZMXKEY - ZTHRES then do {
         s \<leftarrow> bjoin cblk rlink kep s;
         Some (Some cblk, s)
       } else Some (None, s)
     }
   }"

definition join_left :: "int \<Rightarrow> int \<Rightarrow> st \<Rightarrow> (int option \<times> st) option" where
  "join_left cblk cnkeys s = do {
     ((kep, r), s) \<leftarrow> srh_parent (set_lfpos (s_lfpos s - 1) s);
     result \<leftarrow> s_result r;
     if result \<noteq> 0 then Some (Some cblk, bterr ''BJNBLK'' QJNSE None s)
     else do {
       llink \<leftarrow> s_link1 r;
       (nkeys, s) \<leftarrow> bgtinf llink ZNKEYS s;
       if cnkeys + nkeys < ZMXKEY - ZTHRES then do {
         s \<leftarrow> bjoin llink cblk kep s;
         Some (Some llink, s)
       } else Some (None, set_lfpos (s_lfpos s + 1) s)
     }
   }"

definition bjnblk :: "st \<Rightarrow> (int \<times> st) option" where
  "bjnblk s = do {
     let cblk = s_lfblk s;
     s \<leftarrow> pull_pos s;
     (nkeys, s) \<leftarrow> bgtinf (s_lfblk s) ZNKEYS s;
     (cnkeys, s) \<leftarrow> bgtinf cblk ZNKEYS s;
     (fin, s) \<leftarrow> (if s_lfpos s < nkeys then join_right cblk cnkeys s else Some (None, s));
     case fin of
       Some c \<Rightarrow> Some (c, s)
     | None \<Rightarrow> do {
         (fin, s) \<leftarrow> (if 0 < s_lfpos s then join_left cblk cnkeys s else Some (None, s));
         case fin of
           Some c \<Rightarrow> Some (c, s)
         | None \<Rightarrow> do {
             s \<leftarrow> push_pos (s_lfblk s) (s_lfpos s) s;
             Some (ZNULL, set_lfblk cblk s)
           }
       }
   }"

section \<open>Balance\<close>

text \<open>The loop of \<open>balbk1\<close>: the flag is false after \<open>goto fin\<close>, the number is \<open>keypos\<close>.\<close>

fun bal_loop :: "int \<Rightarrow> int \<Rightarrow> int \<Rightarrow> nat \<Rightarrow> int \<Rightarrow> st \<Rightarrow> ((bool \<times> int) \<times> st) option" where
  "bal_loop tblk fblk dir 0 keypos s = Some ((True, keypos), s)"
| "bal_loop tblk fblk dir (Suc n) keypos s = do {
     ((kep, r), s) \<leftarrow> bsrhbk fblk (srh_args None keypos) s;
     result \<leftarrow> s_result r;
     if result \<noteq> 0 then Some ((False, s_loc r), bterr ''BALBK1'' QBALSE None s)
     else do {
       let keypos = s_loc r;
       s \<leftarrow> bremky fblk keypos s;
       let keypos = (if dir < 0 then keypos - 1 else keypos);
       k \<leftarrow> kep_deref kep s;
       s \<leftarrow> bputky tblk k ZNULL ZNULL s;
       bal_loop tblk fblk dir n keypos s
     }
   }"

text \<open>The end of \<open>balbk1\<close>: the key of the fuller block that is next becomes the one between the blocks.\<close>

definition bal_end :: "int \<Rightarrow> int \<Rightarrow> int \<Rightarrow> int \<Rightarrow> st \<Rightarrow> st option" where
  "bal_end lblk rblk fblk keypos s = do {
     ((kep, r), s) \<leftarrow> bsrhbk fblk (srh_args None keypos) s;
     result \<leftarrow> s_result r;
     if result \<noteq> 0 then Some (bterr ''BALBK1'' QBALSE None s)
     else do {
       (pn, s) \<leftarrow> bgtinf (s_lfblk s) ZNKEYS s;
       let ppos = (if s_lfpos s = pn then s_lfpos s - 1 else s_lfpos s);
       k \<leftarrow> kep_deref kep s;
       s \<leftarrow> brepky (s_lfblk s) ppos k lblk rblk s;
       s \<leftarrow> bremky fblk (s_loc r) s;
       Some (inc_bal s)
     }
   }"

definition balbk1 :: "int \<Rightarrow> int \<Rightarrow> int \<Rightarrow> bool \<Rightarrow> st \<Rightarrow> st option" where
  "balbk1 lblk rblk diff p_kep s = do {
     let half = \<bar>cdiv diff 2\<bar>;
     (dir, tblk, fblk, keypos, limit, s) \<leftarrow>
       (if diff < 0 then Some (1, lblk, rblk, 0, half, s)
        else do {
          (n, s) \<leftarrow> bgtinf lblk ZNKEYS s;
          Some (-1, rblk, lblk, n - 1, (n - 1) - half, s)
        });
     k \<leftarrow> kep_deref p_kep s;
     s \<leftarrow> bputky tblk k ZNULL ZNULL s;
     ((ok, keypos), s) \<leftarrow> bal_loop tblk fblk dir (nat \<bar>limit - keypos\<bar>) keypos s;
     if \<not> ok then Some s else bal_end lblk rblk fblk keypos s
   }"

text \<open>The two halves of \<open>balblk\<close>; the flag is true after \<open>goto fin\<close>.\<close>

definition bal_right :: "int \<Rightarrow> int \<Rightarrow> st \<Rightarrow> (bool \<times> st) option" where
  "bal_right cblk cnkeys s = do {
     ((kep, r), s) \<leftarrow> srh_parent s;
     result \<leftarrow> s_result r;
     if result \<noteq> 0 then Some (True, bterr ''BALBLK'' QBALSE None s)
     else do {
       rlink \<leftarrow> s_link2 r;
       (nkeys, s) \<leftarrow> bgtinf rlink ZNKEYS s;
       let diff = cnkeys - nkeys;
       if \<bar>diff\<bar> > ZMXKEY div 2 then do {
         s \<leftarrow> balbk1 cblk rlink diff kep s;
         Some (True, s)
       } else Some (False, s)
     }
   }"

definition bal_left :: "int \<Rightarrow> int \<Rightarrow> st \<Rightarrow> (bool \<times> st) option" where
  "bal_left cblk cnkeys s = do {
     ((kep, r), s) \<leftarrow> srh_parent (set_lfpos (s_lfpos s - 1) s);
     result \<leftarrow> s_result r;
     if result \<noteq> 0 then Some (True, bterr ''BALBLK'' QBALSE None s)
     else do {
       llink \<leftarrow> s_link1 r;
       (nkeys, s) \<leftarrow> bgtinf llink ZNKEYS s;
       let diff = nkeys - cnkeys;
       if \<bar>diff\<bar> > ZMXKEY div 2 then do {
         s \<leftarrow> balbk1 llink cblk diff kep s;
         Some (True, s)
       } else Some (False, set_lfpos (s_lfpos s + 1) s)
     }
   }"

definition balblk :: "st \<Rightarrow> st option" where
  "balblk s = do {
     let cblk = s_lfblk s;
     s \<leftarrow> pull_pos s;
     (nkeys, s) \<leftarrow> bgtinf (s_lfblk s) ZNKEYS s;
     (cnkeys, s) \<leftarrow> bgtinf cblk ZNKEYS s;
     (fin, s) \<leftarrow> (if s_lfpos s < nkeys then bal_right cblk cnkeys s else Some (False, s));
     if fin then Some s
     else do {
       (fin, s) \<leftarrow> (if 0 < s_lfpos s then bal_left cblk cnkeys s else Some (False, s));
       if fin then Some s
       else do {
         s \<leftarrow> push_pos (s_lfblk s) (s_lfpos s) s;
         Some (set_lfblk cblk s)
       }
     }
   }"

section \<open>Demotion\<close>

text \<open>
  \<open>bdemte\<close> for the block left over by a join, \<open>*cblk\<close>; the result is the new \<open>*cblk\<close>. \<open>kep\<close> is
  dereferenced at the call of \<open>bputky\<close>, after a possible \<open>bsptbk\<close>, whose own search has overwritten
  the static entry.
\<close>

definition bdemte :: "int \<Rightarrow> st \<Rightarrow> (int \<times> st) option" where
  "bdemte cblk s = do {
     (nkeys, s) \<leftarrow> bgtinf (s_lfblk s) ZNKEYS s;
     if nkeys \<noteq> 0 then Some (ZNULL, s)
     else do {
       (type, s) \<leftarrow> bgtinf (s_lfblk s) ZBTYPE s;
       if type \<noteq> ZROOT then do {
         s \<leftarrow> pull_pos s;
         (nkeys, s) \<leftarrow> bgtinf (s_lfblk s) ZNKEYS s;
         let rblke = (s_lfpos s \<noteq> 0);
         let s = (if rblke then set_lfpos (s_lfpos s - 1) s else s);
         ((kep, r), s) \<leftarrow> srh_parent s;
         result \<leftarrow> s_result r;
         if result \<noteq> 0 then Some (cblk, bterr ''BDEMTE'' QDEMSE None s)
         else do {
           s \<leftarrow> bremky (s_lfblk s) (s_lfpos s) s;
           link1 \<leftarrow> s_link1 r;
           link2 \<leftarrow> s_link2 r;
           let jblk = (if rblke then link1 else link2);
           (nkeys, s) \<leftarrow> bgtinf jblk ZNKEYS s;
           (fail, link1, s) \<leftarrow>
             (if nkeys = ZMXKEY then do {
                ((e, newblk), s) \<leftarrow> bsptbk jblk s;
                if newblk = ZNULL then Some (True, link1, bterr ''BDEMTE'' QDEMSP None s)
                else Some (False, if rblke then newblk else link1, s)
              } else Some (False, link1, s));
           if fail then Some (cblk, s)
           else do {
             (llink, rlink, s) \<leftarrow>
               (if \<not> rblke then do {
                  (nkeys, s) \<leftarrow> bgtinf link2 ZNKEYS s;
                  s \<leftarrow> bsetbs link1 1 s;
                  s \<leftarrow> bcpybk link1 link2 0 0 nkeys s;
                  s \<leftarrow> bstinf link1 ZNKEYS nkeys s;
                  s \<leftarrow> bsetbs link1 0 s;
                  Some (cblk, ZNULL, s)
                } else Some (ZNULL, cblk, s));
             k \<leftarrow> kep_deref kep s;
             s \<leftarrow> bputky link1 k llink rlink s;
             s \<leftarrow> bmkfre link2 s;
             Some (link1, s)
           }
         }
       } else do {
         (nkeys, s) \<leftarrow> bgtinf cblk ZNKEYS s;
         s \<leftarrow> bcpybk (s_lfblk s) cblk 0 0 nkeys s;
         s \<leftarrow> bstinf (s_lfblk s) ZNKEYS nkeys s;
         s \<leftarrow> bmkfre cblk s;
         Some (ZNULL, s)
       }
     }
   }"

text \<open>The loop \<open>while (cblk != ZNULL) bdemte(&cblk)\<close>.\<close>

partial_function (option) demote_loop :: "int \<Rightarrow> st \<Rightarrow> st option" where
  "demote_loop cblk s =
     (if cblk \<noteq> ZNULL then do { (c, s) \<leftarrow> bdemte cblk s; demote_loop c s } else Some s)"

section \<open>Deletion\<close>

definition bdelk1 :: "string option \<Rightarrow> st \<Rightarrow> (int \<times> st) option" where
  "bdelk1 key s = do {
     s \<leftarrow>
       (if \<not> s_lfexct s then Some (bterr ''BDELK1'' QDELEX None s)
        else do {
          (d, s) \<leftarrow> btdeldup s;
          if d \<noteq> ZNULL then Some s
          else do {
            let pos = s_lfpos s;
            let blk = s_lfblk s;
            ((kep, r), s) \<leftarrow> bsrhbk blk (srh_args None pos) s;
            let pos = s_loc r;
            bad \<leftarrow> (case key of
                     None \<Rightarrow> Some False
                   | Some k \<Rightarrow> do {
                       result \<leftarrow> s_result r;
                       if result \<noteq> 0 then Some True
                       else do { tkey \<leftarrow> s_key r; Some (strcmp tkey k \<noteq> 0) }
                     });
            if bad then Some (bterr ''BDELK1'' QDELER None s)
            else do {
              llink \<leftarrow> s_link1 r;
              (fail, s) \<leftarrow>
                (if llink \<noteq> ZNULL then do {
                   rlink \<leftarrow> s_link2 r;
                   (idx, s) \<leftarrow> bleaf 1 s;
                   ((kep, r), s) \<leftarrow> srh_parent (set_lfpos (s_lfpos s - 1) s);
                   result \<leftarrow> s_result r;
                   if result \<noteq> 0 then
                     Some (True, bterr ''BDELK1'' QDELRP (Some (itostr (s_lfblk s))) s)
                   else do {
                     k \<leftarrow> kep_deref kep s;
                     s \<leftarrow> brepky blk pos k llink rlink s;
                     Some (False, s)
                   }
                 } else Some (False, s));
              if fail then Some s
              else do {
                s \<leftarrow> bremky (s_lfblk s) (s_lfpos s) s;
                (type, s) \<leftarrow> bgtinf (s_lfblk s) ZBTYPE s;
                s \<leftarrow>
                  (if type \<noteq> ZROOT then do {
                     (cblk, s) \<leftarrow> bjnblk s;
                     s \<leftarrow> (if cblk = ZNULL then balblk s else Some s);
                     demote_loop cblk s
                   } else Some s);
                if \<not> shared s \<and> btgerr s = 0 then do {
                  ((status, val), s) \<leftarrow> bfndky (s_lfkey s) None s;
                  Some (if status = QNOKEY then clear_err s else s)
                } else Some s
              }
            }
          }
        });
     Some (btgerr s, s)
   }"

text \<open>\<open>bdelky\<close>: the key \<open>None\<close> (NULL) deletes the key at the current position.\<close>

definition bdelky :: "string option \<Rightarrow> st \<Rightarrow> (int \<times> st) option" where
  "bdelky key s = do {
     let (status, s) = bvalap ''BDELKY'' (clear_err s);
     if status \<noteq> 0 then Some (status, s)
     else do {
       s \<leftarrow>
         (if smode (super s) \<noteq> 0 then Some (bterr ''BDELKY'' QNOWRT None s)
          else do {
            (ok, s) \<leftarrow> lock_if_shared ''BDELKY'' s;
            if \<not> ok then Some s
            else do {
              (status, s) \<leftarrow>
                (case key of
                   None \<Rightarrow> Some (status, s)
                 | Some k \<Rightarrow> do { ((e, val), s) \<leftarrow> bfndky k None s; Some (e, s) });
              if status = 0 then do { (e, s) \<leftarrow> bdelk1 key s; Some s } else Some s
            }
          });
       s \<leftarrow> unlock_if_shared s;
       Some (btgerr s, s)
     }
   }"

text \<open>The loops, for evaluation.\<close>

declare demote_loop.simps [code]

end
