(* ===== verification/Records.thy ===== *)
theory Records
  imports Walk Delete
begin

text \<open>
  Keys with data records: the API functions of \<open>src-lib/btdata.c\<close>. A record is stored by \<open>binsdt\<close> and
  its address becomes the value of the key.
\<close>

text \<open>\<open>dr_setup\<close>, common to \<open>btupd\<close>, \<open>btdel\<close> and \<open>btrecs\<close>: the status and \<open>*draddr\<close>.\<close>

definition dr_setup :: "string \<Rightarrow> string option \<Rightarrow> st \<Rightarrow> ((int \<times> int option) \<times> st) option" where
  "dr_setup fname key s = do {
     (da, s) \<leftarrow>
       (if \<not> dataok s then Some (None, bterr fname QDAERR None s)
        else case key of
          None \<Rightarrow>
            if 0 < lckcnt s then
              (let (ok, s) = context_ok fname s
               in if \<not> ok then Some (None, s)
                  else do {
                    s \<leftarrow> (if shared s then do { (l, s) \<leftarrow> block s; Some s } else Some s);
                    ((kep, r), s) \<leftarrow> srh_parent s;
                    result \<leftarrow> s_result r;
                    Some (s_val r, if result \<noteq> 0 then bterr fname QBADCTXT None s else s)
                  })
            else Some (None, bterr fname QNOTOP None s)
        | Some k \<Rightarrow> do {
            (ok, s) \<leftarrow> lock_if_shared fname s;
            if \<not> ok then Some (None, s)
            else do {
              ((e, da), s) \<leftarrow> bfndky k None s;
              a \<leftarrow> da;
              let (dblk, offset) = cnvdraddr a;
              (t, s) \<leftarrow> bgtinf dblk ZBTYPE s;
              Some (da, if t \<noteq> ZDATA then bterr fname QNOTDA None s else s)
            }
          });
     Some ((btgerr s, da), s)
   }"

text \<open>\<open>btins\<close>; the data is the list of its \<open>dsize\<close> bytes, \<open>None\<close> for a negative \<open>dsize\<close>.\<close>

definition btins :: "string \<Rightarrow> byte list option \<Rightarrow> st \<Rightarrow> (int \<times> st) option" where
  "btins key data s = do {
     let (e, s) = bvalap ''BTINS'' (clear_err s);
     if e \<noteq> 0 then Some (e, s)
     else do {
       s \<leftarrow>
         (if \<not> dataok s then Some (bterr ''BTINS'' QDAERR None s)
          else do {
            (ok, s) \<leftarrow> lock_if_shared ''BTINS'' s;
            if \<not> ok then Some s
            else if smode (super s) \<noteq> 0 then Some (bterr ''BTINS'' QNOWRT None s)
            else case data of
              None \<Rightarrow> Some (bterr ''BTINS'' QDNEG None s)
            | Some bs \<Rightarrow> do {
                (da, s) \<leftarrow> binsdt ZDATA bs s;
                if da = ZNULL then Some s
                else if da < 0 then Some (bterr ''BTINS'' QDRANEG (Some (itostr da)) s)
                else do {
                  (status, s) \<leftarrow> binsky key da s;
                  if status \<noteq> 0 then do {
                    let s = bterr ''BTINS'' status (Some key) (clear_err s);
                    (e, s) \<leftarrow> bdeldt da s;
                    Some s
                  } else Some s
                }
              }
          });
       s \<leftarrow> unlock_if_shared s;
       Some (btgerr s, s)
     }
   }"

definition btupd :: "string option \<Rightarrow> byte list option \<Rightarrow> st \<Rightarrow> (int \<times> st) option" where
  "btupd key data s = do {
     let (e, s) = bvalap ''BTUPD'' (clear_err s);
     if e \<noteq> 0 then Some (e, s)
     else case data of
       None \<Rightarrow> Some (QDNEG, bterr ''BTUPD'' QDNEG None s)
     | Some bs \<Rightarrow> do {
         s \<leftarrow>
           (if \<not> dataok s then Some (bterr ''BTUPD'' QDAERR None s)
            else if smode (super s) \<noteq> 0 then Some (bterr ''BTINS'' QNOWRT None s)
            else do {
              ((status, da), s) \<leftarrow> dr_setup ''BTUPD'' key s;
              s \<leftarrow> (if status = 0 then do {
                      a \<leftarrow> da;
                      (e, s) \<leftarrow> bupddt a bs s;
                      Some s
                    } else Some s);
              unlock_if_shared s
            });
         Some (btgerr s, s)
       }
   }"

text \<open>\<open>btsel\<close>: the status and, where set, \<open>*rsize\<close> with the bytes copied.\<close>

definition btsel ::
  "string \<Rightarrow> int \<Rightarrow> st \<Rightarrow> ((int \<times> (int \<times> byte list) option) \<times> st) option" where
  "btsel key dsize s = do {
     let (e, s) = bvalap ''BTSEL'' (clear_err s);
     if e \<noteq> 0 then Some ((e, None), s)
     else do {
       (out, s) \<leftarrow>
         (if \<not> dataok s then Some (None, bterr ''BTSEL'' QDAERR None s)
          else do {
            (ok, s) \<leftarrow> lock_if_shared ''BTSEL'' s;
            if \<not> ok then Some (None, s)
            else do {
              ((status, da), s) \<leftarrow> bfndky key None s;
              if status \<noteq> 0 then Some (None, s)
              else do {
                a \<leftarrow> da;
                if a < 0 then Some (None, bterr ''BTSEL'' QDRANEG (Some (itostr a)) s)
                else do { (r, s) \<leftarrow> bseldt a dsize s; Some (Some r, s) }
              }
            }
          });
       s \<leftarrow> unlock_if_shared s;
       Some ((btgerr s, out), s)
     }
   }"

text \<open>\<open>btdel\<close>. The unlock is reached only after a successful \<open>dr_setup\<close>.\<close>

definition btdel :: "string option \<Rightarrow> st \<Rightarrow> (int \<times> st) option" where
  "btdel key s = do {
     let (e, s) = bvalap ''BTDEL'' (clear_err s);
     if e \<noteq> 0 then Some (e, s)
     else do {
       s \<leftarrow>
         (if smode (super s) \<noteq> 0 then Some (bterr ''BTINS'' QNOWRT None s)
          else do {
            ((status, da), s) \<leftarrow> dr_setup ''BTDEL'' key s;
            if status = 0 then do {
              a \<leftarrow> da;
              (status, s) \<leftarrow> bdeldt a s;
              status \<leftarrow> status;
              s \<leftarrow> (if status = 0 then do { (e, s) \<leftarrow> bdelky None s; Some s } else Some s);
              unlock_if_shared s
            } else Some s
          });
       Some (btgerr s, s)
     }
   }"

text \<open>\<open>btseln\<close> and \<open>btselp\<close> take the lock also when the index is not shared.\<close>

definition btseln ::
  "kv \<Rightarrow> int \<Rightarrow> st \<Rightarrow> ((int \<times> kv \<times> (int \<times> byte list) option) \<times> st) option" where
  "btseln kv dsize s = do {
     let (e, s) = bvalap ''BTSELN'' (clear_err s);
     if e \<noteq> 0 then Some ((e, kv, None), s)
     else do {
       (kv, out, s) \<leftarrow>
         (if \<not> dataok s then Some (kv, None, bterr ''BTSELN'' QDAERR None s)
          else do {
            (ok, s) \<leftarrow> block s;
            if \<not> ok then Some (kv, None, bterr ''BTSELN'' QBUSY None s)
            else do {
              ((status, kv), s) \<leftarrow> bnxtky kv s;
              if status \<noteq> 0 then Some (kv, None, s)
              else do {
                a \<leftarrow> snd kv;
                (r, s) \<leftarrow> bseldt a dsize s;
                Some (kv, Some r, s)
              }
            }
          });
       s \<leftarrow> unlock_if_shared s;
       Some ((btgerr s, kv, out), s)
     }
   }"

definition btselp ::
  "kv \<Rightarrow> int \<Rightarrow> st \<Rightarrow> ((int \<times> kv \<times> (int \<times> byte list) option) \<times> st) option" where
  "btselp kv dsize s = do {
     let (e, s) = bvalap ''BTSELP'' (clear_err s);
     if e \<noteq> 0 then Some ((e, kv, None), s)
     else do {
       (kv, out, s) \<leftarrow>
         (if \<not> dataok s then Some (kv, None, bterr ''BTSELP'' QDAERR None s)
          else do {
            (ok, s) \<leftarrow> block s;
            if \<not> ok then Some (kv, None, bterr ''BTSELN'' QBUSY None s)
            else do {
              ((status, kv), s) \<leftarrow> bprvky kv s;
              if status \<noteq> 0 then Some (kv, None, s)
              else do {
                a \<leftarrow> snd kv;
                (r, s) \<leftarrow> bseldt a dsize s;
                Some (kv, Some r, s)
              }
            }
          });
       s \<leftarrow> bulock s;
       Some ((btgerr s, kv, out), s)
     }
   }"

definition btrecs :: "string option \<Rightarrow> st \<Rightarrow> ((int \<times> int option) \<times> st) option" where
  "btrecs key s = do {
     let (e, s) = bvalap ''BTRECS'' (clear_err s);
     if e \<noteq> 0 then Some ((e, None), s)
     else do {
       (rsize, s) \<leftarrow>
         (if smode (super s) \<noteq> 0 then Some (None, bterr ''BTINS'' QNOWRT None s)
          else do {
            ((status, da), s) \<leftarrow> dr_setup ''BTRECS'' key s;
            if status = 0 then do {
              a \<leftarrow> da;
              (n, s) \<leftarrow> brecsz a s;
              s \<leftarrow> unlock_if_shared s;
              Some (Some n, s)
            } else Some (None, s)
          });
       Some ((btgerr s, rsize), s)
     }
   }"

end
