(* ===== verification/Roots.thy ===== *)
theory Roots
  imports Records
begin

text \<open>
  The roots of an index: the super root holds the names of the trees of a file; \<open>btchgr\<close> makes one of
  them current, \<open>btcrtr\<close> creates one, \<open>btdelr\<close> deletes one with its blocks, \<open>btdups\<close> allows duplicate
  keys in the current one. Also the explicit lock (\<open>btlock\<close>, \<open>btunlock\<close>) and the write-through
  threshold.
\<close>

section \<open>Change of the current root\<close>

definition btchgr :: "string \<Rightarrow> st \<Rightarrow> (int \<times> st) option" where
  "btchgr root s = do {
     let (e, s) = bvalap ''BTCHGR'' (clear_err s);
     if e \<noteq> 0 then Some (e, s)
     else do {
       (ok, s) \<leftarrow> lock_if_shared ''BTCHGR'' s;
       s \<leftarrow>
         (if \<not> ok then Some s
          else do {
            let svblk = s_scroot s;
            s \<leftarrow> (if 0 \<le> s_scroot s then bsetbs (s_scroot s) 0 s else Some s);
            s \<leftarrow> bsetbs ZSUPER 1 (set_scroot ZSUPER s);
            ((status, blk), s) \<leftarrow> bfndky root None s;
            s \<leftarrow> bsetbs (s_scroot s) 0 s;
            let s = bclrlf s;
            if status = 0 then do {
              blk \<leftarrow> blk;
              (t, s) \<leftarrow> bgtinf blk ZBTYPE s;
              if t \<noteq> ZROOT then Some (bterr ''BTCHGR'' QBLKNR (Some (itostr blk)) s)
              else bsetbs blk 1
                (s\<lparr>super := (super s)\<lparr>scroot := blk, scclas := strncpy_term ZKYLEN root\<rparr>\<rparr>)
            } else if svblk \<noteq> ZNULL then bsetbs svblk 1 (set_scroot svblk s)
            else Some (set_scroot svblk s)
          });
       s \<leftarrow> unlock_if_shared s;
       Some (btgerr s, s)
     }
   }"

section \<open>Creation of a root\<close>

definition btcrtr :: "string \<Rightarrow> st \<Rightarrow> (int \<times> st) option" where
  "btcrtr root s = do {
     let (e, s) = bvalap ''BTCRTR'' (clear_err s);
     if e \<noteq> 0 then Some (e, s)
     else do {
       (ok, s) \<leftarrow> lock_if_shared ''BTCRTR'' s;
       s \<leftarrow>
         (if \<not> ok then Some s
          else do {
            let svblk = s_scroot s;
            s \<leftarrow> bsetbs (s_scroot s) 0 s;
            s \<leftarrow> bsetbs ZSUPER 1 (set_scroot ZSUPER s);
            (status, s) \<leftarrow> binsky root ZNULL s;
            s \<leftarrow> bsetbs (s_scroot s) 0 (inc_smod s);
            let s = bclrlf s;
            if status = 0 then do {
              (blk, s) \<leftarrow> bgtfre s;
              if blk = 0 then Some s
              else do {
                (status, s) \<leftarrow> bupdky (Some root) blk s;
                if status \<noteq> 0 then Some s
                else do {
                  s \<leftarrow> bsetbk blk ZROOT 0 ZNULL 0 blk ZNULL s;
                  bsetbs blk 1
                    (s\<lparr>super := (super s)\<lparr>scroot := blk, scclas := strncpy_term ZKYLEN root\<rparr>\<rparr>)
                }
              }
            } else bsetbs svblk 1 (set_scroot svblk s)
          });
       s \<leftarrow> unlock_if_shared s;
       Some (btgerr s, s)
     }
   }"

section \<open>Deletion of a root\<close>

text \<open>The chain of data blocks of the root, and its index blocks in post-order.\<close>

partial_function (option) free_data :: "int \<Rightarrow> st \<Rightarrow> st option" where
  "free_data blk s =
     (if blk \<noteq> ZNULL then do {
        (nxt, s) \<leftarrow> bgtinf blk ZNXBLK s;
        s \<leftarrow> bmkfre blk s;
        free_data nxt s
      } else Some s)"

partial_function (option) free_index :: "int \<Rightarrow> st \<Rightarrow> st option" where
  "free_index blk s =
     (if blk \<noteq> s_scroot s then do {
        s \<leftarrow> bmkfre blk s;
        ((e, blk), s) \<leftarrow> bnxtbk blk s;
        free_index blk s
      } else Some s)"

definition btdelr :: "string \<Rightarrow> st \<Rightarrow> (int \<times> st) option" where
  "btdelr root s = do {
     let (e, s) = bvalap ''BTDELR'' (clear_err s);
     if e \<noteq> 0 then Some (e, s)
     else do {
       (ok, s) \<leftarrow> lock_if_shared ''BTDELR'' s;
       s \<leftarrow>
         (if \<not> ok then Some s
          else do {
            let svblk = s_scroot s;
            s \<leftarrow> (if 0 \<le> s_scroot s then bsetbs (s_scroot s) 0 s else Some s);
            s \<leftarrow> bsetbs ZSUPER 1 (set_scroot ZSUPER s);
            ((status, blk), s) \<leftarrow> bfndky root None s;
            s \<leftarrow>
              (if status = 0 then do {
                 blk \<leftarrow> blk;
                 if blk = svblk \<or> blk = ZSUPER then do {
                   s \<leftarrow> bsetbs (s_scroot s) 0 s;
                   Some (bterr ''BTDELR'' QDELCR None s)
                 } else do {
                   (status, s) \<leftarrow> bdelky (Some root) s;
                   if status = 0 then do {
                     s \<leftarrow> bsetbs (s_scroot s) 0 (inc_smod (bclrlf s));
                     s \<leftarrow> bsetbs blk 1 (set_scroot blk s);
                     (d, s) \<leftarrow> bgtinf blk ZNXBLK s;
                     s \<leftarrow> free_data d s;
                     ((e, b), s) \<leftarrow> bnxtbk ZNULL s;
                     s \<leftarrow> free_index b s;
                     s \<leftarrow> bsetbs (s_scroot s) 0 s;
                     bmkfre (s_scroot s) s
                   } else Some s
                 }
               } else Some s);
            let s = set_scroot svblk s;
            if 0 \<le> s_scroot s then bsetbs (s_scroot s) 1 s else Some s
          });
       s \<leftarrow> unlock_if_shared s;
       Some (btgerr s, s)
     }
   }"

section \<open>Duplicates, lock and threshold\<close>

definition btdups :: "int \<Rightarrow> st \<Rightarrow> (int \<times> st) option" where
  "btdups dups s = do {
     let (e, s) = bvalap ''BTDUPS'' (clear_err s);
     if e \<noteq> 0 then Some (e, s)
     else if s_scroot s = ZSUPER then
       (let s = bterr ''BTDUPS'' QNODUPS None s in Some (btgerr s, s))
     else do {
       (ok, s) \<leftarrow> lock_if_shared ''BTDUPS'' s;
       s \<leftarrow> (if \<not> ok then Some s
             else do {
               s \<leftarrow> bstinf (s_scroot s) ZMISC dups s;
               unlock_if_shared s
             });
       Some (btgerr s, s)
     }
   }"

definition btlock :: "st \<Rightarrow> (int \<times> st) option" where
  "btlock s = do {
     let (e, s) = bvalap ''BTLOCK'' (clear_err s);
     if e \<noteq> 0 then Some (e, s)
     else do {
       s \<leftarrow> (if shared s then do {
               (ok, s) \<leftarrow> block s;
               Some (if ok then bclrlf s else bterr ''BTLOCK'' QBUSY None s)
             } else Some s);
       Some (btgerr s, s)
     }
   }"

definition btunlock :: "st \<Rightarrow> (int \<times> st) option" where
  "btunlock s = do {
     let (e, s) = bvalap ''BTUNLOCK'' (clear_err s);
     if e \<noteq> 0 then Some (e, s)
     else do {
       s \<leftarrow> unlock_if_shared s;
       Some (btgerr s, s)
     }
   }"

definition btthresh :: "int \<Rightarrow> st \<Rightarrow> int \<times> st" where
  "btthresh n s =
     (let (e, s) = bvalap ''BTTHRESH'' (clear_err s)
      in if e \<noteq> 0 then (e, s) else (0, s\<lparr>wt_threshold := n\<rparr>))"

text \<open>The loops, for evaluation.\<close>

declare free_data.simps [code] and
  free_index.simps [code]

end
