(* ===== verification/Session.thy ===== *)
theory Session
  imports Roots
begin

text \<open>
  The table of index contexts and the life of an index: \<open>btinit\<close> sets up the table, \<open>btcrt\<close> creates
  and \<open>btopn\<close> opens an index file in a free slot, \<open>btcls\<close> writes it back and closes it. A handle is
  the number of a slot of \<open>btat\<close>; \<open>activate\<close> is \<open>btact = b\<close>.
\<close>

section \<open>The process\<close>

text \<open>
  \<open>glob\<close> holds the file-scope variables of the library (the fields that \<open>st\<close> adds to \<open>bta\<close>), \<open>units\<close>
  the names under which the streams of the slots were opened and \<open>fsys\<close> the files that no stream of
  this process has open.
\<close>

record sess =
  btat :: "bta list"
  units :: "string list"
  btinited :: bool
  fsys :: "string \<Rightarrow> memrec list option"
  glob :: "unit st_ext"

definition activate :: "int \<Rightarrow> sess \<Rightarrow> st option" where
  "activate b ss = do { a \<leftarrow> arr_get (btat ss) b; Some (bta.extend a (glob ss)) }"

definition store_back :: "int \<Rightarrow> st \<Rightarrow> sess \<Rightarrow> sess option" where
  "store_back b s ss = do {
     as \<leftarrow> arr_set (btat ss) b (bta.truncate s);
     Some (ss\<lparr>btat := as, glob := bta.more s\<rparr>)
   }"

text \<open>An operation on the index of a slot.\<close>

definition in_slot :: "int \<Rightarrow> (st \<Rightarrow> ('a \<times> st) option) \<Rightarrow> sess \<Rightarrow> ('a \<times> sess) option" where
  "in_slot b f ss = do {
     s \<leftarrow> activate b ss;
     (r, s) \<leftarrow> f s;
     ss \<leftarrow> store_back b s ss;
     Some (r, ss)
   }"

text \<open>\<open>bterr\<close> outside any index.\<close>

definition null_bta :: bta where
  "null_bta = \<lparr>idxunt = None, idxfid = [], fd = -1, lckcnt = 0, shared = False, wt_threshold = 0,
     cntrls = [], mems = [], lru = \<lparr>lrut = 0, lruh = 0\<rparr>,
     lf = \<lparr>lfkey = [], lfblk = 0, lfpos = 0, lfexct = False, draddr = 0\<rparr>,
     stk = \<lparr>stkptr = 0, stkarr = []\<rparr>, stat = zero_stats,
     super = \<lparr>sblkmx = 0, snfree = 0, sfreep = 0, scroot = 0, smode = 0, smod = 0, scclas = []\<rparr>\<rparr>"

definition sess_err :: "string \<Rightarrow> int \<Rightarrow> string option \<Rightarrow> sess \<Rightarrow> sess" where
  "sess_err name c arg ss = ss\<lparr>glob := bta.more (bterr name c arg (bta.extend null_bta (glob ss)))\<rparr>"

definition sess_gerr :: "sess \<Rightarrow> int" where
  "sess_gerr ss = btgerr (bta.extend null_bta (glob ss))"

definition sess_env :: "ioop \<Rightarrow> int \<Rightarrow> sess \<Rightarrow> int" where
  "sess_env op blk ss = ioenv (bta.extend null_bta (glob ss)) op blk"

definition set_errno :: "int \<Rightarrow> sess \<Rightarrow> sess" where
  "set_errno e ss = ss\<lparr>glob := bta.more ((bta.extend null_bta (glob ss))\<lparr>errno := e\<rparr>)\<rparr>"

text \<open>
  The call of an API function \<open>fn\<close> on a handle by an application. Every API function starts with
  \<open>bterr("",0,NULL)\<close> and \<open>bvalap\<close>, which looks at the table of slots first: \<open>bad\<close> is what the call
  returns when the handle is not in the table.
\<close>

definition bt_api ::
  "string \<Rightarrow> (int \<Rightarrow> 'r) \<Rightarrow> (st \<Rightarrow> ('r \<times> st) option) \<Rightarrow> int \<Rightarrow> sess \<Rightarrow> ('r \<times> sess) option" where
  "bt_api fn bad f b ss =
     (if b < 0 \<or> int ZMXACT \<le> b then
        Some (bad QBADAP, sess_err fn QBADAP None (sess_err [] 0 None ss))
      else in_slot b f ss)"

abbreviation bt_call :: "string \<Rightarrow> (st \<Rightarrow> (int \<times> st) option) \<Rightarrow> int \<Rightarrow> sess \<Rightarrow> (int \<times> sess) option" where
  "bt_call fn f b ss \<equiv> bt_api fn (\<lambda>e. e) f b ss"

section \<open>Initialisation\<close>

text \<open>The count of one bits with which \<open>btinit\<close> checks that \<open>ZBLKSZ\<close> is a power of two.\<close>

fun bit_count :: "nat \<Rightarrow> int \<Rightarrow> int" where
  "bit_count 0 v = 0"
| "bit_count (Suc n) v = (if v AND 1 = 1 then 1 else 0) + bit_count n (drop_bit 1 v)"

definition btinit :: "sess \<Rightarrow> int \<times> sess" where
  "btinit ss =
     (if btinited ss then (QINERR, sess_err ''BTINIT'' QINERR None ss)
      else if bit_count (ZBYTEW * 4) ZBLKSZ \<noteq> 1 then
        (QBLKSZERR, sess_err ''BTINIT'' QBLKSZERR (Some (itostr ZBLKSZ)) ss)
      else
        (0, ss\<lparr>btat := map (\<lambda>a. a\<lparr>idxunt := None, idxfid := [], cntrls := [], mems := [], fd := -1,
                                  wt_threshold := 0\<rparr>) (btat ss),
               btinited := True\<rparr>))"

section \<open>Slots\<close>

definition bnewap :: "string \<Rightarrow> sess \<Rightarrow> int option \<times> sess" where
  "bnewap fid ss =
     (if \<exists>a \<in> set (btat ss). strcmp fid (idxfid a) = 0 then (None, sess_err ''BNEWAP'' QINERR None ss)
      else
        (let i = length (takeWhile (\<lambda>a. idxunt a \<noteq> None) (btat ss))
         in (if i < length (btat ss) then Some (int i) else None, ss)))"

text \<open>
  \<open>bacini\<close> allocates the context and initialises the cache, the find context and the statistics.
  \<open>os\<close> is what \<open>fileno\<close> and \<open>malloc\<close> return: the descriptor, and memory whose contents are not
  defined; \<open>None\<close> if there is no memory.
\<close>

definition bacini :: "bta option \<Rightarrow> st \<Rightarrow> (int \<times> st) option" where
  "bacini os s =
     (case os of
        None \<Rightarrow> Some (QNOMEM, bterr ''BACINI'' QNOMEM None (s\<lparr>lckcnt := 0\<rparr>))
      | Some m \<Rightarrow> do {
          s \<leftarrow> initcntrl (s\<lparr>fd := fd m, lckcnt := 0, cntrls := cntrls m, mems := mems m, lru := lru m,
                 lf := lf m, stk := stk m, stat := stat m, super := super m\<rparr>);
          Some (0, bclrst (bclrlf s))
        })"

text \<open>The memory that \<open>malloc\<close> hands out has the sizes asked for.\<close>

definition os_ok :: "bta option \<Rightarrow> bool" where
  "os_ok os \<longleftrightarrow> (\<forall>m. os = Some m \<longrightarrow> length (cntrls m) = ZMXBLK \<and> length (mems m) = ZMXBLK \<and>
     (\<forall>b \<in> set (mems m). wf_memrec b) \<and> length (stkarr (stk m)) = nat STKMAX \<and> 0 \<le> fd m)"

text \<open>The contents of a stream go back to the file system when the stream is closed or given up.\<close>

definition file_back :: "int \<Rightarrow> sess \<Rightarrow> sess option" where
  "file_back b ss = do {
     a \<leftarrow> arr_get (btat ss) b;
     fid \<leftarrow> arr_get (units ss) b;
     case idxunt a of
       None \<Rightarrow> Some ss
     | Some f \<Rightarrow> Some (ss\<lparr>fsys := (fsys ss)(fid \<mapsto> f)\<rparr>)
   }"

definition bacfre :: "int \<Rightarrow> sess \<Rightarrow> sess option" where
  "bacfre b ss = do {
     a \<leftarrow> arr_get (btat ss) b;
     as \<leftarrow> arr_set (btat ss) b (a\<lparr>idxfid := [], idxunt := None, cntrls := [], mems := []\<rparr>);
     Some (ss\<lparr>btat := as\<rparr>)
   }"

text \<open>\<open>fopen\<close> in a slot: truncating (\<open>w+b\<close>) or of a file that must exist (\<open>r+b\<close>).\<close>

definition do_fopen :: "bool \<Rightarrow> string \<Rightarrow> int \<Rightarrow> sess \<Rightarrow> (bool \<times> sess) option" where
  "do_fopen trunc fid b ss =
     (if sess_env Op_open 0 ss \<noteq> 0 then Some (False, set_errno (sess_env Op_open 0 ss) ss)
      else do {
        a \<leftarrow> arr_get (btat ss) b;
        us \<leftarrow> arr_set (units ss) b fid;
        let contents = (if trunc then Some [] else fsys ss fid);
        as \<leftarrow> arr_set (btat ss) b (a\<lparr>idxunt := contents\<rparr>);
        case contents of
          None \<Rightarrow> Some (False, set_errno 2 (ss\<lparr>btat := as\<rparr>))
        | Some f \<Rightarrow> Some (True, ss\<lparr>btat := as, units := us\<rparr>)
      })"

section \<open>Creation\<close>

text \<open>The two names that a new super root holds.\<close>

definition super_keys :: "memrec \<Rightarrow> memrec option" where
  "super_keys m = do {
     m \<leftarrow> mem_set_key 1 \<lparr>ke_key = ''$$super'', ke_val = ZSUPER, ke_dup = ZNULL\<rparr> m;
     m \<leftarrow> mem_set_key 0 \<lparr>ke_key = ''$$default'', ke_val = DEFAULT_ROOT, ke_dup = ZNULL\<rparr> m;
     m \<leftarrow> mem_set_link 0 ZNULL m;
     m \<leftarrow> mem_set_link 1 ZNULL m;
     mem_set_link 2 ZNULL m
   }"

text \<open>The loop over the blocks that \<open>nkeys\<close> asks for: \<open>n\<close> blocks from block \<open>i\<close> on.\<close>

fun prealloc :: "int \<Rightarrow> nat \<Rightarrow> int \<Rightarrow> st \<Rightarrow> st option" where
  "prealloc idx 0 i s = Some s"
| "prealloc idx (Suc n) i s = do {
     s \<leftarrow> upd_cntrl idx (\<lambda>c. c\<lparr>inmem := i\<rparr>) s;
     s \<leftarrow> bmkfre i s;
     prealloc idx n (i + 1) (s\<lparr>super := (super s)\<lparr>sblkmx := sblkmx (super s) + 1\<rparr>\<rparr>)
   }"

text \<open>The body of \<open>btcrt\<close> from the lock on: how it ends (\<open>fin1\<close>, \<open>fin\<close> or a normal return).\<close>

datatype crt_exit = Exit_fin1 | Exit_fin | Exit_ok

definition crt_super :: "st \<Rightarrow> (crt_exit \<times> st) option" where
  "crt_super s = do {
     let s = s\<lparr>super := (super s)\<lparr>sblkmx := 2, snfree := 0, sfreep := ZNULL, smod := 1, smode := 0\<rparr>\<rparr>;
     (idx, s) \<leftarrow> bgtslt s;
     s \<leftarrow> upd_cntrl idx (\<lambda>c. c\<lparr>inmem := ZSUPER\<rparr>) s;
     s \<leftarrow> bsetbk ZSUPER ZROOT (snfree (super s)) (sfreep (super s)) 2 (sblkmx (super s)) ZNULL s;
     s \<leftarrow> upd_mem idx super_keys s;
     (ioerr, s) \<leftarrow> bwrblk ZSUPER s;
     if ioerr \<noteq> 0 then Some (Exit_fin, bterr ''BTCRT'' QWRSUP (Some (itostr ZSUPER)) s)
     else Some (Exit_ok, s)
   }"

definition crt_root :: "int \<Rightarrow> st \<Rightarrow> (crt_exit \<times> st) option" where
  "crt_root nkeys s = do {
     (idx, s) \<leftarrow> bgtslt s;
     s \<leftarrow> upd_cntrl idx (\<lambda>c. c\<lparr>inmem := 1\<rparr>) s;
     let s = s\<lparr>super := (super s)\<lparr>scroot := 1, scclas := ''$$default''\<rparr>\<rparr>;
     s \<leftarrow> bsetbk 1 ZROOT 0 ZNULL 0 DEFAULT_ROOT ZNULL s;
     (ioerr, s) \<leftarrow> bwrblk DEFAULT_ROOT s;
     if ioerr \<noteq> 0 then Some (Exit_fin, bterr ''BTCRT'' QWRBLK (Some (itostr 1)) s)
     else do {
       ((ioerr, idx), s) \<leftarrow> brdblk DEFAULT_ROOT s;
       if ioerr \<noteq> 0 then Some (Exit_fin, bterr ''BTCRT'' QRDBLK (Some (itostr 1)) s)
       else do {
         s \<leftarrow> bsetbs DEFAULT_ROOT 1 s;
         s \<leftarrow> (if nkeys \<noteq> 0 then do {
                 (idx, s) \<leftarrow> bgtslt s;
                 prealloc idx (nat (cdiv nkeys ZMXKEY - 2)) 2 s
               } else Some s);
         Some (Exit_ok, s)
       }
     }
   }"

definition crt_body :: "int \<Rightarrow> st \<Rightarrow> (crt_exit \<times> st) option" where
  "crt_body nkeys s = do {
     (ok, s) \<leftarrow> block (set_scroot ZNULL s);
     if \<not> ok then Some (Exit_fin1, bterr ''BTCRT'' QBUSY None s)
     else do {
       (r, s) \<leftarrow> crt_super s;
       (r, s) \<leftarrow> (if r = Exit_ok then crt_root nkeys s else Some (r, s));
       s \<leftarrow> unlock_if_shared s;
       Some (r, s)
     }
   }"

text \<open>\<open>btcrt\<close>: the handle, \<open>None\<close> for NULL.\<close>

definition btcrt :: "bta option \<Rightarrow> string \<Rightarrow> int \<Rightarrow> bool \<Rightarrow> sess \<Rightarrow> (int option \<times> sess) option" where
  "btcrt os fid nkeys shrd ss =
     (case bnewap fid (sess_err [] 0 None ss) of
        (None, ss) \<Rightarrow> Some (None, sess_err ''BTCRT'' QNOACT None ss)
      | (Some b, ss) \<Rightarrow> do {
          (ok, ss) \<leftarrow> do_fopen True fid b ss;
          if \<not> ok then Some (None, sess_err ''BTCRT'' QCRTIO (Some fid) ss)
          else do {
            (e, ss) \<leftarrow> in_slot b
              (\<lambda>s. bacini os (s\<lparr>shared := shrd, idxfid := take (FIDSZ - 1) fid\<rparr>)) ss;
            if e \<noteq> 0 then Some (None, ss)
            else do {
              (r, ss) \<leftarrow> in_slot b (crt_body nkeys) ss;
              case r of
                Exit_ok \<Rightarrow> Some (if sess_gerr ss \<noteq> 0 then None else Some b, ss)
              | _ \<Rightarrow> do { ss \<leftarrow> file_back b ss; ss \<leftarrow> bacfre b ss; Some (None, ss) }
            }
          }
        })"

section \<open>Open and close\<close>

text \<open>The body of \<open>btopn\<close> after \<open>bacini\<close>; true is a normal return, false \<open>goto fin\<close>.\<close>

definition opn_body :: "int \<Rightarrow> bool \<Rightarrow> st \<Rightarrow> (bool \<times> st) option" where
  "opn_body mode shrd s = do {
     (ok, s) \<leftarrow> block (s\<lparr>shared := shrd, super := (super s)\<lparr>smod := 0, scroot := 0\<rparr>\<rparr>);
     (r, s) \<leftarrow>
       (if \<not> ok then Some (False, bterr ''BTOPN'' QBUSY None s)
        else do {
          (e, s) \<leftarrow> brdsup s;
          if e \<noteq> 0 then Some (False, s)
          else do {
            (status, s) \<leftarrow> btchgr ''$$default'' s;
            if status \<noteq> 0 then Some (False, s)
            else
              (let s = s\<lparr>super := (super s)\<lparr>smode := mode\<rparr>\<rparr>
               in Some (btgerr s = 0, s))
          }
        });
     s \<leftarrow> unlock_if_shared s;
     Some (r, s)
   }"

definition btopn :: "bta option \<Rightarrow> string \<Rightarrow> int \<Rightarrow> bool \<Rightarrow> sess \<Rightarrow> (int option \<times> sess) option" where
  "btopn os fid mode shrd ss =
     (case bnewap fid (sess_err [] 0 None ss) of
        (None, ss) \<Rightarrow> Some (None, sess_err ''BTOPN'' QNOACT None ss)
      | (Some b, ss) \<Rightarrow> do {
          (ok, ss) \<leftarrow> do_fopen False fid b ss;
          if \<not> ok then Some (None, sess_err ''BTOPN'' QOPNIO (Some fid) ss)
          else do {
            (e, ss) \<leftarrow> in_slot b (\<lambda>s. bacini os (s\<lparr>idxfid := take (FIDSZ - 1) fid\<rparr>)) ss;
            (r, ss) \<leftarrow> (if e \<noteq> 0 then Some (False, ss) else in_slot b (opn_body mode shrd) ss);
            if r then Some (Some b, ss)
            else do { ss \<leftarrow> file_back b ss; ss \<leftarrow> bacfre b ss; Some (None, ss) }
          }
        })"

text \<open>The loop \<open>while (btact->lckcnt > 0) bulock()\<close>, then \<open>fclose\<close>; the flag says that the stream is
  closed.\<close>

partial_function (option) unlock_all :: "st \<Rightarrow> st option" where
  "unlock_all s = (if 0 < lckcnt s then do { s \<leftarrow> bulock s; unlock_all s } else Some s)"

definition btcls :: "int \<Rightarrow> sess \<Rightarrow> (int \<times> sess) option" where
  "btcls b ss =
     (if b < 0 \<or> int ZMXACT \<le> b then Some (QBADAP, sess_err ''BTCLS'' QBADAP None (sess_err [] 0 None ss))
      else do {
        ((e, closed), ss) \<leftarrow> in_slot b (\<lambda>s. do {
            let (e, s) = bvalap ''BTCLS'' (clear_err s);
            if e \<noteq> 0 then Some ((e, False), s)
            else do {
              s \<leftarrow> unlock_all s;
              if ioenv s Op_close 0 \<noteq> 0 then
                Some ((0, False), bterr ''BTCLS'' QCLSIO (Some (idxfid s)) (s\<lparr>errno := ioenv s Op_close 0\<rparr>))
              else Some ((0, True), s)
            }
          }) ss;
        if e \<noteq> 0 then Some (e, ss)
        else if closed then do {
          ss \<leftarrow> file_back b ss;
          ss \<leftarrow> bacfre b ss;
          Some (sess_gerr ss, ss)
        } else Some (sess_gerr ss, ss)
      })"

text \<open>The loops, for evaluation.\<close>

declare unlock_all.simps [code]

end
