(* ===== verification/Trees.thy ===== *)
theory Trees
  imports KeyBlock
begin

text \<open>
  The contract of an index: a tree of blocks is a sorted list of key entries. \<open>tree_entries B h b\<close>
  lists the entries of the tree of height \<open>h\<close> under block \<open>b\<close> in order; \<open>wf_tree\<close> is the shape that
  the code relies on. The lemmas reduce an operation on one block of the path of a key to the same
  operation on the list.
\<close>

section \<open>Children and keys of a block, in order\<close>

fun interleave :: "'a list list \<Rightarrow> 'a list \<Rightarrow> 'a list" where
  "interleave (c # cs) (e # es) = c @ e # interleave cs es"
| "interleave (c # cs) [] = c"
| "interleave [] es = es"

text \<open>What stands to the left and to the right of child \<open>p\<close>.\<close>

definition left_part :: "nat \<Rightarrow> 'a list list \<Rightarrow> 'a list \<Rightarrow> 'a list" where
  "left_part p cs es = concat (map2 (\<lambda>c e. c @ [e]) (take p cs) (take p es))"

definition right_part :: "nat \<Rightarrow> 'a list list \<Rightarrow> 'a list \<Rightarrow> 'a list" where
  "right_part p cs es = concat (map2 (\<lambda>c e. e # c) (drop (Suc p) cs) (drop p es))"

lemma interleave_split:
  "length cs = Suc (length es) \<Longrightarrow> p \<le> length es \<Longrightarrow>
   interleave cs es = left_part p cs es @ cs ! p @ right_part p cs es"
proof (induction cs es arbitrary: p rule: interleave.induct)
  case (1 c cs e es)
  show ?case
  proof (cases p)
    case 0
    then show ?thesis using "1.IH" [of 0] "1.prems"
      by (cases cs) (auto simp: left_part_def right_part_def)
  next
    case (Suc q)
    then show ?thesis using "1.IH" [of q] "1.prems"
      by (auto simp: left_part_def right_part_def)
  qed
qed (auto simp: left_part_def right_part_def)

lemma left_part_last:
  "length cs = Suc (length es) \<Longrightarrow> p \<le> length es \<Longrightarrow> 0 < p \<Longrightarrow>
   \<exists>xs. left_part p cs es = xs @ [es ! (p - 1)]"
proof (induction p)
  case (Suc p)
  have "take (Suc p) cs = take p cs @ [cs ! p]" "take (Suc p) es = take p es @ [es ! p]"
    using Suc.prems by (simp_all add: take_Suc_conv_app_nth)
  then show ?case using Suc.prems by (simp add: left_part_def)
qed simp

lemma right_part_hd:
  "length cs = Suc (length es) \<Longrightarrow> p < length es \<Longrightarrow>
   \<exists>xs. right_part p cs es = es ! p # xs"
  by (auto simp: right_part_def Cons_nth_drop_Suc [symmetric])

lemma right_part_end: "length cs = Suc (length es) \<Longrightarrow> right_part (length es) cs es = []"
  by (simp add: right_part_def)

lemma set_interleave: "length cs = Suc (length es) \<Longrightarrow> set (interleave cs es) = \<Union> (set ` set cs) \<union> set es"
  by (induction cs es rule: interleave.induct) auto

text \<open>Replacing child \<open>p\<close>.\<close>

lemma interleave_update:
  assumes "length cs = Suc (length es)" "p \<le> length es"
  shows "interleave (cs[p := c]) es = left_part p cs es @ c @ right_part p cs es"
  using interleave_split [of "cs[p := c]" es p] assms
  by (simp add: left_part_def right_part_def)

section \<open>Positions of keys in concatenations\<close>

lemma sorted_keys_append:
  "sorted_keys (xs @ ys) \<longleftrightarrow> sorted_keys xs \<and> sorted_keys ys \<and>
     (\<forall>x \<in> set xs. \<forall>y \<in> set ys. ke_key x < ke_key y)"
  by (auto simp: sorted_keys_def sorted_wrt_append)

lemma lower_append:
  assumes "\<forall>x \<in> set xs. ke_key x < k" "zs \<noteq> [] \<Longrightarrow> k \<le> ke_key (hd zs)"
  shows "lower k (xs @ ys @ zs) = length xs + lower k ys"
proof (cases "\<forall>y \<in> set ys. ke_key y < k")
  case True
  have "takeWhile (\<lambda>e. ke_key e < k) (ys @ zs) = ys @ takeWhile (\<lambda>e. ke_key e < k) zs"
    by (rule takeWhile_append2) (use True in auto)
  moreover have "length (takeWhile (\<lambda>e. ke_key e < k) ys) = length ys"
    using True by (metis takeWhile_eq_all_conv)
  moreover have "takeWhile (\<lambda>e. ke_key e < k) zs = []" using assms(2) by (cases zs) auto
  ultimately show ?thesis using assms(1) True
    by (simp add: lower_def takeWhile_append2)
next
  case False
  then show ?thesis using assms(1) by (auto simp: lower_def takeWhile_append1)
qed

lemma insert_at_append:
  "p \<le> length ys \<Longrightarrow> insert_at (length xs + p) x (xs @ ys @ zs) = xs @ insert_at p x ys @ zs"
  by (simp add: insert_at_def)

section \<open>Trees\<close>

primrec tree_entries :: "memrec list \<Rightarrow> nat \<Rightarrow> int \<Rightarrow> keyent list" where
  "tree_entries B 0 b = entries (B ! nat b)"
| "tree_entries B (Suc h) b =
     interleave (map (tree_entries B h) (links (B ! nat b))) (entries (B ! nat b))"

primrec tree_blocks :: "memrec list \<Rightarrow> nat \<Rightarrow> int \<Rightarrow> int list" where
  "tree_blocks B 0 b = [b]"
| "tree_blocks B (Suc h) b = b # concat (map (tree_blocks B h) (links (B ! nat b)))"

primrec wf_tree :: "memrec list \<Rightarrow> nat \<Rightarrow> int \<Rightarrow> bool" where
  "wf_tree B 0 b \<longleftrightarrow> valid_blk B b \<and> wf_keys (B ! nat b) \<and>
     (nkeys_of (B ! nat b) \<noteq> 0 \<longrightarrow> (\<forall>l \<in> set (links (B ! nat b)). l = ZNULL))"
| "wf_tree B (Suc h) b \<longleftrightarrow> valid_blk B b \<and> wf_keys (B ! nat b) \<and> 0 < nkeys_of (B ! nat b) \<and>
     (\<forall>l \<in> set (links (B ! nat b)). wf_tree B h l)"

text \<open>A search tree: the entries are in order, every block occurs once.\<close>

definition search_tree :: "memrec list \<Rightarrow> nat \<Rightarrow> int \<Rightarrow> bool" where
  "search_tree B h b \<longleftrightarrow> wf_tree B h b \<and> sorted_keys (tree_entries B h b) \<and> distinct (tree_blocks B h b)"

lemma wf_tree_D: "wf_tree B h b \<Longrightarrow> valid_blk B b \<and> wf_keys (B ! nat b)"
  by (cases h) auto

lemma wf_tree_links: "wf_tree B h b \<Longrightarrow> length (links (B ! nat b)) = Suc (length (entries (B ! nat b)))"
  using wf_tree_D wf_keys_D(2,3) by fastforce

text \<open>The place of a key in a block, and the path that a search takes.\<close>

abbreviation place :: "memrec list \<Rightarrow> string \<Rightarrow> int \<Rightarrow> nat" where
  "place B k b \<equiv> lower k (entries (B ! nat b))"

definition has_key :: "memrec list \<Rightarrow> string \<Rightarrow> int \<Rightarrow> bool" where
  "has_key B k b \<longleftrightarrow> k \<in> ke_key ` set (entries (B ! nat b))"

abbreviation child :: "memrec list \<Rightarrow> string \<Rightarrow> int \<Rightarrow> int" where
  "child B k b \<equiv> links (B ! nat b) ! place B k b"

primrec path :: "memrec list \<Rightarrow> nat \<Rightarrow> int \<Rightarrow> string \<Rightarrow> int list" where
  "path B 0 b k = [b]"
| "path B (Suc h) b k = b # (if has_key B k b then [] else path B h (child B k b) k)"

lemma path_not_Nil [simp]: "path B h b k \<noteq> []"
  by (cases h) auto

lemma place_le: "wf_tree B h b \<Longrightarrow> place B k b < length (links (B ! nat b))"
  using wf_tree_links [of B h b] lower_le [of k "entries (B ! nat b)"] by simp

lemma child_wf: "wf_tree B (Suc h) b \<Longrightarrow> wf_tree B h (child B k b)"
  using place_le [of B "Suc h" b k] by auto

lemma path_subset: "wf_tree B h b \<Longrightarrow> set (path B h b k) \<subseteq> set (tree_blocks B h b)"
proof (induction h arbitrary: b)
  case (Suc h)
  then show ?case
    using Suc.IH [OF child_wf [OF Suc.prems, of k]] nth_mem [OF place_le [OF Suc.prems, of k]]
    by auto
qed simp

text \<open>The entries around child \<open>p\<close> of a block of height \<open>Suc h\<close>.\<close>

lemma tree_split:
  assumes t: "wf_tree B (Suc h) b" and s: "sorted_keys (tree_entries B (Suc h) b)"
    and n: "\<not> has_key B k b"
  obtains L R where "tree_entries B (Suc h) b = L @ tree_entries B h (child B k b) @ R"
    "L = left_part (place B k b) (map (tree_entries B h) (links (B ! nat b))) (entries (B ! nat b))"
    "R = right_part (place B k b) (map (tree_entries B h) (links (B ! nat b))) (entries (B ! nat b))"
    "\<forall>x \<in> set L. ke_key x < k" "\<forall>x \<in> set R. k < ke_key x"
proof -
  define es where "es = entries (B ! nat b)"
  define cs where "cs = map (tree_entries B h) (links (B ! nat b))"
  define p where "p = lower k es"
  have l: "length cs = Suc (length es)" using wf_tree_links [OF t] by (simp add: cs_def es_def)
  have p: "p \<le> length es" by (simp add: p_def lower_le)
  have all: "tree_entries B (Suc h) b = left_part p cs es @ cs ! p @ right_part p cs es"
    using interleave_split [OF l p] by (simp add: cs_def es_def)
  have c: "cs ! p = tree_entries B h (child B k b)"
    using l p by (simp add: cs_def es_def p_def)
  have S: "sorted_keys (left_part p cs es @ cs ! p @ right_part p cs es)" using s all by simp
  have "ke_key x < k" if x: "x \<in> set (left_part p cs es)" for x
  proof -
    have "0 < p" using x by (cases p) (auto simp: left_part_def)
    then obtain xs where xs: "left_part p cs es = xs @ [es ! (p - 1)]"
      using left_part_last [OF l p] by blast
    have "ke_key (es ! (p - 1)) < k" using lower_below [of "p - 1" k es] \<open>0 < p\<close> by (simp add: p_def)
    then show ?thesis using S x unfolding xs sorted_keys_append by (auto dest: less_trans)
  qed
  moreover have "k < ke_key x" if x: "x \<in> set (right_part p cs es)" for x
  proof -
    have "p < length es" using x p right_part_end [OF l] by (cases "p = length es") auto
    then obtain xs where xs: "right_part p cs es = es ! p # xs" using right_part_hd [OF l] by blast
    have "k \<le> ke_key (es ! p)" using lower_at [of k es] \<open>p < length es\<close> by (simp add: p_def)
    moreover have "k \<noteq> ke_key (es ! p)"
      using n \<open>p < length es\<close> by (auto simp: has_key_def es_def)
    ultimately have "k < ke_key (es ! p)" by simp
    then show ?thesis
      using S x unfolding xs sorted_keys_append by (auto simp: sorted_keys_def dest: less_trans)
  qed
  ultimately show ?thesis using that [of "left_part p cs es" "right_part p cs es"] all c
    by (simp add: p_def cs_def es_def)
qed

text \<open>A key is in the tree exactly if the search path ends at a block that has it.\<close>

lemma path_finds:
  assumes "wf_tree B h b" "sorted_keys (tree_entries B h b)"
  shows "k \<in> ke_key ` set (tree_entries B h b) \<longleftrightarrow> has_key B k (last (path B h b k))"
  using assms
proof (induction h arbitrary: b)
  case 0
  then show ?case by (simp add: has_key_def)
next
  case (Suc h)
  show ?case
  proof (cases "has_key B k b")
    case True
    have "set (entries (B ! nat b)) \<subseteq> set (tree_entries B (Suc h) b)"
      using wf_tree_links [OF Suc.prems(1)] by (auto simp: set_interleave)
    then show ?thesis using True by (auto simp: has_key_def)
  next
    case False
    from tree_split [OF Suc.prems False] obtain L R where
      LR: "tree_entries B (Suc h) b = L @ tree_entries B h (child B k b) @ R"
      "\<forall>x \<in> set L. ke_key x < k" "\<forall>x \<in> set R. k < ke_key x" by metis
    have "sorted_keys (tree_entries B h (child B k b))"
      using Suc.prems(2) unfolding LR(1) sorted_keys_append by blast
    then have "k \<in> ke_key ` set (tree_entries B h (child B k b)) \<longleftrightarrow>
        has_key B k (last (path B h (child B k b) k))"
      using Suc.IH [OF child_wf [OF Suc.prems(1)]] by blast
    then show ?thesis using LR False by auto
  qed
qed

section \<open>A change of one block\<close>

lemma tree_blocks_valid: "wf_tree B h b \<Longrightarrow> c \<in> set (tree_blocks B h b) \<Longrightarrow> valid_blk B c"
  by (induction h arbitrary: b) auto

lemma root_in_blocks: "b \<in> set (tree_blocks B h b)"
  by (cases h) auto

text \<open>A block outside a tree does not matter to it.\<close>

lemma tree_frame:
  assumes "wf_tree B h b" "c \<notin> set (tree_blocks B h b)" "0 \<le> c"
  shows "tree_entries (B[nat c := m]) h b = tree_entries B h b"
    "tree_blocks (B[nat c := m]) h b = tree_blocks B h b"
    "wf_tree (B[nat c := m]) h b"
  using assms
proof (induction h arbitrary: b)
  case 0
  have same: "B[nat c := m] ! nat b = B ! nat b" if "wf_tree B 0 b" "c \<notin> set (tree_blocks B 0 b)" for b
    using that assms(3) by (auto simp: valid_blk_def nth_list_update)
  {
    case 1 then show ?case using same by simp
  next
    case 2 then show ?case by simp
  next
    case 3 then show ?case using same [of b] by (simp add: valid_blk_def)
  }
next
  case (Suc h)
  have same: "B[nat c := m] ! nat b = B ! nat b"
    if "wf_tree B (Suc h) b" "c \<notin> set (tree_blocks B (Suc h) b)" for b
    using that assms(3) by (auto simp: valid_blk_def nth_list_update)
  have sub: "wf_tree B h l \<and> c \<notin> set (tree_blocks B h l)"
    if "wf_tree B (Suc h) b" "c \<notin> set (tree_blocks B (Suc h) b)" "l \<in> set (links (B ! nat b))" for b l
    using that by auto
  {
    case 1
    have e: "map (tree_entries (B[nat c := m]) h) (links (B ! nat b)) = map (tree_entries B h) (links (B ! nat b))"
      using Suc.IH(1) sub [OF 1(1,2)] assms(3) by (intro map_cong refl) blast
    show ?case by (simp only: tree_entries.simps same [OF 1(1,2)] e)
  next
    case 2
    have e: "map (tree_blocks (B[nat c := m]) h) (links (B ! nat b)) = map (tree_blocks B h) (links (B ! nat b))"
      using Suc.IH(2) sub [OF 2(1,2)] assms(3) by (intro map_cong refl) blast
    show ?case by (simp only: tree_blocks.simps same [OF 2(1,2)] e)
  next
    case 3
    have "wf_tree (B[nat c := m]) h l" if "l \<in> set (links (B ! nat b))" for l
      using Suc.IH(3) sub [OF 3(1,2) that] assms(3) by blast
    then show ?case using same [OF 3(1,2)] 3(1) by (simp add: valid_blk_def)
  }
qed

text \<open>The children of a block own disjoint sets of blocks.\<close>

lemma distinct_children:
  assumes "distinct (concat (map f ls))" "i < length ls" "j < length ls" "i \<noteq> j" "x \<in> set (f (ls ! i))"
  shows "x \<notin> set (f (ls ! j))"
  using assms
proof (induction ls arbitrary: i j)
  case (Cons l ls)
  have sub: "set (f (ls ! n)) \<subseteq> set (concat (map f ls))" if "n < length ls" for n
    using nth_mem [OF that] by auto
  show ?case
  proof (cases i)
    case 0
    then obtain j' where "j = Suc j'" using Cons.prems(4) by (cases j) auto
    then show ?thesis using 0 Cons.prems sub [of j'] by auto
  next
    case (Suc i')
    show ?thesis
    proof (cases j)
      case 0
      then show ?thesis using Suc Cons.prems sub [of i'] by auto
    next
      case (Suc j')
      then show ?thesis using \<open>i = Suc i'\<close> Cons.prems Cons.IH [of i' j'] by auto
    qed
  qed
qed simp

text \<open>The same for a change of the block where a search ends: the list of the tree changes there, and
  the tree keeps its shape.\<close>

lemma tree_insert:
  assumes t: "wf_tree B h b" "sorted_keys (tree_entries B h b)" "distinct (tree_blocks B h b)"
    and k: "k \<notin> ke_key ` set (tree_entries B h b)"
    and c: "c = last (path B h b k)"
    and m: "wf_keys m" "entries m = insert_at (lower k (entries (B ! nat c))) e (entries (B ! nat c))"
      "\<forall>l \<in> set (links m). l = ZNULL"
  shows "wf_tree (B[nat c := m]) h b \<and> tree_blocks (B[nat c := m]) h b = tree_blocks B h b \<and>
    tree_entries (B[nat c := m]) h b = insert_at (lower k (tree_entries B h b)) e (tree_entries B h b)"
  using t k c m
proof (induction h arbitrary: b)
  case 0
  then show ?case by (auto simp: valid_blk_def nat_less_iff)
next
  case (Suc h)
  define ls where "ls = links (B ! nat b)"
  define p where "p = place B k b"
  note t = Suc.prems(1-3)
  have nh: "\<not> has_key B k b"
    using path_finds [OF t(1,2), of k] Suc.prems(4) by (auto simp: has_key_def split: if_splits)
  have p: "p < length ls" using place_le [OF t(1)] by (simp add: p_def ls_def)
  have ch: "child B k b = ls ! p" by (simp add: p_def ls_def)
  have wfc: "wf_tree B h (ls ! p)" using child_wf [OF t(1), of k] ch by simp
  have c: "c = last (path B h (ls ! p) k)" using Suc.prems(5) nh ch by simp
  have cin: "c \<in> set (tree_blocks B h (ls ! p))"
    using path_subset [OF wfc, of k] c last_in_set [OF path_not_Nil, of B h "ls ! p" k] by blast
  have D: "distinct (b # concat (map (tree_blocks B h) ls))" using t(3) by (simp add: ls_def)
  have cnb: "c \<noteq> b" using D cin nth_mem [OF p] by auto
  have c0: "0 \<le> c" "0 \<le> b"
    using tree_blocks_valid [OF wfc cin] wf_tree_D [OF t(1)] by (auto simp: valid_blk_def)
  have same: "B[nat c := m] ! nat b = B ! nat b" using cnb c0 by simp
  from tree_split [OF t(1,2) nh] obtain L R where
    LR: "tree_entries B (Suc h) b = L @ tree_entries B h (ls ! p) @ R"
    "L = left_part p (map (tree_entries B h) ls) (entries (B ! nat b))"
    "R = right_part p (map (tree_entries B h) ls) (entries (B ! nat b))"
    "\<forall>x \<in> set L. ke_key x < k" "\<forall>x \<in> set R. k < ke_key x"
    unfolding ch unfolding p_def [symmetric] ls_def [symmetric] by metis
  have other: "c \<notin> set (tree_blocks B h (ls ! i))" if "i < length ls" "i \<noteq> p" for i
    using distinct_children [of "tree_blocks B h" ls p i c] D that p cin by auto
  have wfl: "wf_tree B h (ls ! i)" if "i < length ls" for i
    using t(1) nth_mem [OF that] by (simp add: ls_def)
  have fr: "tree_entries (B[nat c := m]) h (ls ! i) = tree_entries B h (ls ! i)"
    "tree_blocks (B[nat c := m]) h (ls ! i) = tree_blocks B h (ls ! i)"
    "wf_tree (B[nat c := m]) h (ls ! i)" if "i < length ls" "i \<noteq> p" for i
    using tree_frame [OF wfl [OF that(1)] other [OF that] c0(1)] by blast+
  have IH: "wf_tree (B[nat c := m]) h (ls ! p) \<and> tree_blocks (B[nat c := m]) h (ls ! p) = tree_blocks B h (ls ! p) \<and>
      tree_entries (B[nat c := m]) h (ls ! p) =
        insert_at (lower k (tree_entries B h (ls ! p))) e (tree_entries B h (ls ! p))"
  proof (rule Suc.IH [OF wfc _ _ _ c m])
    show "sorted_keys (tree_entries B h (ls ! p))"
      using t(2) unfolding LR(1) sorted_keys_append by blast
    show "distinct (tree_blocks B h (ls ! p))"
      using D nth_mem [OF p] by (auto simp: distinct_concat_iff)
    show "k \<notin> ke_key ` set (tree_entries B h (ls ! p))"
      using Suc.prems(4) LR(1) by auto
  qed
  have blocks: "map (tree_blocks (B[nat c := m]) h) ls = map (tree_blocks B h) ls"
  proof (rule nth_equalityI)
    fix i assume "i < length (map (tree_blocks (B[nat c := m]) h) ls)"
    then show "map (tree_blocks (B[nat c := m]) h) ls ! i = map (tree_blocks B h) ls ! i"
      using fr(2) [of i] IH by (cases "i = p") auto
  qed simp
  have ents: "map (tree_entries (B[nat c := m]) h) ls = (map (tree_entries B h) ls)
      [p := insert_at (lower k (tree_entries B h (ls ! p))) e (tree_entries B h (ls ! p))]"
  proof (rule nth_equalityI)
    fix i assume "i < length (map (tree_entries (B[nat c := m]) h) ls)"
    then show "map (tree_entries (B[nat c := m]) h) ls ! i = (map (tree_entries B h) ls)
        [p := insert_at (lower k (tree_entries B h (ls ! p))) e (tree_entries B h (ls ! p))] ! i"
      using fr(1) [of i] IH p by (cases "i = p") auto
  qed simp
  have wfs: "wf_tree (B[nat c := m]) h l" if "l \<in> set ls" for l
    using that fr(3) IH by (auto simp: in_set_conv_nth)
  have lk: "links (B ! nat b) = ls" by (simp add: ls_def)
  have len: "length (map (tree_entries B h) ls) = Suc (length (entries (B ! nat b)))"
    using wf_tree_links [OF t(1)] by (simp add: ls_def)
  have "tree_entries (B[nat c := m]) (Suc h) b =
      L @ insert_at (lower k (tree_entries B h (ls ! p))) e (tree_entries B h (ls ! p)) @ R"
    using interleave_update [OF len, of p] p len same lk ents LR(2,3) by simp
  also have "\<dots> = insert_at (length L + lower k (tree_entries B h (ls ! p))) e (tree_entries B (Suc h) b)"
    unfolding LR(1) by (simp add: insert_at_append lower_le)
  also have "length L + lower k (tree_entries B h (ls ! p)) = lower k (tree_entries B (Suc h) b)"
    unfolding LR(1) using LR(4,5) by (intro lower_append [symmetric]) (auto intro: less_imp_le)
  finally have "tree_entries (B[nat c := m]) (Suc h) b =
    insert_at (lower k (tree_entries B (Suc h) b)) e (tree_entries B (Suc h) b)" .
  moreover have "tree_blocks (B[nat c := m]) (Suc h) b = tree_blocks B (Suc h) b"
    by (simp only: tree_blocks.simps same lk blocks)
  moreover have "wf_tree (B[nat c := m]) (Suc h) b"
    using t(1) same lk wfs by (simp add: valid_blk_def)
  ultimately show ?case by blast
qed

end
