(* ===== verification/Search.thy ===== *)
theory Search
  imports Find Trees
begin

text \<open>
  The search for a key in a tree of blocks: \<open>bfndky\<close> finds a key exactly if it is in the list of
  entries that the tree stands for, leaves the tree alone, and leaves the find context and the stack
  as the walks and the insertion need them. Stated for searches that split no block (the index is
  read-only, or no block of the tree is full) and for keys without duplicates.
\<close>

section \<open>The state beside the store\<close>

text \<open>A search changes the find context, the stack, the static key entries, and, when it splits blocks,
  what the super root says of the allocation of blocks; the super root is then counted as modified.\<close>

definition super_later :: "super \<Rightarrow> super \<Rightarrow> bool" where
  "super_later S S' \<longleftrightarrow> smode S' = smode S \<and> scroot S' = scroot S \<and> scclas S' = scclas S \<and>
     smod S \<le> smod S' \<and> (smod S' = smod S \<longrightarrow> S' = S)"

lemma super_later_refl [simp]: "super_later S S"
  by (simp add: super_later_def)

lemma super_later_trans: "super_later S T \<Longrightarrow> super_later T U \<Longrightarrow> super_later S U"
  unfolding super_later_def by (metis order.trans order_antisym)

definition same_rest :: "st \<Rightarrow> st \<Rightarrow> bool" where
  "same_rest R R' \<longleftrightarrow>
     R' = R\<lparr>lf := lf R', stk := stk R', srh_keyent := srh_keyent R', dup_keyent := dup_keyent R',
       super := super R'\<rparr> \<and>
     super_later (super R) (super R')"

lemma same_rest_refl [simp]: "same_rest R R"
  by (simp add: same_rest_def)

lemma same_rest_trans: "same_rest R S \<Longrightarrow> same_rest S T \<Longrightarrow> same_rest R T"
  unfolding same_rest_def using super_later_trans [of "super R" "super S" "super T"]
  by (cases R, cases S, cases T) simp

lemma same_rest_upd [simp]:
  "same_rest R (R'\<lparr>lf := x\<rparr>) \<longleftrightarrow> same_rest R R'" "same_rest R (R'\<lparr>stk := y\<rparr>) \<longleftrightarrow> same_rest R R'"
  "same_rest R (R'\<lparr>srh_keyent := z\<rparr>) \<longleftrightarrow> same_rest R R'"
  "same_rest R (R'\<lparr>dup_keyent := w\<rparr>) \<longleftrightarrow> same_rest R R'"
  unfolding same_rest_def by (cases R, cases R', simp)+

lemma same_rest_fields:
  assumes "same_rest R R'"
  shows "smode (super R') = smode (super R)" "shared R' = shared R" "lckcnt R' = lckcnt R" "qerror R' = qerror R"
    "wt_threshold R' = wt_threshold R" "fd R' = fd R" "lkenv R' = lkenv R" "errno R' = errno R"
    "s_scroot R' = s_scroot R" "scclas (super R') = scclas (super R)"
  using assms [unfolded same_rest_def super_later_def] by (cases R, cases R', simp)+

text \<open>What the later layers need of that.\<close>

definition later :: "st \<Rightarrow> st \<Rightarrow> bool" where
  "later R R' \<longleftrightarrow> super_later (super R) (super R') \<and> shared R' = shared R \<and> lckcnt R' = lckcnt R \<and> lkenv R' = lkenv R"

lemma later_refl [simp]: "later R R"
  by (simp add: later_def)

lemma later_trans: "later R S \<Longrightarrow> later S T \<Longrightarrow> later R T"
  unfolding later_def using super_later_trans by metis

lemma later_same_rest: "same_rest R R' \<Longrightarrow> later R R'"
  using same_rest_fields [of R R'] by (simp add: later_def same_rest_def)

section \<open>Duplicates\<close>

lemma getkeyent_spec [specs]:
  assumes r: "repr s B P R" and b: "valid_blk B blk" "room P blk"
    and m: "wf_keys (B ! nat blk)" "0 \<le> pos" "pos < nkeys_of (B ! nat blk)"
  shows "runs (getkeyent blk pos s)
    (\<lambda>(ok, s'). ok \<and> repr s' B P (R\<lparr>dup_keyent := entries (B ! nat blk) ! nat pos\<rparr>))"
  unfolding getkeyent_def
  using block_get(1) [OF m] by (auto intro!: brdblk_bind [OF r b] simp: get_mem_slot)

text \<open>A key without duplicates: \<open>btduppos\<close> finds none.\<close>

lemma btduppos_none [specs]:
  assumes r: "repr s B P R" and b: "valid_blk B (s_lfblk R)" "room P (s_lfblk R)"
    and m: "wf_keys (B ! nat (s_lfblk R))" "0 \<le> s_lfpos R" "s_lfpos R < nkeys_of (B ! nat (s_lfblk R))"
    and d: "ke_dup (entries (B ! nat (s_lfblk R)) ! nat (s_lfpos R)) = ZNULL"
    and x: "s_draddr R = ZNULL" "s_lfexct R" "dir = ZNEXT \<or> dir = ZPREV"
  shows "runs (btduppos dir v s) (\<lambda>((e, w), s'). e = ZNULL \<and> w = v \<and>
    repr s' B P (R\<lparr>dup_keyent := entries (B ! nat (s_lfblk R)) ! nat (s_lfpos R)\<rparr>))"
proof -
  have lf: "lf s = lf R" using repr_fields [OF r] by simp
  have "runs (getkeyent (s_lfblk R) (s_lfpos R) s) (\<lambda>(ok, s'). ok \<and>
      repr s' B P (R\<lparr>dup_keyent := entries (B ! nat (s_lfblk R)) ! nat (s_lfpos R)\<rparr>))"
    by (rule getkeyent_spec [OF r b m])
  then obtain s1 where s1: "getkeyent (s_lfblk R) (s_lfpos R) s = Some (True, s1)"
      "repr s1 B P (R\<lparr>dup_keyent := entries (B ! nat (s_lfblk R)) ! nat (s_lfpos R)\<rparr>)"
    by (auto simp: runs_def)
  then have "dup_keyent s1 = entries (B ! nat (s_lfblk R)) ! nat (s_lfpos R)"
    using repr_fields(16) [OF s1(2)] by simp
  then show ?thesis
    using s1 x d lf by (auto simp: btduppos_def)
qed

section \<open>The search\<close>

text \<open>What the search leaves on the stack: the position it came from, and those of the inner blocks.\<close>

definition trail :: "memrec list \<Rightarrow> string \<Rightarrow> int \<times> int \<Rightarrow> int list \<Rightarrow> int list" where
  "trail B k from bs =
     concat (map (\<lambda>(b, p). [b, p]) (from # map (\<lambda>b. (b, int (place B k b))) (butlast bs)))"

text \<open>The position of a key in the block where the search ends; an empty block has none.\<close>

definition end_pos :: "memrec list \<Rightarrow> string \<Rightarrow> int \<Rightarrow> int" where
  "end_pos B k c = (if nkeys_of (B ! nat c) = 0 then -1 else int (place B k c))"

definition search_post ::
  "memrec list \<Rightarrow> nat \<Rightarrow> int \<Rightarrow> string \<Rightarrow> st \<Rightarrow> (int \<times> int option) \<Rightarrow> st \<Rightarrow> bool" where
  "search_post B h b k R res R' \<longleftrightarrow>
     (let bs = path B h b k; c = List.last bs
      in same_rest R R' \<and> wf_stk (stk R') \<and>
         stack_of (stk R') = stack_of (stk R) @ trail B k (s_lfblk R, s_lfpos R) bs \<and>
         lf R' = \<lparr>lfkey = s_lfkey R, lfblk = c, lfpos = end_pos B k c,
                  lfexct = (s_lfexct R \<or> has_key B k c), draddr = ZNULL\<rparr> \<and>
         (if has_key B k c
          then res = (0, Some (ke_val (entries (B ! nat c) ! place B k c)))
          else fst res = QNOKEY))"

text \<open>The blocks that a search reads without splitting them.\<close>

definition no_split :: "memrec list \<Rightarrow> nat \<Rightarrow> int \<Rightarrow> st \<Rightarrow> bool" where
  "no_split B h b R \<longleftrightarrow>
     smode (super R) \<noteq> 0 \<or> (\<forall>c \<in> set (tree_blocks B h b). nkeys_of (B ! nat c) < ZMXKEY)"

definition no_dups :: "keyent list \<Rightarrow> bool" where
  "no_dups es \<longleftrightarrow> (\<forall>e \<in> set es. ke_dup e = ZNULL)"

lemma no_dups_child:
  assumes t: "wf_tree B (Suc h) b" and "no_dups (tree_entries B (Suc h) b)"
  shows "no_dups (tree_entries B h (child B k b))" "no_dups (entries (B ! nat b))"
  using assms nth_mem [OF place_le [OF t, of k]]
  by (auto simp: no_dups_def set_interleave wf_tree_links [OF t])

lemma no_split_child:
  assumes t: "wf_tree B (Suc h) b" and "no_split B (Suc h) b R" and "smode (super R') = smode (super R)"
  shows "no_split B h (child B k b) R'"
  using assms nth_mem [OF place_le [OF t, of k]] by (auto simp: no_split_def)

lemma has_key_place:
  assumes "wf_keys (B ! nat b)"
  shows "has_key B k b \<longleftrightarrow> place B k b < length (entries (B ! nat b)) \<and>
    ke_key (entries (B ! nat b) ! place B k b) = k"
  unfolding has_key_def using lower_present wf_keys_D(4) [OF assms] by blast

text \<open>One turn of the loop: what the search of block \<open>b\<close> leaves to do.\<close>

lemma bfndky_loop_step:
  assumes r: "repr s B P R" and b: "valid_blk B b" "card P < ZMXBLK" and m: "wf_keys (B ! nat b)"
    and full: "nkeys_of (B ! nat b) < ZMXKEY \<or> smode (super R) \<noteq> 0"
    and w: "wf_stk (stk R)" "length (stack_of (stk R)) + 2 \<le> nat STKMAX"
    and next_blk: "\<And>a' s' R'. \<not> has_key B k b \<Longrightarrow> repr s' B P R' \<Longrightarrow>
      lf R' = (lf R)\<lparr>lfblk := b, lfpos := end_pos B k b\<rparr> \<Longrightarrow> same_rest R R' \<Longrightarrow> super R' = super R \<Longrightarrow>
      wf_stk (stk R') \<Longrightarrow>
      stack_of (stk R') = stack_of (stk R) @ [s_lfblk R, s_lfpos R] \<Longrightarrow>
      runs (bfndky_loop k (if nkeys_of (B ! nat b) = 0 then ZNULL else child B k b) a' s') Q"
    and found: "\<And>s' R'. has_key B k b \<Longrightarrow> repr s' B P R' \<Longrightarrow>
      lf R' = (lf R)\<lparr>lfblk := b, lfpos := int (place B k b), lfexct := True\<rparr> \<Longrightarrow> same_rest R R' \<Longrightarrow>
      super R' = super R \<Longrightarrow> wf_stk (stk R') \<Longrightarrow> stack_of (stk R') = stack_of (stk R) @ [s_lfblk R, s_lfpos R] \<Longrightarrow>
      runs (do { ((d, v), s) \<leftarrow>
        btduppos ZNEXT (Some (ke_val (entries (B ! nat b) ! place B k b))) s'; Some ((0, v), s) }) Q"
  shows "runs (bfndky_loop k b a s) Q"
proof -
  let ?m = "B ! nat b"
  have room: "room P b" using b(2) by (simp add: room_def)
  have bn: "b \<noteq> ZNULL" using b(1) by (simp add: valid_blk_def ZNULL_def)
  note nk = mem_info_word [OF wf_keys_D(1) [OF m], of ZNKEYS]
  have "runs (bgtinf b ZNKEYS s) (\<lambda>(w, s'). w = nkeys_of ?m \<and> repr s' B P R)"
    using nk by (intro bgtinf_spec [OF r b(1) room]) (simp_all add: ZNKEYS_def ZINFSZ_def)
  then obtain s1 where s1: "bgtinf b ZNKEYS s = Some (nkeys_of ?m, s1)" "repr s1 B P R"
    by (auto simp: runs_def)
  note F1 = repr_fields [OF s1(2)]
  obtain t where t: "push_pos (s_lfblk s1) (s_lfpos s1) s1 = Some (s1\<lparr>stk := t\<rparr>)" "wf_stk t"
      "stack_of t = stack_of (stk R) @ [s_lfblk R, s_lfpos R]"
    using push_pos_stk [of s1 "s_lfblk s1" "s_lfpos s1"] w F1(6,7) by auto
  let ?a = "a\<lparr>s_key := Some k, s_loc := -1\<rparr>"
  have r2: "repr (s1\<lparr>stk := t\<rparr>) B P (R\<lparr>stk := t\<rparr>)" using s1(2) by auto
  have nf: "\<not> (nkeys_of ?m = ZMXKEY \<and> smode (super s1) = 0)" using full F1(8) by auto
  obtain kep a' s3 where s3: "bsrhbk b ?a (s1\<lparr>stk := t\<rparr>) = Some ((kep, a'), s3)"
    and post: "if nkeys_of ?m = 0 then \<not> kep \<and> repr s3 B P (R\<lparr>stk := t\<rparr>) \<and>
      a' = ?a\<lparr>s_result := Some (-1), s_loc := -1, s_val := Some 0, s_link1 := Some ZNULL,
             s_link2 := Some ZNULL\<rparr>
    else kep \<and> (\<exists>md res. found_at k (entries ?m) md res \<and>
      repr s3 B P (R\<lparr>stk := t, srh_keyent := entries ?m ! nat md\<rparr>) \<and>
      a' = ?a\<lparr>s_result := Some res, s_loc := md, s_val := Some (ke_val (entries ?m ! nat md)),
             s_link1 := Some (links ?m ! nat md), s_link2 := Some (links ?m ! (nat md + 1))\<rparr>)"
    using bsrhbk_search [OF r2 b(1) room refl m, of ?a k] by (auto simp: runs_def)
  have step: "bfndky_loop k b a s = (let s = set_lfpos (s_loc a') (set_lfblk b s3) in do {
          result \<leftarrow> s_result a';
          if result < 0 then do { l \<leftarrow> s_link1 a'; bfndky_loop k l a' s }
          else if 0 < result then do {
            l \<leftarrow> s_link2 a';
            bfndky_loop k l a' (set_lfpos (s_lfpos s + 1) s)
          } else do {
            ((d, val), s) \<leftarrow> btduppos ZNEXT (s_val a') (set_lfexct True s);
            Some ((0, val), s)
          }
        })"
    using bn s1(1) t(1) s3 nf
    by (subst bfndky_loop.simps) (cases "nkeys_of ?m = ZMXKEY"; simp add: Let_def)
  show ?thesis
  proof (cases "nkeys_of ?m = 0")
    case True
    then have "entries ?m = []" using wf_keys_D(2) [OF m] by simp
    then have nh: "\<not> has_key B k b" by (simp add: has_key_def)
    have p: "repr s3 B P (R\<lparr>stk := t\<rparr>)" using post True by simp
    have "runs (bfndky_loop k (if nkeys_of ?m = 0 then ZNULL else child B k b) a'
        (set_lfpos (-1) (set_lfblk b s3))) Q"
      by (rule next_blk [OF nh, where R' = "R\<lparr>stk := t, lf := (lf R)\<lparr>lfblk := b, lfpos := -1\<rparr>\<rparr>"])
        (use p t True repr_fields(6) [OF p] in \<open>auto simp: end_pos_def\<close>)
    then show ?thesis using step post True by simp
  next
    case False
    then obtain md res where f: "found_at k (entries ?m) md res"
        "repr s3 B P (R\<lparr>stk := t, srh_keyent := entries ?m ! nat md\<rparr>)"
        "a' = ?a\<lparr>s_result := Some res, s_loc := md, s_val := Some (ke_val (entries ?m ! nat md)),
             s_link1 := Some (links ?m ! nat md), s_link2 := Some (links ?m ! (nat md + 1))\<rparr>"
      using post by auto
    let ?R = "R\<lparr>stk := t, srh_keyent := entries ?m ! nat md\<rparr>"
    have lf3: "lf s3 = lf R" using repr_fields(6) [OF f(2)] by simp
    consider (eq) "res = 0" "has_key B k b" "place B k b = nat md" "md = int (place B k b)"
      | (lt) "res < 0" "\<not> has_key B k b" "place B k b = nat md" "md = int (place B k b)"
      | (gt) "0 < res" "\<not> has_key B k b" "place B k b = nat md + 1" "md + 1 = int (place B k b)"
    proof -
      have fa: "0 \<le> md" "res = 0 \<longleftrightarrow> has_key B k b" "0 < res \<Longrightarrow> int (place B k b) = md + 1"
        "\<not> 0 < res \<Longrightarrow> int (place B k b) = md"
        using f(1) by (simp_all add: found_at_def has_key_def)
      consider "res = 0" | "res < 0" | "0 < res" by linarith
      then show ?thesis
      proof cases
        case 1
        then show ?thesis using fa(2,4) by (intro that(1)) auto
      next
        case 2
        then show ?thesis using fa(2,4) by (intro that(2)) auto
      next
        case 3
        then show ?thesis using fa(1-3) by (intro that(3)) auto
      qed
    qed
    then show ?thesis
    proof cases
      case eq
      have "runs (do { ((d, v), s) \<leftarrow>
          btduppos ZNEXT (Some (ke_val (entries ?m ! place B k b)))
            (set_lfexct True (set_lfpos md (set_lfblk b s3))); Some ((0, v), s) }) Q"
        by (rule found [OF eq(2), where R' = "?R\<lparr>lf := (lf R)\<lparr>lfblk := b, lfpos := md, lfexct := True\<rparr>\<rparr>"])
          (use f(2) t(2,3) eq(4) lf3 in auto)
      then show ?thesis using step f(3) eq(1,4) by simp
    next
      case lt
      have "runs (bfndky_loop k (if nkeys_of ?m = 0 then ZNULL else child B k b) a'
          (set_lfpos md (set_lfblk b s3))) Q"
        by (rule next_blk [OF lt(2), where R' = "?R\<lparr>lf := (lf R)\<lparr>lfblk := b, lfpos := md\<rparr>\<rparr>"])
          (use f(2) t(2,3) lt(4) lf3 False in \<open>auto simp: end_pos_def\<close>)
      then show ?thesis using step f(3) lt(1,4) False by simp
    next
      case gt
      have "runs (bfndky_loop k (if nkeys_of ?m = 0 then ZNULL else child B k b) a'
          (set_lfpos (md + 1) (set_lfpos md (set_lfblk b s3)))) Q"
        by (rule next_blk [OF gt(2), where R' = "?R\<lparr>lf := (lf R)\<lparr>lfblk := b, lfpos := md + 1\<rparr>\<rparr>"])
          (use f(2) t(2,3) gt(4) lf3 False in \<open>auto simp: end_pos_def\<close>)
      then show ?thesis using step f(3) gt(1,3) False by simp
    qed
  qed
qed

lemma trail_Cons:
  "bs \<noteq> [] \<Longrightarrow> trail B k (b0, p0) (b # bs) = [b0, p0] @ trail B k (b, int (place B k b)) bs"
  by (simp add: trail_def)

lemma trail_single: "trail B k (b0, p0) [b] = [b0, p0]"
  by (simp add: trail_def)

lemma bfndky_loop_null: "bfndky_loop k ZNULL a s = Some ((QNOKEY, s_val a), s)"
  by (subst bfndky_loop.simps) simp

lemma path_has_key: "has_key B k b \<Longrightarrow> path B h b k = [b]"
  by (cases h) auto

text \<open>The last turn of a search that finds its key.\<close>

lemma plain_key:
  assumes D: "valid_blk B b" "wf_keys (B ! nat b)" and P: "card P < ZMXBLK" and d: "no_dups (entries (B ! nat b))"
    and x: "s_draddr R = ZNULL" and hk: "has_key B k b" and r: "repr s' B P R'"
    and R': "lf R' = (lf R)\<lparr>lfblk := b, lfpos := int (place B k b), lfexct := True\<rparr>"
  shows "runs (do { ((d, v), s) \<leftarrow>
      btduppos ZNEXT (Some (ke_val (entries (B ! nat b) ! place B k b))) s'; Some ((0, v), s) })
    (\<lambda>(res, s'). res = (0, Some (ke_val (entries (B ! nat b) ! place B k b))) \<and>
      repr s' B P (R'\<lparr>dup_keyent := entries (B ! nat b) ! place B k b\<rparr>))"
proof -
  let ?e = "entries (B ! nat b) ! place B k b"
  have p: "place B k b < length (entries (B ! nat b))"
    using hk has_key_place [OF D(2)] by blast
  then have n: "int (place B k b) < nkeys_of (B ! nat b)" using wf_keys_D(7) [OF D(2)] by linarith
  have "ke_dup ?e = ZNULL" using d p by (auto simp: no_dups_def)
  then have "runs (btduppos ZNEXT (Some (ke_val ?e)) s') (\<lambda>((e, w), s''). e = ZNULL \<and>
      w = Some (ke_val ?e) \<and> repr s'' B P (R'\<lparr>dup_keyent := ?e\<rparr>))"
    using btduppos_none [OF r, of ZNEXT "Some (ke_val ?e)"] R'(1) D P x n
    by (simp add: room_def)
  then show ?thesis by (auto simp: runs_def)
qed

lemma end_pos_key: "wf_keys (B ! nat b) \<Longrightarrow> has_key B k b \<Longrightarrow> end_pos B k b = int (place B k b)"
  using has_key_place [of B b k] wf_keys_D(7) [of "B ! nat b"] by (auto simp: end_pos_def)

lemma search_found:
  assumes t: "wf_tree B h b" and P: "card P < ZMXBLK" and d: "no_dups (entries (B ! nat b))"
    and x: "s_draddr R = ZNULL" and hk: "has_key B k b" and r: "repr s' B P R'"
    and R': "lf R' = (lf R)\<lparr>lfblk := b, lfpos := int (place B k b), lfexct := True\<rparr>"
      "same_rest R R'" "super R' = super R" "wf_stk (stk R')"
      "stack_of (stk R') = stack_of (stk R) @ [s_lfblk R, s_lfpos R]"
  shows "runs (do { ((d, v), s) \<leftarrow>
      btduppos ZNEXT (Some (ke_val (entries (B ! nat b) ! place B k b))) s'; Some ((0, v), s) })
    (\<lambda>(res, s'). \<exists>R'. repr s' B P R' \<and> super R' = super R \<and> search_post B h b k R res R')"
proof -
  note D = wf_tree_D [OF t, THEN conjunct1] wf_tree_D [OF t, THEN conjunct2]
  have "search_post B h b k R (0, Some (ke_val (entries (B ! nat b) ! place B k b)))
      (R'\<lparr>dup_keyent := entries (B ! nat b) ! place B k b\<rparr>)"
    using R' hk x by (simp add: search_post_def path_has_key trail_single Let_def end_pos_key [OF D(2) hk])
  then show ?thesis
    by (intro runs_conseq [OF plain_key [OF D P d x hk r R'(1)]]) (use R'(3) in auto)
qed

lemma bfndky_loop_spec:
  assumes "repr s B P R" "wf_tree B h b" "card P < ZMXBLK" "no_split B h b R"
    "no_dups (tree_entries B h b)" "wf_stk (stk R)"
    "length (stack_of (stk R)) + 2 * (h + 1) \<le> nat STKMAX" "s_draddr R = ZNULL"
  shows "runs (bfndky_loop k b a s) (\<lambda>(res, s'). \<exists>R'. repr s' B P R' \<and> super R' = super R \<and> search_post B h b k R res R')"
  using assms
proof (induction h arbitrary: b a s R)
  case 0
  have D: "valid_blk B b" "wf_keys (B ! nat b)"
      "nkeys_of (B ! nat b) \<noteq> 0 \<Longrightarrow> \<forall>l \<in> set (links (B ! nat b)). l = ZNULL"
    using "0.prems"(2) by simp_all
  show ?case
  proof (rule bfndky_loop_step [OF "0.prems"(1) D(1) "0.prems"(3) D(2)])
    show "nkeys_of (B ! nat b) < ZMXKEY \<or> smode (super R) \<noteq> 0"
      using "0.prems"(4) by (auto simp: no_split_def)
    show "wf_stk (stk R)" "length (stack_of (stk R)) + 2 \<le> nat STKMAX"
      using "0.prems" by simp_all
  next
    fix a' s' R'
    assume nh: "\<not> has_key B k b" and R': "repr s' B P R'"
      "lf R' = (lf R)\<lparr>lfblk := b, lfpos := end_pos B k b\<rparr>" "same_rest R R'" "super R' = super R" "wf_stk (stk R')"
      "stack_of (stk R') = stack_of (stk R) @ [s_lfblk R, s_lfpos R]"
    have "(if nkeys_of (B ! nat b) = 0 then ZNULL else child B k b) = ZNULL"
      using D(3) nth_mem [OF place_le [OF "0.prems"(2), of k]] by simp
    then show "runs (bfndky_loop k (if nkeys_of (B ! nat b) = 0 then ZNULL else child B k b) a' s')
        (\<lambda>(res, s'). \<exists>R'. repr s' B P R' \<and> super R' = super R \<and> search_post B 0 b k R res R')"
      using R' nh "0.prems"(8)
      by (auto simp: bfndky_loop_null search_post_def trail_single Let_def intro!: exI [of _ R'])
  next
    have "no_dups (entries (B ! nat b))" using "0.prems"(5) by simp
    then show "runs (do { ((d, v), s) \<leftarrow>
        btduppos ZNEXT (Some (ke_val (entries (B ! nat b) ! place B k b))) s'; Some ((0, v), s) })
      (\<lambda>(res, s'). \<exists>R'. repr s' B P R' \<and> super R' = super R \<and> search_post B 0 b k R res R')"
      if "has_key B k b" "repr s' B P R'"
        "lf R' = (lf R)\<lparr>lfblk := b, lfpos := int (place B k b), lfexct := True\<rparr>" "same_rest R R'"
        "super R' = super R" "wf_stk (stk R')" "stack_of (stk R') = stack_of (stk R) @ [s_lfblk R, s_lfpos R]" for s' R'
      using search_found [OF "0.prems"(2,3) _ "0.prems"(8) that] by blast
  qed
next
  case (Suc h)
  have D: "valid_blk B b" "wf_keys (B ! nat b)" "0 < nkeys_of (B ! nat b)"
    using Suc.prems(2) by auto
  have dups: "no_dups (entries (B ! nat b))" "no_dups (tree_entries B h (child B k b))"
    using no_dups_child [OF Suc.prems(2,5)] by blast+
  show ?case
  proof (rule bfndky_loop_step [OF Suc.prems(1) D(1) Suc.prems(3) D(2)])
    show "nkeys_of (B ! nat b) < ZMXKEY \<or> smode (super R) \<noteq> 0"
      using Suc.prems(4) by (auto simp: no_split_def)
    show "wf_stk (stk R)" "length (stack_of (stk R)) + 2 \<le> nat STKMAX"
      using Suc.prems by simp_all
  next
    fix a' s' R'
    assume nh: "\<not> has_key B k b" and R': "repr s' B P R'"
      "lf R' = (lf R)\<lparr>lfblk := b, lfpos := end_pos B k b\<rparr>" "same_rest R R'" "super R' = super R" "wf_stk (stk R')"
      "stack_of (stk R') = stack_of (stk R) @ [s_lfblk R, s_lfpos R]"
    have "runs (bfndky_loop k (child B k b) a' s')
        (\<lambda>(res, s''). \<exists>R''. repr s'' B P R'' \<and> super R'' = super R' \<and> search_post B h (child B k b) k R' res R'')"
    proof (rule Suc.IH [OF R'(1) child_wf [OF Suc.prems(2)] Suc.prems(3) _ dups(2) R'(5)])
      show "no_split B h (child B k b) R'"
        by (rule no_split_child [OF Suc.prems(2,4)]) (simp add: same_rest_fields [OF R'(3)])
    qed (use R' Suc.prems in auto)
    moreover have "search_post B (Suc h) b k R res R''" if "search_post B h (child B k b) k R' res R''"
      for res R''
      using that R'(2-6) nh D(3) same_rest_trans [OF R'(3)]
      by (auto simp: search_post_def Let_def trail_Cons end_pos_def)
    ultimately show "runs (bfndky_loop k (if nkeys_of (B ! nat b) = 0 then ZNULL else child B k b) a' s')
        (\<lambda>(res, s'). \<exists>R'. repr s' B P R' \<and> super R' = super R \<and> search_post B (Suc h) b k R res R')"
      using D(3) R'(4) by (auto elim!: runs_conseq)
  next
    show "runs (do { ((d, v), s) \<leftarrow>
        btduppos ZNEXT (Some (ke_val (entries (B ! nat b) ! place B k b))) s'; Some ((0, v), s) })
      (\<lambda>(res, s'). \<exists>R'. repr s' B P R' \<and> super R' = super R \<and> search_post B (Suc h) b k R res R')"
      if "has_key B k b" "repr s' B P R'"
        "lf R' = (lf R)\<lparr>lfblk := b, lfpos := int (place B k b), lfexct := True\<rparr>" "same_rest R R'"
        "super R' = super R" "wf_stk (stk R')" "stack_of (stk R') = stack_of (stk R) @ [s_lfblk R, s_lfpos R]" for s' R'
      by (rule search_found [OF Suc.prems(2,3) dups(1) Suc.prems(8) that])
  qed
qed

section \<open>The find operation\<close>

definition lookup :: "keyent list \<Rightarrow> string \<Rightarrow> int option" where
  "lookup es k = map_option ke_val (List.find (\<lambda>e. ke_key e = k) es)"

lemma lookup_None: "lookup es k = None \<longleftrightarrow> k \<notin> ke_key ` set es"
  by (auto simp: lookup_def find_None_iff)

lemma sorted_keys_unique:
  "sorted_keys es \<Longrightarrow> e \<in> set es \<Longrightarrow> e' \<in> set es \<Longrightarrow> ke_key e = ke_key e' \<Longrightarrow> e = e'"
  unfolding sorted_keys_def
  by (metis distinct_map inj_onD strict_sorted_iff)

lemma lookup_Some: "sorted_keys es \<Longrightarrow> e \<in> set es \<Longrightarrow> lookup es (ke_key e) = Some (ke_val e)"
proof -
  assume s: "sorted_keys es" and e: "e \<in> set es"
  have "List.find (\<lambda>x. ke_key x = ke_key e) es \<noteq> None"
    using e by (auto simp: find_None_iff)
  then obtain e' where f: "List.find (\<lambda>x. ke_key x = ke_key e) es = Some e'" by blast
  then have "e' \<in> set es" "ke_key e' = ke_key e" by (auto simp: find_Some_iff)
  then have "e' = e" using sorted_keys_unique [OF s e, of e'] by simp
  then show ?thesis using f by (simp add: lookup_def)
qed

lemma path_entry:
  assumes "wf_tree B h b" "has_key B k (List.last (path B h b k))"
  shows "entries (B ! nat (List.last (path B h b k))) ! place B k (List.last (path B h b k))
      \<in> set (tree_entries B h b)"
    "ke_key (entries (B ! nat (List.last (path B h b k))) ! place B k (List.last (path B h b k))) = k"
  using assms
proof (induction h arbitrary: b)
  case 0
  {
    case 1
    then show ?case using has_key_place [of B b k] by simp
  next
    case 2
    then show ?case using has_key_place [of B b k] by simp
  }
next
  case (Suc h)
  {
    case 1
    have len: "length (map (tree_entries B h) (links (B ! nat b))) = Suc (length (entries (B ! nat b)))"
      using wf_tree_links [OF 1(1)] by simp
    show ?case
    proof (cases "has_key B k b")
      case True
      then show ?thesis using 1(1) has_key_place [of B b k] set_interleave [OF len] by simp
    next
      case False
      then show ?thesis
        using Suc.IH(1) [OF child_wf [OF 1(1)]] 1(2) set_interleave [OF len]
          nth_mem [OF place_le [OF 1(1), of k]] by auto
    qed
  next
    case 2
    show ?case
    proof (cases "has_key B k b")
      case True
      then show ?thesis using 2(1) has_key_place [of B b k] by simp
    next
      case False
      then show ?thesis using Suc.IH(2) [OF child_wf [OF 2(1)]] 2(2) by simp
    qed
  }
qed

lemma lookup_path:
  fixes k
  assumes "wf_tree B h b" "sorted_keys (tree_entries B h b)"
  defines "c \<equiv> List.last (path B h b k)"
  shows "lookup (tree_entries B h b) k =
    (if has_key B k c then Some (ke_val (entries (B ! nat c) ! place B k c)) else None)"
proof (cases "has_key B k c")
  case True
  then show ?thesis
    using lookup_Some [OF assms(2) path_entry(1) [OF assms(1)]] path_entry(2) [OF assms(1)]
    by (simp add: c_def)
next
  case False
  then show ?thesis using path_finds [OF assms(1,2), of k] by (simp add: lookup_None c_def)
qed

text \<open>The state in which the loop of \<open>bfndky\<close> starts, and how the call ends.\<close>

definition find_start :: "string \<Rightarrow> st \<Rightarrow> st" where
  "find_start lkey R = set_lfkey lkey (bclrlf (bstkin (clear_err R)))"

definition find_end :: "string \<Rightarrow> bool \<Rightarrow> st \<Rightarrow> st" where
  "find_end lkey found R = (if found then R else bterr ''BFNDKY'' QNOKEY (Some lkey) R)"

lemma repr_frame2 [intro]:
  assumes "repr s B P R"
  shows "repr (bstkin s) B P (bstkin R)" "repr (bclrlf s) B P (bclrlf R)"
  using assms repr_fields [OF assms] by (auto simp: bstkin_def bclrlf_def)

lemma find_start_fields:
  "lf (find_start k R) = \<lparr>lfkey = k, lfblk = ZNULL, lfpos = ZNULL, lfexct = False, draddr = ZNULL\<rparr>"
  "stk_array R \<Longrightarrow> wf_stk (stk (find_start k R))" "stack_of (stk (find_start k R)) = []"
  "super (find_start k R) = super R" "qerror (find_start k R) = 0" "shared (find_start k R) = shared R"
  by (simp_all add: find_start_def bclrlf_def bstkin_def bterr_def wf_stk_def stack_of_def STKMAX_def)

lemma find_start_later [simp]: "later (find_start k R) R' = later R R'" "later (bterr n c a R) R' = later R R'"
  "later R (find_end k f R') = later R R'" "later R (bterr n c a R') = later R R'"
  by (simp_all add: later_def find_start_def find_end_def bclrlf_def bstkin_def)

lemma find_start_repr: "repr s B P R \<Longrightarrow> repr (find_start k s) B P (find_start k R)"
proof -
  assume r: "repr s B P R"
  have r': "repr (bclrlf (bstkin (clear_err s))) B P (bclrlf (bstkin (clear_err R)))"
    using r by (intro repr_frame2 repr_frame)
  then show ?thesis using repr_fields(6) [OF r'] by (auto simp: find_start_def)
qed

lemma bvalap_ok: "repr s B P R \<Longrightarrow> bvalap fn s = (0, s)"
  using repr_fields(19) [of s B P R] by (auto simp: bvalap_def)

text \<open>
  \<open>bfndky\<close> on an index that is open and not shared: a key of the tree is found, with its value; for
  any other key the error is \<open>QNOKEY\<close>. The blocks are unchanged, and the find context holds the place
  of the key, or the place where it belongs.
\<close>

lemma bfndky_spec [specs]:
  assumes r: "repr s B P R" and R: "\<not> shared R" "s_scroot R = b" "stk_array R"
    and t: "wf_tree B h b" "card P < ZMXBLK" "no_split B h b R" "no_dups (tree_entries B h b)"
    and h: "2 * (h + 1) \<le> nat STKMAX" and k: "k = strncpy_term ZKYLEN key"
  shows "runs (bfndky key v s) (\<lambda>((e, v'), s'). \<exists>R' res.
    search_post B h b k (find_start k R) res R' \<and> super R' = super R \<and> v' = snd res \<and>
    e = (if fst res = 0 then 0 else QNOKEY) \<and> repr s' B P (find_end k (fst res = 0) R'))"
proof -
  let ?s = "find_start k s" and ?R = "find_start k R"
  note F = find_start_fields
  have "runs (bfndky_loop k b ((srh_args (Some k) (-1))\<lparr>s_val := v\<rparr>) ?s)
      (\<lambda>(res, s'). \<exists>R'. repr s' B P R' \<and> super R' = super R \<and> search_post B h b k ?R res R')"
    by (rule bfndky_loop_spec [of ?s B P ?R h b k, unfolded F(4), OF find_start_repr [OF r] t(1,2) _ t(4) F(2) [OF R(3)]])
      (use t(3) h F(1,3,4) R(3) in \<open>auto simp: no_split_def\<close>)
  then obtain x y s1 R1 where s1: "bfndky_loop k b ((srh_args (Some k) (-1))\<lparr>s_val := v\<rparr>) ?s = Some ((x, y), s1)"
      "repr s1 B P R1" "search_post B h b k ?R (x, y) R1" "super R1 = super R"
    by (auto simp: runs_def)
  have sr: "same_rest ?R R1" using s1(3) by (simp add: search_post_def Let_def)
  have sh: "\<not> shared s" "\<not> shared s1"
    using repr_fields(4) [OF r] repr_fields(4) [OF s1(2)] same_rest_fields(2) [OF sr] R(1) F(6) by simp_all
  have root: "s_scroot s = b" using repr_fields(8) [OF r] R(2) by simp
  have q: "qerror s1 = 0" using repr_fields(9) [OF s1(2)] same_rest_fields(4) [OF sr] F(5) by simp
  have fst: "x = 0 \<or> x = QNOKEY"
    using s1(3) by (auto simp: search_post_def Let_def split: if_splits)
  have "bfndky key v s = Some ((if x = 0 then 0 else QNOKEY, y), find_end k (x = 0) s1)"
    using s1(1) sh root q fst bvalap_ok [OF repr_frame(10) [OF r], of "''BFNDKY''"] k
    by (auto simp: bfndky_def lock_if_shared_def unlock_if_shared_def
        find_start_def [symmetric] find_end_def btgerr_def bterr_records Let_def)
  moreover have "repr (find_end k (x = 0) s1) B P (find_end k (x = 0) R1)"
    using s1(2) by (auto simp: find_end_def)
  ultimately show ?thesis using s1(3,4)
    by (auto simp: runs_def intro!: exI [of _ R1] exI [of _ x])
qed

end
