(* ===== verification/Split.thy ===== *)
theory Split
  imports Alloc Search
begin

text \<open>
  The split of a full block: \<open>bcpybk\<close> copies a range of keys and links into another block,
  \<open>brepky\<close> overwrites a key, and \<open>bsptbk\<close> divides a full block in two around its middle key, which
  goes to the parent, or, at the root, becomes the only key of the root.
\<close>

section \<open>Copying keys\<close>

text \<open>\<open>n\<close> elements of \<open>ys\<close> from place \<open>j\<close> on, put over \<open>xs\<close> at place \<open>i\<close>.\<close>

definition overlay :: "nat \<Rightarrow> nat \<Rightarrow> nat \<Rightarrow> 'a list \<Rightarrow> 'a list \<Rightarrow> 'a list" where
  "overlay i n j ys xs = take i xs @ take n (drop j ys) @ drop (i + n) xs"

lemma overlay_0 [simp]: "overlay i 0 j ys xs = xs"
  by (simp add: overlay_def)

lemma length_overlay [simp]:
  "i + n \<le> length xs \<Longrightarrow> j + n \<le> length ys \<Longrightarrow> length (overlay i n j ys xs) = length xs"
  by (simp add: overlay_def)

lemma overlay_step:
  assumes "i < length xs" "j < length ys"
  shows "overlay (Suc i) n (Suc j) ys (xs[i := ys ! j]) = overlay i (Suc n) j ys xs"
  using assms by (simp add: overlay_def take_Suc_conv_app_nth Cons_nth_drop_Suc [symmetric])

lemma cpy_loop_eq:
  assumes "arr_get (mems s) t = Some m" "arr_get (mems s) f = Some g" "t \<noteq> f"
    and "i + n \<le> length (keyblk m)" "i + c + n \<le> length (lnkblk m)"
    and "j + n \<le> length (keyblk g)" "j + n \<le> length (lnkblk g)"
  shows "cpy_loop t f (int c) n (int i) (int j) s = Some (s\<lparr>mems := (mems s)[nat t :=
    m\<lparr>keyblk := overlay i n j (keyblk g) (keyblk m), lnkblk := overlay (i + c) n j (lnkblk g) (lnkblk m)\<rparr>]\<rparr>)"
  using assms
proof (induction n arbitrary: i j s m)
  case 0
  have "m\<lparr>keyblk := keyblk m, lnkblk := lnkblk m\<rparr> = m" by simp
  moreover have "(mems s)[nat t := m] = mems s"
    using "0.prems"(1) by (auto simp: arr_get_def split: if_splits)
  ultimately show ?case by simp
next
  case (Suc n)
  define m2 where "m2 = m\<lparr>keyblk := (keyblk m)[i := keyblk g ! j], lnkblk := (lnkblk m)[i + c := lnkblk g ! j]\<rparr>"
  define s2 where "s2 = s\<lparr>mems := (mems s)[nat t := m2]\<rparr>"
  have t: "0 \<le> t" "t < int (length (mems s))" "mems s ! nat t = m"
    and f: "0 \<le> f" "f < int (length (mems s))" "mems s ! nat f = g"
    using Suc.prems(1,2) by (auto simp: arr_get_def split: if_splits)
  have nat: "nat t \<noteq> nat f" using Suc.prems(3) t f by simp
  have "cpy_loop t f (int c) (Suc n) (int i) (int j) s = cpy_loop t f (int c) n (int (Suc i)) (int (Suc j)) s2"
    using t f nat Suc.prems(4-7)
    by (simp add: get_mem_def upd_mem_def set_mem_def mem_set_key_def mem_set_link_def arr_get_def
        arr_set_def s2_def m2_def nat_add_distrib algebra_simps)
  also have "\<dots> = Some (s2\<lparr>mems := (mems s2)[nat t :=
      m2\<lparr>keyblk := overlay (Suc i) n (Suc j) (keyblk g) (keyblk m2),
         lnkblk := overlay (Suc i + c) n (Suc j) (lnkblk g) (lnkblk m2)\<rparr>]\<rparr>)"
    by (rule Suc.IH) (use t f nat Suc.prems in \<open>auto simp: s2_def m2_def arr_get_def\<close>)
  also have "s2\<lparr>mems := (mems s2)[nat t :=
      m2\<lparr>keyblk := overlay (Suc i) n (Suc j) (keyblk g) (keyblk m2),
         lnkblk := overlay (Suc i + c) n (Suc j) (lnkblk g) (lnkblk m2)\<rparr>]\<rparr> = s\<lparr>mems := (mems s)[nat t :=
      m\<lparr>keyblk := overlay i (Suc n) j (keyblk g) (keyblk m), lnkblk := overlay (i + c) (Suc n) j (lnkblk g) (lnkblk m)\<rparr>]\<rparr>"
    using Suc.prems(4-7) by (simp add: s2_def m2_def overlay_step)
  finally show ?case .
qed

text \<open>The block that \<open>bcpybk\<close> leaves. Behind the front of a block the links come one place later, so
  that the first one is lost, and the last one is set twice.\<close>

definition copied_at :: "nat \<Rightarrow> nat \<Rightarrow> nat \<Rightarrow> memrec \<Rightarrow> memrec \<Rightarrow> memrec" where
  "copied_at i j n g m = m\<lparr>keyblk := overlay i n j (keyblk g) (keyblk m),
     lnkblk := (overlay (i + of_bool (i \<noteq> 0)) n j (lnkblk g) (lnkblk m))[i + n := lnkblk g ! (j + n)]\<rparr>"

lemma copied_at_wf:
  assumes "wf_memrec m" "wf_memrec g" "i + n \<le> nat ZMXKEY" "j + n \<le> nat ZMXKEY"
  shows "wf_memrec (copied_at i j n g m)"
  using assms by (simp add: copied_at_def wf_memrec_def)

lemma bcpybk_at:
  assumes r: "repr s B P R" and t: "valid_blk B t" "room P t" "room (insert t P) f"
    and f: "valid_blk B f" "t \<noteq> f" and n: "i + n \<le> nat ZMXKEY" "j + n \<le> nat ZMXKEY" "0 < n"
  shows "runs (bcpybk t f (int i) (int j) (int n) s)
    (\<lambda>s'. repr s' (B[nat t := copied_at i j n (B ! nat f) (B ! nat t)]) (P - {t}) R)"
proof -
  let ?m = "B ! nat t" and ?g = "B ! nat f" and ?c = "of_bool (i \<noteq> 0) :: nat"
  have wf: "wf_memrec ?m" "wf_memrec ?g" using repr_wf_nth [OF r] t(1) f(1) by blast+
  obtain x s1 where s1: "brdblk t s = Some ((0, x), s1)" "at_slot s1 x t" "repr s1 B P R"
    using brdblk_spec [OF r t(1,2)] by (auto simp: runs_def)
  obtain s2 where s2: "bsetbs t 1 s1 = Some s2" "repr s2 B (insert t P) R" "same_cached s1 s2"
    using bsetbs_hit [OF s1(3,2), of 1] by (auto simp: runs_def)
  obtain k s3 where s3: "brdblk f s2 = Some ((0, k), s3)" "at_slot s3 k f" "repr s3 B (insert t P) R"
      "at_slot s3 x t"
    using brdblk_pinned [OF s2(2) f(1) t(3) same_cached_at [OF s2(3) s1(2)]] by (auto simp: runs_def)
  obtain s4 where s4: "bsetbs t 0 s3 = Some s4" "repr s4 B (P - {t}) R" "same_cached s3 s4"
    using bsetbs_hit [OF s3(3,4), of 0] by (auto simp: runs_def)
  note a = same_cached_at [OF s4(3) s3(4)] same_cached_at [OF s4(3) s3(2)]
  have g: "arr_get (mems s4) x = Some ?m" "arr_get (mems s4) k = Some ?g"
    using get_mem_slot [OF s4(2) a(1)] get_mem_slot [OF s4(2) a(2)] by (simp_all add: get_mem_def)
  have xk: "x \<noteq> k" using a f(2) by (auto simp: at_slot_def)
  define s5 where "s5 = s4\<lparr>mems := (mems s4)[nat x := ?m\<lparr>keyblk := overlay i n j (keyblk ?g) (keyblk ?m),
      lnkblk := overlay (i + ?c) n j (lnkblk ?g) (lnkblk ?m)\<rparr>]\<rparr>"
  have len: "i + n \<le> length (keyblk ?m)" "i + ?c + n \<le> length (lnkblk ?m)" "i + n < length (lnkblk ?m)"
    "j + n \<le> length (keyblk ?g)" "j + n < length (lnkblk ?g)"
    using wf n by (auto simp: wf_memrec_def)
  have loop: "cpy_loop x k (int ?c) n (int i) (int j) s4 = Some s5"
    using cpy_loop_eq [OF g xk, of i n ?c j] len by (simp add: s5_def)
  have inc: "(if int i = 0 then 0 else 1) = int ?c" by simp
  have sl: "0 \<le> x" "x < int (length (mems s4))" "0 \<le> k" "k < int (length (mems s4))" "nat x \<noteq> nat k"
    "mems s4 ! nat k = ?g"
    using g xk by (auto simp: arr_get_def split: if_splits)
  obtain s6 where s6: "modify x (int n) (\<lambda>_. Some (copied_at i j n ?g ?m)) s4 = Some s6"
      "repr s6 (B[nat t := copied_at i j n ?g ?m]) (P - {t}) R"
    using modify_spec [OF s4(2) a(1), of "\<lambda>_. Some (copied_at i j n ?g ?m)" "copied_at i j n ?g ?m" "int n"]
      copied_at_wf [OF wf n(1,2)] n(3) by (auto simp: runs_def)
  have "do { s \<leftarrow> upd_mem x (mem_set_link (int i + int n) (lnkblk ?g ! (j + n))) s5; inc_writes x (int n) s } = Some s6"
    using s6(1) sl len
    by (simp add: modify_def upd_mem_def get_mem_def set_mem_def mem_set_link_def arr_get_def arr_set_def
        s5_def copied_at_def nat_add_distrib)
  moreover have "get_mem k s5 = Some ?g" "arr_get (lnkblk ?g) (int j + int n) = Some (lnkblk ?g ! (j + n))"
    using sl len by (simp_all add: get_mem_def arr_get_def s5_def nat_add_distrib)
  ultimately have "bcpybk t f (int i) (int j) (int n) s = Some s6"
    unfolding bcpybk_def inc
    using s1(1) s2(1) s3(1) s4(1) loop at_slot_pos [OF a(1)] at_slot_pos [OF a(2)] at_slot_pos [OF s1(2)]
      at_slot_pos [OF s3(2)]
    by simp
  then show ?thesis using s6(2) by (simp add: runs_def)
qed

text \<open>A copy to the front.\<close>

definition copied :: "nat \<Rightarrow> nat \<Rightarrow> memrec \<Rightarrow> memrec \<Rightarrow> memrec" where
  "copied j n g m = m\<lparr>keyblk := overlay 0 n j (keyblk g) (keyblk m),
     lnkblk := overlay 0 (Suc n) j (lnkblk g) (lnkblk m)\<rparr>"

lemma copied_wf:
  assumes "wf_memrec m" "wf_memrec g" "j + n \<le> nat ZMXKEY"
  shows "wf_memrec (copied j n g m)"
  using assms by (simp add: copied_def wf_memrec_def)

lemma overlay_last:
  "j + n < length ys \<Longrightarrow> n < length xs \<Longrightarrow> (overlay 0 n j ys xs)[n := ys ! (j + n)] = overlay 0 (Suc n) j ys xs"
  using take_Suc_conv_app_nth [of n "drop j ys"] upd_conv_take_nth_drop [of 0 "drop n xs" "ys ! (j + n)"]
  by (simp add: overlay_def list_update_append)

lemma copied_at_front:
  "wf_memrec m \<Longrightarrow> wf_memrec g \<Longrightarrow> j + n \<le> nat ZMXKEY \<Longrightarrow> copied_at 0 j n g m = copied j n g m"
  by (simp add: copied_at_def copied_def overlay_last wf_memrec_def)

lemma repr_finite: "repr s B P R \<Longrightarrow> finite P"
proof -
  assume "repr s B P R"
  then obtain x where "reps s x B P R" using repr_reps by blast
  then have "P \<subseteq> (\<lambda>i. inmem (cntrls s ! i)) ` {..<ZMXBLK}" using reps_pins by fastforce
  then show "finite P" using finite_surj by blast
qed

lemma bcpybk_spec:
  assumes r: "repr s B P R" and t: "valid_blk B t" "t \<notin> P" "card P + 1 < ZMXBLK \<or> f \<in> P \<and> card P < ZMXBLK"
    and f: "valid_blk B f" "t \<noteq> f" and n: "j + n \<le> nat ZMXKEY" "0 < n"
  shows "runs (bcpybk t f 0 (int j) (int n) s)
    (\<lambda>s'. repr s' (B[nat t := copied j n (B ! nat f) (B ! nat t)]) P R)"
proof -
  have "room P t" "room (insert t P) f" using t repr_finite [OF r] by (auto simp: room_def)
  moreover have "wf_memrec (B ! nat t)" "wf_memrec (B ! nat f)" using repr_wf_nth [OF r] t(1) f(1) by blast+
  ultimately show ?thesis
    using bcpybk_at [OF r t(1) _ _ f, of 0 n j] n t(2) by (simp add: copied_at_front)
qed

section \<open>The halves of a block\<close>

definition half :: "nat \<Rightarrow> nat \<Rightarrow> memrec \<Rightarrow> memrec \<Rightarrow> bool" where
  "half j n g m \<longleftrightarrow> wf_keys m \<and> nkeys_of m = int n \<and> entries m = take n (drop j (entries g)) \<and>
     links m = take (Suc n) (drop j (links g))"

lemma sorted_keys_part: "sorted_keys es \<Longrightarrow> sorted_keys (take n (drop j es))"
  unfolding sorted_keys_def
  by (metis append_take_drop_id drop_map sorted_wrt_append take_map)

lemma half_copied:
  assumes g: "wf_keys g" and m: "wf_memrec m" and n: "int (j + n) \<le> nkeys_of g"
  shows "half j n g (set_words ty mi nx (int n) nb du (copied j n g m))"
proof -
  let ?m = "set_words ty mi nx (int n) nb du (copied j n g m)"
  note D = wf_keys_D [OF g]
  have N: "j + n \<le> nat (nkeys_of g)" "j + n \<le> nat ZMXKEY" using n D(8) by linarith+
  have len: "length (keyblk m) = nat ZMXKEY" "length (lnkblk m) = Suc (nat ZMXKEY)"
    using m by (simp_all add: wf_memrec_def)
  have nk: "nkeys_of ?m = int n" by (simp add: word_of_def set_words_def ZNKEYS_def)
  have e: "entries ?m = take n (drop j (entries g))"
    using nk N D(5) len by (auto simp: entries_def copied_def overlay_def drop_take min_def) linarith
  have l: "links ?m = take (Suc n) (drop j (links g))"
    using nk N D(6) len by (auto simp: links_def copied_def overlay_def drop_take min_def) linarith
  have "wf_memrec ?m" using copied_wf [OF m D(1) N(2)] by simp
  then show ?thesis
    using nk e l N sorted_keys_part [OF D(4)] by (simp add: half_def wf_keys_def ZMXKEY_val)
qed

lemma half_shrunk:
  assumes g: "wf_keys g" and n: "int n \<le> nkeys_of g"
  shows "half 0 n g (set_word ZNKEYS (int n) g)"
proof -
  let ?m = "set_word ZNKEYS (int n) g"
  note D = wf_keys_D [OF g]
  have nk: "nkeys_of ?m = int n"
    using word_of_set_word [OF D(1), of ZNKEYS ZNKEYS "int n"] by (simp add: ZNKEYS_def ZINFSZ_def ZBTYPE_def)
  have e: "entries ?m = take n (drop 0 (entries g))" "links ?m = take (Suc n) (drop 0 (links g))"
    using nk n by (simp_all add: entries_def links_def min_def le_nat_iff)
  then show ?thesis
    using nk n D sorted_keys_part [OF D(4), of n 0] by (simp add: half_def wf_keys_def)
qed

section \<open>Allocation\<close>

text \<open>A block taken from the allocator: it comes from the free list or extends the file, and the
  other blocks do not change. What is left to take has become less.\<close>

definition stock :: "memrec list \<Rightarrow> int list \<Rightarrow> nat" where
  "stock B bs = length bs + (MXBLKS - length B)"

definition allocated ::
  "memrec list \<Rightarrow> st \<Rightarrow> int list \<Rightarrow> int \<Rightarrow> memrec list \<Rightarrow> st \<Rightarrow> int list \<Rightarrow> bool" where
  "allocated B R bs x B' R' bs' \<longleftrightarrow>
     valid_blk B' x \<and> (x \<in> set bs \<or> x = int (length B)) \<and> x \<notin> set bs' \<and> set bs' \<subseteq> set bs \<and>
     length B \<le> length B' \<and> length B' < MXBLKS \<and> (\<forall>n < length B. B' ! n = B ! n) \<and>
     free_list B' R' bs' \<and> stock B' bs' < stock B bs \<and>
     same_rest R R' \<and> lf R' = lf R \<and> stk R' = stk R \<and> srh_keyent R' = srh_keyent R"

lemma same_rest_alloc:
  "same_rest R (popped R n)" "lf (popped R n) = lf R" "stk (popped R n) = stk R"
  "srh_keyent (popped R n) = srh_keyent R"
  "same_rest R (grown R)" "lf (grown R) = lf R" "stk (grown R) = stk R"
  "srh_keyent (grown R) = srh_keyent R"
  by (simp_all add: popped_def grown_def same_rest_def super_later_def)

lemma bgtfre_spec:
  assumes r: "repr s B P R" and f: "free_list B R bs" and P: "card P < ZMXBLK" and len: "length B < MXBLKS"
  shows "runs (bgtfre s) (\<lambda>(x, s').
    if bs = [] \<and> MXBLKS \<le> length B + 1 then x = ZNULL \<and> s' = bterr ''BGTFRE'' QF2BIG None s
    else \<exists>B' R' bs'. 0 \<le> x \<and> repr s' B' P R' \<and> allocated B R bs x B' R' bs')"
proof (cases bs)
  case Nil
  show ?thesis
  proof (cases "MXBLKS \<le> length B + 1")
    case True
    then show ?thesis using bgtfre_full [OF r f [unfolded Nil] True] Nil by simp
  next
    case False
    then have l: "length B + 1 < MXBLKS" by simp
    show ?thesis
    proof (rule runs_conseq [OF bgtfre_grow [OF r f [unfolded Nil] P l]], clarify)
      fix s' m
      assume m: "wf_memrec m" "repr s' (B @ [m]) P (grown R)" "free_list (B @ [m]) (grown R) []"
      then have "allocated B R bs (int (length B)) (B @ [m]) (grown R) []"
        using l by (simp add: allocated_def valid_blk_def same_rest_alloc stock_def nth_append)
      then show "if bs = [] \<and> MXBLKS \<le> length B + 1
          then int (length B) = ZNULL \<and> s' = bterr ''BGTFRE'' QF2BIG None s
          else \<exists>B' R' bs'. 0 \<le> int (length B) \<and> repr s' B' P R' \<and> allocated B R bs (int (length B)) B' R' bs'"
        using m l by auto
    qed
  qed
next
  case (Cons b cs)
  show ?thesis
  proof (rule runs_conseq [OF bgtfre_pop [OF r f [unfolded Cons]]], goal_cases)
    case (2 xs')
    then obtain x s' n where x: "xs' = (x, s')" "x = b" "repr s' B P (popped R n)"
      "free_list B (popped R n) cs" by (cases xs') auto
    have v: "valid_blk B b" "b \<notin> set cs" using f Cons by (auto simp: free_list_def)
    then have "allocated B R bs b B (popped R n) cs"
      using x Cons len by (auto simp: allocated_def same_rest_alloc stock_def)
    then show ?case using x v Cons by (auto simp: valid_blk_def)
  qed (use P in \<open>simp add: room_def\<close>)
qed

text \<open>A block in use is not the one that is allocated, and keeps its contents.\<close>

abbreviation in_use :: "memrec list \<Rightarrow> int \<Rightarrow> bool" where
  "in_use B c \<equiv> valid_blk B c \<and> btype_of (B ! nat c) \<noteq> ZFREE"

lemma allocated_other:
  assumes a: "allocated B R bs x B' R' bs'" and f: "free_list B R bs" and c: "in_use B c"
  shows "x \<noteq> c" "B' ! nat c = B ! nat c" "in_use B' c"
proof -
  have n: "nat c < length B" "0 \<le> c" using c by (auto simp: valid_blk_def)
  show "x \<noteq> c"
    using a c f free_chain_valid [of B "sfreep (super R)" bs x]
    by (auto simp: allocated_def free_list_def valid_blk_def)
  show "B' ! nat c = B ! nat c" using a n by (auto simp: allocated_def)
  then show "in_use B' c" using a c by (auto simp: allocated_def valid_blk_def)
qed

lemma allocated_D:
  assumes "allocated B R bs x B' R' bs'"
  shows "valid_blk B' x" "length B \<le> length B'" "length B' < MXBLKS" "free_list B' R' bs'"
    "same_rest R R'" "lf R' = lf R" "stk R' = stk R"
  using assms by (auto simp: allocated_def)

section \<open>The split of a block\<close>

lemma split_sizes: "split_sp = 11" "split_sp2 = 10" "ZMXKEY = 22"
  by (simp_all add: split_sp_def split_sp2_def ZMXKEY_val)

lemma btype_set_words:
  "0 \<le> ty \<Longrightarrow> ty < 2 ^ 16 \<Longrightarrow> btype_of (set_words ty mi nx nk nb du m) = ty"
  using pack_type(1) [of ty] by (simp add: btype_of_def word_of_def set_words_def)

lemma btype_shrunk: "btype_of (set_word ZNKEYS n m) = btype_of m"
  by (simp add: btype_of_def word_of_def set_word_def ZNKEYS_def ZBTYPE_def)

text \<open>The middle key, as \<open>bsptbk\<close> asks for it.\<close>

lemma middle_key:
  assumes r: "repr s B P R" and b: "valid_blk B blk" "room P blk" "wf_keys (B ! nat blk)"
    "nkeys_of (B ! nat blk) = ZMXKEY"
  shows "runs (bsrhbk blk ((srh_args (Some []) split_sp)\<lparr>s_result := Some 0\<rparr>) s) (\<lambda>((kep, a), s').
    kep \<and> s_result a = Some 0 \<and> repr s' B P (R\<lparr>srh_keyent := entries (B ! nat blk) ! 11\<rparr>))"
proof -
  let ?a = "(srh_args (Some []) split_sp)\<lparr>s_result := Some 0\<rparr>"
  have "0 \<le> s_loc ?a" "s_loc ?a = 11" by (simp_all add: srh_args_def split_sizes)
  then show ?thesis
    using bsrhbk_pos [OF r b(1,2) refl b(3), of ?a] b(4) by (auto simp: split_sizes elim!: runs_conseq)
qed

lemma copy_half:
  assumes r: "repr s B P R" and t: "valid_blk B t" "t \<notin> P" "card P + 1 < ZMXBLK \<or> f \<in> P \<and> card P < ZMXBLK"
    and f: "valid_blk B f" "t \<noteq> f" "wf_keys (B ! nat f)" and n: "int (j + n) \<le> nkeys_of (B ! nat f)" "0 < n"
  shows "runs (bcpybk t f 0 (int j) (int n) s) (\<lambda>s'. \<exists>m. repr s' (B[nat t := m]) P R \<and>
    (\<forall>mi nx nb du. half j n (B ! nat f) (set_words ZINUSE mi nx (int n) nb du m)))"
proof -
  have "j + n \<le> nat ZMXKEY" using n wf_keys_D(8) [OF f(3)] by linarith
  then show ?thesis
    by (intro runs_conseq [OF bcpybk_spec [OF r t f(1,2) _ n(2)]])
      (use half_copied [OF f(3) repr_wf_nth [OF r t(1)] n(1)] in blast)+
qed

lemma bsptbk_inner:
  assumes r: "repr s B P R" and f: "free_list B R bs" and len: "length B < MXBLKS"
    and P: "card P + 1 < ZMXBLK" "finite P" "\<forall>c \<in> P. in_use B c"
    and b: "in_use B blk" "blk \<notin> P" "btype_of (B ! nat blk) \<noteq> ZROOT"
      "wf_keys (B ! nat blk)" "nkeys_of (B ! nat blk) = ZMXKEY"
    and p: "pb = s_lfblk R" "in_use B pb" "pb \<noteq> blk" "wf_keys (B ! nat pb)" "nkeys_of (B ! nat pb) < ZMXKEY"
  shows "runs (bsptbk blk s) (\<lambda>((e, x), s').
    if bs = [] \<and> MXBLKS \<le> length B + 1
    then x = ZNULL \<and> (\<exists>s1. repr s1 B (insert blk P) R \<and> s' = bterr ''BGTFRE'' QF2BIG None s1)
    else \<exists>B1 R1 bs1 mx mp. 0 \<le> x \<and> allocated B R bs x B1 R1 bs1 \<and>
      half 12 10 (B ! nat blk) mx \<and> btype_of mx = ZINUSE \<and>
      put_ok (entries (B ! nat blk) ! 11) blk x (B ! nat pb) mp \<and>
      repr s' (B1[nat x := mx, nat blk := set_word ZNKEYS 11 (B ! nat blk), nat pb := mp]) P
        (R1\<lparr>srh_keyent := entries (B ! nat blk) ! 11\<rparr>))"
proof -
  let ?g = "B ! nat blk" and ?P = "insert blk P"
  have cP: "card P < ZMXBLK" "card ?P < ZMXBLK" using P b(2) by simp_all
  have room: "room P y" "room ?P y" for y using cP by (simp_all add: room_def)
  obtain s1 where s1: "bgtinf blk ZBTYPE s = Some (btype_of ?g, s1)" "repr s1 B P R"
    using bgtinf_spec [OF r _ room(1) _ mem_info_type [OF wf_keys_D(1) [OF b(4)]]] b(1)
    by (auto simp: runs_def ZBTYPE_def ZINFSZ_def)
  obtain s2 where s2: "bsetbs blk 1 s1 = Some s2" "repr s2 B ?P R"
    using bsetbs_spec [OF s1(2) _ room(1), of blk 1] b(1) by (auto simp: runs_def)
  obtain x s3 where s3: "bgtfre s2 = Some (x, s3)"
    and a: "if bs = [] \<and> MXBLKS \<le> length B + 1 then x = ZNULL \<and> s3 = bterr ''BGTFRE'' QF2BIG None s2
      else \<exists>B' R' bs'. 0 \<le> x \<and> repr s3 B' ?P R' \<and> allocated B R bs x B' R' bs'"
    using bgtfre_spec [OF s2(2) f cP(2) len] by (auto simp: runs_def)
  show ?thesis
  proof (cases "bs = [] \<and> MXBLKS \<le> length B + 1")
    case True
    then show ?thesis
      using s1(1) s2 s3 a b(3) by (auto simp: bsptbk_def runs_def ZNULL_def)
  next
    case False
    then obtain B1 R1 bs1 where a: "0 \<le> x" "repr s3 B1 ?P R1" "allocated B R bs x B1 R1 bs1"
      using a by metis
    note A = allocated_D [OF a(3)] and O = allocated_other [OF a(3) f b(1)] allocated_other [OF a(3) f p(2)]
    have xP: "x \<notin> ?P" using O(1) P(3) allocated_other(1) [OF a(3) f] by blast
    have n: "nat x < length B1" "nat blk < length B1" "nat pb < length B1" "nat x \<noteq> nat blk" "nat x \<noteq> nat pb"
      "nat blk \<noteq> nat pb"
      using A(1) O a(1) p(3) by (auto simp: valid_blk_def eq_nat_nat_iff)
    obtain s4 m where s4: "bcpybk x blk 0 12 10 s3 = Some s4" "repr s4 (B1[nat x := m]) ?P R1"
        "half 12 10 ?g (set_words ZINUSE mi nx 10 nb du m)" for mi nx nb du
      using copy_half [OF a(2) A(1) xP, of blk 12 10] O(1-3) cP b(4,5)
      by (auto simp: runs_def split_sizes)
    let ?mx = "set_words ZINUSE 0 pb 10 (s_scroot s4) ZNULL m"
    obtain s5 where s5: "bsetbk x ZINUSE 0 pb 10 (s_scroot s4) ZNULL s4 = Some s5"
        "repr s5 (B1[nat x := ?mx]) ?P R1"
      using bsetbk_spec [OF s4(2) _ room(2), of x ZINUSE 0 pb 10 "s_scroot s4" ZNULL] A(1) n
      by (auto simp: runs_def valid_blk_def)
    let ?B2 = "B1[nat x := ?mx]" and ?e = "entries ?g ! 11"
    have g2: "?B2 ! nat blk = ?g" "valid_blk ?B2 blk" "valid_blk ?B2 pb" "?B2 ! nat pb = B ! nat pb"
      using n O by (auto simp: valid_blk_def)
    obtain r6 s6 where s6: "bsrhbk blk ((srh_args (Some []) split_sp)\<lparr>s_result := Some 0\<rparr>) s5 = Some ((True, r6), s6)"
        "s_result r6 = Some 0" "repr s6 ?B2 ?P (R1\<lparr>srh_keyent := ?e\<rparr>)"
      using middle_key [OF s5(2) g2(2) room(2)] g2(1) b(4,5) by (auto simp: runs_def)
    let ?B3 = "?B2[nat blk := set_word ZNKEYS 11 ?g]"
    obtain s7 where s7: "bstinf blk ZNKEYS 11 s6 = Some s7" "repr s7 ?B3 ?P (R1\<lparr>srh_keyent := ?e\<rparr>)"
      using bstinf_spec [OF s6(3) g2(2) room(2), of ZNKEYS 11] g2(1)
      by (auto simp: runs_def ZNKEYS_def ZINFSZ_def)
    have k7: "kep_deref True s6 = Some ?e" "kep_deref True s7 = Some ?e"
      using repr_fields(15) [OF s6(3)] repr_fields(15) [OF s7(2)] by (simp_all add: kep_deref_def)
    have g3: "?B3 ! nat pb = B ! nat pb" "valid_blk ?B3 pb" using g2 n by (auto simp: valid_blk_def)
    have l: "blk = ZNULL \<and> x = ZNULL \<or> 0 \<le> blk \<and> 0 \<le> x" using a(1) b(1) by (simp add: valid_blk_def)
    obtain s8 mp where s8: "bputky pb ?e blk x s7 = Some s8" "put_ok ?e blk x (B ! nat pb) mp"
        "repr s8 (?B3[nat pb := mp]) ?P (R1\<lparr>srh_keyent := ?e\<rparr>)"
      using bputky_spec [OF s7(2) g3(2) room(2) refl _ _ l, of ?e] g3(1) p(4,5) by (auto simp: runs_def)
    have "valid_blk (?B3[nat pb := mp]) blk" using g2 by (simp add: valid_blk_def)
    then obtain s9 where s9: "bsetbs blk 0 s8 = Some s9"
        "repr s9 (?B3[nat pb := mp]) P (R1\<lparr>srh_keyent := ?e\<rparr>)"
      using bsetbs_spec [OF s8(3) _ room(2), of blk 0] b(2) by (auto simp: runs_def)
    have "lf s4 = lf R" using repr_fields(6) [OF s4(2)] A(6) by simp
    then have "bsptbk blk s = Some ((0, x), inc_split s9)"
      using s1(1) b(3) s2(1) s3 a(1) s4(1) s5(1) s6(1,2) s7(1) k7 s8(1) s9(1) p(1)
      by (simp add: bsptbk_def split_sizes)
    moreover have "btype_of ?mx = ZINUSE" by (rule btype_set_words) (simp_all add: ZINUSE_def)
    moreover have "repr (inc_split s9) (?B3[nat pb := mp]) P (R1\<lparr>srh_keyent := ?e\<rparr>)"
      using s9(2) by auto
    ultimately show ?thesis
      using False a(1,3) s4(3) [of 0 pb "s_scroot s4" ZNULL] s8(2)
      unfolding runs_def by (intro exI [of _ "((0, x), inc_split s9)"]) (simp, blast)
  qed
qed

section \<open>The split of a root\<close>

text \<open>What any number of allocations leaves alone.\<close>

definition store_kept ::
  "memrec list \<Rightarrow> st \<Rightarrow> int list \<Rightarrow> memrec list \<Rightarrow> st \<Rightarrow> int list \<Rightarrow> bool" where
  "store_kept B R bs B' R' bs' \<longleftrightarrow>
     length B \<le> length B' \<and> length B' < MXBLKS \<and> (\<forall>c. in_use B c \<longrightarrow> B' ! nat c = B ! nat c) \<and>
     free_list B' R' bs' \<and> stock B' bs' \<le> stock B bs \<and> same_rest R R' \<and> lf R' = lf R \<and> stk R' = stk R"

lemma store_kept_refl: "free_list B R bs \<Longrightarrow> length B < MXBLKS \<Longrightarrow> store_kept B R bs B R bs"
  by (simp add: store_kept_def)

lemma store_kept_alloc:
  "allocated B R bs x B' R' bs' \<Longrightarrow> free_list B R bs \<Longrightarrow> store_kept B R bs B' R' bs'"
  using allocated_other(2) [of B R bs x B' R' bs']
  by (auto simp: store_kept_def allocated_def)

lemma put_over:
  fixes k l1 l2
  assumes m: "wf_memrec m"
  defines "m' \<equiv> m\<lparr>keyblk := (keyblk m)[0 := k], lnkblk := (lnkblk m)[0 := l1, 1 := l2]\<rparr>"
  shows "mem_repky 0 k l1 l2 m = Some m'" "wf_memrec m'"
    "wf_keys (set_word ZNKEYS 1 m') \<and> entries (set_word ZNKEYS 1 m') = [k] \<and>
     links (set_word ZNKEYS 1 m') = [l1, l2] \<and> nkeys_of (set_word ZNKEYS 1 m') = 1"
proof -
  have len: "length (keyblk m) = nat ZMXKEY" "length (lnkblk m) = Suc (nat ZMXKEY)" "length (infblk m) = ZINFSZ"
    using m by (simp_all add: wf_memrec_def)
  show "mem_repky 0 k l1 l2 m = Some m'"
    using len by (auto simp: mem_repky_def mem_set_key_def mem_set_link_def arr_set_def m'_def ZMXKEY_val)
  show w: "wf_memrec m'" using m by (simp add: m'_def wf_memrec_def)
  have nk: "nkeys_of (set_word ZNKEYS 1 m') = 1"
    using word_of_set_word [OF w, of ZNKEYS ZNKEYS 1] by (simp add: ZNKEYS_def ZINFSZ_def ZBTYPE_def)
  obtain a as where a: "keyblk m = a # as" using len by (cases "keyblk m") (auto simp: ZMXKEY_val)
  obtain c ls where "lnkblk m = c # ls" using len by (cases "lnkblk m") auto
  moreover obtain d ds where "ls = d # ds" using len(2) calculation by (cases ls) (auto simp: ZMXKEY_val)
  ultimately have c: "lnkblk m = c # d # ds" by simp
  have "entries (set_word ZNKEYS 1 m') = [k]" "links (set_word ZNKEYS 1 m') = [l1, l2]"
    using nk a c by (simp_all add: entries_def links_def m'_def numeral_2_eq_2)
  then show "wf_keys (set_word ZNKEYS 1 m') \<and> entries (set_word ZNKEYS 1 m') = [k] \<and>
     links (set_word ZNKEYS 1 m') = [l1, l2] \<and> nkeys_of (set_word ZNKEYS 1 m') = 1"
    using w nk by (simp add: wf_keys_def sorted_keys_def ZMXKEY_val)
qed

lemma brepky_front:
  assumes r: "repr s B P R" and b: "valid_blk B blk" "room P blk"
  shows "runs (brepky blk 0 k l1 l2 s) (\<lambda>s'. repr s' (B[nat blk := (B ! nat blk)\<lparr>
    keyblk := (keyblk (B ! nat blk))[0 := k], lnkblk := (lnkblk (B ! nat blk))[0 := l1, 1 := l2]\<rparr>]) P R)"
proof -
  note m = put_over [where k = k and ?l1.0 = l1 and ?l2.0 = l2, OF repr_wf_nth [OF r b(1)]]
  have "runs (modify i 1 (mem_repky 0 k l1 l2) s1) (\<lambda>s'. repr s' (B[nat blk := (B ! nat blk)\<lparr>
    keyblk := (keyblk (B ! nat blk))[0 := k], lnkblk := (lnkblk (B ! nat blk))[0 := l1, 1 := l2]\<rparr>]) P R)"
    if "repr s1 B P R" "at_slot s1 i blk" for s1 i
    using modify_spec [where f = "mem_repky 0 k l1 l2" and n = 1, OF that m(1) m(2)]
    by (auto elim!: runs_conseq)
  then show ?thesis
    unfolding brepky_def modify_fold by (auto intro!: brdblk_bind [OF r b] simp: ZMXKEY_val)
qed

lemma store_kept_trans:
  assumes "store_kept B R bs B1 R1 bs1" "store_kept B1 R1 bs1 B2 R2 bs2"
  shows "store_kept B R bs B2 R2 bs2"
proof -
  have "in_use B c \<Longrightarrow> in_use B1 c" for c using assms(1) by (auto simp: store_kept_def valid_blk_def)
  then show ?thesis using assms same_rest_trans [of R R1 R2] by (auto simp: store_kept_def)
qed

lemma bsptbk_root:
  assumes r: "repr s B P R" and f: "free_list B R bs" and len: "length B < MXBLKS"
    and P: "card P + 1 < ZMXBLK" "\<forall>c \<in> P. in_use B c"
    and b: "in_use B blk" "btype_of (B ! nat blk) = ZROOT"
      "wf_keys (B ! nat blk)" "nkeys_of (B ! nat blk) = ZMXKEY"
  shows "runs (bsptbk blk s) (\<lambda>((e, x), s').
    (x = ZNULL \<and> (\<exists>s1 B1 R1 bs1. repr s1 B1 P R1 \<and> s' = bterr ''BGTFRE'' QF2BIG None s1 \<and>
       store_kept B R bs B1 R1 bs1 \<and> bs1 = [] \<and> MXBLKS \<le> length B1 + 1)) \<or>
    (0 \<le> x \<and> (\<exists>B1 R1 bs1 y B2 R2 bs2 m1 m2 m0.
       allocated B R bs x B1 R1 bs1 \<and> allocated B1 R1 bs1 y B2 R2 bs2 \<and>
       half 0 11 (B ! nat blk) m1 \<and> btype_of m1 = ZINUSE \<and>
       half 12 10 (B ! nat blk) m2 \<and> btype_of m2 = ZINUSE \<and>
       wf_keys m0 \<and> nkeys_of m0 = 1 \<and> entries m0 = [entries (B ! nat blk) ! 11] \<and> links m0 = [x, y] \<and>
       (\<forall>t. 0 \<le> t \<and> t \<noteq> ZNKEYS \<longrightarrow> word_of m0 t = word_of (B ! nat blk) t) \<and>
       repr s' (B2[nat x := m1, nat y := m2, nat blk := m0]) P
         (R2\<lparr>srh_keyent := entries (B ! nat blk) ! 11\<rparr>))))"
proof -
  let ?g = "B ! nat blk"
  have cP: "card P < ZMXBLK" using P by simp
  have room: "room P y" for y using cP by (simp add: room_def)
  obtain s1 where s1: "bgtinf blk ZBTYPE s = Some (ZROOT, s1)" "repr s1 B P R"
    using bgtinf_spec [OF r _ room _ mem_info_type [OF wf_keys_D(1) [OF b(3)]]] b(1,2)
    by (auto simp: runs_def ZBTYPE_def ZINFSZ_def)
  obtain x s2 where s2: "bgtfre s1 = Some (x, s2)"
    and a: "if bs = [] \<and> MXBLKS \<le> length B + 1 then x = ZNULL \<and> s2 = bterr ''BGTFRE'' QF2BIG None s1
      else \<exists>B' R' bs'. 0 \<le> x \<and> repr s2 B' P R' \<and> allocated B R bs x B' R' bs'"
    using bgtfre_spec [OF s1(2) f cP len] by (auto simp: runs_def)
  show ?thesis
  proof (cases "bs = [] \<and> MXBLKS \<le> length B + 1")
    case True
    then have "bsptbk blk s = Some ((ZNULL, ZNULL), bterr ''BGTFRE'' QF2BIG None s1)"
      using s1(1) s2 a by (simp add: bsptbk_def ZNULL_def)
    then show ?thesis
      using s1(2) True store_kept_refl [OF f len] by (auto simp: runs_def)
  next
    case False
    then obtain B1 R1 bs1 where a: "0 \<le> x" "repr s2 B1 P R1" "allocated B R bs x B1 R1 bs1"
      using a by metis
    note A = allocated_D [OF a(3)] and O = allocated_other [OF a(3) f b(1)]
    obtain y s3 where s3: "bgtfre s2 = Some (y, s3)"
      and a': "if bs1 = [] \<and> MXBLKS \<le> length B1 + 1 then y = ZNULL \<and> s3 = bterr ''BGTFRE'' QF2BIG None s2
        else \<exists>B' R' bs'. 0 \<le> y \<and> repr s3 B' P R' \<and> allocated B1 R1 bs1 y B' R' bs'"
      using bgtfre_spec [OF a(2) A(4) cP A(3)] by (auto simp: runs_def)
    show ?thesis
    proof (cases "bs1 = [] \<and> MXBLKS \<le> length B1 + 1")
      case True
      then have "bsptbk blk s = Some ((ZNULL, ZNULL), bterr ''BGTFRE'' QF2BIG None s2)"
        using s1(1) s2 s3 a' a(1) by (simp add: bsptbk_def ZNULL_def)
      then show ?thesis
        using a(2) True store_kept_alloc [OF a(3) f] by (auto simp: runs_def)
    next
      case False
      then obtain B2 R2 bs2 where a': "0 \<le> y" "repr s3 B2 P R2" "allocated B1 R1 bs1 y B2 R2 bs2"
        using a' by metis
      note A' = allocated_D [OF a'(3)] and O' = allocated_other [OF a'(3) A(4) O(3)]
      have xy: "x \<noteq> y" "valid_blk B2 x"
      proof -
        have "nat x < length B1" using A(1) by (auto simp: valid_blk_def)
        then show "valid_blk B2 x" using A'(2) a(1) by (auto simp: valid_blk_def)
        have "x \<notin> set bs1" using a(3) by (simp add: allocated_def)
        then show "x \<noteq> y" using a'(3) A(1) by (auto simp: allocated_def valid_blk_def)
      qed
      have nP: "x \<notin> P" "y \<notin> P"
        using P(2) allocated_other(1,3) [OF a(3) f] allocated_other(1) [OF a'(3) A(4)] by blast+
      have n: "nat x < length B2" "nat y < length B2" "nat blk < length B2" "nat x \<noteq> nat y"
        "nat x \<noteq> nat blk" "nat y \<noteq> nat blk"
        using A'(1) xy O O' a(1) a'(1) by (auto simp: valid_blk_def eq_nat_nat_iff)
      have g: "B2 ! nat blk = ?g" using O O' by simp
      obtain s4 m where s4: "bcpybk x blk 0 0 11 s3 = Some s4" "repr s4 (B2[nat x := m]) P R2"
          "half 0 11 ?g (set_words ZINUSE mi nx 11 nb du m)" for mi nx nb du
        using copy_half [OF a'(2) xy(2) nP(1), of blk 0 11] O O' P(1) b(3,4) g
        by (auto simp: runs_def split_sizes)
      let ?B3 = "B2[nat x := m]"
      have g3: "?B3 ! nat blk = ?g" "valid_blk ?B3 y" "valid_blk ?B3 blk"
        using n g A'(1) O'(3) by (auto simp: valid_blk_def)
      obtain s5 m' where s5: "bcpybk y blk 0 12 10 s4 = Some s5" "repr s5 (?B3[nat y := m']) P R2"
          "half 12 10 ?g (set_words ZINUSE mi nx 10 nb du m')" for mi nx nb du
        using copy_half [OF s4(2) g3(2) nP(2), of blk 12 10] O'(1) P(1) b(3,4) g3
        by (auto simp: runs_def split_sizes)
      let ?m1 = "set_words ZINUSE 0 blk 11 (s_scroot s5) ZNULL m"
      let ?B4 = "?B3[nat y := m']"
      have x4: "valid_blk ?B4 x" "?B4 ! nat x = m" using n xy(2) by (auto simp: valid_blk_def)
      obtain s6 where s6: "bsetbk x ZINUSE 0 blk 11 (s_scroot s5) ZNULL s5 = Some s6"
          "repr s6 (?B4[nat x := ?m1]) P R2"
        using bsetbk_spec [OF s5(2) x4(1) room, of ZINUSE 0 blk 11 "s_scroot s5" ZNULL] x4(2)
        by (auto simp: runs_def)
      let ?m2 = "set_words ZINUSE 0 blk 10 (s_scroot s6) ZNULL m'"
      let ?B5 = "?B4[nat x := ?m1]"
      have y5: "valid_blk ?B5 y" "?B5 ! nat y = m'" using n A'(1) by (auto simp: valid_blk_def)
      obtain s7 where s7: "bsetbk y ZINUSE 0 blk 10 (s_scroot s6) ZNULL s6 = Some s7"
          "repr s7 (?B5[nat y := ?m2]) P R2"
        using bsetbk_spec [OF s6(2) y5(1) room, of ZINUSE 0 blk 10 "s_scroot s6" ZNULL] y5(2)
        by (auto simp: runs_def)
      let ?B6 = "B2[nat x := ?m1, nat y := ?m2]"
      have B6: "?B5[nat y := ?m2] = ?B6"
        using n(4) by (simp add: list_update_swap [of "nat y" "nat x"])
      note r7 = s7(2) [unfolded B6]
      let ?e = "entries ?g ! 11"
      have g6: "?B6 ! nat blk = ?g" "valid_blk ?B6 blk" using n g O'(3) by (auto simp: valid_blk_def)
      obtain r8 s8 where s8: "bsrhbk blk ((srh_args (Some []) split_sp)\<lparr>s_result := Some 0\<rparr>) s7 = Some ((True, r8), s8)"
          "s_result r8 = Some 0" "repr s8 ?B6 P (R2\<lparr>srh_keyent := ?e\<rparr>)"
        using middle_key [OF r7 g6(2) room] g6(1) b(3,4) by (auto simp: runs_def)
      have k8: "kep_deref True s8 = Some ?e" using repr_fields(15) [OF s8(3)] by (simp add: kep_deref_def)
      note over = put_over [where k = ?e and ?l1.0 = x and ?l2.0 = y, OF wf_keys_D(1) [OF b(3)]]
      let ?m = "?g\<lparr>keyblk := (keyblk ?g)[0 := ?e], lnkblk := (lnkblk ?g)[0 := x, 1 := y]\<rparr>"
      obtain s9 where s9: "brepky blk 0 ?e x y s8 = Some s9" "repr s9 (?B6[nat blk := ?m]) P (R2\<lparr>srh_keyent := ?e\<rparr>)"
        using brepky_front [OF s8(3) g6(2) room, of ?e x y] g6(1) by (auto simp: runs_def)
      have g9: "valid_blk (?B6[nat blk := ?m]) blk" "(?B6[nat blk := ?m]) ! nat blk = ?m"
        using g6(2) n by (auto simp: valid_blk_def)
      obtain s10 where s10: "bstinf blk ZNKEYS 1 s9 = Some s10"
          "repr s10 (?B6[nat blk := set_word ZNKEYS 1 ?m]) P (R2\<lparr>srh_keyent := ?e\<rparr>)"
        using bstinf_spec [OF s9(2) g9(1) room, of ZNKEYS 1] g9(2)
        by (auto simp: runs_def ZNKEYS_def ZINFSZ_def)
      have t: "btype_of ?m1 = ZINUSE" "btype_of ?m2 = ZINUSE"
        by (rule btype_set_words; simp add: ZINUSE_def)+
      have w: "word_of (set_word ZNKEYS 1 ?m) t = word_of ?g t" if "0 \<le> t" "t \<noteq> ZNKEYS" for t
        using word_of_set_word [OF over(2), of ZNKEYS t 1] that
        by (simp add: ZNKEYS_def ZINFSZ_def word_of_def)
      have call: "bsptbk blk s = Some ((0, x), inc_split s10)"
        using s1(1) s2 a(1) s3 a'(1) s4(1) s5(1) s6(1) s7(1) s8(1,2) k8 s9(1) s10(1)
        by (simp add: bsptbk_def split_sizes)
      have "repr (inc_split s10) (?B6[nat blk := set_word ZNKEYS 1 ?m]) P (R2\<lparr>srh_keyent := ?e\<rparr>)"
        using s10(2) by auto
      note facts = a(1,3) a'(3) s4(3) [of 0 blk "s_scroot s5" ZNULL] t(1)
        s5(3) [of 0 blk "s_scroot s6" ZNULL] t(2) over(3) w this
      show ?thesis
        unfolding runs_def by (intro exI [of _ "((0, x), inc_split s10)"]) (simp add: call, use facts in blast)
    qed
  qed
qed

end
