(* ===== verification/Grow.thy ===== *)
theory Grow
  imports Split "HOL-Library.Multiset"
begin

text \<open>
  What a split does to a tree: the blocks of the halves stand for the same entries, the tree has the
  new block among its blocks and is otherwise the same. The change is carried from the parent of the
  block that was split up to the root along the path of the search. A tree that fits the largest file
  is so low that the stack of the search holds its path.
\<close>

section \<open>Trees that agree\<close>

lemma tree_kept:
  assumes "wf_tree B h b" "\<forall>c \<in> set (tree_blocks B h b). B' ! nat c = B ! nat c \<and> valid_blk B' c"
  shows "wf_tree B' h b \<and> tree_entries B' h b = tree_entries B h b \<and> tree_blocks B' h b = tree_blocks B h b"
  using assms
proof (induction h arbitrary: b)
  case 0
  then show ?case by auto
next
  case (Suc h)
  let ?ls = "links (B ! nat b)"
  have b: "B' ! nat b = B ! nat b" "valid_blk B' b" using Suc.prems(2) by simp_all
  have IH: "wf_tree B' h l \<and> tree_entries B' h l = tree_entries B h l \<and> tree_blocks B' h l = tree_blocks B h l"
    if "l \<in> set ?ls" for l
    using that Suc.prems by (intro Suc.IH) auto
  then have "map (tree_entries B' h) ?ls = map (tree_entries B h) ?ls"
    "map (tree_blocks B' h) ?ls = map (tree_blocks B h) ?ls" by simp_all
  then show ?case using b IH Suc.prems(1) by (simp del: map_eq_conv)
qed

lemma tree_cong:
  assumes "wf_tree B h b" "length B \<le> length B'" "\<forall>c \<in> set (tree_blocks B h b). B' ! nat c = B ! nat c"
  shows "wf_tree B' h b \<and> tree_entries B' h b = tree_entries B h b \<and> tree_blocks B' h b = tree_blocks B h b"
  using assms tree_blocks_valid [OF assms(1)] by (intro tree_kept) (fastforce simp: valid_blk_def)+

section \<open>Interleaving and splits\<close>

lemma interleave_join:
  "length cs1 = Suc (length es1) \<Longrightarrow>
   interleave (cs1 @ cs2) (es1 @ e # es2) = interleave cs1 es1 @ e # interleave cs2 es2"
proof (induction cs1 es1 rule: interleave.induct)
  case (2 c cs)
  then show ?case by simp
qed simp_all

lemma interleave_two:
  "length cs1 = length es1 \<Longrightarrow>
   interleave (cs1 @ u # v # cs2) (es1 @ e # es2) = interleave (cs1 @ (u @ e # v) # cs2) (es1 @ es2)"
proof (induction cs1 es1 rule: list_induct2')
  case 1
  then show ?case by (cases es2) simp_all
qed simp_all

section \<open>The two halves of a block\<close>

lemma tree_halves:
  assumes t: "wf_tree B h c" "nkeys_of (B ! nat c) = ZMXKEY" "distinct (tree_blocks B h c)"
    and same: "\<forall>d \<in> set (tree_blocks B h c) - {c}. B' ! nat d = B ! nat d" "length B \<le> length B'"
    and u: "valid_blk B' u" "half 0 11 (B ! nat c) (B' ! nat u)"
    and v: "valid_blk B' v" "half 12 10 (B ! nat c) (B' ! nat v)"
  shows "wf_tree B' h u \<and> wf_tree B' h v \<and>
    tree_entries B' h u @ entries (B ! nat c) ! 11 # tree_entries B' h v = tree_entries B h c \<and>
    mset (tree_blocks B' h u) + mset (tree_blocks B' h v) + {#c#} = mset (tree_blocks B h c) + {#u, v#}"
proof -
  define es where "es = entries (B ! nat c)"
  define ls where "ls = links (B ! nat c)"
  have D: "length es = 22" "length ls = 23"
    using wf_tree_D [OF t(1)] wf_keys_D(2,3) [of "B ! nat c"] t(2) by (simp_all add: es_def ls_def ZMXKEY_val)
  have U: "entries (B' ! nat u) = take 11 es" "links (B' ! nat u) = take 12 ls" "wf_keys (B' ! nat u)"
      "0 < nkeys_of (B' ! nat u)"
    and V: "entries (B' ! nat v) = drop 12 es" "links (B' ! nat v) = drop 12 ls" "wf_keys (B' ! nat v)"
      "0 < nkeys_of (B' ! nat v)"
    using u(2) v(2) D by (simp_all add: half_def es_def ls_def)
  have es: "take 11 es @ es ! 11 # drop 12 es = es"
    using id_take_nth_drop [of 11 es] D(1) by (simp add: eval_nat_numeral)
  have ls: "set (take 12 ls) \<subseteq> set ls" "set (drop 12 ls) \<subseteq> set ls"
    by (rule set_take_subset, rule set_drop_subset)
  show ?thesis
  proof (cases h)
    case 0
    then show ?thesis
      using t(1,2) U V u(1) v(1) es ls by (auto simp: ZMXKEY_val es_def [symmetric] ls_def [symmetric])
  next
    case (Suc h')
    have cong: "wf_tree B' h' l \<and> tree_entries B' h' l = tree_entries B h' l \<and> tree_blocks B' h' l = tree_blocks B h' l"
      if "l \<in> set ls" for l
    proof (rule tree_cong [OF _ same(2)])
      show "wf_tree B h' l" using t(1) that Suc by (simp add: ls_def)
      show "\<forall>d \<in> set (tree_blocks B h' l). B' ! nat d = B ! nat d"
        using same(1) t(3) that Suc by (auto simp: ls_def)
    qed
    have e: "map (tree_entries B' h') (take 12 ls) = map (tree_entries B h') (take 12 ls)"
      "map (tree_entries B' h') (drop 12 ls) = map (tree_entries B h') (drop 12 ls)"
      "map (tree_blocks B' h') (take 12 ls) = map (tree_blocks B h') (take 12 ls)"
      "map (tree_blocks B' h') (drop 12 ls) = map (tree_blocks B h') (drop 12 ls)"
      using cong ls by (intro map_cong refl; blast)+
    have "tree_entries B h c = interleave (map (tree_entries B h') (take 12 ls @ drop 12 ls))
        (take 11 es @ es ! 11 # drop 12 es)"
      unfolding es append_take_drop_id by (simp add: Suc es_def ls_def)
    also have "\<dots> = tree_entries B' h u @ es ! 11 # tree_entries B' h v"
      unfolding map_append by (subst interleave_join) (use D U V e Suc in \<open>simp_all del: map_eq_conv\<close>)
    finally have ents: "tree_entries B' h u @ es ! 11 # tree_entries B' h v = tree_entries B h c" by simp
    have "mset (tree_blocks B h c) = {#c#} + mset (concat (map (tree_blocks B h') (take 12 ls @ drop 12 ls)))"
      unfolding append_take_drop_id by (simp add: Suc ls_def)
    then have "mset (tree_blocks B' h u) + mset (tree_blocks B' h v) + {#c#} = mset (tree_blocks B h c) + {#u, v#}"
      using U V e Suc by (simp del: append_take_drop_id map_eq_conv)
    moreover have "wf_tree B' h u" "wf_tree B' h v" using U V u(1) v(1) cong ls Suc by auto
    ultimately show ?thesis using ents by (simp add: es_def)
  qed
qed

section \<open>A tree with more blocks and the same entries\<close>

definition regrown :: "memrec list \<Rightarrow> memrec list \<Rightarrow> int list \<Rightarrow> nat \<Rightarrow> nat \<Rightarrow> int \<Rightarrow> bool" where
  "regrown B B' xs h h' b \<longleftrightarrow>
     wf_tree B' h' b \<and> tree_entries B' h' b = tree_entries B h b \<and>
     mset (tree_blocks B' h' b) = mset (xs @ tree_blocks B h b)"

lemma regrown_blocks: "regrown B B' xs h h' b \<Longrightarrow> set (tree_blocks B' h' b) = set xs \<union> set (tree_blocks B h b)"
  using mset_eq_setD [of "tree_blocks B' h' b" "xs @ tree_blocks B h b"] by (simp add: regrown_def)

lemma regrown_distinct:
  assumes "regrown B B' xs h h' b" "distinct (tree_blocks B h b)" "distinct xs"
    "set xs \<inter> set (tree_blocks B h b) = {}"
  shows "distinct (tree_blocks B' h' b)"
proof -
  have "mset (tree_blocks B' h' b) = mset (xs @ tree_blocks B h b)" using assms(1) by (simp add: regrown_def)
  moreover have "distinct (xs @ tree_blocks B h b)" using assms(2-4) by simp
  ultimately show ?thesis using mset_eq_imp_distinct_iff by blast
qed

lemma child_blocks: "l \<in> set (links (B ! nat b)) \<Longrightarrow> set (tree_blocks B h l) \<subseteq> set (tree_blocks B (Suc h) b)"
  by auto

text \<open>A child of a block changes, the block does not.\<close>

lemma regrown_child:
  assumes t: "wf_tree B (Suc h) b" "distinct (tree_blocks B (Suc h) b)"
    and c: "c \<in> set (links (B ! nat b))" "regrown B B' xs h h c"
    and same: "\<forall>d \<in> set (tree_blocks B (Suc h) b) - set (tree_blocks B h c). B' ! nat d = B ! nat d"
      "length B \<le> length B'"
  shows "regrown B B' xs (Suc h) (Suc h) b"
proof -
  obtain ls1 ls2 where ls: "links (B ! nat b) = ls1 @ c # ls2" using c(1) by (meson split_list)
  have D: "distinct (b # concat (map (tree_blocks B h) ls1) @ tree_blocks B h c @ concat (map (tree_blocks B h) ls2))"
    using t(2) ls by simp
  have b: "B' ! nat b = B ! nat b" using same(1) D by auto
  have cong: "wf_tree B' h l \<and> tree_entries B' h l = tree_entries B h l \<and> tree_blocks B' h l = tree_blocks B h l"
    if l: "l \<in> set ls1 \<union> set ls2" for l
  proof (rule tree_cong [OF _ same(2)])
    show "wf_tree B h l" using t(1) l ls by auto
    show "\<forall>d \<in> set (tree_blocks B h l). B' ! nat d = B ! nat d"
    proof
      fix d assume d: "d \<in> set (tree_blocks B h l)"
      then have "d \<notin> set (tree_blocks B h c)" using D l by auto
      moreover have "d \<in> set (tree_blocks B (Suc h) b)" using d l ls by auto
      ultimately show "B' ! nat d = B ! nat d" using same(1) by blast
    qed
  qed
  have e: "map (tree_entries B' h) ls1 = map (tree_entries B h) ls1"
    "map (tree_entries B' h) ls2 = map (tree_entries B h) ls2"
    "map (tree_blocks B' h) ls1 = map (tree_blocks B h) ls1"
    "map (tree_blocks B' h) ls2 = map (tree_blocks B h) ls2"
    using cong by (intro map_cong refl; blast)+
  have "tree_entries B' (Suc h) b = tree_entries B (Suc h) b"
    using b ls e c(2) by (simp add: regrown_def del: map_eq_conv)
  moreover have "mset (tree_blocks B' (Suc h) b) = mset (xs @ tree_blocks B (Suc h) b)"
    using b ls e c(2) by (simp add: regrown_def del: map_eq_conv)
  moreover have "wf_tree B' (Suc h) b"
    using t(1) b ls c(2) cong same(2) by (auto simp: regrown_def valid_blk_def)
  ultimately show ?thesis by (simp add: regrown_def)
qed

text \<open>Where the keys of a child belong among the keys of its parent.\<close>

lemma lower_child:
  assumes t: "wf_tree B (Suc h) b" "sorted_keys (tree_entries B (Suc h) b)"
    and p: "p < length (links (B ! nat b))" and e: "e \<in> set (tree_entries B h (links (B ! nat b) ! p))"
  shows "lower (ke_key e) (entries (B ! nat b)) = p" "ke_key e \<notin> ke_key ` set (entries (B ! nat b))"
proof -
  define es where "es = entries (B ! nat b)"
  define cs where "cs = map (tree_entries B h) (links (B ! nat b))"
  have l: "length cs = Suc (length es)" using wf_tree_links [OF t(1)] by (simp add: cs_def es_def)
  have p': "p \<le> length es" using p l by (simp add: cs_def)
  have S: "sorted_keys (left_part p cs es @ cs ! p @ right_part p cs es)"
    using t(2) interleave_split [OF l p'] by (simp add: cs_def es_def)
  have e': "e \<in> set (cs ! p)" using e p by (simp add: cs_def)
  have se: "sorted_keys es" using t(1) wf_keys_D(4) by (simp add: es_def)
  have lt: "ke_key (es ! (p - 1)) < ke_key e" if p0: "0 < p"
  proof -
    obtain xs where "left_part p cs es = xs @ [es ! (p - 1)]" using left_part_last [OF l p' p0] by blast
    then show ?thesis using S e' unfolding sorted_keys_append by auto
  qed
  have gt: "ke_key e < ke_key (es ! p)" if pl: "p < length es"
  proof -
    obtain xs where "right_part p cs es = es ! p # xs" using right_part_hd [OF l pl] by blast
    then show ?thesis using S e' unfolding sorted_keys_append by auto
  qed
  show low: "lower (ke_key e) (entries (B ! nat b)) = p"
    unfolding es_def [symmetric] by (rule lower_eq [OF se p']) (use lt gt in \<open>auto intro: less_imp_le\<close>)
  show "ke_key e \<notin> ke_key ` set (entries (B ! nat b))"
    using lower_present [OF se, of "ke_key e"] low gt by (auto simp: es_def)
qed

lemma entries_in_tree: "wf_tree B h b \<Longrightarrow> set (entries (B ! nat b)) \<subseteq> set (tree_entries B h b)"
  using wf_tree_links [of B h b] by (cases h) (simp_all add: set_interleave)

text \<open>A full child is split below a block that has room.\<close>

lemma regrown_split:
  assumes t: "wf_tree B (Suc h) b" "sorted_keys (tree_entries B (Suc h) b)" "distinct (tree_blocks B (Suc h) b)"
    and c: "c \<in> set (links (B ! nat b))" "nkeys_of (B ! nat c) = ZMXKEY" "nkeys_of (B ! nat b) < ZMXKEY"
    and x: "valid_blk B' x" "x \<notin> set (tree_blocks B (Suc h) b)"
    and m: "half 0 11 (B ! nat c) (B' ! nat c)" "half 12 10 (B ! nat c) (B' ! nat x)"
      "put_ok (entries (B ! nat c) ! 11) c x (B ! nat b) (B' ! nat b)"
    and same: "\<forall>d \<in> set (tree_blocks B (Suc h) b) - {b, c}. B' ! nat d = B ! nat d" "length B \<le> length B'"
  shows "regrown B B' [x] (Suc h) (Suc h) b"
proof -
  let ?e = "entries (B ! nat c) ! 11"
  obtain ls1 ls2 where ls: "links (B ! nat b) = ls1 @ c # ls2" using c(1) by (meson split_list)
  have D: "distinct (b # concat (map (tree_blocks B h) ls1) @ tree_blocks B h c @ concat (map (tree_blocks B h) ls2))"
    using t(3) ls by simp
  have wfc: "wf_tree B h c" using t(1) c(1) by simp
  have cc: "c \<in> set (tree_blocks B h c)" by (rule root_in_blocks)
  have bc: "b \<notin> set (tree_blocks B h c)" "b \<noteq> c" using D cc by auto
  have cong: "wf_tree B' h l \<and> tree_entries B' h l = tree_entries B h l \<and> tree_blocks B' h l = tree_blocks B h l"
    if l: "l \<in> set ls1 \<union> set ls2" for l
  proof (rule tree_cong [OF _ same(2)])
    show "wf_tree B h l" using t(1) l ls by auto
    show "\<forall>d \<in> set (tree_blocks B h l). B' ! nat d = B ! nat d"
    proof
      fix d assume d: "d \<in> set (tree_blocks B h l)"
      then have "d \<notin> {b, c}" using D l cc by auto
      moreover have "d \<in> set (tree_blocks B (Suc h) b)" using d l ls by auto
      ultimately show "B' ! nat d = B ! nat d" using same(1) by blast
    qed
  qed
  have H: "wf_tree B' h c \<and> wf_tree B' h x \<and> tree_entries B' h c @ ?e # tree_entries B' h x = tree_entries B h c \<and>
      mset (tree_blocks B' h c) + mset (tree_blocks B' h x) + {#c#} = mset (tree_blocks B h c) + {#c, x#}"
  proof (rule tree_halves [OF wfc c(2) _ _ same(2) _ m(1) x(1) m(2)])
    show "distinct (tree_blocks B h c)" using D by simp
    show "\<forall>d \<in> set (tree_blocks B h c) - {c}. B' ! nat d = B ! nat d"
      using same(1) bc child_blocks [OF c(1)] by blast
    show "valid_blk B' c" using wf_tree_D [OF wfc] same(2) by (simp add: valid_blk_def)
  qed
  have e11: "11 < length (entries (B ! nat c))"
    using wf_tree_D [OF wfc] wf_keys_D(2) [of "B ! nat c"] c(2) by (simp add: ZMXKEY_val)
  have ein: "?e \<in> set (tree_entries B h c)" using entries_in_tree [OF wfc] nth_mem [OF e11] by blast
  note low = lower_child [OF t(1,2), of "length ls1" ?e]
  have p: "lower (ke_key ?e) (entries (B ! nat b)) = length ls1" "ke_key ?e \<notin> ke_key ` set (entries (B ! nat b))"
    using low ls ein by simp_all
  have wkb: "wf_keys (B ! nat b)" using t(1) by simp
  have wk: "wf_keys (B' ! nat b)" using put_ok_keys [OF wkb m(3) c(3) p(2)] .
  have c0: "c \<noteq> ZNULL" using wf_tree_D [OF wfc] by (auto simp: valid_blk_def ZNULL_def)
  have len: "length ls1 \<le> length (entries (B ! nat b))" using wf_tree_links [OF t(1)] ls by simp
  have ents: "entries (B' ! nat b) =
      take (length ls1) (entries (B ! nat b)) @ ?e # drop (length ls1) (entries (B ! nat b))"
    using m(3) p(1) by (simp add: put_ok_def insert_at_def)
  have lnks: "links (B' ! nat b) = ls1 @ c # x # ls2"
    using m(3) p(1) ls c0 by (simp add: put_ok_def put_links_def)
  have e: "map (tree_entries B' h) ls1 = map (tree_entries B h) ls1"
    "map (tree_entries B' h) ls2 = map (tree_entries B h) ls2"
    "map (tree_blocks B' h) ls1 = map (tree_blocks B h) ls1"
    "map (tree_blocks B' h) ls2 = map (tree_blocks B h) ls2"
    using cong by (intro map_cong refl; blast)+
  have "tree_entries B' (Suc h) b = tree_entries B (Suc h) b"
  proof -
    let ?f = "tree_entries B h" and ?E = "entries (B ! nat b)"
    have "tree_entries B' (Suc h) b = interleave (map ?f ls1 @ tree_entries B' h c # tree_entries B' h x # map ?f ls2)
        (take (length ls1) ?E @ ?e # drop (length ls1) ?E)"
      using ents lnks e by (simp del: map_eq_conv)
    also have "\<dots> = interleave (map ?f ls1 @ (tree_entries B' h c @ ?e # tree_entries B' h x) # map ?f ls2) ?E"
      using interleave_two [of "map ?f ls1" "take (length ls1) ?E"] len by simp
    finally show ?thesis using H ls by simp
  qed
  moreover have "mset (tree_blocks B' (Suc h) b) = mset ([x] @ tree_blocks B (Suc h) b)"
  proof -
    have "mset (tree_blocks B' h c) + mset (tree_blocks B' h x) = mset (tree_blocks B h c) + {#x#}"
      using H by (metis add_mset_add_single add_right_cancel union_mset_add_mset_left union_mset_add_mset_right)
    then have "mset (tree_blocks B' h c) + (mset (tree_blocks B' h x) + M) = add_mset x (mset (tree_blocks B h c) + M)" for M
      by (metis add_mset_add_single add.assoc union_mset_add_mset_left)
    then show ?thesis using lnks ls e by (simp del: map_eq_conv)
  qed
  moreover have "0 < nkeys_of (B' ! nat b)" using m(3) t(1) by (simp add: put_ok_def)
  then have "wf_tree B' (Suc h) b"
    using t(1) wk ls lnks H cong same(2) by (auto simp: valid_blk_def)
  ultimately show ?thesis by (simp add: regrown_def)
qed

text \<open>A full root gets two children and keeps its middle key: the tree is one higher.\<close>

lemma regrown_root:
  assumes t: "wf_tree B h b" "nkeys_of (B ! nat b) = ZMXKEY" "distinct (tree_blocks B h b)"
    and x: "valid_blk B' x" "half 0 11 (B ! nat b) (B' ! nat x)"
    and y: "valid_blk B' y" "half 12 10 (B ! nat b) (B' ! nat y)"
    and m: "wf_keys (B' ! nat b)" "nkeys_of (B' ! nat b) = 1"
      "entries (B' ! nat b) = [entries (B ! nat b) ! 11]" "links (B' ! nat b) = [x, y]"
    and same: "\<forall>d \<in> set (tree_blocks B h b) - {b}. B' ! nat d = B ! nat d" "length B \<le> length B'"
  shows "regrown B B' [x, y] h (Suc h) b"
proof -
  have H: "wf_tree B' h x \<and> wf_tree B' h y \<and>
      tree_entries B' h x @ entries (B ! nat b) ! 11 # tree_entries B' h y = tree_entries B h b \<and>
      mset (tree_blocks B' h x) + mset (tree_blocks B' h y) + {#b#} = mset (tree_blocks B h b) + {#x, y#}"
    by (rule tree_halves [OF t same x y])
  have "valid_blk B' b" using wf_tree_D [OF t(1)] same(2) by (simp add: valid_blk_def)
  then show ?thesis using H m by (simp add: regrown_def)
qed

section \<open>Along the path\<close>

lemma path_blocks:
  "wf_tree B h b \<Longrightarrow> n < length (path B h b k) \<Longrightarrow>
   n \<le> h \<and> set (tree_blocks B (h - n) (path B h b k ! n)) \<subseteq> set (tree_blocks B h b)"
proof (induction h arbitrary: n b)
  case (Suc h)
  show ?case
  proof (cases n)
    case (Suc m)
    then have nh: "\<not> has_key B k b" "m < length (path B h (child B k b) k)"
      using Suc.prems(2) by (auto split: if_splits)
    have "child B k b \<in> set (links (B ! nat b))" using nth_mem [OF place_le [OF Suc.prems(1)]] .
    then show ?thesis
      using Suc.IH [OF child_wf [OF Suc.prems(1)] nh(2)] nh(1) child_blocks [of "child B k b" B b h] Suc
      by auto
  qed (use Suc in auto)
qed simp

lemma path_drop:
  assumes "wf_tree B h b" "sorted_keys (tree_entries B h b)" "distinct (tree_blocks B h b)"
    and "n < length (path B h b k)"
  shows "wf_tree B (h - n) (path B h b k ! n) \<and> sorted_keys (tree_entries B (h - n) (path B h b k ! n)) \<and>
    distinct (tree_blocks B (h - n) (path B h b k ! n)) \<and>
    path B h b k = take n (path B h b k) @ path B (h - n) (path B h b k ! n) k"
  using assms
proof (induction h arbitrary: n b)
  case (Suc h)
  show ?case
  proof (cases n)
    case 0
    then show ?thesis using Suc.prems by (simp del: tree_entries.simps tree_blocks.simps wf_tree.simps)
  next
    case (Suc m)
    let ?c = "child B k b"
    have nh: "\<not> has_key B k b" "m < length (path B h ?c k)"
      using Suc.prems(4) \<open>n = Suc m\<close> by (auto split: if_splits)
    from tree_split [OF Suc.prems(1,2) nh(1)] obtain L R where
      "tree_entries B (Suc h) b = L @ tree_entries B h ?c @ R" by metis
    then have s: "sorted_keys (tree_entries B h ?c)" using Suc.prems(2) by (simp add: sorted_keys_append)
    have "?c \<in> set (links (B ! nat b))" using nth_mem [OF place_le [OF Suc.prems(1)]] .
    then have d: "distinct (tree_blocks B h ?c)" using Suc.prems(3) by (auto simp: distinct_concat_iff)
    have p: "path B (Suc h) b k = b # path B h ?c k" using nh(1) by simp
    show ?thesis
      using Suc.IH [OF child_wf [OF Suc.prems(1)] s d nh(2)] \<open>n = Suc m\<close> unfolding p by simp
  qed
qed simp

lemma path_node:
  assumes "wf_tree B h b" "sorted_keys (tree_entries B h b)" "distinct (tree_blocks B h b)"
    and "n < length (path B h b k)" and "c = path B h b k ! n"
  shows "wf_tree B (h - n) c" "sorted_keys (tree_entries B (h - n) c)" "distinct (tree_blocks B (h - n) c)"
    "Suc n < length (path B h b k) \<longleftrightarrow> n < h \<and> \<not> has_key B k c"
    "Suc n < length (path B h b k) \<Longrightarrow> path B h b k ! Suc n = child B k c"
    "List.last (path B h b k) = List.last (path B (h - n) c k)"
proof -
  note P = path_drop [OF assms(1-4), folded assms(5)]
  show "wf_tree B (h - n) c" "sorted_keys (tree_entries B (h - n) c)" "distinct (tree_blocks B (h - n) c)"
    using P by blast+
  have nh: "n \<le> h" using path_blocks [OF assms(1,4)] by simp
  have e: "path B h b k = take n (path B h b k) @ path B (h - n) c k" using P by blast
  have len: "length (path B h b k) = n + length (path B (h - n) c k)"
    using arg_cong [OF e, of length] assms(4) by simp
  show m: "Suc n < length (path B h b k) \<longleftrightarrow> n < h \<and> \<not> has_key B k c"
    using nh unfolding len by (cases "h - n") auto
  show "path B h b k ! Suc n = child B k c" if l: "Suc n < length (path B h b k)"
  proof -
    have "0 < h - n" using m l by simp
    then obtain h' where h': "h - n = Suc h'" by (cases "h - n") auto
    then have "path B (h - n) c k = c # path B h' (child B k c) k" using m l by simp
    moreover have "path B h' (child B k c) k ! 0 = child B k c" by (cases h') auto
    moreover have "path B h b k ! Suc n = path B (h - n) c k ! 1"
      by (subst e) (use assms(4) in \<open>simp add: nth_append\<close>)
    ultimately show ?thesis by simp
  qed
  show "List.last (path B h b k) = List.last (path B (h - n) c k)" by (subst e) simp
qed

text \<open>A tree on the path grows: the whole tree grows, and the path down to there is the same.\<close>

lemma regrown_path:
  assumes "wf_tree B h b" "distinct (tree_blocks B h b)" "n < length (path B h b k)"
    and "regrown B B' xs (h - n) (h - n) (path B h b k ! n)"
    and "\<forall>d \<in> set (tree_blocks B h b) - set (tree_blocks B (h - n) (path B h b k ! n)). B' ! nat d = B ! nat d"
    and "length B \<le> length B'"
  shows "regrown B B' xs h h b \<and> n < length (path B' h b k) \<and>
    (\<forall>i < n. path B' h b k ! i = path B h b k ! i \<and> B' ! nat (path B h b k ! i) = B ! nat (path B h b k ! i)) \<and>
    path B' h b k ! n = path B h b k ! n"
  using assms
proof (induction h arbitrary: n b)
  case 0
  then show ?case by simp
next
  case (Suc h)
  show ?case
  proof (cases n)
    case 0
    then show ?thesis using Suc.prems(4)
      by (simp del: tree_entries.simps tree_blocks.simps wf_tree.simps)
  next
    case (Suc m)
    let ?c = "child B k b"
    have nh: "\<not> has_key B k b" "m < length (path B h ?c k)"
      using Suc.prems(3) \<open>n = Suc m\<close> by (auto split: if_splits)
    have cin: "?c \<in> set (links (B ! nat b))" using nth_mem [OF place_le [OF Suc.prems(1)]] .
    have wfc: "wf_tree B h ?c" using child_wf [OF Suc.prems(1)] .
    have dc: "distinct (tree_blocks B h ?c)" using Suc.prems(2) cin by (auto simp: distinct_concat_iff)
    have node: "path B (Suc h) b k ! n = path B h ?c k ! m" using nh \<open>n = Suc m\<close> by simp
    let ?N = "set (tree_blocks B (h - m) (path B h ?c k ! m))"
    have sub: "?N \<subseteq> set (tree_blocks B h ?c)" using path_blocks [OF wfc nh(2)] by blast
    have oth: "\<forall>d \<in> set (tree_blocks B (Suc h) b) - ?N. B' ! nat d = B ! nat d"
      using Suc.prems(5) nh(1) \<open>n = Suc m\<close> by simp
    have IH: "regrown B B' xs h h ?c \<and> m < length (path B' h ?c k) \<and>
      (\<forall>i < m. path B' h ?c k ! i = path B h ?c k ! i \<and> B' ! nat (path B h ?c k ! i) = B ! nat (path B h ?c k ! i)) \<and>
      path B' h ?c k ! m = path B h ?c k ! m"
    proof (rule Suc.IH [OF wfc dc nh(2) _ _ Suc.prems(6)])
      show "regrown B B' xs (h - m) (h - m) (path B h ?c k ! m)"
        using Suc.prems(4) nh(1) \<open>n = Suc m\<close> by simp
      show "\<forall>d \<in> set (tree_blocks B h ?c) - ?N. B' ! nat d = B ! nat d"
        using oth child_blocks [OF cin] by blast
    qed
    have "b \<notin> set (tree_blocks B h ?c)" using Suc.prems(2) cin by auto
    then have "b \<notin> ?N" using sub by blast
    then have b: "B' ! nat b = B ! nat b" using oth by auto
    have "regrown B B' xs (Suc h) (Suc h) b"
      by (rule regrown_child [OF Suc.prems(1,2) cin _ _ Suc.prems(6)]) (use IH oth sub in blast)+
    moreover have "path B' (Suc h) b k = b # path B' h ?c k" "path B (Suc h) b k = b # path B h ?c k"
      using nh(1) b by (simp_all add: has_key_def)
    ultimately show ?thesis
      using IH b \<open>n = Suc m\<close>
      by (auto simp: nth_Cons' simp del: tree_entries.simps tree_blocks.simps wf_tree.simps path.simps)
  qed
qed

section \<open>The height of a tree\<close>

text \<open>A block that is not a leaf has at least two children, so a tree is low: its path fits on the stack
  of the search whenever the tree fits the largest file.\<close>

lemma tree_size: "wf_tree B h b \<Longrightarrow> 2 ^ Suc h \<le> Suc (length (tree_blocks B h b))"
proof (induction h arbitrary: b)
  case (Suc h)
  have "1 < length (links (B ! nat b))"
    using wf_keys_D(3) [of "B ! nat b"] Suc.prems by simp
  then obtain c d ls where ls: "links (B ! nat b) = c # d # ls"
    by (cases "links (B ! nat b)"; cases "tl (links (B ! nat b))") auto
  have "2 ^ Suc h \<le> Suc (length (tree_blocks B h c))" "2 ^ Suc h \<le> Suc (length (tree_blocks B h d))"
    using Suc ls by auto
  then show ?case using ls by simp
qed simp

lemma tree_height:
  assumes t: "wf_tree B h b" "distinct (tree_blocks B h b)" and B: "length B < MXBLKS"
    and c: "valid_blk B c" "c \<notin> set (tree_blocks B h b)"
  shows "2 * (h + 1) \<le> nat STKMAX"
proof -
  have "set (c # tree_blocks B h b) \<subseteq> {0..<int (length B)}"
    using tree_blocks_valid [OF t(1)] c(1) by (auto simp: valid_blk_def)
  then have "card (set (c # tree_blocks B h b)) \<le> length B"
    using card_mono [of "{0..<int (length B)}" "set (c # tree_blocks B h b)"] by simp
  then have "Suc (length (tree_blocks B h b)) \<le> length B"
    using distinct_card [OF t(2)] c(2) by simp
  then have "(2::nat) ^ Suc h < 2 ^ 21" using tree_size [OF t(1)] B by (simp add: MXBLKS_def)
  then have "Suc h < 21" using power_less_imp_less_exp [of "2::nat" "Suc h" 21] by simp
  then show ?thesis by (simp add: STKMAX_def)
qed

end
