(* ===== verification/Insert.thy ===== *)
theory Insert
  imports Search
begin

text \<open>
  What an insertion (\<open>binsky\<close>) builds on: where a search ends in a leaf and \<open>bleaf\<close> stays there; an
  entry put into that leaf goes to its place in the list of entries of the tree, which stays a search
  tree; a lookup then finds it and every other key as before.
\<close>

section \<open>The leaf where a search ends\<close>

lemma path_end_leaf:
  "wf_tree B h b \<Longrightarrow> \<not> has_key B k (List.last (path B h b k)) \<Longrightarrow> wf_tree B 0 (List.last (path B h b k))"
proof (induction h arbitrary: b)
  case (Suc h)
  show ?case
  proof (cases "has_key B k b")
    case True
    then show ?thesis using Suc.prems path_has_key [of B k b "Suc h"] by simp
  next
    case False
    then show ?thesis using Suc.IH [OF child_wf [OF Suc.prems(1), of k]] Suc.prems(2) by simp
  qed
qed simp

lemma path_end_in: "wf_tree B h b \<Longrightarrow> List.last (path B h b k) \<in> set (tree_blocks B h b)"
  using path_subset [of B h b k] last_in_set [OF path_not_Nil, of B h b k] by blast

text \<open>In a leaf \<open>bleaf\<close> stays where it is.\<close>

lemma bleaf_leaf:
  assumes r: "repr s B P R" and t: "wf_tree B 0 (s_lfblk R)" and P: "card P < ZMXBLK"
    and p: "nkeys_of (B ! nat (s_lfblk R)) = 0 \<or> 0 \<le> s_lfpos R \<and> s_lfpos R \<le> nkeys_of (B ! nat (s_lfblk R))"
  shows "runs (bleaf d s) (\<lambda>(i, s'). repr s' B P R)"
proof -
  let ?c = "s_lfblk R" and ?m = "B ! nat (s_lfblk R)"
  have lf: "lf s' = lf R" if "repr s' B P R" for s' using repr_fields(6) [OF that] .
  have v: "valid_blk B ?c" "room P ?c" using t P by (simp_all add: room_def)
  have m: "wf_keys ?m" using t by simp
  have nk: "mem_info ?m ZNKEYS = Some (nkeys_of ?m)" "ZNKEYS < int ZINFSZ"
    using mem_info_word [OF wf_keys_D(1) [OF m], of ZNKEYS] by (simp_all add: ZNKEYS_def ZINFSZ_def)
  have loop: "bleaf_loop d i s' = Some (i, s')"
    if "repr s' B P R" "at_slot s' i ?c" "nkeys_of ?m \<noteq> 0" for i s'
  proof -
    have q: "0 \<le> s_lfpos R" "s_lfpos R \<le> nkeys_of ?m" using p that(3) by auto
    have "nat (s_lfpos R) < length (links ?m)" using wf_keys_D(3) [OF m] q by simp
    then have "links ?m ! nat (s_lfpos R) = ZNULL" using t that(3) nth_mem by fastforce
    moreover have "arr_get (lnkblk ?m) (s_lfpos R) = Some (links ?m ! nat (s_lfpos R))"
      using q wf_keys_D(6,8) [OF m] by (simp add: links_def)
    ultimately show ?thesis
      using get_mem_slot [OF that(1,2)] lf [OF that(1)] by (subst bleaf_loop.simps) simp
  qed
  have body: "runs (do { (n, s) \<leftarrow> bgtinf ?c ZNKEYS s'; if n = 0 then Some (i, s) else bleaf_loop d i s })
      (\<lambda>(i, s'). repr s' B P R)" if s': "repr s' B P R" "at_slot s' i ?c" for i s'
  proof (rule runs_bindI [OF bgtinf_hit [OF s' nk(2,1)]], clarify)
    fix s2 assume s2: "repr s2 B P R" "same_cached s' s2"
    show "runs (if nkeys_of ?m = 0 then Some (i, s2) else bleaf_loop d i s2) (\<lambda>(i, s'). repr s' B P R)"
      using loop [OF s2(1) same_cached_at [OF s2(2) s'(2)]] s2(1) by simp
  qed
  show ?thesis
    unfolding bleaf_def lf [OF r]
    using body by (auto intro!: brdblk_bind [OF r v] simp: lf)
qed

section \<open>Insertion\<close>

abbreviation new_entry :: "string \<Rightarrow> int \<Rightarrow> keyent" where
  "new_entry k v \<equiv> \<lparr>ke_key = k, ke_val = v, ke_dup = ZNULL\<rparr>"

lemma put_links_null:
  assumes "length ls \<noteq> 1 \<Longrightarrow> \<forall>l \<in> set ls. l = ZNULL" and "p < length ls"
  shows "\<forall>l \<in> set (put_links p ZNULL ZNULL ls). l = ZNULL"
  using assms unfolding put_links_def
  by (cases "length ls = 1") (auto dest: in_set_takeD in_set_dropD)

text \<open>What an insertion leaves: the tree with the entry at its place, everything else as it was.\<close>

definition inserted ::
  "memrec list \<Rightarrow> nat \<Rightarrow> int \<Rightarrow> keyent \<Rightarrow> memrec list \<Rightarrow> bool" where
  "inserted B h b e B' \<longleftrightarrow>
     search_tree B' h b \<and> length B' = length B \<and> tree_blocks B' h b = tree_blocks B h b \<and>
     tree_entries B' h b =
       insert_at (lower (ke_key e) (tree_entries B h b)) e (tree_entries B h b) \<and>
     (\<forall>c. 0 \<le> c \<and> c \<notin> set (tree_blocks B h b) \<longrightarrow> B' ! nat c = B ! nat c)"

lemma put_inserted:
  assumes t: "search_tree B h b" and k: "ke_key e \<notin> ke_key ` set (tree_entries B h b)"
    and c: "c = List.last (path B h b (ke_key e))"
    and m: "put_ok e ZNULL ZNULL (B ! nat c) m" "nkeys_of (B ! nat c) < ZMXKEY"
  shows "inserted B h b e (B[nat c := m])"
proof -
  note T = t [unfolded search_tree_def]
  have nk: "\<not> has_key B (ke_key e) c"
    using path_finds [of B h b "ke_key e"] T k c by simp
  have leaf: "wf_tree B 0 c" using path_end_leaf T nk c by blast
  have cin: "c \<in> set (tree_blocks B h b)" using path_end_in T c by blast
  have wk: "wf_keys m"
    using put_ok_keys [OF _ m] leaf nk by (simp add: has_key_def)
  have ents: "entries m = insert_at (lower (ke_key e) (entries (B ! nat c))) e (entries (B ! nat c))"
    using m(1) by (simp add: put_ok_def)
  note lk = wf_keys_D [of "B ! nat c"]
  have "\<forall>l \<in> set (put_links (lower (ke_key e) (entries (B ! nat c))) ZNULL ZNULL (links (B ! nat c))). l = ZNULL"
    by (rule put_links_null)
      (use leaf lk(2,3) lower_le [of "ke_key e" "entries (B ! nat c)"] in auto)
  then have lnk: "\<forall>l \<in> set (links m). l = ZNULL"
    using m(1) by (simp add: put_ok_def)
  have ti: "wf_tree (B[nat c := m]) h b" "tree_blocks (B[nat c := m]) h b = tree_blocks B h b"
    "tree_entries (B[nat c := m]) h b =
       insert_at (lower (ke_key e) (tree_entries B h b)) e (tree_entries B h b)"
    using tree_insert [of B h b "ke_key e" c m e] T k c wk ents lnk by blast+
  have "sorted_keys (tree_entries (B[nat c := m]) h b)"
    unfolding ti(3) using sorted_keys_insert [of "tree_entries B h b" e] T k by blast
  moreover have "B[nat c := m] ! nat d = B ! nat d" if "0 \<le> d" "d \<notin> set (tree_blocks B h b)" for d
  proof -
    have "0 \<le> c" using cin tree_blocks_valid [of B h b c] T by (simp add: valid_blk_def)
    moreover have "d \<noteq> c" using that(2) cin by blast
    ultimately show ?thesis using that(1) by (simp add: eq_nat_nat_iff)
  qed
  ultimately show ?thesis using ti T by (simp add: inserted_def search_tree_def)
qed

text \<open>A lookup afterwards finds the new entry, and every other key as before.\<close>

lemma lookup_insert:
  assumes s: "sorted_keys es" "sorted_keys es'" and set: "set es' = insert e (set es)"
  shows "lookup es' k = (if k = ke_key e then Some (ke_val e) else lookup es k)"
proof (cases "k = ke_key e")
  case True
  then show ?thesis using lookup_Some [OF s(2), of e] set by simp
next
  case False
  show ?thesis
  proof (cases "k \<in> ke_key ` set es")
    case True
    then obtain x where "x \<in> set es" "ke_key x = k" by auto
    then show ?thesis using lookup_Some [OF s(1), of x] lookup_Some [OF s(2), of x] set False by auto
  next
    case nk: False
    then have "k \<notin> ke_key ` set es'" using set False by auto
    then show ?thesis using nk False by (metis lookup_None)
  qed
qed

lemma inserted_lookup:
  assumes i: "inserted B h b e B'" and t: "search_tree B h b"
  shows "lookup (tree_entries B' h b) k =
    (if k = ke_key e then Some (ke_val e) else lookup (tree_entries B h b) k)"
  by (rule lookup_insert) (use i t in \<open>auto simp: inserted_def search_tree_def set_insert_at\<close>)

text \<open>What \<open>binsky\<close> asks of an index: open for update, not shared, \<open>b\<close> its current root.\<close>

definition update_ready :: "st \<Rightarrow> int \<Rightarrow> bool" where
  "update_ready R b \<longleftrightarrow> \<not> shared R \<and> smode (super R) = 0 \<and> s_scroot R = b \<and> stk_array R"

lemma same_rest_ready: "same_rest R R' \<Longrightarrow> wf_stk (stk R') \<Longrightarrow> update_ready R b \<Longrightarrow> update_ready R' b"
  by (simp add: update_ready_def same_rest_fields wf_stk_def)

lemma bterr_ready [simp]: "update_ready (bterr n c a R) b = update_ready R b"
  by (simp add: update_ready_def)

lemma find_start_ready: "update_ready R b \<Longrightarrow> update_ready (find_start k R) b"
  using find_start_fields by (simp add: update_ready_def wf_stk_def)

lemma search_post_D:
  assumes "search_post B h b k R res R'"
  shows "same_rest R R'" "wf_stk (stk R')" "s_lfblk R' = List.last (path B h b k)"
    "s_lfpos R' = end_pos B k (List.last (path B h b k))"
    "fst res = 0 \<longleftrightarrow> has_key B k (List.last (path B h b k))"
    "has_key B k (List.last (path B h b k)) \<Longrightarrow> snd res =
       Some (ke_val (entries (B ! nat (List.last (path B h b k))) ! place B k (List.last (path B h b k))))"
  using assms by (auto simp: search_post_def Let_def QNOKEY_def split: if_splits)

lemma find_status:
  assumes t: "search_tree B h b" and p: "search_post B h b k (find_start k R) res R'"
  shows "fst res = 0 \<longleftrightarrow> lookup (tree_entries B h b) k \<noteq> None"
    "lookup (tree_entries B h b) k = Some v \<Longrightarrow> snd res = Some v"
  using search_post_D(5,6) [OF p] lookup_path [of B h b k] t
  by (auto simp: search_tree_def split: if_splits)

lemma find_status_pair:
  assumes "search_tree B h b" "search_post B h b k (find_start k R) (x, y) R'"
  shows "(x = 0) = (lookup (tree_entries B h b) k \<noteq> None)"
    "lookup (tree_entries B h b) k = Some v \<Longrightarrow> y = Some v"
  using find_status [OF assms] by simp_all

end
