(* ===== verification/Descend.thy ===== *)
theory Descend
  imports Grow Insert
begin

text \<open>
  The search of an index that is open for update, in full: \<open>bfndky\<close> splits every full block on its
  way and goes back to the parent after a split. The search ends; the tree stands for the same entries
  afterwards, other trees and blocks in use are untouched, and the free list is in order. Only a file
  that has reached its largest size can make it fail, with \<open>QF2BIG\<close>.
\<close>

section \<open>An index open for update\<close>

definition typed_tree :: "memrec list \<Rightarrow> nat \<Rightarrow> int \<Rightarrow> bool" where
  "typed_tree B h b \<longleftrightarrow> btype_of (B ! nat b) = ZROOT \<and>
     (\<forall>c \<in> set (tree_blocks B h b) - {b}. btype_of (B ! nat c) = ZINUSE \<and> 0 < nkeys_of (B ! nat c))"

text \<open>The tree of root \<open>b\<close> in a store whose free list is \<open>bs\<close>; some block in use is not in the tree
  (the super root is not, or, for the tree of the super root, every other root is not).\<close>

definition open_tree :: "memrec list \<Rightarrow> st \<Rightarrow> nat \<Rightarrow> int \<Rightarrow> int list \<Rightarrow> bool" where
  "open_tree B R h b bs \<longleftrightarrow>
     search_tree B h b \<and> typed_tree B h b \<and> no_dups (tree_entries B h b) \<and> free_list B R bs \<and>
     length B < MXBLKS \<and> (\<exists>c. in_use B c \<and> c \<notin> set (tree_blocks B h b))"

lemma types_differ: "ZROOT \<noteq> ZFREE" "ZINUSE \<noteq> ZFREE" "ZINUSE \<noteq> ZROOT"
  by (simp_all add: ZROOT_def ZFREE_def ZINUSE_def)

lemma open_tree_D:
  assumes "open_tree B R h b bs"
  shows "wf_tree B h b" "sorted_keys (tree_entries B h b)" "distinct (tree_blocks B h b)"
    "no_dups (tree_entries B h b)" "free_list B R bs" "length B < MXBLKS"
    "c \<in> set (tree_blocks B h b) \<Longrightarrow> in_use B c" "2 * (h + 1) \<le> nat STKMAX"
    "c \<in> set (tree_blocks B h b) \<Longrightarrow> c \<noteq> b \<Longrightarrow> btype_of (B ! nat c) = ZINUSE"
    "btype_of (B ! nat b) = ZROOT"
    "c \<in> set (tree_blocks B h b) \<Longrightarrow> c \<noteq> b \<Longrightarrow> 0 < nkeys_of (B ! nat c)"
proof -
  show t: "wf_tree B h b" "sorted_keys (tree_entries B h b)" "distinct (tree_blocks B h b)"
    "no_dups (tree_entries B h b)" "free_list B R bs" "length B < MXBLKS"
    using assms by (auto simp: open_tree_def search_tree_def)
  show ty: "btype_of (B ! nat b) = ZROOT"
    "c \<in> set (tree_blocks B h b) \<Longrightarrow> c \<noteq> b \<Longrightarrow> btype_of (B ! nat c) = ZINUSE"
    "c \<in> set (tree_blocks B h b) \<Longrightarrow> c \<noteq> b \<Longrightarrow> 0 < nkeys_of (B ! nat c)" for c
    using assms by (auto simp: open_tree_def typed_tree_def)
  show "in_use B c" if "c \<in> set (tree_blocks B h b)" for c
    using tree_blocks_valid [OF t(1) that] ty(1) ty(2) [OF that] types_differ by (cases "c = b") auto
  show "2 * (h + 1) \<le> nat STKMAX"
    using assms tree_height [OF t(1,3,6)] by (auto simp: open_tree_def)
qed

section \<open>What splits do to it\<close>

text \<open>Blocks in use that are not of the tree are left alone, and do not become part of it.\<close>

definition others_kept :: "memrec list \<Rightarrow> nat \<Rightarrow> int \<Rightarrow> memrec list \<Rightarrow> nat \<Rightarrow> bool" where
  "others_kept B h b B' h' \<longleftrightarrow> (\<forall>c. in_use B c \<and> c \<notin> set (tree_blocks B h b) \<longrightarrow>
     B' ! nat c = B ! nat c \<and> in_use B' c \<and> c \<notin> set (tree_blocks B' h' b))"

lemma others_kept_trans:
  "others_kept B h b B1 h1 \<Longrightarrow> others_kept B1 h1 b B2 h2 \<Longrightarrow> others_kept B h b B2 h2"
  by (simp add: others_kept_def)

text \<open>How full the blocks below the root are at least. A split leaves ten keys in either half.\<close>

definition stocked :: "nat \<Rightarrow> memrec list \<Rightarrow> nat \<Rightarrow> int \<Rightarrow> bool" where
  "stocked f B h b \<longleftrightarrow> (\<forall>c \<in> set (tree_blocks B h b) - {b}. int f \<le> nkeys_of (B ! nat c))"

text \<open>The tree has been reorganised: it stands for the same entries, with the same words in its root.\<close>

definition resplit ::
  "memrec list \<Rightarrow> st \<Rightarrow> nat \<Rightarrow> int \<Rightarrow> memrec list \<Rightarrow> st \<Rightarrow> nat \<Rightarrow> int list \<Rightarrow> bool" where
  "resplit B R h b B' R' h' bs' \<longleftrightarrow>
     open_tree B' R' h' b bs' \<and> tree_entries B' h' b = tree_entries B h b \<and>
     others_kept B h b B' h' \<and>
     (\<forall>t. 0 \<le> t \<and> t \<noteq> ZNKEYS \<longrightarrow> word_of (B' ! nat b) t = word_of (B ! nat b) t) \<and> same_rest R R' \<and>
     (\<forall>f \<le> 10. stocked f B h b \<longrightarrow> stocked f B' h' b)"

lemma resplit_refl: "open_tree B R h b bs \<Longrightarrow> same_rest R R' \<Longrightarrow> super R' = super R \<Longrightarrow> resplit B R h b B R' h bs"
  by (simp add: resplit_def open_tree_def free_list_def others_kept_def)

lemma resplit_trans:
  "resplit B R h b B1 R1 h1 bs1 \<Longrightarrow> resplit B1 R1 h1 b B2 R2 h2 bs2 \<Longrightarrow> resplit B R h b B2 R2 h2 bs2"
  unfolding resplit_def using same_rest_trans others_kept_trans by auto

lemma free_list_cong:
  "free_list B R bs \<Longrightarrow> length B' = length B \<Longrightarrow> \<forall>f \<in> set bs. B' ! nat f = B ! nat f \<Longrightarrow>
   super R' = super R \<Longrightarrow> free_list B' R' bs"
  using free_chain_cong [of B "sfreep (super R)" bs B'] by (simp add: free_list_def)

lemma resplit_intro:
  assumes o: "open_tree B R h b bs"
    and k: "\<forall>c. in_use B c \<longrightarrow> c \<notin> set xs" "distinct xs" "\<forall>x \<in> set xs. btype_of (B' ! nat x) = ZINUSE \<and> 10 \<le> nkeys_of (B' ! nat x)"
    and f: "free_list B1 R1 bs1" "length B1 < MXBLKS" "length B \<le> length B1" "length B' = length B1"
      "\<forall>f \<in> set bs1. B' ! nat f = B1 ! nat f"
    and g: "regrown B B' xs h h' b"
    and same: "\<forall>d. in_use B d \<and> d \<notin> set (tree_blocks B h b) \<longrightarrow> B' ! nat d = B ! nat d"
      "\<forall>d \<in> set (tree_blocks B h b). btype_of (B' ! nat d) = btype_of (B ! nat d) \<and>
         (0 < nkeys_of (B ! nat d) \<longrightarrow> 0 < nkeys_of (B' ! nat d))"
      "\<forall>d \<in> set (tree_blocks B h b) - {b}. min 10 (nkeys_of (B ! nat d)) \<le> nkeys_of (B' ! nat d)"
      "\<forall>t. 0 \<le> t \<and> t \<noteq> ZNKEYS \<longrightarrow> word_of (B' ! nat b) t = word_of (B ! nat b) t"
    and R: "same_rest R R'" "super R' = super R1"
  shows "resplit B R h b B' R' h' bs1"
proof -
  note D = open_tree_D [OF o]
  have dis: "set xs \<inter> set (tree_blocks B h b) = {}" using D(7) k(1) by blast
  note bl = regrown_blocks [OF g]
  have "wf_tree B' h' b" "tree_entries B' h' b = tree_entries B h b" using g by (simp_all add: regrown_def)
  moreover have "distinct (tree_blocks B' h' b)" using regrown_distinct [OF g D(3) k(2) dis] .
  moreover have "btype_of (B' ! nat c) = ZINUSE \<and> 0 < nkeys_of (B' ! nat c)"
    if "c \<in> set (tree_blocks B' h' b)" "c \<noteq> b" for c
    using that D(9,11) [of c] same(2) k(3) unfolding bl by force
  then have "typed_tree B' h' b"
    using D(10) same(2) root_in_blocks [of b B h] by (simp add: typed_tree_def)
  moreover have "free_list B' R' bs1" by (rule free_list_cong [OF f(1,4,5) R(2)])
  moreover have out: "B' ! nat c = B ! nat c \<and> in_use B' c \<and> c \<notin> set (tree_blocks B' h' b)"
    if c: "in_use B c" "c \<notin> set (tree_blocks B h b)" for c
  proof -
    have "B' ! nat c = B ! nat c" using same(1) c by blast
    moreover have "c \<notin> set (tree_blocks B' h' b)" using c k(1) unfolding bl by blast
    ultimately show ?thesis using c f(3,4) by (auto simp: valid_blk_def)
  qed
  moreover have "\<exists>c. in_use B' c \<and> c \<notin> set (tree_blocks B' h' b)"
    using o out by (auto simp: open_tree_def)
  moreover have "\<forall>f \<le> 10. stocked f B h b \<longrightarrow> stocked f B' h' b"
  proof (intro allI impI)
    fix f :: nat assume f: "f \<le> 10" "stocked f B h b"
    have "int f \<le> nkeys_of (B' ! nat c)" if "c \<in> set (tree_blocks B' h' b)" "c \<noteq> b" for c
    proof (cases "c \<in> set xs")
      case True
      then show ?thesis using k(3) f(1) by fastforce
    next
      case False
      then have c: "c \<in> set (tree_blocks B h b) - {b}" using that unfolding bl by blast
      then have "int f \<le> nkeys_of (B ! nat c)" using f(2) by (simp add: stocked_def)
      moreover have "min 10 (nkeys_of (B ! nat c)) \<le> nkeys_of (B' ! nat c)" using same(3) c by blast
      ultimately show ?thesis using f(1) by linarith
    qed
    then show "stocked f B' h' b" by (simp add: stocked_def)
  qed
  moreover have "others_kept B h b B' h'" unfolding others_kept_def using out by blast
  ultimately show ?thesis
    using D(2,4) f(2,4) same(4) R(1) by (simp add: resplit_def open_tree_def search_tree_def)
qed

text \<open>What a split leaves when no block can be had: the file is at its largest, nothing is changed but
  that the block may stay pinned.\<close>

definition no_space ::
  "memrec list \<Rightarrow> st \<Rightarrow> nat \<Rightarrow> int \<Rightarrow> st \<Rightarrow> bool" where
  "no_space B R h b s' \<longleftrightarrow> (\<exists>s1 B' P' R' h'. repr s1 B' P' R' \<and> card P' < ZMXBLK \<and> s' = bterr ''BGTFRE'' QF2BIG None s1 \<and>
     resplit B R h b B' R' h' [] \<and> MXBLKS \<le> length B' + 1)"

lemma path_child:
  assumes o: "open_tree B R h b bs" and n: "Suc n < length (path B h b k)"
  defines "c \<equiv> path B h b k ! Suc n" and "p \<equiv> path B h b k ! n"
  shows "c \<in> set (links (B ! nat p))" "c \<in> set (tree_blocks B h b)" "p \<in> set (tree_blocks B h b)"
    "c \<noteq> b" "p \<noteq> c" "\<exists>g. h - n = Suc g \<and> wf_tree B (Suc g) p \<and> sorted_keys (tree_entries B (Suc g) p) \<and>
      distinct (tree_blocks B (Suc g) p)"
    "set (tree_blocks B (h - n) p) \<subseteq> set (tree_blocks B h b)" "\<not> has_key B k p"
proof -
  note D = open_tree_D [OF o]
  have n': "n < length (path B h b k)" using n by simp
  note N = path_node [OF D(1-3) n' p_def [THEN meta_eq_to_obj_eq]]
  have nh: "n < h" "\<not> has_key B k p" using N(4) n by simp_all
  show "\<not> has_key B k p" by (rule nh)
  obtain g where g: "h - n = Suc g" using nh(1) by (cases "h - n") auto
  note N' = N(1-3) [unfolded g]
  show "\<exists>g. h - n = Suc g \<and> wf_tree B (Suc g) p \<and> sorted_keys (tree_entries B (Suc g) p) \<and>
      distinct (tree_blocks B (Suc g) p)" using g N' by blast
  have c: "c = child B k p" using N(5) [OF n] by (simp add: c_def)
  show cl: "c \<in> set (links (B ! nat p))" using nth_mem [OF place_le [OF N'(1)]] c by simp
  show sub: "set (tree_blocks B (h - n) p) \<subseteq> set (tree_blocks B h b)"
    using path_blocks [OF D(1) n'] by (simp add: p_def)
  have cc: "c \<in> set (tree_blocks B g c)" by (rule root_in_blocks)
  then show ct: "c \<in> set (tree_blocks B h b)" using sub child_blocks [OF cl, of g] unfolding g by blast
  show "p \<in> set (tree_blocks B h b)" using sub root_in_blocks by blast
  show "p \<noteq> c" using N'(3) cl cc by auto
  show "c \<noteq> b"
  proof
    assume cb: "c = b"
    obtain bs' where bs': "path B h b k = b # bs'" by (cases h) auto
    have "n = 0 \<or> 0 < n" by auto
    then show False
    proof
      assume "n = 0"
      then show False using \<open>p \<noteq> c\<close> cb bs' by (simp add: p_def)
    next
      assume n0: "0 < n"
      obtain h' where h': "h = Suc h'" using nh by (cases h) auto
      have nb: "\<not> has_key B k b" using n0 n' h' by (auto split: if_splits)
      have chl: "child B k b \<in> set (links (B ! nat b))"
        using nth_mem [OF place_le [OF D(1)]] .
      have p1: "path B h b k ! n = path B h' (child B k b) k ! (n - 1)" "n - 1 < length (path B h' (child B k b) k)"
        using nb h' n0 n' by (auto simp: nth_Cons')
      have wfc: "wf_tree B h' (child B k b)" using child_wf D(1) h' by blast
      have "set (tree_blocks B (h' - (n - 1)) p) \<subseteq> set (tree_blocks B h' (child B k b))"
        using path_blocks [OF wfc p1(2)] p1(1) by (simp add: p_def)
      moreover have "h' - (n - 1) = Suc g" using g h' n0 by simp
      moreover have "c \<in> set (tree_blocks B (Suc g) p)" using child_blocks [OF cl, of g] cc by blast
      ultimately have "b \<in> set (tree_blocks B h' (child B k b))" using cb by auto
      then show False using D(3) chl h' by auto
    qed
  qed
qed

lemma split_inner:
  assumes r: "repr s B P R" and P: "P \<subseteq> {b}" and o: "open_tree B R h b bs"
    and n: "Suc n < length (path B h b k)" and p: "path B h b k ! n = s_lfblk R"
    and full: "nkeys_of (B ! nat (path B h b k ! Suc n)) = ZMXKEY" "nkeys_of (B ! nat (s_lfblk R)) < ZMXKEY"
  shows "runs (bsptbk (path B h b k ! Suc n) s) (\<lambda>((e, x), s').
    x < 0 \<and> no_space B R h b s' \<or>
    0 \<le> x \<and> (\<exists>B' R' bs'. repr s' B' P R' \<and> resplit B R h b B' R' h bs' \<and> stock B' bs' < stock B bs \<and>
      lf R' = lf R \<and> stk R' = stk R \<and> n < length (path B' h b k) \<and>
      (\<forall>i < n. path B' h b k ! i = path B h b k ! i \<and> B' ! nat (path B h b k ! i) = B ! nat (path B h b k ! i)) \<and>
      path B' h b k ! n = path B h b k ! n))"
proof -
  define c where "c = path B h b k ! Suc n"
  define pb where "pb = s_lfblk R"
  note D = open_tree_D [OF o]
  note C = path_child [OF o n, folded c_def, unfolded p, folded pb_def]
  note full = full [folded c_def pb_def]
  from C(6) obtain g where g: "h - n = Suc g" "wf_tree B (Suc g) pb" "sorted_keys (tree_entries B (Suc g) pb)"
    "distinct (tree_blocks B (Suc g) pb)" by blast
  have use: "in_use B c" "in_use B pb" using D(7) C by blast+
  have wk: "wf_keys (B ! nat c)" "wf_keys (B ! nat pb)"
    using g(2) C(1) wf_tree_D [of B g c] by auto
  have P': "card P + 1 < ZMXBLK" "finite P" "\<forall>c \<in> P. in_use B c" "c \<notin> P"
  proof -
    have "card P \<le> 1" using card_mono [OF _ P] by simp
    then show "card P + 1 < ZMXBLK" by (simp add: ZMXBLK_def)
    show "finite P" using P finite_subset by blast
    show "\<forall>c \<in> P. in_use B c" using P D(7) [OF root_in_blocks] by blast
    show "c \<notin> P" using P C(4) by blast
  qed
  have ct: "btype_of (B ! nat c) = ZINUSE" using D(9) C(2,4) by blast
  have cr: "btype_of (B ! nat c) \<noteq> ZROOT" using ct types_differ by simp
  show ?thesis
    unfolding c_def [symmetric]
  proof (rule runs_conseq [OF bsptbk_inner [OF r D(5,6) P'(1-3) use(1) P'(4) cr wk(1) full(1) pb_def use(2) C(5) wk(2)
          full(2)]], simp only: split_paired_all prod.case, goal_cases)
    case (1 e x s')
    show ?case
    proof (cases "bs = [] \<and> MXBLKS \<le> length B + 1")
      case True
      moreover have "card (insert c P) < ZMXBLK" using P' by simp
      ultimately show ?thesis
        using 1 resplit_refl [OF o same_rest_refl refl] unfolding no_space_def by (simp add: ZNULL_def) blast
    next
      case False
      then obtain B1 R1 bs1 mx mp where a: "0 \<le> x" "allocated B R bs x B1 R1 bs1"
        "half 12 10 (B ! nat c) mx" "btype_of mx = ZINUSE"
        "put_ok (entries (B ! nat c) ! 11) c x (B ! nat pb) mp"
        "repr s' (B1[nat x := mx, nat c := set_word ZNKEYS 11 (B ! nat c), nat pb := mp]) P
          (R1\<lparr>srh_keyent := entries (B ! nat c) ! 11\<rparr>)"
        using 1 by auto
      let ?B = "B1[nat x := mx, nat c := set_word ZNKEYS 11 (B ! nat c), nat pb := mp]"
      note A = allocated_D [OF a(2)] and O = allocated_other [OF a(2) D(5)]
      have ne: "x \<noteq> d \<and> B1 ! nat d = B ! nat d \<and> 0 \<le> d \<and> nat d < length B1" if "in_use B d" for d
        using O [OF that] that A(2) by (auto simp: valid_blk_def)
      have nn: "nat x \<noteq> nat c" "nat x \<noteq> nat pb" "nat c \<noteq> nat pb" "nat x < length B1"
        using ne [OF use(1)] ne [OF use(2)] a(1) C(5) A(1) by (auto simp: valid_blk_def eq_nat_nat_iff)
      have new: "?B ! nat x = mx" "?B ! nat c = set_word ZNKEYS 11 (B ! nat c)" "?B ! nat pb = mp"
        using nn ne [OF use(1)] ne [OF use(2)] by auto
      have old: "?B ! nat d = B1 ! nat d" if "0 \<le> d" "d \<noteq> x" "d \<noteq> c" "d \<noteq> pb" for d
        using that a(1) ne [OF use(1)] ne [OF use(2)] by (auto simp: eq_nat_nat_iff)
      have same: "?B ! nat d = B ! nat d" if "in_use B d" "d \<noteq> c" "d \<noteq> pb" for d
        using old [of d] ne [OF that(1)] that(2,3) by simp
      have vx: "valid_blk ?B x" using A(1) by (simp add: valid_blk_def)
      have sub: "d \<in> set (tree_blocks B (Suc g) pb) \<Longrightarrow> in_use B d" for d
        using C(7) D(7) unfolding g(1) by blast
      have xt: "x \<notin> set (tree_blocks B h b)" using ne D(7) by blast
      have h11: "half 0 11 (B ! nat c) (set_word ZNKEYS 11 (B ! nat c))"
        using half_shrunk [OF wk(1), of 11] full(1) by (simp add: ZMXKEY_val)
      have rg: "regrown B ?B [x] (h - n) (h - n) pb"
        unfolding g(1)
        by (rule regrown_split [OF g(2-4) C(1) full vx])
          (use new same sub xt C(7) g(1) h11 a(3,5) A(2) in auto)
      have gp: "regrown B ?B [x] h h b \<and> n < length (path ?B h b k) \<and>
        (\<forall>i < n. path ?B h b k ! i = path B h b k ! i \<and> ?B ! nat (path B h b k ! i) = B ! nat (path B h b k ! i)) \<and>
        path ?B h b k ! n = path B h b k ! n"
      proof (rule regrown_path [OF D(1,3)])
        show "n < length (path B h b k)" using n by simp
        show "regrown B ?B [x] (h - n) (h - n) (path B h b k ! n)" using rg p by (simp add: pb_def)
        show "\<forall>d \<in> set (tree_blocks B h b) - set (tree_blocks B (h - n) (path B h b k ! n)). ?B ! nat d = B ! nat d"
        proof
          fix d assume d: "d \<in> set (tree_blocks B h b) - set (tree_blocks B (h - n) (path B h b k ! n))"
          have "c \<in> set (tree_blocks B (Suc g) pb)" "pb \<in> set (tree_blocks B (Suc g) pb)"
            using child_blocks [OF C(1), of g] root_in_blocks [of c B g] root_in_blocks [of pb B "Suc g"] by blast+
          then have "d \<noteq> c" "d \<noteq> pb" using d unfolding p pb_def [symmetric] g(1) by blast+
          then show "?B ! nat d = B ! nat d" using same D(7) d by blast
        qed
        show "length B \<le> length ?B" using A(2) by simp
      qed
      have ty: "btype_of mp = btype_of (B ! nat pb)"
        using a(5) unfolding put_ok_def btype_of_def by (simp add: ZNKEYS_def)
      have rs: "resplit B R h b ?B (R1\<lparr>srh_keyent := entries (B ! nat c) ! 11\<rparr>) h bs1"
      proof (rule resplit_intro [OF o, where xs = "[x]" and ?B1.0 = B1 and ?R1.0 = R1])
        show "\<forall>c. in_use B c \<longrightarrow> c \<notin> set [x]" using ne by auto
        show "\<forall>y \<in> set [x]. btype_of (?B ! nat y) = ZINUSE \<and> 10 \<le> nkeys_of (?B ! nat y)"
          using new(1) a(3,4) by (simp add: half_def)
        show "\<forall>f \<in> set bs1. ?B ! nat f = B1 ! nat f"
        proof
          fix f assume f: "f \<in> set bs1"
          then have "btype_of (B1 ! nat f) = ZFREE" "0 \<le> f"
            using free_chain_valid [of B1 "sfreep (super R1)" bs1 f] A(4) by (auto simp: free_list_def valid_blk_def)
          moreover have "f \<noteq> x" using a(2) f by (auto simp: allocated_def)
          moreover have "f \<noteq> c" "f \<noteq> pb"
            using calculation(1) ne [OF use(1)] ne [OF use(2)] use by auto
          ultimately show "?B ! nat f = B1 ! nat f" using old by blast
        qed
        show "\<forall>d. in_use B d \<and> d \<notin> set (tree_blocks B h b) \<longrightarrow> ?B ! nat d = B ! nat d"
          using same C(2,3) by blast
        show "\<forall>d \<in> set (tree_blocks B h b). btype_of (?B ! nat d) = btype_of (B ! nat d) \<and>
          (0 < nkeys_of (B ! nat d) \<longrightarrow> 0 < nkeys_of (?B ! nat d))"
        proof
          fix d assume d: "d \<in> set (tree_blocks B h b)"
          have "nkeys_of (set_word ZNKEYS 11 (B ! nat c)) = 11" "nkeys_of mp = nkeys_of (B ! nat pb) + 1"
            using h11 a(5) by (simp_all add: half_def put_ok_def)
          then show "btype_of (?B ! nat d) = btype_of (B ! nat d) \<and> (0 < nkeys_of (B ! nat d) \<longrightarrow> 0 < nkeys_of (?B ! nat d))"
            using same [OF D(7) [OF d]] new ty btype_shrunk by (cases "d = c"; cases "d = pb") auto
        qed
        show "\<forall>d \<in> set (tree_blocks B h b) - {b}. min 10 (nkeys_of (B ! nat d)) \<le> nkeys_of (?B ! nat d)"
        proof
          fix d assume d: "d \<in> set (tree_blocks B h b) - {b}"
          have "nkeys_of (set_word ZNKEYS 11 (B ! nat c)) = 11" "nkeys_of mp = nkeys_of (B ! nat pb) + 1"
            using h11 a(5) by (simp_all add: half_def put_ok_def)
          then show "min 10 (nkeys_of (B ! nat d)) \<le> nkeys_of (?B ! nat d)"
            using same [of d] D(7) d new by (cases "d = c"; cases "d = pb") auto
        qed
        show "\<forall>t. 0 \<le> t \<and> t \<noteq> ZNKEYS \<longrightarrow> word_of (?B ! nat b) t = word_of (B ! nat b) t"
          using same [OF D(7) [OF root_in_blocks]] new(3) a(5) C(4) by (cases "b = pb") (auto simp: put_ok_def)
      qed (use gp A in auto)
      have "stock ?B bs1 = stock B1 bs1" by (simp add: stock_def)
      then have "stock ?B bs1 < stock B bs" using a(2) by (simp add: allocated_def)
      moreover have "lf (R1\<lparr>srh_keyent := entries (B ! nat c) ! 11\<rparr>) = lf R"
        "stk (R1\<lparr>srh_keyent := entries (B ! nat c) ! 11\<rparr>) = stk R" using A(6,7) by simp_all
      ultimately show ?thesis using a(1,6) rs gp by blast
    qed
  qed
qed

lemma store_kept_resplit:
  assumes o: "open_tree B R h b bs" and k: "store_kept B R bs B1 R1 bs1"
  shows "resplit B R h b B1 R1 h bs1"
proof -
  note D = open_tree_D [OF o]
  have K: "length B \<le> length B1" "length B1 < MXBLKS" "\<And>c. in_use B c \<Longrightarrow> B1 ! nat c = B ! nat c"
    "free_list B1 R1 bs1" "same_rest R R1"
    using k by (auto simp: store_kept_def)
  have "wf_tree B1 h b \<and> tree_entries B1 h b = tree_entries B h b \<and> tree_blocks B1 h b = tree_blocks B h b"
    using K D(7) by (intro tree_cong [OF D(1)]) auto
  then have "regrown B B1 [] h h b" by (simp add: regrown_def)
  then show ?thesis
    using K D(7) root_in_blocks [of b B h] by (intro resplit_intro [OF o]) auto
qed

lemma split_root:
  assumes r: "repr s B P R" and P: "P \<subseteq> {b}" and o: "open_tree B R h b bs"
    and full: "nkeys_of (B ! nat b) = ZMXKEY"
  shows "runs (bsptbk b s) (\<lambda>((e, x), s').
    x < 0 \<and> no_space B R h b s' \<or>
    0 \<le> x \<and> (\<exists>B' R' bs'. repr s' B' P R' \<and> resplit B R h b B' R' (Suc h) bs' \<and> stock B' bs' < stock B bs \<and>
      lf R' = lf R \<and> stk R' = stk R))"
proof -
  note D = open_tree_D [OF o]
  have use: "in_use B b" using D(7) [OF root_in_blocks] .
  have wk: "wf_keys (B ! nat b)" using wf_tree_D [OF D(1)] by blast
  have "card P \<le> 1" using card_mono [OF _ P] by simp
  then have P': "card P + 1 < ZMXBLK" "\<forall>c \<in> P. in_use B c" using P use by (auto simp: ZMXBLK_def)
  show ?thesis
  proof (rule runs_conseq [OF bsptbk_root [OF r D(5,6) P' use D(10) wk full]],
      simp only: split_paired_all prod.case, elim disjE conjE exE, goal_cases)
    case (1 e x s' s1 B1 R1 bs1)
    have "resplit B R h b B1 R1 h []" using store_kept_resplit [OF o 1(4)] 1(5) by simp
    moreover have "card P < ZMXBLK" using P'(1) by simp
    ultimately have "no_space B R h b s'" using 1(2,3,6) unfolding no_space_def by blast
    then show ?case using 1(1) by (simp add: ZNULL_def)
  next
    case (2 e x s' B1 R1 bs1 y B2 R2 bs2 m1 m2 m0)
    let ?e = "entries (B ! nat b) ! 11"
    let ?B = "B2[nat x := m1, nat y := m2, nat b := m0]" and ?R = "R2\<lparr>srh_keyent := ?e\<rparr>"
    note A1 = allocated_D [OF 2(2)] and A2 = allocated_D [OF 2(3)]
    note O1 = allocated_other [OF 2(2) D(5)] and O2 = allocated_other [OF 2(3) A1(4)]
    have ne: "x \<noteq> d \<and> y \<noteq> d \<and> B2 ! nat d = B ! nat d \<and> 0 \<le> d \<and> nat d < length B2" if d: "in_use B d" for d
      using O1 [OF d] O2 [OF O1(3) [OF d]] d A1(2) A2(2) by (auto simp: valid_blk_def)
    have xy: "x \<noteq> y" "nat x < length B2" "nat y < length B2" "0 \<le> x" "0 \<le> y"
    proof -
      show "0 \<le> x" "0 \<le> y" "nat y < length B2" using A1(1) A2(1) by (auto simp: valid_blk_def)
      have "nat x < length B1" using A1(1) by (auto simp: valid_blk_def)
      then show "nat x < length B2" using A2(2) by simp
      show "x \<noteq> y" using 2(2,3) A1(1) by (auto simp: allocated_def valid_blk_def)
    qed
    have nn: "nat x \<noteq> nat y" "nat x \<noteq> nat b" "nat y \<noteq> nat b"
      using xy ne [OF use] by (auto simp: eq_nat_nat_iff)
    have new: "?B ! nat x = m1" "?B ! nat y = m2" "?B ! nat b = m0" using nn xy ne [OF use] by auto
    have old: "?B ! nat d = B2 ! nat d" if "0 \<le> d" "d \<noteq> x" "d \<noteq> y" "d \<noteq> b" for d
      using that xy ne [OF use] by (auto simp: eq_nat_nat_iff)
    have same: "?B ! nat d = B ! nat d" if "in_use B d" "d \<noteq> b" for d
      using old [of d] ne [OF that(1)] that(2) by simp
    have v: "valid_blk ?B x" "valid_blk ?B y" using xy by (auto simp: valid_blk_def)
    have rg: "regrown B ?B [x, y] h (Suc h) b"
      by (rule regrown_root [OF D(1) full D(3) v(1) _ v(2)])
        (use 2 new same D(7) A1(2) A2(2) in auto)
    have ty: "btype_of m0 = btype_of (B ! nat b)"
      using 2(12) unfolding btype_of_def by (simp add: ZNKEYS_def)
    have "resplit B R h b ?B ?R (Suc h) bs2"
    proof (rule resplit_intro [OF o, where xs = "[x, y]" and ?B1.0 = B2 and ?R1.0 = R2])
      show "\<forall>c. in_use B c \<longrightarrow> c \<notin> set [x, y]" using ne by auto
      show "\<forall>z \<in> set [x, y]. btype_of (?B ! nat z) = ZINUSE \<and> 10 \<le> nkeys_of (?B ! nat z)"
        using new 2(4-7) by (simp add: half_def)
      show "\<forall>f \<in> set bs2. ?B ! nat f = B2 ! nat f"
      proof
        fix f assume f: "f \<in> set bs2"
        then have "btype_of (B2 ! nat f) = ZFREE" "0 \<le> f"
          using free_chain_valid [of B2 "sfreep (super R2)" bs2 f] A2(4) by (auto simp: free_list_def valid_blk_def)
        moreover have "f \<noteq> x" "f \<noteq> y" using 2(2,3) f by (auto simp: allocated_def)
        moreover have "f \<noteq> b" using calculation(1) ne [OF use] use by auto
        ultimately show "?B ! nat f = B2 ! nat f" using old by blast
      qed
      show "\<forall>d. in_use B d \<and> d \<notin> set (tree_blocks B h b) \<longrightarrow> ?B ! nat d = B ! nat d"
        using same root_in_blocks [of b B h] by blast
      show "\<forall>d \<in> set (tree_blocks B h b). btype_of (?B ! nat d) = btype_of (B ! nat d) \<and>
        (0 < nkeys_of (B ! nat d) \<longrightarrow> 0 < nkeys_of (?B ! nat d))"
      proof
        fix d assume d: "d \<in> set (tree_blocks B h b)"
        have "0 < nkeys_of m0" using 2(9) by simp
        then show "btype_of (?B ! nat d) = btype_of (B ! nat d) \<and> (0 < nkeys_of (B ! nat d) \<longrightarrow> 0 < nkeys_of (?B ! nat d))"
          using same [OF D(7) [OF d]] new ty by (cases "d = b") auto
      qed
      show "\<forall>d \<in> set (tree_blocks B h b) - {b}. min 10 (nkeys_of (B ! nat d)) \<le> nkeys_of (?B ! nat d)"
        using same D(7) by auto
      show "\<forall>t. 0 \<le> t \<and> t \<noteq> ZNKEYS \<longrightarrow> word_of (?B ! nat b) t = word_of (B ! nat b) t"
        using new(3) 2(12) by simp
      show "same_rest R ?R" using same_rest_trans [OF A1(5) A2(5)] by simp
    qed (use rg A1 A2 xy in auto)
    moreover have "stock ?B bs2 < stock B bs"
    proof -
      have "stock ?B bs2 = stock B2 bs2" by (simp add: stock_def)
      also have "\<dots> < stock B1 bs1" using 2(3) by (simp add: allocated_def)
      also have "\<dots> < stock B bs" using 2(2) by (simp add: allocated_def)
      finally show ?thesis .
    qed
    moreover have "lf ?R = lf R" "stk ?R = stk R" using A1(6,7) A2(6,7) by simp_all
    ultimately show ?case using 2(1,13) by blast
  qed
qed

section \<open>The search with its splits\<close>

text \<open>The positions that the search has passed: the one it started from, then those of the blocks above
  the current one. All but the last are on the stack; the last is in \<open>lf\<close>.\<close>

definition passed :: "memrec list \<Rightarrow> string \<Rightarrow> int \<times> int \<Rightarrow> int list \<Rightarrow> (int \<times> int) list" where
  "passed B k from bs = from # map (\<lambda>b. (b, int (place B k b))) bs"

definition flat :: "(int \<times> int) list \<Rightarrow> int list" where
  "flat ps = concat (map (\<lambda>(b, p). [b, p]) ps)"

lemma flat_append [simp]: "flat (xs @ ys) = flat xs @ flat ys" "flat [(b, p)] = [b, p]" "flat [] = []"
  by (simp_all add: flat_def)

lemma length_flat: "length (flat ps) = 2 * length ps"
  by (induction ps) (auto simp: flat_def)

lemma trail_flat: "trail B k from bs = flat (passed B k from (butlast bs))"
  by (simp add: trail_def flat_def passed_def)

lemma passed_snoc: "passed B k from (bs @ [b]) = passed B k from bs @ [(b, int (place B k b))]"
  by (simp add: passed_def)

lemma passed_ne [simp]: "passed B k from bs \<noteq> []"
  by (simp add: passed_def)

lemma passed_cong:
  "length bs = length cs \<Longrightarrow> \<forall>i < length bs. cs ! i = bs ! i \<and> B' ! nat (bs ! i) = B ! nat (bs ! i) \<Longrightarrow>
   passed B' k from cs = passed B k from bs"
  by (auto simp: passed_def intro!: nth_equalityI)

lemma flat_last: "ps \<noteq> [] \<Longrightarrow> flat ps = flat (butlast ps) @ [fst (last ps), snd (last ps)]"
  by (cases ps rule: rev_cases) (auto simp: flat_def)

definition on_path :: "memrec list \<Rightarrow> st \<Rightarrow> nat \<Rightarrow> int \<Rightarrow> string \<Rightarrow> nat \<Rightarrow> int \<times> int \<Rightarrow> bool" where
  "on_path B R h b k n from \<longleftrightarrow>
     n < length (path B h b k) \<and> wf_stk (stk R) \<and>
     stack_of (stk R) = flat (butlast (passed B k from (take n (path B h b k)))) \<and>
     (s_lfblk R, s_lfpos R) = List.last (passed B k from (take n (path B h b k))) \<and>
     (\<forall>i < n. nkeys_of (B ! nat (path B h b k ! i)) < ZMXKEY)"

text \<open>How the loop ends, for a search that starts in \<open>R0\<close>.\<close>

definition descended ::
  "memrec list \<Rightarrow> st \<Rightarrow> nat \<Rightarrow> int \<Rightarrow> string \<Rightarrow> int set \<Rightarrow> st \<Rightarrow> (int \<times> int option) \<times> st \<Rightarrow> bool" where
  "descended B R h b k P R0 r \<longleftrightarrow> (case r of (res, s') \<Rightarrow>
     (\<exists>s1. no_space B R h b s1 \<and> s' = bterr ''BFNDKY'' QSPLIT None s1 \<and> fst res = QNOKEY) \<or>
     (\<exists>B' R' h' bs'. repr s' B' P R' \<and> resplit B R h b B' R' h' bs' \<and> search_post B' h' b k R0 res R' \<and>
        nkeys_of (B' ! nat (List.last (path B' h' b k))) < ZMXKEY))"

lemma no_space_resplit:
  "resplit B R h b B1 R1 h1 bs1 \<Longrightarrow> no_space B1 R1 h1 b s' \<Longrightarrow> no_space B R h b s'"
  unfolding no_space_def using resplit_trans [of B R h b B1 R1 h1 bs1] by blast

lemma descended_resplit:
  "resplit B R h b B1 R1 h1 bs1 \<Longrightarrow> descended B1 R1 h1 b k P R0 r \<Longrightarrow> descended B R h b k P R0 r"
  unfolding descended_def
  using resplit_trans [of B R h b B1 R1 h1 bs1] no_space_resplit [of B R h b B1 R1 h1 bs1]
  by (cases r) (simp, blast)

lemma bfndky_loop_full:
  assumes r: "repr s B P R" and c: "valid_blk B c" "card P < ZMXBLK" "wf_keys (B ! nat c)"
    and full: "nkeys_of (B ! nat c) = ZMXKEY" "smode (super R) = 0"
    and go: "\<And>s1. repr s1 B P R \<Longrightarrow> runs (bsptbk c s1) (\<lambda>((e, x), s).
      if x < 0 then Q ((QNOKEY, s_val a), bterr ''BFNDKY'' QSPLIT None s)
      else if c \<noteq> s_scroot s
      then runs (do { let c = s_lfblk s; s \<leftarrow> pull_pos s; bfndky_loop k c a s }) Q
      else runs (bfndky_loop k c a s) Q)"
  shows "runs (bfndky_loop k c a s) Q"
proof -
  have room: "room P c" using c(2) by (simp add: room_def)
  have "runs (bgtinf c ZNKEYS s) (\<lambda>(w, s'). w = nkeys_of (B ! nat c) \<and> repr s' B P R)"
    using mem_info_word [OF wf_keys_D(1) [OF c(3)], of ZNKEYS]
    by (intro bgtinf_spec [OF r c(1) room]) (simp_all add: ZNKEYS_def ZINFSZ_def)
  then obtain s1 where s1: "bgtinf c ZNKEYS s = Some (ZMXKEY, s1)" "repr s1 B P R"
    using full(1) by (auto simp: runs_def)
  obtain e x s2 where s2: "bsptbk c s1 = Some ((e, x), s2)"
    "if x < 0 then Q ((QNOKEY, s_val a), bterr ''BFNDKY'' QSPLIT None s2)
      else if c \<noteq> s_scroot s2
      then runs (do { let c = s_lfblk s2; s \<leftarrow> pull_pos s2; bfndky_loop k c a s }) Q
      else runs (bfndky_loop k c a s2) Q"
    using go [OF s1(2)] by (auto simp: runs_def)
  have "c \<noteq> ZNULL" "smode (super s1) = 0"
    using c(1) full(2) repr_fields(8) [OF s1(2)] by (auto simp: valid_blk_def ZNULL_def)
  then show ?thesis
    using s1(1) s2 by (subst bfndky_loop.simps) (auto simp: Let_def split: if_splits)
qed

lemma entries_in_path:
  "wf_tree B h b \<Longrightarrow> n < length (path B h b k) \<Longrightarrow>
   set (entries (B ! nat (path B h b k ! n))) \<subseteq> set (tree_entries B h b)"
proof (induction h arbitrary: n b)
  case (Suc h)
  show ?case
  proof (cases n)
    case 0
    then show ?thesis using entries_in_tree [OF Suc.prems(1)] by (simp del: tree_entries.simps)
  next
    case (Suc m)
    then have nh: "\<not> has_key B k b" "m < length (path B h (child B k b) k)"
      using Suc.prems(2) by (auto split: if_splits)
    have "set (tree_entries B h (child B k b)) \<subseteq> set (tree_entries B (Suc h) b)"
      using nth_mem [OF place_le [OF Suc.prems(1)], of k] wf_tree_links [OF Suc.prems(1)]
      by (auto simp: set_interleave)
    then show ?thesis using Suc.IH [OF child_wf [OF Suc.prems(1)] nh(2)] nh(1) Suc by auto
  qed
qed simp

lemma search_loop:
  assumes "repr s B P R" "P \<subseteq> {b}" "open_tree B R h b bs" "on_path B R h b k n (s_lfblk R0, s_lfpos R0)"
    and "same_rest R0 R" "stack_of (stk R0) = []" "\<not> s_lfexct R0"
    and "lf R = (lf R0)\<lparr>lfblk := s_lfblk R, lfpos := s_lfpos R\<rparr>" "s_draddr R0 = ZNULL"
    and "smode (super R0) = 0" "s_scroot R0 = b" "n \<le> h"
  shows "runs (bfndky_loop k (path B h b k ! n) a s) (descended B R h b k P R0)"
  using assms
proof (induction "20 * stock B bs + (h - n)" arbitrary: s B R h bs n a rule: less_induct)
  case less
  note r = less.prems(1) and P = less.prems(2) and o = less.prems(3) and S0 = less.prems(6,7,9,10,11)
  note D = open_tree_D [OF o]
  let ?c = "path B h b k ! n" and ?from = "(s_lfblk R0, s_lfpos R0)"
  note on = less.prems(4) [unfolded on_path_def]
  have n: "n < length (path B h b k)" using on by blast
  note N = path_node [OF D(1-3) n refl]
  have cin: "?c \<in> set (tree_blocks B h b)"
    using path_blocks [OF D(1) n] root_in_blocks [of ?c B "h - n"] by blast
  have use: "in_use B ?c" using D(7) [OF cin] .
  have wk: "wf_keys (B ! nat ?c)" using wf_tree_D [OF N(1)] by blast
  have "card P \<le> 1" using card_mono [OF _ P] by simp
  then have cP: "card P < ZMXBLK" by (simp add: ZMXBLK_def)
  have sm: "smode (super R) = 0" "s_scroot R = b"
    using same_rest_fields(1,9) [OF less.prems(5)] S0(4,5) by simp_all
  have h20: "h \<le> 19" using D(8) by (simp add: STKMAX_def)
  have nd: "no_dups (entries (B ! nat ?c))"
  proof -
    have "set (entries (B ! nat ?c)) \<subseteq> set (tree_entries B h b)"
      using entries_in_path [OF D(1) n] .
    then show ?thesis using D(4) by (auto simp: no_dups_def)
  qed
  show ?case
  proof (cases "nkeys_of (B ! nat ?c) = ZMXKEY")
    case True
    show ?thesis
    proof (rule bfndky_loop_full [OF r _ cP wk True sm(1)])
      show "valid_blk B ?c" using use by blast
      fix s1 assume s1: "repr s1 B P R"
      let ?Q = "descended B R h b k P R0"
      show "runs (bsptbk ?c s1) (\<lambda>((e, x), s).
        if x < 0 then ?Q ((QNOKEY, s_val a), bterr ''BFNDKY'' QSPLIT None s)
        else if ?c \<noteq> s_scroot s
        then runs (do { let c = s_lfblk s; s \<leftarrow> pull_pos s; bfndky_loop k c a s }) ?Q
        else runs (bfndky_loop k ?c a s) ?Q)"
      proof (cases n)
        case 0
        then have c: "?c = b" by (cases h) auto
        have fl: "stack_of (stk R) = []" "wf_stk (stk R)" "(s_lfblk R, s_lfpos R) = ?from"
          using on 0 by (simp_all add: passed_def)
        show ?thesis
          unfolding c
        proof (rule runs_conseq [OF split_root [OF s1 P o True [unfolded c]]],
            simp only: split_paired_all prod.case, elim disjE conjE exE, goal_cases)
          case (1 e x s')
          then show ?case by (auto simp: descended_def)
        next
          case (2 e x s' B' R' bs')
          have root: "s_scroot s' = b"
            using repr_fields(8) [OF 2(2)] 2(3) sm(2) same_rest_fields(9) [of R R'] by (simp add: resplit_def)
          have o': "open_tree B' R' (Suc h) b bs'" using 2(3) by (simp add: resplit_def)
          have sr: "same_rest R R'" using 2(3) by (simp add: resplit_def)
          have "runs (bfndky_loop k (path B' (Suc h) b k ! 0) a s') (descended B' R' (Suc h) b k P R0)"
          proof (rule less.hyps [OF _ 2(2) P o' _ same_rest_trans [OF less.prems(5) sr] S0(1,2) _ S0(3-5)])
            show "20 * stock B' bs' + (Suc h - 0) < 20 * stock B bs + (h - n)" using 2(4) 0 h20 by simp
            show "on_path B' R' (Suc h) b k 0 ?from" using fl 2(5,6) by (simp add: on_path_def passed_def)
            show "lf R' = (lf R0)\<lparr>lfblk := s_lfblk R', lfpos := s_lfpos R'\<rparr>" using 2(5) less.prems(8) by simp
          qed simp
          moreover have "path B' (Suc h) b k ! 0 = b" by simp
          ultimately have "runs (bfndky_loop k b a s') ?Q"
            using descended_resplit [OF 2(3)] by (simp only:) (erule runs_conseq)
          then show ?case using 2(1) root by simp
        qed
      next
        case (Suc m)
        have sn: "Suc m < length (path B h b k)" using n Suc by simp
        let ?ps = "passed B k ?from (take m (path B h b k))"
        have tk: "take n (path B h b k) = take m (path B h b k) @ [path B h b k ! m]"
          using Suc n by (simp add: take_Suc_conv_app_nth)
        have fl: "s_lfblk R = path B h b k ! m" "stack_of (stk R) = flat (butlast ?ps) @ [fst (List.last ?ps), snd (List.last ?ps)]"
          using on unfolding tk passed_snoc by (simp_all add: flat_last)
        note C = path_child [OF o sn]
        have full': "nkeys_of (B ! nat (path B h b k ! Suc m)) = ZMXKEY" "nkeys_of (B ! nat (s_lfblk R)) < ZMXKEY"
          using True Suc on fl(1) by auto
        show ?thesis
          unfolding Suc
        proof (rule runs_conseq [OF split_inner [OF s1 P o sn fl(1) [symmetric] full']],
            simp only: split_paired_all prod.case, elim disjE conjE exE, goal_cases)
          case (1 e x s')
          then show ?case by (auto simp: descended_def)
        next
          case (2 e x s' B' R' bs')
          have o': "open_tree B' R' h b bs'" and sr: "same_rest R R'" using 2(3) by (simp_all add: resplit_def)
          have root: "s_scroot s' = b"
            using repr_fields(8) [OF 2(2)] sm(2) same_rest_fields(9) [OF sr] by simp
          have lf': "lf s' = lf R" "stk s' = stk R" using repr_fields(6,7) [OF 2(2)] 2(5,6) by simp_all
          obtain t where t: "pull_pos s' = Some (s'\<lparr>stk := t, lf := (lf s')\<lparr>lfpos := snd (List.last ?ps),
              lfblk := fst (List.last ?ps)\<rparr>\<rparr>)" "wf_stk t" "stack_of t = flat (butlast ?ps)"
            using pull_pos_stk [of s' "flat (butlast ?ps)" "fst (List.last ?ps)" "snd (List.last ?ps)"]
              lf'(2) fl(2) on by auto
          let ?R = "R'\<lparr>stk := t, lf := (lf R')\<lparr>lfpos := snd (List.last ?ps), lfblk := fst (List.last ?ps)\<rparr>\<rparr>"
          let ?s = "s'\<lparr>stk := t, lf := (lf s')\<lparr>lfpos := snd (List.last ?ps), lfblk := fst (List.last ?ps)\<rparr>\<rparr>"
          have r': "repr ?s B' P ?R" using 2(2) repr_fields(6) [OF 2(2)] by auto
          have o'': "open_tree B' ?R h b bs'" using o' by (simp add: open_tree_def free_list_def)
          have ps: "passed B' k ?from (take m (path B' h b k)) = ?ps"
            using 2(7,8) sn by (intro passed_cong) auto
          have "runs (bfndky_loop k (path B' h b k ! m) a ?s) (descended B' ?R h b k P R0)"
          proof (rule less.hyps [OF _ r' P o'' _ _ S0(1,2) _ S0(3-5)])
            show "20 * stock B' bs' + (h - m) < 20 * stock B bs + (h - n)" using 2(4) h20 by linarith
            show "on_path B' ?R h b k m ?from"
              unfolding on_path_def ps using t(2,3) 2(7,8) on Suc by (simp add: less_Suc_eq)
            show "same_rest R0 ?R" using same_rest_trans [OF less.prems(5) sr] by simp
            show "lf ?R = (lf R0)\<lparr>lfblk := s_lfblk ?R, lfpos := s_lfpos ?R\<rparr>"
              using 2(5) less.prems(8) by (cases "lf R0"; cases "lf R") simp
            show "m \<le> h" using less.prems(12) Suc by simp
          qed
          moreover have "resplit B R h b B' ?R h bs'"
            using 2(3) o'' by (simp add: resplit_def)
          ultimately have "runs (bfndky_loop k (s_lfblk s') a ?s) ?Q"
            using descended_resplit 2(9) fl(1) lf'(1) by (auto elim!: runs_conseq)
          then show ?case using 2(1) root C(4) t(1) by (simp add: Let_def)
        qed
      qed
    qed
  next
    case nf: False
    have nk: "nkeys_of (B ! nat ?c) < ZMXKEY \<or> smode (super R) \<noteq> 0"
      using nf wf_keys_D(8) [OF wk] by simp
    have len: "length (stack_of (stk R)) = 2 * n"
      using on by (simp add: length_flat passed_def)
    have room: "length (stack_of (stk R)) + 2 \<le> nat STKMAX" using len D(8) less.prems(12) by simp
    have take: "flat (passed B k ?from (take n (path B h b k))) = stack_of (stk R) @ [s_lfblk R, s_lfpos R]"
      using on flat_last [of "passed B k ?from (take n (path B h b k))"]
      by (metis fst_conv passed_ne snd_conv)
    let ?Q = "descended B R h b k P R0"
    have lfR: "s_lfkey R = s_lfkey R0" "\<not> s_lfexct R" "s_draddr R = ZNULL"
      by (subst less.prems(8), use S0 in simp)+
    have stop: "?Q (res, s')"
      if "Suc n \<noteq> length (path B h b k) \<Longrightarrow> False" "repr s' B P R'" "same_rest R R'" "super R' = super R"
        "wf_stk (stk R')" "stack_of (stk R') = stack_of (stk R) @ [s_lfblk R, s_lfpos R]"
        "lf R' = (lf R)\<lparr>lfblk := ?c, lfpos := end_pos B k ?c, lfexct := has_key B k ?c\<rparr>"
        "if has_key B k ?c then res = (0, Some (ke_val (entries (B ! nat ?c) ! place B k ?c))) else fst res = QNOKEY"
      for res s' R'
    proof -
      have e: "Suc n = length (path B h b k)" using that(1) by blast
      then have l: "List.last (path B h b k) = ?c" "butlast (path B h b k) = take n (path B h b k)"
        by (metis diff_Suc_1 last_conv_nth list.size(3) nat.distinct(1), metis butlast_conv_take diff_Suc_1)
      have "lf R' = \<lparr>lfkey = s_lfkey R0, lfblk = ?c, lfpos = end_pos B k ?c, lfexct = has_key B k ?c, draddr = ZNULL\<rparr>"
        using that(7) lfR by (cases "lf R") simp
      then have "search_post B h b k R0 res R'"
        using that(5,6,8) S0 same_rest_trans [OF less.prems(5) that(3)]
        unfolding search_post_def l Let_def trail_flat take by simp
      moreover have "resplit B R h b B R' h bs" by (rule resplit_refl [OF o that(3,4)])
      moreover have "nkeys_of (B ! nat (List.last (path B h b k))) < ZMXKEY"
        using nf wf_keys_D(8) [OF wk] unfolding l by simp
      ultimately show ?thesis using that(2) unfolding descended_def by blast
    qed
    show ?thesis
    proof (rule bfndky_loop_step [OF r _ cP wk nk _ room])
      show "valid_blk B ?c" using use by blast
      show "wf_stk (stk R)" using on by blast
    next
      fix a' s' R'
      assume nh: "\<not> has_key B k ?c" and R': "repr s' B P R'"
        "lf R' = (lf R)\<lparr>lfblk := ?c, lfpos := end_pos B k ?c\<rparr>" "same_rest R R'" "super R' = super R"
        "wf_stk (stk R')" "stack_of (stk R') = stack_of (stk R) @ [s_lfblk R, s_lfpos R]"
      show "runs (bfndky_loop k (if nkeys_of (B ! nat ?c) = 0 then ZNULL else child B k ?c) a' s') ?Q"
      proof (cases "Suc n < length (path B h b k)")
        case True
        have nh': "n < h" using N(4) True by simp
        have pos: "0 < nkeys_of (B ! nat ?c)" using N(1) nh' by (cases "h - n") auto
        have o': "open_tree B R' h b bs" using o R'(4) by (simp add: open_tree_def free_list_def)
        have "runs (bfndky_loop k (path B h b k ! Suc n) a' s') (descended B R' h b k P R0)"
        proof (rule less.hyps [OF _ R'(1) P o' _ same_rest_trans [OF less.prems(5) R'(3)] S0(1,2) _ S0(3-5)])
          show "20 * stock B bs + (h - Suc n) < 20 * stock B bs + (h - n)" using nh' by simp
          have tk: "take (Suc n) (path B h b k) = take n (path B h b k) @ [?c]"
            using n by (simp add: take_Suc_conv_app_nth)
          show "on_path B R' h b k (Suc n) ?from"
            unfolding on_path_def tk passed_snoc
            using True R'(2,5,6) take on nf wf_keys_D(8) [OF wk] pos by (auto simp: less_Suc_eq end_pos_def)
          show "lf R' = (lf R0)\<lparr>lfblk := s_lfblk R', lfpos := s_lfpos R'\<rparr>" using R'(2) less.prems(8)
            by (cases "lf R0"; cases "lf R") simp
          show "Suc n \<le> h" using nh' by simp
        qed
        then have "runs (bfndky_loop k (path B h b k ! Suc n) a' s') ?Q"
          by (rule runs_conseq) (rule descended_resplit [OF resplit_refl [OF o R'(3,4)]])
        then show ?thesis using N(5) [OF True] pos by simp
      next
        case False
        have "h - n = 0" using N(4) False nh by simp
        then have leaf: "wf_tree B 0 ?c" using N(1) by simp
        have null: "(if nkeys_of (B ! nat ?c) = 0 then ZNULL else child B k ?c) = ZNULL"
          using leaf nth_mem [OF place_le [OF leaf, of k]] by simp
        have "lf R' = (lf R)\<lparr>lfblk := ?c, lfpos := end_pos B k ?c, lfexct := has_key B k ?c\<rparr>"
          using R'(2) nh lfR(2) by (cases "lf R") simp
        then have "?Q ((QNOKEY, s_val a'), s')"
          by (intro stop [where R' = R']) (use False n R'(1,3-6) nh in auto)
        then show ?thesis unfolding null by (simp add: bfndky_loop_null)
      qed
    next
      fix s' R'
      assume hk: "has_key B k ?c" and R': "repr s' B P R'"
        "lf R' = (lf R)\<lparr>lfblk := ?c, lfpos := int (place B k ?c), lfexct := True\<rparr>" "same_rest R R'"
        "super R' = super R" "wf_stk (stk R')" "stack_of (stk R') = stack_of (stk R) @ [s_lfblk R, s_lfpos R]"
      show "runs (do { ((d, v), s) \<leftarrow>
          btduppos ZNEXT (Some (ke_val (entries (B ! nat ?c) ! place B k ?c))) s'; Some ((0, v), s) }) ?Q"
      proof (rule runs_conseq [OF plain_key [OF use [THEN conjunct1] wk cP nd lfR(3) hk R'(1,2)]], simp only: split_paired_all prod.case, goal_cases)
        case (1 e v s'')
        show ?case
          by (rule stop [where R' = "R'\<lparr>dup_keyent := entries (B ! nat ?c) ! place B k ?c\<rparr>"])
            (use 1 hk R' N(4) n end_pos_key [OF wk hk] in auto)
      qed
    qed
  qed
qed

section \<open>The operations of an index open for update\<close>

text \<open>\<open>bfndky\<close>: the tree may be reorganised, and the result is that of the search in the tree that there
  is then; only a file at its largest size makes it fail.\<close>

definition too_big :: "memrec list \<Rightarrow> st \<Rightarrow> nat \<Rightarrow> int \<Rightarrow> st \<Rightarrow> bool" where
  "too_big B R h b s' \<longleftrightarrow> (\<exists>B' P' R' h'. repr s' B' P' (bterr ''BGTFRE'' QF2BIG None R') \<and> card P' < ZMXBLK \<and>
     resplit B R h b B' R' h' [] \<and> MXBLKS \<le> length B' + 1)"

lemma bfndky_update:
  assumes r: "repr s B P R" and P: "P \<subseteq> {b}" and R: "update_ready R b" and o: "open_tree B R h b bs"
    and k: "k = strncpy_term ZKYLEN key"
  shows "runs (bfndky key v s) (\<lambda>((e, v'), s').
    e = QF2BIG \<and> too_big B (find_start k R) h b s' \<or>
    (\<exists>B' R' h' bs' res. repr s' B' P (find_end k (fst res = 0) R') \<and>
      resplit B (find_start k R) h b B' R' h' bs' \<and> search_post B' h' b k (find_start k R) res R' \<and>
      nkeys_of (B' ! nat (List.last (path B' h' b k))) < ZMXKEY \<and>
      v' = snd res \<and> e = (if fst res = 0 then 0 else QNOKEY)))"
proof -
  let ?s = "find_start k s" and ?R = "find_start k R" and ?a = "(srh_args (Some k) (-1))\<lparr>s_val := v\<rparr>"
  note F = find_start_fields
  have Rd: "\<not> shared R" "smode (super R) = 0" "s_scroot R = b" "stk_array R"
    using R by (simp_all add: update_ready_def)
  have o': "open_tree B ?R h b bs" using o F(4) by (simp add: open_tree_def free_list_def)
  have "runs (bfndky_loop k (path B h b k ! 0) ?a ?s) (descended B ?R h b k P ?R)"
  proof (rule search_loop [OF find_start_repr [OF r] P o'])
    show "on_path B ?R h b k 0 (s_lfblk ?R, s_lfpos ?R)"
      using F(2) [OF Rd(4)] F(3) by (simp add: on_path_def passed_def)
    show "lf ?R = (lf ?R)\<lparr>lfblk := s_lfblk ?R, lfpos := s_lfpos ?R\<rparr>" by (cases "lf ?R") simp
  qed (use F Rd in simp_all)
  moreover have "path B h b k ! 0 = b" by (cases h) simp_all
  ultimately obtain x y s1 where s1: "bfndky_loop k b ?a ?s = Some ((x, y), s1)"
      "descended B ?R h b k P ?R ((x, y), s1)"
    by (auto simp: runs_def)
  have root: "s_scroot s = b" "\<not> shared s" using repr_fields(4,8) [OF r] Rd by simp_all
  have call: "bfndky key v s = (if shared s1 then do { s2 \<leftarrow> bulock s1;
        let s3 = (if x \<noteq> 0 then bterr ''BFNDKY'' QNOKEY (Some k) s2 else s2); Some ((btgerr s3, y), s3) }
      else Some ((btgerr (find_end k (x = 0) s1), y), find_end k (x = 0) s1))"
    using s1(1) root bvalap_ok [OF repr_frame(10) [OF r], of "''BFNDKY''"] k
    by (simp add: bfndky_def lock_if_shared_def unlock_if_shared_def
        find_start_def [symmetric] find_end_def Let_def)
  show ?thesis
    using s1(2) unfolding descended_def prod.case
  proof (elim disjE exE conjE)
    fix t assume t: "no_space B ?R h b t" "s1 = bterr ''BFNDKY'' QSPLIT None t" "fst (x, y) = QNOKEY"
    then obtain u B' P' R' h' where u: "repr u B' P' R'" "card P' < ZMXBLK" "t = bterr ''BGTFRE'' QF2BIG None u"
        "resplit B ?R h b B' R' h' []" "MXBLKS \<le> length B' + 1"
      by (auto simp: no_space_def)
    note u = u(1,3-5) u(2)
    have sr: "same_rest ?R R'" using u(3) by (simp add: resplit_def)
    have q: "qerror u = 0" "\<not> shared u"
      using repr_fields(4,9) [OF u(1)] same_rest_fields(2,4) [OF sr] F(5,6) Rd(1) by simp_all
    have nz: "QF2BIG \<noteq> 0" by (simp add: QF2BIG_def)
    have qt: "qerror t = QF2BIG" using q u(2) by (simp add: bterr_records)
    then have s1t: "s1 = t" using t(2) nz by (simp add: bterr_keeps_first)
    then have fe: "find_end k (x = 0) s1 = t" using qt nz by (simp add: find_end_def bterr_keeps_first)
    have "bfndky key v s = Some ((QF2BIG, y), t)"
      using call s1t fe qt q(2) u(2) by (simp add: btgerr_def)
    moreover have "repr t B' P' (bterr ''BGTFRE'' QF2BIG None R')" using u(1,2) by auto
    ultimately show ?thesis using u(3-5) by (auto simp: runs_def too_big_def)
  next
    fix B' R' h' bs'
    assume g: "repr s1 B' P R'" "resplit B ?R h b B' R' h' bs'" "search_post B' h' b k ?R (x, y) R'"
      "nkeys_of (B' ! nat (List.last (path B' h' b k))) < ZMXKEY"
    have sr: "same_rest ?R R'" using g(2) by (simp add: resplit_def)
    have q: "qerror s1 = 0" "\<not> shared s1"
      using repr_fields(4,9) [OF g(1)] same_rest_fields(2,4) [OF sr] F(5,6) Rd(1) by simp_all
    have x: "x = 0 \<or> x = QNOKEY" using g(3) by (auto simp: search_post_def Let_def split: if_splits)
    have "btgerr (find_end k (x = 0) s1) = (if x = 0 then 0 else QNOKEY)"
      using q(1) by (simp add: find_end_def btgerr_def bterr_records)
    then have "bfndky key v s = Some ((if x = 0 then 0 else QNOKEY, y), find_end k (x = 0) s1)"
      using call q(2) by simp
    moreover have "repr (find_end k (x = 0) s1) B' P (find_end k (x = 0) R')"
      using g(1) by (auto simp: find_end_def)
    ultimately show ?thesis using g(2-4) unfolding runs_def
      by (intro exI [of _ "((if x = 0 then 0 else QNOKEY, y), find_end k (x = 0) s1)"] conjI)
        (assumption, simp only: prod.case, intro disjI2 exI [of _ B'] exI [of _ R'] exI [of _ h'] exI [of _ bs']
          exI [of _ "(x, y)"], simp)
  qed
qed

end
