(* ===== verification/Update.thy ===== *)
theory Update
  imports Descend
begin

text \<open>
  Insertion into an index that is open for update, without conditions on the fullness or the height of
  its tree: \<open>binsky\<close> adds the key to the list of entries that the tree stands for, however many blocks
  it has to split, and keeps the invariant of the index (\<open>open_tree\<close>), so operations can follow one
  another. The only way to fail is a file at its largest size.
\<close>

section \<open>An entry put into a leaf\<close>

lemma open_tree_put:
  assumes o: "open_tree B R h b bs" and k: "ke_key e \<notin> ke_key ` set (tree_entries B h b)"
    and c: "c = List.last (path B h b (ke_key e))" and e: "ke_dup e = ZNULL"
    and m: "put_ok e ZNULL ZNULL (B ! nat c) m" "nkeys_of (B ! nat c) < ZMXKEY" and R: "super R' = super R"
  shows "open_tree (B[nat c := m]) R' h b bs" "others_kept B h b (B[nat c := m]) h"
    "tree_entries (B[nat c := m]) h b = insert_at (lower (ke_key e) (tree_entries B h b)) e (tree_entries B h b)"
    "\<forall>t. 0 \<le> t \<and> t \<noteq> ZNKEYS \<longrightarrow> word_of (B[nat c := m] ! nat b) t = word_of (B ! nat b) t"
    "stocked f B h b \<Longrightarrow> stocked f (B[nat c := m]) h b"
proof -
  let ?B = "B[nat c := m]"
  note D = open_tree_D [OF o]
  have st: "search_tree B h b" using o by (simp add: open_tree_def)
  have i: "inserted B h b e ?B" by (rule put_inserted [OF st k c m])
  note I = i [unfolded inserted_def]
  show ents: "tree_entries ?B h b = insert_at (lower (ke_key e) (tree_entries B h b)) e (tree_entries B h b)"
    using I by blast
  have blocks: "tree_blocks ?B h b = tree_blocks B h b" using I by blast
  have cin: "c \<in> set (tree_blocks B h b)" using path_end_in [OF D(1)] c by blast
  have len: "nat c < length B" using D(7) [OF cin] by (auto simp: valid_blk_def)
  have words: "word_of (?B ! nat d) t = word_of (B ! nat d) t" if "0 \<le> t" "t \<noteq> ZNKEYS" for d t
    using m(1) that len by (cases "nat d = nat c") (auto simp: put_ok_def)
  then show "\<forall>t. 0 \<le> t \<and> t \<noteq> ZNKEYS \<longrightarrow> word_of (?B ! nat b) t = word_of (B ! nat b) t" by blast
  have ty: "btype_of (?B ! nat d) = btype_of (B ! nat d)" for d
    using words [of 0 d] by (simp add: btype_of_def ZNKEYS_def)
  show oth: "others_kept B h b ?B h"
    using I ty unfolding others_kept_def blocks by (auto simp: valid_blk_def)
  have "\<forall>f \<in> set bs. ?B ! nat f = B ! nat f"
  proof
    fix f assume "f \<in> set bs"
    then have "btype_of (B ! nat f) = ZFREE" "0 \<le> f"
      using free_chain_valid [of B "sfreep (super R)" bs f] D(5) by (auto simp: free_list_def valid_blk_def)
    then have "nat f \<noteq> nat c" using D(7) [OF cin] by (auto simp: valid_blk_def eq_nat_nat_iff)
    then show "?B ! nat f = B ! nat f" by simp
  qed
  then have "free_list ?B R' bs" using R by (intro free_list_cong [OF D(5)]) simp_all
  moreover have "no_dups (tree_entries ?B h b)"
    using D(4) e by (simp add: ents no_dups_def set_insert_at)
  moreover have nk: "nkeys_of (B ! nat d) \<le> nkeys_of (?B ! nat d)" for d
    using m(1) len by (cases "nat d = nat c") (auto simp: put_ok_def)
  then have "0 < nkeys_of (?B ! nat d)" if "0 < nkeys_of (B ! nat d)" for d using that less_le_trans by blast
  then have "typed_tree ?B h b" using o ty by (simp add: open_tree_def typed_tree_def blocks)
  moreover have "\<exists>d. in_use ?B d \<and> d \<notin> set (tree_blocks ?B h b)"
    using o oth by (auto simp: open_tree_def others_kept_def)
  ultimately show "open_tree ?B R' h b bs" using I D(6) by (simp add: open_tree_def)
  show "stocked f ?B h b" if "stocked f B h b" using that nk order_trans unfolding stocked_def blocks by blast
qed

section \<open>Insertion\<close>

definition entered ::
  "memrec list \<Rightarrow> st \<Rightarrow> nat \<Rightarrow> int \<Rightarrow> keyent \<Rightarrow> memrec list \<Rightarrow> st \<Rightarrow> nat \<Rightarrow> int list \<Rightarrow> bool" where
  "entered B R h b e B' R' h' bs' \<longleftrightarrow> later R R' \<and>
     open_tree B' R' h' b bs' \<and> others_kept B h b B' h' \<and>
     tree_entries B' h' b = insert_at (lower (ke_key e) (tree_entries B h b)) e (tree_entries B h b) \<and>
     (\<forall>t. 0 \<le> t \<and> t \<noteq> ZNKEYS \<longrightarrow> word_of (B' ! nat b) t = word_of (B ! nat b) t) \<and>
     (\<forall>f \<le> 10. stocked f B h b \<longrightarrow> stocked f B' h' b)"

text \<open>The call of \<open>bfndky\<close> in \<open>binsky\<close>, and what comes before it and after it.\<close>

definition binsky_rest :: "string \<Rightarrow> string \<Rightarrow> int \<Rightarrow> int \<Rightarrow> int \<Rightarrow> st \<Rightarrow> (int \<times> st) option" where
  "binsky_rest key k v misc e s3 = do {
     s \<leftarrow> (if e = QNOKEY \<or> e = 0 \<and> misc \<noteq> 0 then do {
            let s = clear_err s3;
            if e = 0 then do { (e, s) \<leftarrow> btdupkey key v s; Some s }
            else do { (idx, s) \<leftarrow> bleaf 1 s; bputky (s_lfblk s) (new_entry k v) ZNULL ZNULL s }
          } else Some (bterr ''BINSKY'' QDUP (Some key) s3));
     s \<leftarrow> unlock_if_shared s;
     Some (btgerr s, s) }"

definition found_leaf ::
  "memrec list \<Rightarrow> int set \<Rightarrow> st \<Rightarrow> nat \<Rightarrow> int \<Rightarrow> string \<Rightarrow> int \<Rightarrow> st \<Rightarrow> bool" where
  "found_leaf B P R1 h b k e s3 \<longleftrightarrow>
     (\<exists>B' R' h' bs' res. repr s3 B' P (find_end k (fst res = 0) R') \<and> resplit B R1 h b B' R' h' bs' \<and>
        search_post B' h' b k R1 res R' \<and> nkeys_of (B' ! nat (List.last (path B' h' b k))) < ZMXKEY \<and>
        e = (if fst res = 0 then 0 else QNOKEY))"

lemma binsky_find:
  assumes r: "repr s B P R" and P: "P \<subseteq> {b}" and R: "update_ready R b" and o: "open_tree B R h b bs"
    and k: "k = strncpy_term ZKYLEN key"
  shows "\<exists>e s3. binsky key v s = binsky_rest key k v (word_of (B ! nat b) ZMISC) e s3 \<and>
    (e = QF2BIG \<and> too_big B (find_start k (clear_err R)) h b s3 \<or>
     found_leaf B P (find_start k (clear_err R)) h b k e s3)"
proof -
  let ?R1 = "find_start k (clear_err R)"
  note D = open_tree_D [OF o]
  have card: "card P < ZMXBLK" using card_mono [OF _ P] by (simp add: ZMXBLK_def)
  have vb: "valid_blk B b" "room P b" "wf_keys (B ! nat b)"
    using wf_tree_D [OF D(1)] card by (auto simp: room_def)
  have r1: "repr (clear_err s) B P (clear_err R)" using r by auto
  have R': "update_ready (clear_err R) b" "open_tree B (clear_err R) h b bs"
    using R o by (simp_all add: open_tree_def free_list_def)
  have sf: "\<not> shared s" "smode (super s) = 0" "s_scroot s = b"
    using R repr_fields [OF r] by (simp_all add: update_ready_def)
  have misc: "mem_info (B ! nat b) ZMISC = Some (word_of (B ! nat b) ZMISC)" "ZMISC < int ZINFSZ"
    using mem_info_word [OF wf_keys_D(1) [OF vb(3)], of ZMISC] by (simp_all add: ZMISC_def ZINFSZ_def)
  obtain s2 where s2: "bgtinf b ZMISC (clear_err s) = Some (word_of (B ! nat b) ZMISC, s2)" "repr s2 B P (clear_err R)"
    using bgtinf_spec [OF r1 vb(1,2) misc(2,1)] by (auto simp: runs_def)
  have kk: "k = strncpy_term ZKYLEN k" using k by (simp add: strncpy_term_def)
  have "runs (bfndky k None s2) (\<lambda>((e, v'), s3).
      e = QF2BIG \<and> too_big B ?R1 h b s3 \<or> found_leaf B P ?R1 h b k e s3)"
    by (rule runs_conseq [OF bfndky_update [OF s2(2) P R' kk, of None]])
      (simp only: split_paired_all prod.case found_leaf_def, blast)
  then obtain e v' s3 where s3: "bfndky k None s2 = Some ((e, v'), s3)"
    "e = QF2BIG \<and> too_big B ?R1 h b s3 \<or> found_leaf B P ?R1 h b k e s3"
    by (auto simp only: runs_def split_paired_Ex prod.case)
  have "binsky key v s = binsky_rest key k v (word_of (B ! nat b) ZMISC) e s3"
    using sf bvalap_ok [OF r1, of "''BINSKY''"] s2(1) s3(1) k
    by (simp add: binsky_def binsky_rest_def lock_if_shared_def Let_def)
  then show ?thesis using s3(2) by blast
qed

lemma ready_after:
  assumes R: "update_ready R b" and s: "same_rest (find_start k (clear_err R)) R'" "wf_stk (stk R')"
  shows "update_ready R' b"
  using same_rest_ready [OF s] find_start_ready [of "clear_err R" b k] R by simp

lemma binsky_full:
  assumes R: "update_ready R b" and t: "too_big B (find_start k (clear_err R)) h b s3"
  shows "binsky_rest key k v m QF2BIG s3 = Some (QF2BIG, s3)"
proof -
  let ?R1 = "find_start k (clear_err R)"
  obtain B' P' R' h' where t: "repr s3 B' P' (bterr ''BGTFRE'' QF2BIG None R')" "resplit B ?R1 h b B' R' h' []"
    using t by (auto simp: too_big_def)
  have sr: "same_rest ?R1 R'" using t(2) by (simp add: resplit_def)
  have "qerror s3 = QF2BIG" "\<not> shared s3"
    using repr_fields(4,9) [OF t(1)] same_rest_fields(2,4) [OF sr] find_start_fields(5,6) R
    by (simp_all add: bterr_records update_ready_def)
  then show ?thesis
    by (simp add: binsky_rest_def bterr_keeps_first unlock_if_shared_def btgerr_def QF2BIG_def QNOKEY_def)
qed

text \<open>A key that the tree does not have.\<close>

lemma binsky_enter:
  assumes r: "repr s B P R" and P: "P \<subseteq> {b}" and R: "update_ready R b" and o: "open_tree B R h b bs"
    and k: "k = strncpy_term ZKYLEN key" and new: "lookup (tree_entries B h b) k = None"
  shows "runs (binsky key v s) (\<lambda>(e, s').
    e = QF2BIG \<and> too_big B (find_start k (clear_err R)) h b s' \<or>
    e = 0 \<and> (\<exists>B' R' h' bs'. repr s' B' P R' \<and> update_ready R' b \<and> entered B R h b (new_entry k v) B' R' h' bs'))"
proof -
  let ?R1 = "find_start k (clear_err R)"
  note D = open_tree_D [OF o]
  from binsky_find [OF r P R o k, of v] obtain e s3 where s3:
    "binsky key v s = binsky_rest key k v (word_of (B ! nat b) ZMISC) e s3"
    "e = QF2BIG \<and> too_big B ?R1 h b s3 \<or> found_leaf B P ?R1 h b k e s3"
    by (elim exE conjE)
  show ?thesis
    using s3(2) unfolding found_leaf_def
  proof (elim disjE exE conjE)
    assume b: "e = QF2BIG" "too_big B ?R1 h b s3"
    then show ?thesis using s3(1) binsky_full [OF R b(2)] by (simp add: runs_def)
  next
    fix B' R' h' bs' res
    assume g: "repr s3 B' P (find_end k (fst res = 0) R')" "resplit B ?R1 h b B' R' h' bs'"
      "search_post B' h' b k ?R1 res R'" "nkeys_of (B' ! nat (List.last (path B' h' b k))) < ZMXKEY"
      "e = (if fst res = 0 then 0 else QNOKEY)"
    have o': "open_tree B' R' h' b bs'" and ents: "tree_entries B' h' b = tree_entries B h b"
      and oth: "others_kept B h b B' h'" and sr: "same_rest ?R1 R'"
      and words: "\<forall>t. 0 \<le> t \<and> t \<noteq> ZNKEYS \<longrightarrow> word_of (B' ! nat b) t = word_of (B ! nat b) t"
      and full: "\<forall>f \<le> 10. stocked f B h b \<longrightarrow> stocked f B' h' b"
      using g(2) by (simp_all add: resplit_def)
    note D' = open_tree_D [OF o'] and S = search_post_D [OF g(3)]
    define c where "c = List.last (path B' h' b k)"
    have st: "search_tree B' h' b" using o' by (simp add: open_tree_def)
    have nf: "fst res \<noteq> 0" using find_status(1) [OF st g(3)] new ents by simp
    have nk: "\<not> has_key B' k c" using S(5) nf by (simp add: c_def)
    have leaf: "wf_tree B' 0 c" using path_end_leaf [OF D'(1)] nk c_def by blast
    have card: "card P < ZMXBLK" using card_mono [OF _ P] by (simp add: ZMXBLK_def)
    let ?R4 = "clear_err (find_end k False R')"
    have r4: "repr (clear_err s3) B' P ?R4" using g(1) nf by auto
    have f4: "lf ?R4 = lf R'" "super ?R4 = super R'" "stk ?R4 = stk R'" by (simp_all add: find_end_def)
    have pos: "nkeys_of (B' ! nat c) = 0 \<or> 0 \<le> s_lfpos R' \<and> s_lfpos R' \<le> nkeys_of (B' ! nat c)"
      using S(4) lower_le [of k "entries (B' ! nat c)"] leaf wf_keys_D(7) [of "B' ! nat c"]
      by (auto simp: c_def [symmetric] end_pos_def)
    have fe: "lf (find_end k False R') = lf R'" by (simp add: find_end_def)
    obtain i s5 where s5: "bleaf 1 (clear_err s3) = Some (i, s5)" "repr s5 B' P ?R4"
      using bleaf_leaf [OF r4 _ card, of 1] leaf pos S(3) by (auto simp: fe c_def runs_def)
    have lf5: "s_lfblk s5 = c" using repr_fields(6) [OF s5(2)] S(3) f4(1) by (simp add: c_def)
    have m: "nkeys_of (B' ! nat c) < ZMXKEY" using g(4) by (simp add: c_def)
    obtain m' s6 where s6: "bputky c (new_entry k v) ZNULL ZNULL s5 = Some s6"
        "put_ok (new_entry k v) ZNULL ZNULL (B' ! nat c) m'" "repr s6 (B'[nat c := m']) P ?R4"
      using bputky_spec [OF s5(2) _ _ refl _ m, of "ZNULL" "ZNULL" "new_entry k v"] leaf card
      by (auto simp: room_def runs_def)
    have ready: "update_ready ?R4 b"
      using ready_after [OF R sr S(2)] by (simp add: find_end_def)
    have sh6: "\<not> shared s6" and q6: "qerror s6 = 0"
      using repr_fields(4,9) [OF s6(3)] ready by (simp_all add: update_ready_def bterr_def)
    have call: "binsky key v s = Some (0, s6)"
      unfolding s3(1) binsky_rest_def using g(5) nf s5(1) s6(1) lf5 sh6 q6
      by (simp add: unlock_if_shared_def btgerr_def Let_def QNOKEY_def)
    have new': "ke_key (new_entry k v) \<notin> ke_key ` set (tree_entries B' h' b)"
      using new ents by (simp add: lookup_None)
    have "c = List.last (path B' h' b (ke_key (new_entry k v)))" by (simp add: c_def)
    note put = open_tree_put [OF o' new' this _ s6(2) m f4(2), simplified]
    have "later R ?R4" using later_same_rest [OF sr] by simp
    then have "entered B R h b (new_entry k v) (B'[nat c := m']) ?R4 h' bs'"
      using put oth ents words full others_kept_trans by (auto simp: entered_def)
    then show ?thesis using call s6(3) ready by (auto simp: runs_def)
  qed
qed

text \<open>A key that it has, at a root without duplicates.\<close>

lemma binsky_refuse:
  assumes r: "repr s B P R" and P: "P \<subseteq> {b}" and R: "update_ready R b" and o: "open_tree B R h b bs"
    and k: "k = strncpy_term ZKYLEN key" and old: "lookup (tree_entries B h b) k \<noteq> None"
    and nodup: "word_of (B ! nat b) ZMISC = 0"
  shows "runs (binsky key v s) (\<lambda>(e, s').
    e = QF2BIG \<and> too_big B (find_start k (clear_err R)) h b s' \<or>
    e = QDUP \<and> (\<exists>B' R' h' bs'. repr s' B' P R' \<and> update_ready R' b \<and> open_tree B' R' h' b bs' \<and>
      later R R' \<and> others_kept B h b B' h' \<and> tree_entries B' h' b = tree_entries B h b \<and>
      (\<forall>t. 0 \<le> t \<and> t \<noteq> ZNKEYS \<longrightarrow> word_of (B' ! nat b) t = word_of (B ! nat b) t) \<and>
      (\<forall>f \<le> 10. stocked f B h b \<longrightarrow> stocked f B' h' b)))"
proof -
  let ?R1 = "find_start k (clear_err R)"
  from binsky_find [OF r P R o k, of v] obtain e s3 where s3:
    "binsky key v s = binsky_rest key k v (word_of (B ! nat b) ZMISC) e s3"
    "e = QF2BIG \<and> too_big B ?R1 h b s3 \<or> found_leaf B P ?R1 h b k e s3"
    by (elim exE conjE)
  show ?thesis
    using s3(2) unfolding found_leaf_def
  proof (elim disjE exE conjE)
    assume b: "e = QF2BIG" "too_big B ?R1 h b s3"
    then show ?thesis using s3(1) binsky_full [OF R b(2)] by (simp add: runs_def)
  next
    fix B' R' h' bs' res
    assume g: "repr s3 B' P (find_end k (fst res = 0) R')" "resplit B ?R1 h b B' R' h' bs'"
      "search_post B' h' b k ?R1 res R'" "e = (if fst res = 0 then 0 else QNOKEY)"
    have o': "open_tree B' R' h' b bs'" and ents: "tree_entries B' h' b = tree_entries B h b"
      and oth: "others_kept B h b B' h'" and sr: "same_rest ?R1 R'"
      and words: "\<forall>t. 0 \<le> t \<and> t \<noteq> ZNKEYS \<longrightarrow> word_of (B' ! nat b) t = word_of (B ! nat b) t"
      and full: "\<forall>f \<le> 10. stocked f B h b \<longrightarrow> stocked f B' h' b"
      using g(2) by (simp_all add: resplit_def)
    note S = search_post_D [OF g(3)]
    have st: "search_tree B' h' b" using o' by (simp add: open_tree_def)
    have f: "fst res = 0" using find_status(1) [OF st g(3)] old ents by simp
    have r3: "repr s3 B' P R'" using g(1) f by (simp add: find_end_def)
    have ready: "update_ready R' b" using ready_after [OF R sr S(2)] .
    have q: "qerror s3 = 0" "\<not> shared s3"
      using repr_fields(4,9) [OF r3] same_rest_fields(4) [OF sr] find_start_fields(5) ready
      by (simp_all add: update_ready_def)
    let ?s = "bterr ''BINSKY'' QDUP (Some key) s3" and ?R = "bterr ''BINSKY'' QDUP (Some key) R'"
    have call: "binsky key v s = Some (QDUP, ?s)"
      unfolding s3(1) binsky_rest_def using q g(4) f nodup
      by (simp add: bterr_records unlock_if_shared_def btgerr_def QNOKEY_def)
    have "repr ?s B' P ?R" using r3 by auto
    moreover have "open_tree B' ?R h' b bs'" using o' by (simp add: open_tree_def free_list_def)
    moreover have "update_ready ?R b" "later R ?R" using ready later_same_rest [OF sr] by (simp_all add: bterr_ready)
    ultimately have "\<exists>B' R' h' bs'. repr ?s B' P R' \<and> update_ready R' b \<and> open_tree B' R' h' b bs' \<and>
      later R R' \<and> others_kept B h b B' h' \<and> tree_entries B' h' b = tree_entries B h b \<and>
      (\<forall>t. 0 \<le> t \<and> t \<noteq> ZNKEYS \<longrightarrow> word_of (B' ! nat b) t = word_of (B ! nat b) t) \<and>
      (\<forall>f \<le> 10. stocked f B h b \<longrightarrow> stocked f B' h' b)"
      using oth ents words full by blast
    then show ?thesis using call by (simp add: runs_def)
  qed
qed

end
