(* ===== verification/Position.thy ===== *)
theory Position
  imports Update
begin

text \<open>
  A position in a tree is the current block and index and, on the stack, those of the blocks above. What
  it stands for is the list of the entries that are still to come in the order of their keys; after a
  search these are the entries with greater keys.
\<close>

lemma flat_Cons [simp]: "flat ((b, p) # ps) = b # p # flat ps"
  by (simp add: flat_def)

section \<open>What is still to come\<close>

primrec rest_from :: "memrec list \<Rightarrow> nat \<Rightarrow> int \<Rightarrow> nat \<Rightarrow> keyent list" where
  "rest_from B 0 b p = drop p (entries (B ! nat b))"
| "rest_from B (Suc h) b p =
     right_part p (map (tree_entries B h) (links (B ! nat b))) (entries (B ! nat b))"

text \<open>The positions above, from the nearest on; a block at the start of the list has height \<open>Suc h\<close>.\<close>

fun rest_up :: "memrec list \<Rightarrow> nat \<Rightarrow> (int \<times> int) list \<Rightarrow> keyent list" where
  "rest_up B h [] = []"
| "rest_up B h ((b, p) # ps) = rest_from B (Suc h) b (nat p) @ rest_up B (Suc h) ps"

text \<open>No block is empty, no key has duplicates.\<close>

definition filled :: "memrec list \<Rightarrow> nat \<Rightarrow> int \<Rightarrow> bool" where
  "filled B h b \<longleftrightarrow> wf_tree B h b \<and> no_dups (tree_entries B h b) \<and>
     (\<forall>c \<in> set (tree_blocks B h b). 0 < nkeys_of (B ! nat c))"

fun above_ok :: "memrec list \<Rightarrow> nat \<Rightarrow> (int \<times> int) list \<Rightarrow> bool" where
  "above_ok B h [] = True"
| "above_ok B h ((b, p) # ps) \<longleftrightarrow> filled B (Suc h) b \<and> 0 \<le> p \<and> above_ok B (Suc h) ps"

lemma rest_up_append: "rest_up B h (xs @ ys) = rest_up B h xs @ rest_up B (h + length xs) ys"
  by (induction B h xs rule: rest_up.induct) simp_all

lemma above_ok_append: "above_ok B h (xs @ ys) \<longleftrightarrow> above_ok B h xs \<and> above_ok B (h + length xs) ys"
  by (induction B h xs rule: above_ok.induct) auto

lemma filled_child:
  assumes "filled B (Suc h) b" "l \<in> set (links (B ! nat b))"
  shows "filled B h l"
proof -
  have "set (tree_entries B h l) \<subseteq> set (tree_entries B (Suc h) b)"
    using assms(2) wf_tree_links [of B "Suc h" b] assms(1) by (auto simp: filled_def set_interleave)
  then show ?thesis using assms child_blocks [OF assms(2), of h] by (auto simp: filled_def no_dups_def)
qed

lemma rest_end: "wf_tree B h b \<Longrightarrow> nkeys_of (B ! nat b) \<le> int p \<Longrightarrow> rest_from B h b p = []"
proof (cases h)
  case 0
  assume "wf_tree B h b" "nkeys_of (B ! nat b) \<le> int p"
  then show ?thesis using 0 wf_keys_D(2) [of "B ! nat b"] by simp
next
  case (Suc g)
  assume w: "wf_tree B h b" "nkeys_of (B ! nat b) \<le> int p"
  then have "length (entries (B ! nat b)) \<le> p" using wf_tree_D [OF w(1)] wf_keys_D(2) [of "B ! nat b"] by auto
  then show ?thesis using Suc by (simp add: right_part_def)
qed

text \<open>A key, then what is below the link to its right.\<close>

definition below :: "memrec list \<Rightarrow> nat \<Rightarrow> int \<Rightarrow> nat \<Rightarrow> keyent list" where
  "below B h b p = (case h of 0 \<Rightarrow> [] | Suc g \<Rightarrow> tree_entries B g (links (B ! nat b) ! p))"

lemma rest_step:
  assumes w: "wf_tree B h b" and p: "int p < nkeys_of (B ! nat b)"
  shows "rest_from B h b p = entries (B ! nat b) ! p # below B h b (Suc p) @ rest_from B h b (Suc p)"
proof -
  have l: "p < length (entries (B ! nat b))" "length (links (B ! nat b)) = Suc (length (entries (B ! nat b)))"
    using wf_tree_D [OF w] wf_keys_D(2) [of "B ! nat b"] wf_tree_links [OF w] p by auto
  show ?thesis
  proof (cases h)
    case 0
    then show ?thesis using l by (simp add: below_def Cons_nth_drop_Suc)
  next
    case (Suc g)
    have "drop (Suc p) (map (tree_entries B g) (links (B ! nat b))) =
        tree_entries B g (links (B ! nat b) ! Suc p) # drop (Suc (Suc p)) (map (tree_entries B g) (links (B ! nat b)))"
      using l by (subst Cons_nth_drop_Suc [symmetric]) simp_all
    moreover have "drop p (entries (B ! nat b)) = entries (B ! nat b) ! p # drop (Suc p) (entries (B ! nat b))"
      using l by (simp add: Cons_nth_drop_Suc)
    ultimately show ?thesis using Suc by (simp add: right_part_def below_def)
  qed
qed

lemma below_first:
  assumes w: "wf_tree B h b"
  shows "below B h b 0 @ rest_from B h b 0 = tree_entries B h b"
proof (cases h)
  case 0
  then show ?thesis by (simp add: below_def)
next
  case (Suc g)
  let ?cs = "map (tree_entries B g) (links (B ! nat b))"
  have "length ?cs = Suc (length (entries (B ! nat b)))" using wf_tree_links [OF w] by simp
  from interleave_split [OF this, of 0] this Suc show ?thesis by (simp add: below_def left_part_def)
qed

section \<open>A position\<close>

text \<open>\<open>scan_at B R hh es\<close>: in a tree of height \<open>hh\<close>, the entries \<open>es\<close> are still to come. The entry at
  the position has been handed out if \<open>lfexct\<close> is set. The flag \<open>x\<close> says whether the position may be
  behind the last key of a block although \<open>lfexct\<close> is set (inside the loop of \<open>bnxtky\<close>).\<close>

definition place_in :: "bool \<Rightarrow> memrec list \<Rightarrow> st \<Rightarrow> nat \<Rightarrow> (int \<times> int) list \<Rightarrow> keyent list \<Rightarrow> bool" where
  "place_in x B R h ps es \<longleftrightarrow>
     wf_tree B h (s_lfblk R) \<and> no_dups (tree_entries B h (s_lfblk R)) \<and> (h = 0 \<or> filled B h (s_lfblk R)) \<and>
     (0 \<le> s_lfpos R \<or> nkeys_of (B ! nat (s_lfblk R)) = 0) \<and>
     (s_lfexct R \<and> \<not> x \<longrightarrow> 0 \<le> s_lfpos R \<and> s_lfpos R < nkeys_of (B ! nat (s_lfblk R))) \<and>
     wf_stk (stk R) \<and> (\<exists>z. stack_of (stk R) = flat (rev (ps @ [(ZNULL, z)]))) \<and> above_ok B h ps \<and>
     es = (if s_lfexct R then tl else id) (rest_from B h (s_lfblk R) (nat (s_lfpos R))) @ rest_up B h ps"

definition scan_at :: "memrec list \<Rightarrow> st \<Rightarrow> nat \<Rightarrow> keyent list \<Rightarrow> bool" where
  "scan_at B R hh es \<longleftrightarrow> s_draddr R = ZNULL \<and> stk_array R \<and>
     (s_lfblk R = ZNULL \<and> \<not> s_lfexct R \<and> es = [] \<or>
      (\<exists>h ps. h + length ps = hh \<and> place_in False B R h ps es))"

section \<open>The position that a search leaves\<close>

text \<open>The blocks above the end of the path, from the nearest on.\<close>

definition above_path :: "memrec list \<Rightarrow> nat \<Rightarrow> int \<Rightarrow> string \<Rightarrow> (int \<times> int) list" where
  "above_path B h b k = rev (map (\<lambda>c. (c, int (place B k c))) (butlast (path B h b k)))"

abbreviation beyond :: "string \<Rightarrow> keyent list \<Rightarrow> keyent list" where
  "beyond k es \<equiv> filter (\<lambda>e. k < ke_key e) es"

lemma beyond_drop:
  assumes "sorted_keys es"
  shows "beyond k es = drop (if k \<in> ke_key ` set es then Suc (lower k es) else lower k es) es"
  using assms
proof (induction es)
  case (Cons e es)
  have e: "ke_key e < ke_key x" if "x \<in> set es" for x
    using Cons.prems that by (simp add: sorted_keys_def)
  have IH: "beyond k es = drop (if k \<in> ke_key ` set es then Suc (lower k es) else lower k es) es"
    using Cons by (simp add: sorted_keys_def)
  consider "ke_key e < k" | "ke_key e = k" | "k < ke_key e" by fastforce
  then show ?case
  proof cases
    case 1
    then have "k \<noteq> ke_key e" by auto
    then show ?thesis using IH 1 by (auto simp: lower_def)
  next
    case 2
    then have "beyond k es = es" using e by (simp add: filter_id_conv)
    then show ?thesis using 2 by (simp add: lower_def)
  next
    case 3
    have "k < ke_key x" if "x \<in> set es" for x using 3 e [OF that] by (rule less_trans)
    then have "beyond k es = es" "k \<notin> ke_key ` set es" by (auto simp: filter_id_conv)
    then show ?thesis using 3 by (auto simp: lower_def)
  qed
qed (simp add: lower_def)

lemma beyond_split:
  assumes "sorted_keys (xs @ y # zs)" "ke_key y = k"
  shows "beyond k (xs @ y # zs) = zs"
proof -
  have "\<forall>x \<in> set xs. ke_key x < k" "\<forall>z \<in> set zs. k < ke_key z"
    using assms by (auto simp: sorted_keys_def sorted_wrt_append)
  then show ?thesis using assms(2) by (auto simp: filter_empty_conv)
qed

lemma path_above:
  fixes k :: string
  assumes "wf_tree B h b" "sorted_keys (tree_entries B h b)" "no_dups (tree_entries B h b)" "h = 0 \<or> filled B h b"
  defines "c \<equiv> List.last (path B h b k)" and "ps \<equiv> above_path B h b k"
  shows "\<exists>g. g + length ps = h \<and> wf_tree B g c \<and> no_dups (tree_entries B g c) \<and> (g = 0 \<or> filled B g c) \<and> above_ok B g ps \<and>
    beyond k (tree_entries B h b) =
      (if has_key B k c then tl else id) (rest_from B g c (place B k c)) @ rest_up B g ps"
  using assms(1-4) unfolding c_def ps_def
proof (induction h arbitrary: b)
  case 0
  have "beyond k (entries (B ! nat b)) = (if has_key B k b then tl else id) (drop (place B k b) (entries (B ! nat b)))"
    using beyond_drop [of "entries (B ! nat b)" k] "0.prems"(2) by (simp add: has_key_def tl_drop [symmetric] drop_Suc)
  then show ?case using "0.prems" by (intro exI [of _ 0]) (simp add: above_path_def)
next
  case (Suc g)
  let ?cs = "map (tree_entries B g) (links (B ! nat b))" and ?es = "entries (B ! nat b)" and ?p = "place B k b"
  have f: "filled B (Suc g) b" using Suc.prems(4) by simp
  show ?case
  proof (cases "has_key B k b")
    case True
    have w: "wf_keys (B ! nat b)" using wf_tree_D [OF Suc.prems(1)] by blast
    have p: "?p < length ?es" "ke_key (?es ! ?p) = k"
      using True lower_present [OF wf_keys_D(4) [OF w]] by (auto simp: has_key_def)
    have "length ?cs = Suc (length ?es)" using wf_tree_links [OF Suc.prems(1)] by simp
    from interleave_split [OF this, of ?p] p have
      "tree_entries B (Suc g) b = (left_part ?p ?cs ?es @ ?cs ! ?p) @ rest_from B (Suc g) b ?p" by simp
    moreover have "int ?p < nkeys_of (B ! nat b)" using p(1) wf_keys_D(7) [OF w] by simp
    then have "\<exists>zs. rest_from B (Suc g) b ?p = ?es ! ?p # zs" using rest_step [OF Suc.prems(1)] by blast
    then obtain zs where "rest_from B (Suc g) b ?p = ?es ! ?p # zs" ..
    ultimately have "beyond k (tree_entries B (Suc g) b) = tl (rest_from B (Suc g) b ?p)"
      using beyond_split [of "left_part ?p ?cs ?es @ ?cs ! ?p" "?es ! ?p" zs k] Suc.prems(2) p(2) by simp
    then show ?thesis
      using True Suc.prems f by (intro exI [of _ "Suc g"]) (simp add: above_path_def del: rest_from.simps tree_entries.simps)
  next
    case False
    let ?c = "child B k b"
    have cl: "?c \<in> set (links (B ! nat b))" using nth_mem [OF place_le [OF Suc.prems(1)]] .
    have fc: "filled B g ?c" by (rule filled_child [OF f cl])
    obtain L R where t: "tree_entries B (Suc g) b = L @ tree_entries B g ?c @ R" "R = right_part ?p ?cs ?es"
        "\<forall>x \<in> set L. ke_key x < k" "\<forall>x \<in> set R. k < ke_key x"
      by (rule tree_split [OF Suc.prems(1,2) False])
    have "beyond k L = []" using t(3) by (auto simp: filter_empty_conv)
    moreover have "beyond k R = R" using t(4) by (simp add: filter_id_conv)
    ultimately have gr: "beyond k (tree_entries B (Suc g) b) = beyond k (tree_entries B g ?c) @ rest_from B (Suc g) b ?p"
      using t(1,2) by simp
    have "sorted_keys (tree_entries B g ?c)" using Suc.prems(2) unfolding t(1) by (simp add: sorted_keys_append)
    from Suc.IH [OF _ this] fc obtain n where n: "n + length (above_path B g ?c k) = g"
        "wf_tree B n (List.last (path B g ?c k))" "no_dups (tree_entries B n (List.last (path B g ?c k)))"
        "n = 0 \<or> filled B n (List.last (path B g ?c k))" "above_ok B n (above_path B g ?c k)"
        "beyond k (tree_entries B g ?c) = (if has_key B k (List.last (path B g ?c k)) then tl else id)
          (rest_from B n (List.last (path B g ?c k)) (place B k (List.last (path B g ?c k)))) @ rest_up B n (above_path B g ?c k)"
      by (auto simp: filled_def)
    have a: "above_path B (Suc g) b k = above_path B g ?c k @ [(b, int ?p)]" "List.last (path B (Suc g) b k) = List.last (path B g ?c k)"
      using False by (simp_all add: above_path_def)
    show ?thesis
      unfolding a gr n(6) using n f
      by (intro exI [of _ n]) (simp add: rest_up_append above_ok_append del: rest_from.simps)
  qed
qed

lemma open_filled:
  assumes o: "open_tree B R h b bs"
  shows "h = 0 \<or> filled B h b"
proof (cases h)
  case (Suc g)
  note D = open_tree_D [OF o]
  have "0 < nkeys_of (B ! nat c)" if "c \<in> set (tree_blocks B h b)" for c
    using D(11) [OF that] D(1) Suc by (cases "c = b") auto
  then show ?thesis using D(1,4) by (simp add: filled_def)
qed simp

lemma search_position:
  assumes o: "open_tree B R0 h b bs" and s: "search_post B h b k (find_start k R) res R'"
  shows "scan_at B R' h (beyond k (tree_entries B h b))"
proof -
  note D = open_tree_D [OF o]
  let ?c = "List.last (path B h b k)" and ?ps = "above_path B h b k"
  obtain g where g: "g + length ?ps = h" "wf_tree B g ?c" "no_dups (tree_entries B g ?c)" "g = 0 \<or> filled B g ?c" "above_ok B g ?ps"
      "beyond k (tree_entries B h b) = (if has_key B k ?c then tl else id) (rest_from B g ?c (place B k ?c)) @ rest_up B g ?ps"
    using path_above [OF D(1,2,4) open_filled [OF o], of k] by blast
  have w: "wf_keys (B ! nat ?c)" using wf_tree_D [OF g(2)] by blast
  have R: "wf_stk (stk R')" "lf R' = \<lparr>lfkey = k, lfblk = ?c, lfpos = end_pos B k ?c, lfexct = has_key B k ?c, draddr = ZNULL\<rparr>"
    "stack_of (stk R') = flat (rev (?ps @ [(ZNULL, ZNULL)]))"
    using s by (simp_all add: search_post_def Let_def find_start_fields trail_flat passed_def above_path_def)
  have h: "has_key B k ?c \<Longrightarrow> int (place B k ?c) < nkeys_of (B ! nat ?c)"
    using lower_present [OF wf_keys_D(4) [OF w]] wf_keys_D(7) [OF w] by (auto simp: has_key_def)
  have r: "rest_from B g ?c (nat (end_pos B k ?c)) = rest_from B g ?c (place B k ?c)"
    using rest_end [OF g(2)] by (simp add: end_pos_def)
  have "place_in False B R' g ?ps (beyond k (tree_entries B h b))"
    using R g h r by (auto simp: place_in_def end_pos_def split: if_splits)
  then show ?thesis using R g(1) by (auto simp: scan_at_def wf_stk_def)
qed

end
