(* ===== verification/Forest.thy ===== *)
theory Forest
  imports Position
begin

text \<open>
  All trees of an index file: the tree of the super root names the roots, the trees of the roots and the
  free list have no block in common. \<open>index_ok\<close> is the invariant of an open index; an operation on one
  tree that keeps the blocks in use outside it keeps the invariant (\<open>index_step\<close>). \<open>catalog\<close> is what the
  file stands for: a list of entries for every name.
\<close>

section \<open>The trees of a file\<close>

type_synonym heights = "int \<Rightarrow> nat"

definition tree_ok :: "memrec list \<Rightarrow> nat \<Rightarrow> int \<Rightarrow> bool" where
  "tree_ok B h r \<longleftrightarrow> search_tree B h r \<and> typed_tree B h r \<and> no_dups (tree_entries B h r)"

abbreviation entries_of :: "memrec list \<Rightarrow> heights \<Rightarrow> int \<Rightarrow> keyent list" where
  "entries_of B H r \<equiv> tree_entries B (H r) r"

abbreviation blocks_of :: "memrec list \<Rightarrow> heights \<Rightarrow> int \<Rightarrow> int set" where
  "blocks_of B H r \<equiv> set (tree_blocks B (H r) r)"

definition root_set :: "memrec list \<Rightarrow> heights \<Rightarrow> int set" where
  "root_set B H = insert ZSUPER (ke_val ` set (entries_of B H ZSUPER))"

definition forest :: "memrec list \<Rightarrow> heights \<Rightarrow> bool" where
  "forest B H \<longleftrightarrow> (\<forall>r \<in> root_set B H. tree_ok B (H r) r) \<and>
     (\<forall>r \<in> root_set B H. \<forall>q \<in> root_set B H. r \<noteq> q \<longrightarrow> blocks_of B H r \<inter> blocks_of B H q = {}) \<and>
     distinct (map ke_val (entries_of B H ZSUPER)) \<and> (\<exists>r \<in> root_set B H. r \<noteq> ZSUPER)"

lemma super_root [simp]: "ZSUPER \<in> root_set B H"
  by (simp add: root_set_def)

lemma tree_ok_in_use: "tree_ok B h r \<Longrightarrow> c \<in> set (tree_blocks B h r) \<Longrightarrow> in_use B c"
  using tree_blocks_valid [of B h r c] types_differ
  by (cases "c = r") (auto simp: tree_ok_def search_tree_def typed_tree_def)

lemma forest_open:
  assumes f: "forest B H" and l: "free_list B R bs" "length B < MXBLKS" and r: "r \<in> root_set B H"
  shows "open_tree B R (H r) r bs"
proof -
  have "\<exists>q \<in> root_set B H. q \<noteq> ZSUPER" using f by (simp add: forest_def)
  then obtain q where q: "q \<in> root_set B H" "q \<noteq> r" using super_root [of B H] by metis
  have t: "tree_ok B (H r) r" "tree_ok B (H q) q" using f r q by (auto simp: forest_def)
  have "in_use B q" using tree_ok_in_use [OF t(2) root_in_blocks] .
  moreover have "q \<notin> blocks_of B H r"
    using f r q root_in_blocks [of q B "H q"] unfolding forest_def by blast
  ultimately show ?thesis using t(1) l by (auto simp: open_tree_def tree_ok_def)
qed

section \<open>A step in one tree\<close>

text \<open>The other trees do not change.\<close>

lemma forest_others:
  assumes f: "forest B H" and r: "r \<in> root_set B H" "q \<in> root_set B H" "q \<noteq> r"
    and k: "others_kept B (H r) r B' h'"
  shows "\<forall>c \<in> blocks_of B H q. B' ! nat c = B ! nat c \<and> in_use B' c \<and> c \<notin> set (tree_blocks B' h' r)"
    "tree_ok B' (H q) q" "tree_entries B' (H q) q = entries_of B H q" "tree_blocks B' (H q) q = tree_blocks B (H q) q"
proof -
  have t: "tree_ok B (H q) q" using f r(2) by (auto simp: forest_def)
  show c: "\<forall>c \<in> blocks_of B H q. B' ! nat c = B ! nat c \<and> in_use B' c \<and> c \<notin> set (tree_blocks B' h' r)"
  proof
    fix c assume c: "c \<in> blocks_of B H q"
    have "c \<notin> blocks_of B H r" using f r c unfolding forest_def by blast
    then show "B' ! nat c = B ! nat c \<and> in_use B' c \<and> c \<notin> set (tree_blocks B' h' r)"
      using k tree_ok_in_use [OF t c] by (simp add: others_kept_def)
  qed
  have w: "wf_tree B (H q) q" using t by (simp add: tree_ok_def search_tree_def)
  have k: "wf_tree B' (H q) q \<and> tree_entries B' (H q) q = entries_of B H q \<and>
      tree_blocks B' (H q) q = tree_blocks B (H q) q"
    by (rule tree_kept [OF w]) (use c in blast)
  then show "tree_entries B' (H q) q = entries_of B H q" "tree_blocks B' (H q) q = tree_blocks B (H q) q" by simp_all
  have "typed_tree B' (H q) q"
    using t k c root_in_blocks [of q B "H q"] by (simp add: tree_ok_def typed_tree_def)
  then show "tree_ok B' (H q) q" using t k by (simp add: tree_ok_def search_tree_def)
qed

lemma forest_step:
  assumes f: "forest B H" and r: "r \<in> root_set B H" and o: "open_tree B' R' h' r bs'"
    and k: "others_kept B (H r) r B' h'" and z: "r = ZSUPER \<Longrightarrow> tree_entries B' h' r = entries_of B H r"
  shows "forest B' (H(r := h'))" "root_set B' (H(r := h')) = root_set B H"
    "entries_of B' (H(r := h')) ZSUPER = entries_of B H ZSUPER"
proof -
  let ?H = "H(r := h')"
  note O = forest_others [OF f r _ _ k]
  show s: "entries_of B' ?H ZSUPER = entries_of B H ZSUPER"
    using z O(3) [OF super_root] by (cases "r = ZSUPER") auto
  then show rs: "root_set B' ?H = root_set B H" by (simp add: root_set_def)
  have ok: "tree_ok B' (?H q) q" if "q \<in> root_set B H" for q
    using O(2) [OF that] o by (auto simp: open_tree_def tree_ok_def)
  have "blocks_of B' ?H q \<inter> blocks_of B' ?H p = {}" if q: "q \<in> root_set B H" "p \<in> root_set B H" "q \<noteq> p" for q p
  proof -
    have "blocks_of B H q \<inter> blocks_of B H p = {}" using f q unfolding forest_def by blast
    then show ?thesis
      using O(1,4) [OF q(1)] O(1,4) [OF q(2)] q(3) by (cases "q = r"; cases "p = r") auto
  qed
  then show "forest B' ?H" using ok f s unfolding forest_def rs by auto
qed

section \<open>The catalog\<close>

definition catalog :: "memrec list \<Rightarrow> heights \<Rightarrow> string \<Rightarrow> keyent list option" where
  "catalog B H n = map_option (entries_of B H) (lookup (entries_of B H ZSUPER) n)"

lemma lookup_in: "lookup es n = Some v \<Longrightarrow> \<exists>e \<in> set es. ke_key e = n \<and> ke_val e = v"
  by (auto simp: lookup_def find_Some_iff)

lemma lookup_root: "lookup (entries_of B H ZSUPER) n = Some r \<Longrightarrow> r \<in> root_set B H"
  using lookup_in by (fastforce simp: root_set_def)

lemma catalog_step:
  assumes f: "forest B H" and r: "lookup (entries_of B H ZSUPER) cur = Some r" and o: "open_tree B' R' h' r bs'"
    and k: "others_kept B (H r) r B' h'" and z: "r = ZSUPER \<Longrightarrow> tree_entries B' h' r = entries_of B H r"
  shows "catalog B' (H(r := h')) = (catalog B H)(cur \<mapsto> tree_entries B' h' r)"
proof
  fix n
  note rr = lookup_root [of B H cur r, OF r]
  note S = forest_step [OF f rr o k z]
  have st: "sorted_keys (entries_of B H ZSUPER)" and d: "distinct (map ke_val (entries_of B H ZSUPER))"
    using f super_root by (auto simp: forest_def tree_ok_def search_tree_def)
  show "catalog B' (H(r := h')) n = ((catalog B H)(cur \<mapsto> tree_entries B' h' r)) n"
  proof (cases "lookup (entries_of B H ZSUPER) n")
    case None
    then show ?thesis using S(3) r by (auto simp: catalog_def)
  next
    case (Some q)
    have "q \<noteq> r" if "n \<noteq> cur"
      using that d lookup_in [OF Some] lookup_in [OF r] by (auto simp: distinct_map dest: inj_onD)
    then show ?thesis
      using Some r S(3) forest_others(3) [OF f rr lookup_root [of B H n q, OF Some] _ k] by (auto simp: catalog_def)
  qed
qed

text \<open>A step that leaves the entries alone leaves the catalog alone, also in the super root.\<close>

lemma catalog_same:
  assumes f: "forest B H" and r: "r \<in> root_set B H" and o: "open_tree B' R' h' r bs'"
    and k: "others_kept B (H r) r B' h'" and z: "tree_entries B' h' r = entries_of B H r"
  shows "catalog B' (H(r := h')) = catalog B H"
proof
  fix n
  note S = forest_step [OF f r o k z]
  show "catalog B' (H(r := h')) n = catalog B H n"
  proof (cases "lookup (entries_of B H ZSUPER) n")
    case None
    then show ?thesis using S(3) by (simp add: catalog_def)
  next
    case (Some q)
    then show ?thesis
      using S(3) z forest_others(3) [OF f r lookup_root [of B H n q, OF Some] _ k] by (cases "q = r") (simp_all add: catalog_def)
  qed
qed

section \<open>The invariant of an open index\<close>

text \<open>The super root on disk: of this version, and with the words of the one in memory unless that is
  marked as modified.\<close>

definition saved :: "memrec list \<Rightarrow> st \<Rightarrow> bool" where
  "saved B R \<longleftrightarrow> super_ok (B ! nat ZSUPER) \<and> 0 \<le> smod (super R) \<and>
     (smod (super R) = 0 \<longrightarrow> word_of (B ! nat ZSUPER) ZMISC = snfree (super R) \<and>
        word_of (B ! nat ZSUPER) ZNXBLK = sfreep (super R) \<and> word_of (B ! nat ZSUPER) ZNBLKS = sblkmx (super R))"

text \<open>No root allows duplicates. (The word of the super root counts free blocks.)\<close>

definition plain_flags :: "memrec list \<Rightarrow> heights \<Rightarrow> bool" where
  "plain_flags B H \<longleftrightarrow> (\<forall>r \<in> root_set B H - {ZSUPER}. word_of (B ! nat r) ZMISC = 0)"

definition index_ok :: "memrec list \<Rightarrow> st \<Rightarrow> heights \<Rightarrow> int list \<Rightarrow> bool" where
  "index_ok B R H bs \<longleftrightarrow> forest B H \<and> free_list B R bs \<and> length B < MXBLKS \<and> saved B R \<and> plain_flags B H \<and>
     \<not> shared R \<and> stk_array R \<and> lckcnt R = 1 \<and> lkenv R = []"

lemma saved_step:
  assumes "saved B R" "later R R'"
    and "\<forall>t. 0 \<le> t \<and> t \<noteq> ZNKEYS \<longrightarrow> word_of (B' ! nat ZSUPER) t = word_of (B ! nat ZSUPER) t"
  shows "saved B' R'"
proof -
  have w: "word_of (B' ! nat ZSUPER) t = word_of (B ! nat ZSUPER) t" if "0 \<le> t" "t \<noteq> ZNKEYS" for t
    using assms(3) that by blast
  have "word_of (B' ! nat ZSUPER) 0 = word_of (B ! nat ZSUPER) 0"
    "word_of (B' ! nat ZSUPER) ZMISC = word_of (B ! nat ZSUPER) ZMISC"
    "word_of (B' ! nat ZSUPER) ZNXBLK = word_of (B ! nat ZSUPER) ZNXBLK"
    "word_of (B' ! nat ZSUPER) ZNBLKS = word_of (B ! nat ZSUPER) ZNBLKS"
    by (rule w; simp add: info_defs)+
  then show ?thesis
    using assms(1,2) by (auto simp: saved_def super_ok_def btype_of_def later_def super_later_def)
qed

lemma index_step:
  assumes i: "index_ok B R H bs" and r: "r \<in> root_set B H" and o: "open_tree B' R' h' r bs'"
    and k: "others_kept B (H r) r B' h'" and z: "r = ZSUPER \<Longrightarrow> tree_entries B' h' r = entries_of B H r"
    and l: "later R R'" "stk_array R'"
    and w: "\<forall>t. 0 \<le> t \<and> t \<noteq> ZNKEYS \<longrightarrow> word_of (B' ! nat r) t = word_of (B ! nat r) t"
  shows "index_ok B' R' (H(r := h')) bs'"
proof -
  have f: "forest B H" using i by (simp add: index_ok_def)
  note S = forest_step [OF f r o k z]
  have words: "\<forall>t. 0 \<le> t \<and> t \<noteq> ZNKEYS \<longrightarrow> word_of (B' ! nat q) t = word_of (B ! nat q) t"
    if "q \<in> root_set B H" for q
    using w forest_others(1) [OF f r that _ k] root_in_blocks [of q B "H q"] by (cases "q = r") auto
  have "saved B' R'" using saved_step [OF _ l(1) words [OF super_root]] i by (simp add: index_ok_def)
  moreover have "plain_flags B' (H(r := h'))"
    using i words by (auto simp: index_ok_def plain_flags_def S(2) ZMISC_def ZNKEYS_def)
  moreover have "free_list B' R' bs'" "length B' < MXBLKS" using open_tree_D(5,6) [OF o] by simp_all
  ultimately show ?thesis using i S(1) l by (simp add: index_ok_def later_def)
qed

lemma index_open:
  "index_ok B R H bs \<Longrightarrow> r \<in> root_set B H \<Longrightarrow> open_tree B R (H r) r bs"
  using forest_open by (simp add: index_ok_def)

text \<open>The file, open for update, cannot grow any more: the error is recorded, the roots are still there.\<close>

definition stuck :: "memrec list \<Rightarrow> st \<Rightarrow> heights \<Rightarrow> st \<Rightarrow> bool" where
  "stuck B R H s' \<longleftrightarrow> (\<exists>B' P' R'. repr s' B' P' R' \<and> card P' < ZMXBLK \<and> qerror R' = QF2BIG \<and> \<not> shared R' \<and>
     smode (super R) = 0 \<and> s_scroot R' = s_scroot R \<and>
     (\<forall>q \<in> root_set B H. valid_blk B' q))"

lemma too_big_stuck:
  assumes i: "index_ok B R H bs" and r: "r \<in> root_set B H" and t: "too_big B (find_start k R) (H r) r s'" and m: "smode (super R) = 0"
  shows "stuck B R H s'"
proof -
  obtain B' P' R' h' where t: "repr s' B' P' (bterr ''BGTFRE'' QF2BIG None R')" "card P' < ZMXBLK"
      "resplit B (find_start k R) (H r) r B' R' h' []"
    using t by (auto simp: too_big_def)
  have f: "forest B H" using i by (simp add: index_ok_def)
  have o: "open_tree B' R' h' r []" and k: "others_kept B (H r) r B' h'" and sr: "same_rest (find_start k R) R'"
    using t(3) by (simp_all add: resplit_def)
  have "valid_blk B' q" if "q \<in> root_set B H" for q
    using forest_others(1) [OF f r that _ k] root_in_blocks [of q B "H q"] open_tree_D(7) [OF o root_in_blocks]
    by (cases "q = r") auto
  moreover have "qerror R' = 0" "\<not> shared R'"
    using same_rest_fields(2,4) [OF sr] find_start_fields(5,6) i by (simp_all add: index_ok_def)
  then have "qerror (bterr ''BGTFRE'' QF2BIG None R') = QF2BIG" "\<not> shared (bterr ''BGTFRE'' QF2BIG None R')"
    "s_scroot (bterr ''BGTFRE'' QF2BIG None R') = s_scroot R"
    using same_rest_fields [OF sr] find_start_fields(4) by (simp_all add: bterr_records)
  ultimately show ?thesis using t(1,2) m unfolding stuck_def by blast
qed

text \<open>\<open>bfndky\<close> in any of the trees, in an index open for update or for reading.\<close>

lemma index_find:
  assumes s: "repr s B P R" "P \<subseteq> {r}" and i: "index_ok B R H bs" and r: "r \<in> root_set B H" "s_scroot R = r"
    and k: "k = strncpy_term ZKYLEN key"
  shows "runs (bfndky key v s) (\<lambda>((e, w), s'). e = QF2BIG \<and> stuck B R H s' \<or>
    (\<exists>B' R' h' bs'. repr s' B' P R' \<and> index_ok B' R' (H(r := h')) bs' \<and> later R R' \<and>
      root_set B' (H(r := h')) = root_set B H \<and> entries_of B' (H(r := h')) ZSUPER = entries_of B H ZSUPER \<and>
      catalog B' (H(r := h')) = catalog B H \<and> tree_entries B' h' r = entries_of B H r \<and>
      (case lookup (entries_of B H r) k of None \<Rightarrow> e = QNOKEY | Some x \<Rightarrow> e = 0 \<and> w = Some x) \<and> qerror R' = e \<and>
      scan_at B' R' h' (beyond k (entries_of B H r)) \<and>
      (\<forall>f \<le> 10. stocked f B (H r) r \<longrightarrow> stocked f B' h' r)))"
proof -
  note o = index_open [OF i r(1)]
  note D = open_tree_D [OF o]
  have f: "forest B H" and R: "\<not> shared R" "stk_array R" using i by (simp_all add: index_ok_def)
  have post: "\<exists>B' R' h' bs'. repr s' B' P R' \<and> index_ok B' R' (H(r := h')) bs' \<and> later R R' \<and>
      root_set B' (H(r := h')) = root_set B H \<and> entries_of B' (H(r := h')) ZSUPER = entries_of B H ZSUPER \<and>
      catalog B' (H(r := h')) = catalog B H \<and> tree_entries B' h' r = entries_of B H r \<and>
      (case lookup (entries_of B H r) k of None \<Rightarrow> e = QNOKEY | Some x \<Rightarrow> e = 0 \<and> w = Some x) \<and> qerror R' = e \<and>
      scan_at B' R' h' (beyond k (entries_of B H r)) \<and>
      (\<forall>f \<le> 10. stocked f B (H r) r \<longrightarrow> stocked f B' h' r)"
    if g: "repr s' B' P (find_end k (fst res = 0) R')" "resplit B (find_start k R) (H r) r B' R' h' bs'"
      "search_post B' h' r k (find_start k R) res R'" "w = snd res" "e = (if fst res = 0 then 0 else QNOKEY)"
    for e w s' B' R' h' bs' res
  proof -
    have o': "open_tree B' R' h' r bs'" and ents: "tree_entries B' h' r = entries_of B H r"
      and k': "others_kept B (H r) r B' h'" and sr: "same_rest (find_start k R) R'"
      and w: "\<forall>t. 0 \<le> t \<and> t \<noteq> ZNKEYS \<longrightarrow> word_of (B' ! nat r) t = word_of (B ! nat r) t"
      using g(2) by (simp_all add: resplit_def)
    have st: "\<forall>f \<le> 10. stocked f B (H r) r \<longrightarrow> stocked f B' h' r" using g(2) by (simp add: resplit_def)
    let ?R = "find_end k (fst res = 0) R'"
    have l: "later R ?R" "stk_array ?R"
      using later_same_rest [OF sr] search_post_D(2) [OF g(3)] by (auto simp: find_end_def wf_stk_def)
    have "open_tree B' ?R h' r bs'" using o' by (simp add: open_tree_def free_list_def find_end_def)
    then have "index_ok B' ?R (H(r := h')) bs'" by (rule index_step [OF i r(1) _ k' ents l w])
    moreover have "search_tree B' h' r" using o' by (simp add: open_tree_def)
    from find_status [OF this g(3)] have
      "case lookup (entries_of B H r) k of None \<Rightarrow> e = QNOKEY | Some x \<Rightarrow> e = 0 \<and> w = Some x"
      using ents g(4,5) by (auto split: option.split)
    moreover have "qerror ?R = e"
      using same_rest_fields(4) [OF sr] g(5) by (simp add: find_start_fields find_end_def bterr_records)
    moreover have "scan_at B' ?R h' (beyond k (entries_of B H r))"
      using search_position [OF o' g(3)] ents by (simp add: scan_at_def place_in_def find_end_def)
    ultimately show ?thesis
      using g(1) l(1) ents st forest_step(2,3) [OF f r(1) o' k' ents] catalog_same [OF f r(1) o' k' ents] by blast
  qed
  show ?thesis
  proof (cases "smode (super R) = 0")
    case True
    then have "update_ready R r" using R r(2) by (simp add: update_ready_def)
    show ?thesis
    proof (rule runs_conseq [OF bfndky_update [OF s \<open>update_ready R r\<close> o k, of v]],
        simp only: split_paired_all prod.case, elim disjE conjE exE, goal_cases)
      case (1 e w s')
      then show ?case using too_big_stuck [OF i r(1) _ True] by blast
    next
      case (2 e w s' B' R' h' bs' res)
      from post [OF 2(1-3,5,6)] show ?case by blast
    qed
  next
    case False
    have card: "card P < ZMXBLK" using card_mono [OF _ s(2)] by (simp add: ZMXBLK_def)
    have ns: "no_split B (H r) r R" using False by (simp add: no_split_def)
    show ?thesis
    proof (rule runs_conseq [OF bfndky_spec [OF s(1) R(1) r(2) R(2) D(1) card ns D(4,8) k, of v]],
        simp only: split_paired_all prod.case, elim conjE exE, goal_cases)
      case (1 e w s' R' res)
      have "open_tree B (find_start k R) (H r) r bs" using o by (simp add: open_tree_def free_list_def find_start_fields)
      then have "resplit B (find_start k R) (H r) r B R' (H r) bs"
        using search_post_D(1) [OF 1(1)] 1(2) by (intro resplit_refl) (simp_all add: find_start_fields)
      from post [OF 1(5) this 1(1,3,4)] show ?case by blast
    qed
  qed
qed

text \<open>\<open>binsky\<close> in the tree of a root.\<close>

lemma index_insert:
  fixes v :: int
  assumes s: "repr s B P R" "P \<subseteq> {r}" and i: "index_ok B R H bs"
    and r: "lookup (entries_of B H ZSUPER) cur = Some r" "r \<noteq> ZSUPER" "s_scroot R = r" "smode (super R) = 0"
    and k: "k = strncpy_term ZKYLEN key"
  defines "es \<equiv> entries_of B H r"
  defines "es' \<equiv> (if lookup es k = None then insert_at (lower k es) (new_entry k v) es else es)"
  shows "runs (binsky key v s) (\<lambda>(e, s'). e = QF2BIG \<or> e = (if lookup es k = None then 0 else QDUP) \<and>
    (\<exists>B' R' h' bs'. repr s' B' P R' \<and> index_ok B' R' (H(r := h')) bs' \<and> later R R' \<and>
      entries_of B' (H(r := h')) ZSUPER = entries_of B H ZSUPER \<and>
      catalog B' (H(r := h')) = (catalog B H)(cur \<mapsto> es') \<and>
      (\<forall>f \<le> 10. stocked f B (H r) r \<longrightarrow> stocked f B' h' r)))"
proof -
  have rr: "r \<in> root_set B H" using lookup_root [of B H cur r, OF r(1)] .
  note o = index_open [OF i rr]
  have f: "forest B H" using i by (simp add: index_ok_def)
  have ready: "update_ready R r" using i r(3,4) by (simp add: update_ready_def index_ok_def)
  have flag: "word_of (B ! nat r) ZMISC = 0" using i rr r(2) by (simp add: index_ok_def plain_flags_def)
  have step: "index_ok B' R' (H(r := h')) bs' \<and> entries_of B' (H(r := h')) ZSUPER = entries_of B H ZSUPER \<and>
      catalog B' (H(r := h')) = (catalog B H)(cur \<mapsto> tree_entries B' h' r)"
    if "open_tree B' R' h' r bs'" "others_kept B (H r) r B' h'" "later R R'" "update_ready R' r"
      "\<forall>t. 0 \<le> t \<and> t \<noteq> ZNKEYS \<longrightarrow> word_of (B' ! nat r) t = word_of (B ! nat r) t" for B' R' h' bs'
    using index_step [OF i rr that(1,2) _ that(3) _ that(5)] that(4) r(2)
      forest_step(3) [OF f rr that(1,2)] catalog_step [OF f r(1) that(1,2)] by (simp add: update_ready_def)
  show ?thesis
  proof (cases "lookup es k")
    case None
    have n: "lookup (tree_entries B (H r) r) k = None" using None by (simp add: es_def)
    show ?thesis
    proof (rule runs_conseq [OF binsky_enter [OF s ready o k n, of v]], simp only: split_paired_all prod.case, elim disjE conjE exE, goal_cases)
      case (1 e s')
      then show ?case by simp
    next
      case (2 e s' B' R' h' bs')
      have "open_tree B' R' h' r bs'" "others_kept B (H r) r B' h'" and l: "later R R'"
        and w: "\<forall>t. 0 \<le> t \<and> t \<noteq> ZNKEYS \<longrightarrow> word_of (B' ! nat r) t = word_of (B ! nat r) t"
        and ents: "tree_entries B' h' r = es'" and full: "\<forall>f \<le> 10. stocked f B (H r) r \<longrightarrow> stocked f B' h' r"
        using 2(4) n by (simp_all add: entered_def es'_def es_def)
      note st = step [OF this(1,2) l 2(3) w]
      show ?case
        by (intro disjI2 conjI exI [of _ B'] exI [of _ R'] exI [of _ h'] exI [of _ bs'])
          (use st ents 2(1,2) None l full in simp_all)
    qed
  next
    case (Some x)
    have n: "lookup (tree_entries B (H r) r) k \<noteq> None" using Some by (simp add: es_def)
    show ?thesis
    proof (rule runs_conseq [OF binsky_refuse [OF s ready o k n flag, of v]], simp only: split_paired_all prod.case, elim disjE conjE exE, goal_cases)
      case (1 e s')
      then show ?case by simp
    next
      case (2 e s' B' R' h' bs')
      have ents: "tree_entries B' h' r = es'" using 2(7) Some by (simp add: es'_def es_def)
      note st = step [OF 2(4,6,5,3,8)]
      show ?case
        by (intro disjI2 conjI exI [of _ B'] exI [of _ R'] exI [of _ h'] exI [of _ bs'])
          (use st ents 2(1,2,5,9) Some in simp_all)
    qed
  qed
qed

end
