(* ===== verification/Index.thy ===== *)
theory Index
  imports Forest
begin

text \<open>
  What an open index promises its user, without its blocks: it holds an ordered list of entries,
  \<open>binsky\<close> puts an entry at its place, \<open>bfndky\<close> looks one up. The interface is the locale
  \<open>ordered_index\<close>; its client is the filling of an index key by key.
\<close>

section \<open>The interface\<close>

text \<open>Insertions one after the other, up to the first that finds the file full.\<close>

fun insert_all ::
  "int \<Rightarrow> (string \<Rightarrow> int \<Rightarrow> 's \<Rightarrow> (int \<times> 's) option) \<Rightarrow> (string \<times> int) list \<Rightarrow> 's \<Rightarrow> (int \<times> 's) option" where
  "insert_all full ins [] s = Some (0, s)"
| "insert_all full ins ((k, v) # kvs) s = do {
     (e, s) \<leftarrow> ins k v s;
     if e = full then Some (e, s) else insert_all full ins kvs s
   }"

text \<open>What they mean for a finite map: the first value of a key is the one that is kept.\<close>

fun keep_first :: "(string \<Rightarrow> string) \<Rightarrow> (string \<times> int) list \<Rightarrow> (string \<Rightarrow> int option) \<Rightarrow> string \<Rightarrow> int option" where
  "keep_first norm [] m = m"
| "keep_first norm ((k, v) # kvs) m =
     keep_first norm kvs (if m (norm k) = None then m(norm k \<mapsto> v) else m)"

locale ordered_index =
  fixes holds :: "'s \<Rightarrow> keyent list \<Rightarrow> bool"
    and ins :: "string \<Rightarrow> int \<Rightarrow> 's \<Rightarrow> (int \<times> 's) option"
    and find :: "string \<Rightarrow> 's \<Rightarrow> ((int \<times> int option) \<times> 's) option"
    and norm :: "string \<Rightarrow> string" and full dup nokey :: int
  assumes codes: "full \<noteq> 0" "full \<noteq> dup" "full \<noteq> nokey"
    and holds_sorted: "holds s es \<Longrightarrow> sorted_keys es"
    and ins_new: "holds s es \<Longrightarrow> lookup es (norm k) = None \<Longrightarrow>
      runs (ins k v s) (\<lambda>(e, s'). e = full \<or>
        e = 0 \<and> holds s' (insert_at (lower (norm k) es) (new_entry (norm k) v) es))"
    and ins_old: "holds s es \<Longrightarrow> lookup es (norm k) \<noteq> None \<Longrightarrow>
      runs (ins k v s) (\<lambda>(e, s'). e = full \<or> e = dup \<and> holds s' es)"
    and find_key: "holds s es \<Longrightarrow>
      runs (find k s) (\<lambda>((e, w), s'). e = full \<or> holds s' es \<and>
        (case lookup es (norm k) of None \<Rightarrow> e = nokey | Some x \<Rightarrow> e = 0 \<and> w = Some x))"
begin

lemma ins_any:
  assumes "holds s es"
  shows "runs (ins k v s) (\<lambda>(e, s'). e = full \<or> e \<noteq> full \<and> (\<exists>es'. holds s' es' \<and>
    lookup es' = (if lookup es (norm k) = None then (lookup es)(norm k \<mapsto> v) else lookup es)))"
proof (cases "lookup es (norm k) = None")
  case True
  let ?es = "insert_at (lower (norm k) es) (new_entry (norm k) v) es"
  have st: "sorted_keys ?es"
    using holds_sorted [OF assms] sorted_keys_insert [of es "new_entry (norm k) v"] True
    by (simp add: lookup_None)
  have "lookup ?es = (lookup es)(norm k \<mapsto> v)"
    using lookup_insert [OF holds_sorted [OF assms] st] by (simp add: set_insert_at fun_eq_iff)
  then show ?thesis
    using codes True by (intro runs_conseq [OF ins_new [OF assms True, of v]]) auto
next
  case False
  then show ?thesis
    using codes by (intro runs_conseq [OF ins_old [OF assms False, of v]]) auto
qed

lemma fill:
  "holds s es \<Longrightarrow> runs (insert_all full ins kvs s) (\<lambda>(e, s'). e = full \<or>
     e = 0 \<and> (\<exists>es'. holds s' es' \<and> lookup es' = keep_first norm kvs (lookup es)))"
proof (induction kvs arbitrary: s es)
  case Nil
  then show ?case by auto
next
  case (Cons x kvs)
  obtain k v where x: "x = (k, v)" by (cases x)
  show ?case
    unfolding x insert_all.simps
  proof (rule runs_bindI [OF ins_any [OF Cons.prems, of k v]], simp only: split_paired_all prod.case, elim disjE conjE exE, goal_cases)
    case (1 e s')
    then show ?case by simp
  next
    case (2 e s' es')
    then show ?case using Cons.IH [OF 2(2)] by simp
  qed
qed

text \<open>The index answers for what was put in.\<close>

lemma fill_then_find:
  assumes "holds s es"
  shows "runs (do { (e, s) \<leftarrow> insert_all full ins kvs s;
      if e = full then Some (full, None) else do { ((e, w), s) \<leftarrow> find k s; Some (e, w) } })
    (\<lambda>(e, w). e = full \<or>
      (case keep_first norm kvs (lookup es) (norm k) of None \<Rightarrow> e = nokey | Some x \<Rightarrow> e = 0 \<and> w = Some x))"
proof (rule runs_bindI [OF fill [OF assms, of kvs]], simp only: split_paired_all prod.case, elim disjE conjE exE, goal_cases)
  case (1 e s')
  then show ?case by simp
next
  case (2 e s' es')
  show ?case
    using codes 2 by (auto simp: runs_bind split: option.splits intro: runs_conseq [OF find_key [OF 2(2)]])
qed

end

section \<open>An open index\<close>

text \<open>The state \<open>s\<close> has an index open with access mode \<open>md\<close> (0: for update), whose current root has the name
  \<open>cur\<close>, and which holds the list of entries \<open>M n\<close> under every name \<open>n\<close>. The super root has the name
  \<open>$$super\<close>.\<close>

definition serves :: "int \<Rightarrow> string \<Rightarrow> (string \<Rightarrow> keyent list option) \<Rightarrow> st \<Rightarrow> bool" where
  "serves md cur M s \<longleftrightarrow> (\<exists>B P R H bs r. repr s B P R \<and> P \<subseteq> {r} \<and> index_ok B R H bs \<and>
     lookup (entries_of B H ZSUPER) cur = Some r \<and>
     lookup (entries_of B H ZSUPER) ''$$super'' = Some ZSUPER \<and> s_scroot R = r \<and> scclas (super R) = cur \<and>
     smode (super R) = md \<and> catalog B H = M)"

lemma index_super_name:
  assumes i: "index_ok B R H bs" and r: "lookup (entries_of B H ZSUPER) cur = Some r"
    and z: "lookup (entries_of B H ZSUPER) ''$$super'' = Some ZSUPER"
  shows "r = ZSUPER \<longleftrightarrow> cur = ''$$super''"
proof -
  have "distinct (map ke_val (entries_of B H ZSUPER))" using i by (simp add: index_ok_def forest_def)
  moreover obtain e where "e \<in> set (entries_of B H ZSUPER)" "ke_key e = cur" "ke_val e = r"
    using lookup_in [OF r] by blast
  moreover obtain f where "f \<in> set (entries_of B H ZSUPER)" "ke_key f = ''$$super''" "ke_val f = ZSUPER"
    using lookup_in [OF z] by blast
  ultimately show ?thesis using r z unfolding distinct_map inj_on_def by (metis option.inject)
qed

lemma serves_current:
  assumes "serves md cur M s"
  obtains es where "M cur = Some es" "sorted_keys es"
proof -
  obtain B P R H bs r where S: "index_ok B R H bs" "lookup (entries_of B H ZSUPER) cur = Some r" "catalog B H = M"
    using assms by (auto simp: serves_def)
  have "r \<in> root_set B H" using lookup_root [of B H cur r, OF S(2)] .
  then have "sorted_keys (entries_of B H r)"
    using S(1) by (auto simp: index_ok_def forest_def tree_ok_def search_tree_def)
  then show thesis using that S(2,3) by (auto simp: catalog_def)
qed

text \<open>The index \<open>serves md cur M\<close>, and the entries \<open>es\<close> of its current root are still to come.\<close>

definition scanning :: "int \<Rightarrow> string \<Rightarrow> (string \<Rightarrow> keyent list option) \<Rightarrow> st \<Rightarrow> keyent list \<Rightarrow> bool" where
  "scanning md cur M s es \<longleftrightarrow> (\<exists>B P R H bs r. repr s B P R \<and> P \<subseteq> {r} \<and> index_ok B R H bs \<and>
     lookup (entries_of B H ZSUPER) cur = Some r \<and> lookup (entries_of B H ZSUPER) ''$$super'' = Some ZSUPER \<and>
     s_scroot R = r \<and> scclas (super R) = cur \<and> smode (super R) = md \<and> catalog B H = M \<and> scan_at B R (H r) es)"

lemma scanning_serves: "scanning md cur M s es \<Longrightarrow> serves md cur M s"
  unfolding scanning_def serves_def by blast

text \<open>\<open>bfndky\<close> leaves the position behind the entries with smaller keys, and behind that of the key itself.\<close>

lemma scanning_find:
  assumes "serves md cur M s" and es: "M cur = Some es"
  shows "runs (bfndky k None s) (\<lambda>((e, w), s'). e = QF2BIG \<and> md = 0 \<or>
    scanning md cur M s' (beyond (strncpy_term ZKYLEN k) es) \<and>
    (case lookup es (strncpy_term ZKYLEN k) of None \<Rightarrow> e = QNOKEY | Some x \<Rightarrow> e = 0 \<and> w = Some x))"
proof -
  obtain B P R H bs r where S: "repr s B P R" "P \<subseteq> {r}" "index_ok B R H bs"
      "lookup (entries_of B H ZSUPER) cur = Some r" "lookup (entries_of B H ZSUPER) ''$$super'' = Some ZSUPER" "s_scroot R = r" "scclas (super R) = cur"
      "smode (super R) = md" "catalog B H = M"
    using assms(1) by (auto simp: serves_def)
  have rr: "r \<in> root_set B H" using lookup_root [of B H cur r, OF S(4)] .
  have ents: "entries_of B H r = es" using es S(4,9) by (auto simp: catalog_def)
  show ?thesis
  proof (rule runs_conseq [OF index_find [OF S(1-3) rr S(6) refl, of k None]],
      simp only: split_paired_all prod.case, elim disjE conjE exE, goal_cases)
    case (1 e w s')
    then show ?case using S(8) by (auto simp: stuck_def)
  next
    case (2 e w s' B' R' h' bs')
    have "s_scroot R' = r" "scclas (super R') = cur" "smode (super R') = md"
      using 2(3) S(6-8) by (simp_all add: later_def super_later_def)
    then have "scanning md cur M s' (beyond (strncpy_term ZKYLEN k) es)"
      unfolding scanning_def using 2(1,2) 2(5,6,10) S(2,4,5,9) ents
      by (intro exI [of _ B'] exI [of _ P] exI [of _ R'] exI [of _ "H(r := h')"] exI [of _ bs'] exI [of _ r]) simp
    then show ?case using 2(8) ents by simp
  qed
qed

lemma serves_find:
  assumes "serves md cur M s" and es: "M cur = Some es"
  shows "runs (bfndky k None s) (\<lambda>((e, w), s'). e = QF2BIG \<and> md = 0 \<or> serves md cur M s' \<and>
    (case lookup es (strncpy_term ZKYLEN k) of None \<Rightarrow> e = QNOKEY | Some x \<Rightarrow> e = 0 \<and> w = Some x))"
  by (rule runs_conseq [OF scanning_find [OF assms]]) (auto dest: scanning_serves)

text \<open>The index is open for update, and the blocks below the current root have at least \<open>f\<close> keys.\<close>

definition stocks :: "nat \<Rightarrow> string \<Rightarrow> (string \<Rightarrow> keyent list option) \<Rightarrow> st \<Rightarrow> bool" where
  "stocks f cur M s \<longleftrightarrow> (\<exists>B P R H bs r. repr s B P R \<and> P \<subseteq> {r} \<and> index_ok B R H bs \<and>
     lookup (entries_of B H ZSUPER) cur = Some r \<and>
     lookup (entries_of B H ZSUPER) ''$$super'' = Some ZSUPER \<and> s_scroot R = r \<and> scclas (super R) = cur \<and>
     smode (super R) = 0 \<and> catalog B H = M \<and> stocked f B (H r) r)"

lemma blocks_wf: "wf_tree B h b \<Longrightarrow> c \<in> set (tree_blocks B h b) \<Longrightarrow> wf_keys (B ! nat c)"
  by (induction h arbitrary: b) auto

lemma stocked_0:
  assumes "index_ok B R H bs" "r \<in> root_set B H"
  shows "stocked 0 B (H r) r"
proof -
  have "wf_tree B (H r) r" using open_tree_D(1) [OF index_open [OF assms]] .
  then have "wf_keys (B ! nat c)" if "c \<in> set (tree_blocks B (H r) r)" for c using that by (rule blocks_wf)
  then show ?thesis by (auto simp: stocked_def wf_keys_def)
qed

lemma stocked_less: "stocked f B h b \<Longrightarrow> g \<le> f \<Longrightarrow> stocked g B h b"
  unfolding stocked_def by (intro ballI, drule bspec, assumption) linarith

lemma stocks_serves: "stocks f cur M s \<Longrightarrow> serves 0 cur M s"
  unfolding stocks_def serves_def by blast

lemma serves_stocks: "serves 0 cur M s \<Longrightarrow> stocks 0 cur M s"
  unfolding stocks_def serves_def using stocked_0 lookup_root by blast

lemma stocks_less: "stocks f cur M s \<Longrightarrow> g \<le> f \<Longrightarrow> stocks g cur M s"
  unfolding stocks_def using stocked_less by blast

lemma stocks_insert:
  fixes v :: int and key :: string
  assumes "stocks f cur M s" "f \<le> 10" and es: "M cur = Some es" and ns: "cur \<noteq> ''$$super''"
  defines "k \<equiv> strncpy_term ZKYLEN key"
  shows "runs (binsky key v s) (\<lambda>(e, s'). e = QF2BIG \<or> e = (if lookup es k = None then 0 else QDUP) \<and>
    stocks f cur (M(cur \<mapsto> if lookup es k = None then insert_at (lower k es) (new_entry k v) es else es)) s')"
proof -
  obtain B P R H bs r where S: "repr s B P R" "P \<subseteq> {r}" "index_ok B R H bs"
      "lookup (entries_of B H ZSUPER) cur = Some r" "lookup (entries_of B H ZSUPER) ''$$super'' = Some ZSUPER" "s_scroot R = r" "scclas (super R) = cur"
      "smode (super R) = 0" "catalog B H = M" "stocked f B (H r) r"
    using assms(1) by (auto simp: stocks_def)
  have ents: "entries_of B H r = es" using es S(4,9) by (auto simp: catalog_def)
  have r: "r \<noteq> ZSUPER" using index_super_name [OF S(3-5)] ns by blast
  show ?thesis
  proof (rule runs_conseq [OF index_insert [OF S(1-4) r S(6,8) k_def [THEN meta_eq_to_obj_eq], of v]],
      simp only: split_paired_all prod.case, elim disjE conjE exE, goal_cases)
    case (1 e s')
    then show ?case by simp
  next
    case (2 e s' B' R' h' bs')
    have "s_scroot R' = r" "scclas (super R') = cur" "smode (super R') = 0"
      using 2(4) S(6-8) by (simp_all add: later_def super_later_def)
    then have "stocks f cur (M(cur \<mapsto> if lookup es k = None then insert_at (lower k es) (new_entry k v) es else es)) s'"
      unfolding stocks_def using 2(2,3) 2(5,6,7) S(2,4,5,9,10) ents assms(2)
      by (intro exI [of _ B'] exI [of _ P] exI [of _ R'] exI [of _ "H(r := h')"] exI [of _ bs'] exI [of _ r]) simp
    then show ?case using 2(1) ents by simp
  qed
qed

lemma serves_insert:
  fixes v :: int and key :: string
  assumes "serves 0 cur M s" and "M cur = Some es" and "cur \<noteq> ''$$super''"
  defines "k \<equiv> strncpy_term ZKYLEN key"
  shows "runs (binsky key v s) (\<lambda>(e, s'). e = QF2BIG \<or> e = (if lookup es k = None then 0 else QDUP) \<and>
    serves 0 cur (M(cur \<mapsto> if lookup es k = None then insert_at (lower k es) (new_entry k v) es else es)) s')"
  unfolding k_def by (rule runs_conseq [OF stocks_insert [OF serves_stocks [OF assms(1)] _ assms(2,3)]]) (auto dest: stocks_serves)

text \<open>The current root as an ordered index; the other roots stay what they are.\<close>

interpretation bix: ordered_index "\<lambda>s es. cur \<noteq> ''$$super'' \<and> serves 0 cur (M(cur \<mapsto> es)) s" binsky "\<lambda>k. bfndky k None"
  "strncpy_term ZKYLEN" QF2BIG QDUP QNOKEY for cur M
proof
  show "QF2BIG \<noteq> 0" "QF2BIG \<noteq> QDUP" "QF2BIG \<noteq> QNOKEY" by (simp_all add: QF2BIG_def QDUP_def QNOKEY_def)
  show "sorted_keys es" if "cur \<noteq> ''$$super'' \<and> serves 0 cur (M(cur \<mapsto> es)) s" for s es
    using serves_current [OF that [THEN conjunct2]] by auto
  show "runs (binsky k v s) (\<lambda>(e, s'). e = QF2BIG \<or> e = 0 \<and> cur \<noteq> ''$$super'' \<and>
      serves 0 cur (M(cur \<mapsto> insert_at (lower (strncpy_term ZKYLEN k) es) (new_entry (strncpy_term ZKYLEN k) v) es)) s')"
    if "cur \<noteq> ''$$super'' \<and> serves 0 cur (M(cur \<mapsto> es)) s" "lookup es (strncpy_term ZKYLEN k) = None" for s es k v
    by (rule runs_conseq [OF serves_insert [OF that(1) [THEN conjunct2], of es k v]]) (use that in auto)
  show "runs (binsky k v s) (\<lambda>(e, s'). e = QF2BIG \<or> e = QDUP \<and> cur \<noteq> ''$$super'' \<and> serves 0 cur (M(cur \<mapsto> es)) s')"
    if "cur \<noteq> ''$$super'' \<and> serves 0 cur (M(cur \<mapsto> es)) s" "lookup es (strncpy_term ZKYLEN k) \<noteq> None" for s es k v
    by (rule runs_conseq [OF serves_insert [OF that(1) [THEN conjunct2], of es k v]]) (use that in auto)
  show "runs (bfndky k None s) (\<lambda>((e, w), s'). e = QF2BIG \<or> (cur \<noteq> ''$$super'' \<and> serves 0 cur (M(cur \<mapsto> es)) s') \<and>
      (case lookup es (strncpy_term ZKYLEN k) of None \<Rightarrow> e = QNOKEY | Some x \<Rightarrow> e = 0 \<and> w = Some x))"
    if "cur \<noteq> ''$$super'' \<and> serves 0 cur (M(cur \<mapsto> es)) s" for s es k
    by (rule runs_conseq [OF serves_find [OF that [THEN conjunct2], of es k]]) (use that in auto)
qed

end
