(* ===== verification/Create.thy ===== *)
theory Create
  imports Session Index
begin

text \<open>
  The life of an index begins: \<open>btcrt\<close> writes the super root and an empty default root, and the index
  that it leaves open holds no entry. With \<open>Index\<close> this starts the chain of operations on it from a
  state that the library itself produces.
\<close>

section \<open>An empty file in an empty cache\<close>

abbreviation slot :: "int \<Rightarrow> int \<Rightarrow> int \<Rightarrow> int \<Rightarrow> cntrl" where
  "slot b p w n \<equiv> \<lparr>inmem = b, busy = p, writes = w, lrunxt = n\<rparr>"

definition empty_file :: "st \<Rightarrow> bool" where
  "empty_file s \<longleftrightarrow> idxunt s = Some [] \<and> cntrls s = [slot (-1) 0 0 1, slot (-1) 0 0 2, slot (-1) 0 0 (-1)] \<and>
     lru s = \<lparr>lrut = 2, lruh = 0\<rparr> \<and> length (mems s) = ZMXBLK \<and> list_all wf_memrec (mems s) \<and>
     ioenv s = (\<lambda>_ _. 0)"

section \<open>The super root\<close>

definition new_super :: "memrec \<Rightarrow> memrec" where
  "new_super m = (set_words ZROOT 0 ZNULL 2 2 ZNULL m)\<lparr>
     keyblk := (keyblk m)[1 := \<lparr>ke_key = ''$$super'', ke_val = ZSUPER, ke_dup = ZNULL\<rparr>,
       0 := \<lparr>ke_key = ''$$default'', ke_val = DEFAULT_ROOT, ke_dup = ZNULL\<rparr>],
     lnkblk := (lnkblk m)[0 := ZNULL, 1 := ZNULL, 2 := ZNULL]\<rparr>"

lemma super_keys_eq:
  "wf_memrec m \<Longrightarrow> super_keys (set_words ZROOT 0 ZNULL 2 2 ZNULL m) = Some (new_super m)"
  by (cases "keyblk m"; cases "lnkblk m")
    (simp_all add: super_keys_def new_super_def mem_set_key_def mem_set_link_def arr_set_def wf_memrec_def ZMXKEY_val)

lemma wf_new_super: "wf_memrec m \<Longrightarrow> wf_memrec (new_super m)"
  by (simp add: new_super_def wf_memrec_def set_words_def ZINFSZ_def)

text \<open>The library functions on a known cache, for evaluation.\<close>

lemmas cache_eval = bgtslt_def free_slot_def upd_cntrl_def brdblk_def slot_of_def ZMXBLK_def inc_logrd_def
  bqmove_def set_lruh_def set_lrut_def Let_def
lemmas info_eval = bstinf_def upd_mem_def set_mem_def inc_writes_def get_mem_def mem_set_info_def info_defs
  ZINFSZ_def
lemmas write_eval = bwrblk_def do_seek_def inc_phywr_def file_write_def

lemma infblk_six: "wf_memrec m \<Longrightarrow> \<exists>a0 a1 a2 a3 a4 a5. infblk m = [a0, a1, a2, a3, a4, a5]"
  by (auto simp: wf_memrec_def ZINFSZ_def numeral_eq_Suc length_Suc_conv)

lemma crt_super_runs:
  assumes "empty_file s"
  defines "m \<equiv> new_super (mems s ! 0)"
  shows "\<exists>t. crt_super s = Some (Exit_ok,
    s\<lparr>super := (super s)\<lparr>sblkmx := 2, snfree := 0, sfreep := ZNULL, smod := 1, smode := 0\<rparr>,
      stat := t, idxunt := Some [m], mems := (mems s)[0 := m],
      cntrls := [slot 0 0 0 (-1), slot (-1) 0 0 2, slot (-1) 0 0 0], lru := \<lparr>lrut = 0, lruh = 1\<rparr>\<rparr>)"
proof -
  obtain m0 m1 m2 where ms: "mems s = [m0, m1, m2]" using length3 [of "mems s"] assms(1) by (auto simp: empty_file_def)
  have wf: "wf_memrec m0" using assms(1) ms by (simp add: empty_file_def)
  obtain a0 a1 a2 a3 a4 a5 where i: "infblk m0 = [a0, a1, a2, a3, a4, a5]" using infblk_six [OF wf] by blast
  have w: "m0\<lparr>infblk := [push_bit (2 * ZBYTEW) ZVERS OR ZROOT, 0, ZNULL, 2, 2, ZNULL]\<rparr> =
      set_words ZROOT 0 ZNULL 2 2 ZNULL m0" by (simp add: set_words_def)
  have z: "blkpos 0 = 0" by (simp add: blkpos_def)
  show ?thesis
    using assms(1) ms i wf unfolding m_def
    apply (simp add: crt_super_def empty_file_def bsetbk_def cache_eval ZSUPER_def)
    apply (simp add: cache_eval info_eval)
    apply (simp add: w super_keys_eq cache_eval write_eval z)
    apply (intro exI [of _ "(stat s)\<lparr>xlogrd := 2 + xlogrd (stat s), xphywr := xphywr (stat s) + 1\<rparr>"] st.equality; simp)
    done
qed

section \<open>The default root\<close>

lemma crt_root_runs:
  assumes "cntrls s = [slot 0 0 0 (-1), slot (-1) 0 0 2, slot (-1) 0 0 0]" "lru s = \<lparr>lrut = 0, lruh = 1\<rparr>"
    and "length (mems s) = ZMXBLK" "list_all wf_memrec (mems s)" "ioenv s = (\<lambda>_ _. 0)" "idxunt s = Some [f]"
  defines "m \<equiv> set_words ZROOT 0 ZNULL 0 DEFAULT_ROOT ZNULL (mems s ! 1)"
  shows "\<exists>t. crt_root 0 s = Some (Exit_ok,
    s\<lparr>super := (super s)\<lparr>scroot := 1, scclas := ''$$default''\<rparr>,
      stat := t, idxunt := Some [f, m], mems := (mems s)[1 := m],
      cntrls := [slot 0 0 0 1, slot 1 1 0 (-1), slot (-1) 0 0 0], lru := \<lparr>lrut = 1, lruh = 2\<rparr>\<rparr>)"
proof -
  obtain m0 m1 m2 where ms: "mems s = [m0, m1, m2]" using length3 [of "mems s"] assms(3) by auto
  have wf: "wf_memrec m1" using assms(4) ms by simp
  obtain a0 a1 a2 a3 a4 a5 where i: "infblk m1 = [a0, a1, a2, a3, a4, a5]" using infblk_six [OF wf] by blast
  have w: "m1\<lparr>infblk := [push_bit (2 * ZBYTEW) ZVERS OR ZROOT, 0, ZNULL, 0, 1, ZNULL]\<rparr> =
      set_words ZROOT 0 ZNULL 0 1 ZNULL m1" by (simp add: set_words_def)
  have z: "\<not> blkpos 1 < 0" "blkpos 1 div ZBLKSZ = 1" by (simp_all add: blkpos_def ZBLKSZ_def to_int32_id)
  show ?thesis
    using assms(1-6) ms i unfolding m_def
    apply (simp add: crt_root_def bsetbk_def cache_eval lru_pred.simps DEFAULT_ROOT_def)
    apply (simp add: cache_eval info_eval)
    apply (simp add: w cache_eval write_eval z)
    apply (simp add: cache_eval DEFAULT_ROOT_def cong: option.case_cong_weak)
    apply (simp add: bsetbs_def cache_eval DEFAULT_ROOT_def)
    apply (intro exI [of _ "(stat s)\<lparr>xlogrd := 4 + xlogrd (stat s), xphywr := xphywr (stat s) + 1\<rparr>"] st.equality; simp)
    done
qed

section \<open>The new index\<close>

definition created :: "st \<Rightarrow> st \<Rightarrow> bool" where
  "created s s' \<longleftrightarrow> (\<exists>t. s' = s\<lparr>lckcnt := 1,
     super := (super s)\<lparr>sblkmx := 2, snfree := 0, sfreep := ZNULL, smod := 1, smode := 0, scroot := 1,
       scclas := ''$$default''\<rparr>,
     stat := t, idxunt := Some [new_super (mems s ! 0), set_words ZROOT 0 ZNULL 0 DEFAULT_ROOT ZNULL (mems s ! 1)],
     mems := [new_super (mems s ! 0), set_words ZROOT 0 ZNULL 0 DEFAULT_ROOT ZNULL (mems s ! 1), mems s ! 2],
     cntrls := [slot 0 0 0 1, slot 1 1 0 (-1), slot (-1) 0 0 0], lru := \<lparr>lrut = 1, lruh = 2\<rparr>\<rparr>)"

lemma crt_body_runs:
  assumes "empty_file s" "\<not> shared s" "lckcnt s = 0" "lkenv s = []"
  shows "runs (crt_body 0 s) (\<lambda>(r, s'). r = Exit_ok \<and> created s s')"
proof -
  obtain m0 m1 m2 where ms: "mems s = [m0, m1, m2]" using length3 [of "mems s"] assms(1) by (auto simp: empty_file_def)
  have wf: "wf_memrec m0" "wf_memrec m1" "wf_memrec m2" using assms(1) ms by (simp_all add: empty_file_def)
  let ?s = "(set_scroot ZNULL s)\<lparr>lckcnt := 1\<rparr>"
  have "block (set_scroot ZNULL s) = Some (True, ?s)"
    using assms by (simp add: block_def ask_lock_def)
  moreover have "empty_file ?s" using assms(1) by (simp add: empty_file_def)
  from crt_super_runs [OF this] obtain t where "crt_super ?s = Some (Exit_ok,
    ?s\<lparr>super := (super ?s)\<lparr>sblkmx := 2, snfree := 0, sfreep := ZNULL, smod := 1, smode := 0\<rparr>,
      stat := t, idxunt := Some [new_super m0], mems := [new_super m0, m1, m2],
      cntrls := [slot 0 0 0 (-1), slot (-1) 0 0 2, slot (-1) 0 0 0], lru := \<lparr>lrut = 0, lruh = 1\<rparr>\<rparr>)"
    (is "_ = Some (_, ?s1)") by (auto simp: ms)
  moreover obtain t' where "crt_root 0 ?s1 = Some (Exit_ok,
    ?s1\<lparr>super := (super ?s1)\<lparr>scroot := 1, scclas := ''$$default''\<rparr>,
      stat := t', idxunt := Some [new_super m0, set_words ZROOT 0 ZNULL 0 DEFAULT_ROOT ZNULL m1],
      mems := [new_super m0, set_words ZROOT 0 ZNULL 0 DEFAULT_ROOT ZNULL m1, m2],
      cntrls := [slot 0 0 0 1, slot 1 1 0 (-1), slot (-1) 0 0 0], lru := \<lparr>lrut = 1, lruh = 2\<rparr>\<rparr>)"
    using crt_root_runs [of ?s1 "new_super m0"] wf wf_new_super [OF wf(1)] assms(1) by (auto simp: empty_file_def ZMXBLK_def)
  ultimately show ?thesis
    using assms(2) ms by (auto simp: crt_body_def unlock_if_shared_def runs_def created_def)
qed

text \<open>Its two blocks: the tree of the super root holds the two names, the default root is empty.\<close>

lemma created_reps:
  assumes c: "created s s'" and e: "empty_file s"
  shows "repr s' [mems s' ! 0, mems s' ! 1] {1} (rest s')"
proof -
  obtain m0 m1 m2 where ms: "mems s = [m0, m1, m2]" using length3 [of "mems s"] e by (auto simp: empty_file_def)
  define r0 r1 where "r0 = new_super m0" and "r1 = set_words ZROOT 0 ZNULL 0 DEFAULT_ROOT ZNULL m1"
  have wf: "wf_memrec r0" "wf_memrec r1" "wf_memrec m2"
    using e ms wf_new_super by (simp_all add: empty_file_def r0_def r1_def)
  have m': "mems s' = [r0, r1, m2]" "cntrls s' = [slot 0 0 0 1, slot 1 1 0 (-1), slot (-1) 0 0 0]"
    "lru s' = \<lparr>lrut = 1, lruh = 2\<rparr>" "idxunt s' = Some [r0, r1]" "ioenv s' = (\<lambda>_ _. 0)"
    using c e by (simp_all add: created_def empty_file_def ms r0_def r1_def) (elim exE; simp)+
  have "{0..<3::int} = {2, 0, 1}" by auto
  then have "lru_queue s' [2, 0, 1]" by (simp add: lru_queue_def m' ZMXBLK_def)
  then have q: "\<exists>q. lru_queue s' q" by blast
  have all: "(\<forall>i < ZMXBLK. P i) \<longleftrightarrow> P 0 \<and> P 1 \<and> P 2" for P
    by (auto simp: ZMXBLK_def less_Suc_eq numeral_eq_Suc)
  have ex: "(\<exists>i < ZMXBLK. P i) \<longleftrightarrow> P 0 \<or> P 1 \<or> P 2" for P
    by (auto simp: ZMXBLK_def less_Suc_eq numeral_eq_Suc)
  have two: "(\<forall>n < Suc (Suc 0). Q n) \<longleftrightarrow> Q 0 \<and> Q 1" for Q
    by (auto simp: less_Suc_eq)
  have "slots_distinct (cntrls s')"
    by (simp add: slots_distinct_def m' ZMXBLK_def numeral_eq_Suc less_Suc_eq)
  moreover have "{b. \<exists>i < ZMXBLK. busy (cntrls s' ! i) \<noteq> 0 \<and> inmem (cntrls s' ! i) = b} = {1}"
    unfolding ex by (auto simp: m')
  ultimately have "reps s' [r0, r1] [r0, r1] {1} (rest s')"
    unfolding reps_def all using q wf
    by (simp add: m' slot_ok_def two MXBLKS_def) (simp add: ZMXBLK_def)
  then show ?thesis using repr_reps m' by auto
qed

definition super_entries :: "keyent list" where
  "super_entries = [\<lparr>ke_key = ''$$default'', ke_val = DEFAULT_ROOT, ke_dup = ZNULL\<rparr>,
     \<lparr>ke_key = ''$$super'', ke_val = ZSUPER, ke_dup = ZNULL\<rparr>]"

abbreviation new_catalog :: "string \<Rightarrow> keyent list option" where
  "new_catalog \<equiv> [''$$default'' \<mapsto> [], ''$$super'' \<mapsto> super_entries]"

lemma names_sorted: "sorted_keys super_entries" "''$$default'' < ''$$super''"
  by (simp_all add: sorted_keys_def super_entries_def less_char_def)

lemma new_super_tree:
  assumes "wf_memrec m" and B: "B ! 0 = new_super m" "0 < length B"
  shows "tree_ok B 0 0" "entries (B ! 0) = super_entries" "super_ok (B ! 0)"
proof -
  obtain k0 k1 ks where k: "keyblk m = k0 # k1 # ks"
    using assms(1) by (cases "keyblk m"; cases "tl (keyblk m)") (auto simp: wf_memrec_def ZMXKEY_val)
  obtain l0 l1 l2 ls where l: "lnkblk m = l0 # l1 # l2 # ls"
    using assms(1) by (cases "lnkblk m"; cases "tl (lnkblk m)"; cases "tl (tl (lnkblk m))")
      (auto simp: wf_memrec_def ZMXKEY_val)
  have w: "nkeys_of (B ! 0) = 2" "word_of (B ! 0) 0 = push_bit (2 * ZBYTEW) ZVERS OR ZROOT" "word_of (B ! 0) ZMISC = 0"
    by (simp_all add: B word_of_def set_words_def new_super_def info_defs)
  show e: "entries (B ! 0) = super_entries"
    using w(1) k by (simp add: entries_def super_entries_def B new_super_def set_words_def)
  have ls: "links (B ! 0) = [ZNULL, ZNULL, ZNULL]"
    using w(1) l by (simp add: links_def B new_super_def set_words_def numeral_3_eq_3)
  have ty: "btype_of (B ! 0) = ZROOT" using w(2) pack_type(1) [of ZROOT] by (simp add: btype_of_def ZROOT_def)
  show "super_ok (B ! 0)"
    using ty w(2,3) pack_type(2) [of ZROOT] by (simp add: super_ok_def ZROOT_def LFSHDR_def to_int32_def)
  have "wf_keys (B ! 0)"
    using w(1) e names_sorted(1) wf_new_super [OF assms(1)] by (simp add: wf_keys_def B ZMXKEY_val)
  then show "tree_ok B 0 0"
    using e ls ty names_sorted(1) B(2)
    by (simp add: tree_ok_def search_tree_def typed_tree_def valid_blk_def no_dups_def super_entries_def)
qed

lemma new_root_tree:
  assumes "wf_memrec m" and B: "B ! nat r = set_words ZROOT 0 ZNULL 0 nb ZNULL m" "valid_blk B r"
  shows "tree_ok B 0 r" "entries (B ! nat r) = []" "word_of (B ! nat r) ZMISC = 0"
proof -
  have w: "nkeys_of (B ! nat r) = 0" "word_of (B ! nat r) 0 = push_bit (2 * ZBYTEW) ZVERS OR ZROOT"
    by (simp_all add: B word_of_def set_words_def info_defs)
  show "word_of (B ! nat r) ZMISC = 0" by (simp add: B word_of_def set_words_def info_defs)
  show e: "entries (B ! nat r) = []" using w(1) by (simp add: entries_def)
  have ty: "btype_of (B ! nat r) = ZROOT" using w(2) pack_type(1) [of ZROOT] by (simp add: btype_of_def ZROOT_def)
  have "wf_keys (B ! nat r)" using assms(1) w(1) e by (simp add: wf_keys_def sorted_keys_def ZMXKEY_val) (simp add: B)
  then show "tree_ok B 0 r"
    using w e ty B(2) by (simp add: tree_ok_def search_tree_def typed_tree_def no_dups_def sorted_keys_def)
qed

lemma created_serves:
  assumes c: "created s s'" and e: "empty_file s" and f: "\<not> shared s" "stk_array s" "lkenv s = []"
  shows "serves 0 ''$$default'' new_catalog s'"
proof -
  obtain m0 m1 m2 where ms: "mems s = [m0, m1, m2]" using length3 [of "mems s"] e by (auto simp: empty_file_def)
  define B where "B = [new_super m0, set_words ZROOT 0 ZNULL 0 DEFAULT_ROOT ZNULL m1]"
  define H :: heights where "H = (\<lambda>_. 0)"
  have wf: "wf_memrec m0" "wf_memrec m1" using e ms by (simp_all add: empty_file_def)
  have r: "repr s' B {1} (rest s')" using created_reps [OF c e] c ms by (auto simp: created_def B_def)
  have sup: "sblkmx (super (rest s')) = 2" "snfree (super (rest s')) = 0" "sfreep (super (rest s')) = ZNULL"
    "smode (super (rest s')) = 0" "s_scroot (rest s') = 1" "smod (super (rest s')) = 1"
    "scclas (super (rest s')) = ''$$default''" "\<not> shared (rest s')" "stk_array (rest s')"
    "lckcnt (rest s') = 1" "lkenv (rest s') = []"
    using c f by (auto simp: created_def rest_def)
  have len: "length B = 2" by (simp add: B_def)
  have S: "tree_ok B 0 0" "entries (B ! 0) = super_entries" "super_ok (B ! 0)"
    by (rule new_super_tree [OF wf(1)]; simp add: B_def)+
  have T: "tree_ok B 0 1" "entries (B ! nat 1) = []" "word_of (B ! nat 1) ZMISC = 0"
    by (rule new_root_tree [OF wf(2), of B 1 DEFAULT_ROOT]; simp add: B_def valid_blk_def)+
  have se: "entries_of B H ZSUPER = super_entries" using S(2) by (simp add: H_def ZSUPER_def)
  have rs: "root_set B H = {0, 1}"
    unfolding root_set_def se by (auto simp: super_entries_def ZSUPER_def DEFAULT_ROOT_def)
  have "forest B H"
    unfolding forest_def rs se using S(1) T(1)
    by (simp add: H_def super_entries_def ZSUPER_def DEFAULT_ROOT_def)
  moreover have "free_list B (rest s') []" by (simp add: free_list_def sup len)
  moreover have "saved B (rest s')" using S(3) by (simp add: saved_def sup ZSUPER_def)
  moreover have "plain_flags B H" using T(3) by (simp add: plain_flags_def rs ZSUPER_def)
  ultimately have i: "index_ok B (rest s') H []" using sup len by (simp add: index_ok_def MXBLKS_def)
  have "catalog B H = new_catalog"
    unfolding catalog_def se using T(2) S(2)
    by (auto simp: fun_eq_iff lookup_def super_entries_def H_def ZSUPER_def DEFAULT_ROOT_def)
  moreover have "lookup super_entries ''$$default'' = Some 1" "lookup super_entries ''$$super'' = Some ZSUPER"
    by (simp_all add: lookup_def super_entries_def DEFAULT_ROOT_def)
  ultimately show ?thesis
    unfolding serves_def using r i sup se
    by (intro exI [of _ B] exI [of _ "{1}"] exI [of _ "rest s'"] exI [of _ H] exI [of _ "[]"] exI [of _ 1])
      (simp add: ZSUPER_def)
qed

section \<open>btcrt\<close>

lemma bta_parts: "bta.extend (bta.truncate s) (bta.more s) = s"
  by (cases s) (simp add: bta.defs)

text \<open>An operation on a slot works on the index of that slot; the other slots stay.\<close>

definition other_slots :: "int \<Rightarrow> sess \<Rightarrow> sess \<Rightarrow> bool" where
  "other_slots b ss ss' \<longleftrightarrow> length (btat ss') = length (btat ss) \<and> units ss' = units ss \<and> fsys ss' = fsys ss \<and>
     btinited ss' = btinited ss \<and> (\<forall>i < length (btat ss). i \<noteq> nat b \<longrightarrow> btat ss' ! i = btat ss ! i)"

lemma in_slot_runs:
  assumes a: "activate b ss = Some s" and f: "runs (f s) P"
  shows "runs (in_slot b f ss) (\<lambda>(r, ss'). \<exists>s'. P (r, s') \<and> activate b ss' = Some s' \<and> other_slots b ss ss')"
proof -
  obtain r s' where s': "f s = Some (r, s')" "P (r, s')" using f by (auto simp: runs_def)
  have b: "0 \<le> b" "b < int (length (btat ss))"
    using a by (auto simp: activate_def bind_eq_Some_conv arr_get_def split: if_splits)
  let ?ss = "ss\<lparr>btat := (btat ss)[nat b := bta.truncate s'], glob := bta.more s'\<rparr>"
  have "in_slot b f ss = Some (r, ?ss)"
    using a s'(1) b by (simp add: in_slot_def store_back_def arr_set_def)
  moreover have "activate b ?ss = Some s'"
    using b bta_parts [of s'] by (simp add: activate_def arr_get_def)
  ultimately show ?thesis using s'(2) by (auto simp: runs_def other_slots_def)
qed

text \<open>The operating system carries out what it is asked for.\<close>

definition calm :: "sess \<Rightarrow> bool" where
  "calm ss \<longleftrightarrow> ioenv (bta.extend null_bta (glob ss)) = (\<lambda>_ _. 0) \<and> lkenv (bta.extend null_bta (glob ss)) = []"

lemma bta_extend_more:
  "qerror (bta.extend a (bta.more s)) = qerror s" "ioenv (bta.extend a (bta.more s)) = ioenv s"
  "lkenv (bta.extend a (bta.more s)) = lkenv s"
  by (cases s, simp add: bta.defs)+

lemma bta_extend_fields:
  "idxunt (bta.extend a e) = idxunt a" "idxfid (bta.extend a e) = idxfid a" "bta.more (bta.extend a e) = e"
  "shared (bta.extend a e) = shared a" "lckcnt (bta.extend a e) = lckcnt a"
  by (simp_all add: bta.defs)

lemma bacini_empty:
  assumes os: "os_ok (Some m)" and s: "idxunt s = Some []" "ioenv s = (\<lambda>_ _. 0)"
  shows "runs (bacini (Some m) s) (\<lambda>(e, s'). e = 0 \<and> empty_file s' \<and> shared s' = shared s \<and> lckcnt s' = 0 \<and>
    lkenv s' = lkenv s \<and> qerror s' = qerror s \<and> stk_array s')"
proof -
  note O = os [unfolded os_ok_def, rule_format, OF refl]
  obtain c0 c1 c2 where c: "cntrls m = [c0, c1, c2]" using length3 O by blast
  show ?thesis
    using O s c by (simp add: bacini_def initcntrl_def ZMXBLK_def numeral_eq_Suc upd_cntrl_def bqadd_def
        set_lruh_def set_lrut_def bclrst_def bclrlf_def empty_file_def list_all_iff)
qed

lemma sess_err_fields:
  "btat (sess_err n c a ss) = btat ss" "units (sess_err n c a ss) = units ss" "fsys (sess_err n c a ss) = fsys ss"
  "calm (sess_err n c a ss) = calm ss" "sess_gerr (sess_err [] 0 None ss) = 0"
  by (simp_all add: sess_err_def calm_def sess_gerr_def bta_extend_more btgerr_def)

lemma activate_gerr: "activate b ss = Some s \<Longrightarrow> sess_gerr ss = qerror s"
proof -
  assume "activate b ss = Some s"
  then obtain a where "s = bta.extend a (glob ss)" by (auto simp: activate_def bind_eq_Some_conv)
  then have "glob ss = bta.more s" by (simp add: bta_extend_fields)
  then show ?thesis by (simp add: sess_gerr_def btgerr_def bta_extend_more)
qed

lemma bnewap_slot:
  assumes "bnewap fid ss = (Some b, ss')"
  shows "ss' = ss" "0 \<le> b" "b < int (length (btat ss))"
  using assms by (auto simp: bnewap_def Let_def split: if_splits)

text \<open>A new index: the handle is that of the slot that \<open>bnewap\<close> finds, and the index in it is empty
  and open for update.\<close>

lemma btcrt_new:
  assumes os: "os_ok (Some m)" and ss: "calm ss" "length (units ss) = length (btat ss)"
    and b: "fst (bnewap fid (sess_err [] 0 None ss)) = Some b"
  shows "runs (btcrt (Some m) fid 0 False ss) (\<lambda>(h, ss'). h = Some b \<and>
    (\<exists>s. activate b ss' = Some s \<and> serves 0 ''$$default'' new_catalog s) \<and>
    length (btat ss') = length (btat ss) \<and> units ss' = (units ss)[nat b := fid] \<and>
    (\<forall>i < length (btat ss). i \<noteq> nat b \<longrightarrow> btat ss' ! i = btat ss ! i))"
proof -
  let ?s1 = "sess_err [] 0 None ss"
  have n: "bnewap fid ?s1 = (Some b, ?s1)" using b bnewap_slot(1) [of fid ?s1 b] by (metis prod.collapse)
  have r: "0 \<le> b" "b < int (length (btat ss))" using bnewap_slot(2,3) [OF n] by (simp_all add: sess_err_fields)
  have c1: "calm ?s1" using ss(1) by (simp add: sess_err_fields)
  define a where "a = (btat ss ! nat b)\<lparr>idxunt := Some []\<rparr>"
  define s2 where "s2 = ?s1\<lparr>btat := (btat ss)[nat b := a], units := (units ss)[nat b := fid]\<rparr>"
  have o: "do_fopen True fid b ?s1 = Some (True, s2)"
    using r ss(2) c1 by (simp add: do_fopen_def sess_env_def calm_def sess_err_fields a_def s2_def)
  let ?x = "bta.extend a (glob s2)"
  have x: "activate b s2 = Some ?x" using r by (simp add: activate_def s2_def)
  have c2: "calm s2" "sess_gerr s2 = 0" using c1 sess_err_fields(5) [of ss] by (simp_all add: calm_def sess_gerr_def s2_def)
  have xf: "idxunt ?x = Some []" "ioenv ?x = (\<lambda>_ _. 0)" "lkenv ?x = []" "qerror ?x = 0"
    using c2 bta_extend_more [of a "bta.extend null_bta (glob s2)"]
    by (simp_all add: bta_extend_fields a_def calm_def sess_gerr_def btgerr_def)
  let ?f = "\<lambda>s. bacini (Some m) (s\<lparr>shared := False, idxfid := take (FIDSZ - 1) fid\<rparr>)"
  have "runs (?f ?x) (\<lambda>(e, s'). e = 0 \<and> empty_file s' \<and> \<not> shared s' \<and> lckcnt s' = 0 \<and> lkenv s' = [] \<and> qerror s' = 0 \<and> stk_array s')"
    using bacini_empty [OF os, of "?x\<lparr>shared := False, idxfid := take (FIDSZ - 1) fid\<rparr>"] xf
    by (auto elim!: runs_conseq)
  from in_slot_runs [of b s2 ?x ?f, OF x this] obtain s3 y where s3: "in_slot b ?f s2 = Some (0, s3)" "activate b s3 = Some y"
      "other_slots b s2 s3" "empty_file y" "\<not> shared y" "lckcnt y = 0" "lkenv y = []" "qerror y = 0" "stk_array y"
    by (auto simp: runs_def)
  from in_slot_runs [of b s3 y "crt_body 0", OF s3(2) crt_body_runs [OF s3(4-7)]] obtain s4 z where
    s4: "in_slot b (crt_body 0) s3 = Some (Exit_ok, s4)" "activate b s4 = Some z" "other_slots b s3 s4" "created y z"
    by (auto simp: runs_def)
  have "qerror z = 0" using s4(4) s3(8) by (auto simp: created_def)
  then have "btcrt (Some m) fid 0 False ss = Some (Some b, s4)"
    using n o s3(1) s4(1) activate_gerr [OF s4(2)] by (simp add: btcrt_def)
  then show ?thesis
    using s4(2,3) s3(3) created_serves [OF s4(4) s3(4,5,9,7)]
    by (simp add: runs_def other_slots_def s2_def sess_err_fields)
qed

end
