(* ===== verification/Switch.thy ===== *)
theory Switch
  imports Roots Index
begin

text \<open>
  Changing the current root (\<open>btchgr\<close>): the name is looked up in the super root, which is pinned for the
  time of the search; the index stays what it is, also when there is no such root.
\<close>

section \<open>Another current root\<close>

lemma index_ok_frame:
  "index_ok B (clear_err R) H bs = index_ok B R H bs"
  "index_ok B (bclrlf R) H bs = index_ok B R H bs"
  "index_ok B (R\<lparr>super := (super R)\<lparr>scroot := c\<rparr>\<rparr>) H bs = index_ok B R H bs"
  "index_ok B (R\<lparr>super := (super R)\<lparr>scroot := c, scclas := n\<rparr>\<rparr>) H bs = index_ok B R H bs"
  "index_ok B (R\<lparr>super := (super R)\<lparr>smode := m\<rparr>\<rparr>) H bs = index_ok B R H bs"
  by (simp_all add: index_ok_def saved_def free_list_def bclrlf_def)

lemma root_typed: "index_ok B R H bs \<Longrightarrow> q \<in> root_set B H \<Longrightarrow> valid_blk B q \<and> wf_keys (B ! nat q) \<and> btype_of (B ! nat q) = ZROOT"
  using open_tree_D(1,7,10) [OF index_open [of B R H bs q]] root_in_blocks wf_tree_D by blast

lemma index_chgr:
  assumes s: "repr s B P R" "P \<subseteq> {q}" and i: "index_ok B R H bs" and q: "q \<in> root_set B H" "s_scroot R = q"
    and k: "k = strncpy_term ZKYLEN n"
  shows "runs (btchgr n s) (\<lambda>(e, s'). e = QF2BIG \<and> smode (super R) = 0 \<and> \<not> shared s' \<or>
    (\<exists>B' R' H' bs'. index_ok B' R' H' bs' \<and> smode (super R') = smode (super R) \<and> catalog B' H' = catalog B H \<and>
       entries_of B' H' ZSUPER = entries_of B H ZSUPER \<and>
       (case lookup (entries_of B H ZSUPER) k of
          None \<Rightarrow> e = QNOKEY \<and> repr s' B' {q} R' \<and> s_scroot R' = q \<and> scclas (super R') = scclas (super R)
        | Some r \<Rightarrow> e = 0 \<and> repr s' B' {r} R' \<and> s_scroot R' = r \<and> scclas (super R') = k)))"
proof -
  have V: "valid_blk B q" "valid_blk B ZSUPER" using root_typed [OF i] q(1) super_root by blast+
  have nn: "0 \<le> q" "q \<noteq> ZNULL" using V(1) by (auto simp: valid_blk_def ZNULL_def)
  have room: "room P x" "room {} x" "room {y} x" for x y
    using card_mono [OF _ s(2)] by (auto simp: room_def ZMXBLK_def)
  have r0: "repr (clear_err s) B P (clear_err R)" using s(1) by auto
  have sh: "\<not> shared (clear_err s)" "s_scroot (clear_err s) = q" using repr_fields(4,8) [OF r0] i q(2)
    by (simp_all add: index_ok_def)
  obtain s1 where s1: "bsetbs q 0 (clear_err s) = Some s1" "repr s1 B {} (clear_err R)"
    using bsetbs_spec [OF r0 V(1) room(1), of 0] s(2) by (auto simp: runs_def subset_singleton_iff)
  let ?R2 = "set_scroot ZSUPER (clear_err R)"
  have r2: "repr (set_scroot ZSUPER s1) B {} ?R2"
    using repr_frame(3) [OF s1(2)] repr_fields(8) [OF s1(2)] by simp
  obtain s3 where s3: "bsetbs ZSUPER 1 (set_scroot ZSUPER s1) = Some s3" "repr s3 B {ZSUPER} ?R2"
    using bsetbs_spec [OF r2 V(2) room(2), of 1] by (auto simp: runs_def)
  have i2: "index_ok B ?R2 H bs" using i index_ok_frame(1) [of B R H bs] index_ok_frame(3) [of B _ "clear_err R"] by blast
  have sc2: "s_scroot ?R2 = ZSUPER" by simp
  obtain e w s4 where s4: "bfndky n None s3 = Some ((e, w), s4)"
    and g: "e = QF2BIG \<and> stuck B ?R2 H s4 \<or>
      (\<exists>B' R' h' bs'. repr s4 B' {ZSUPER} R' \<and> index_ok B' R' (H(ZSUPER := h')) bs' \<and> later ?R2 R' \<and>
        root_set B' (H(ZSUPER := h')) = root_set B H \<and> entries_of B' (H(ZSUPER := h')) ZSUPER = entries_of B H ZSUPER \<and>
        catalog B' (H(ZSUPER := h')) = catalog B H \<and> tree_entries B' h' ZSUPER = entries_of B H ZSUPER \<and>
        (case lookup (entries_of B H ZSUPER) k of None \<Rightarrow> e = QNOKEY | Some x \<Rightarrow> e = 0 \<and> w = Some x) \<and> qerror R' = e \<and>
        scan_at B' R' h' (beyond k (entries_of B H ZSUPER)) \<and>
        (\<forall>f \<le> 10. stocked f B (H ZSUPER) ZSUPER \<longrightarrow> stocked f B' h' ZSUPER))"
    by (rule runs_obtain3 [OF index_find [OF s3(2) subset_refl i2 super_root sc2 k]])
  let ?tail = "do {
            s \<leftarrow> bsetbs (s_scroot s4) 0 s4;
            let s = bclrlf s;
            if e = 0 then do {
              blk \<leftarrow> w;
              (t, s) \<leftarrow> bgtinf blk ZBTYPE s;
              if t \<noteq> ZROOT then Some (bterr ''BTCHGR'' QBLKNR (Some (itostr blk)) s)
              else bsetbs blk 1
                (s\<lparr>super := (super s)\<lparr>scroot := blk, scclas := strncpy_term ZKYLEN n\<rparr>\<rparr>)
            } else if q \<noteq> ZNULL then bsetbs q 1 (set_scroot q s) else Some (set_scroot q s) }"
  have c: "btchgr n s = do { s \<leftarrow> ?tail; s \<leftarrow> unlock_if_shared s; Some (btgerr s, s) }"
    using bvalap_ok [OF r0] sh s1(1) s3(1) s4 nn(1)
    by (simp add: btchgr_def lock_if_shared_def)
  have unpin: "\<exists>s5. bsetbs ZSUPER 0 t = Some s5 \<and> repr (bclrlf s5) B' (P' - {ZSUPER}) (bclrlf R')"
    if "repr t B' P' R'" "valid_blk B' ZSUPER" "room P' ZSUPER" for t B' P' R'
    using bsetbs_spec [OF that, of 0] by (auto simp: runs_def bclrlf_def)
  have finish: "unlock_if_shared t = Some t \<and> btgerr t = qerror R'" if "repr t B' P' R'" "\<not> shared R'" for t B' P' R'
    using repr_fields(4,9) [OF that(1)] that(2) by (simp add: unlock_if_shared_def btgerr_def)
  show ?thesis
    using g
  proof (elim disjE conjE exE, goal_cases)
    case 1
    obtain B' P' R' where t: "repr s4 B' P' R'" "card P' < ZMXBLK" "qerror R' = QF2BIG" "\<not> shared R'"
        "s_scroot R' = ZSUPER" "valid_blk B' q" "valid_blk B' ZSUPER"
        "smode (super R) = 0"
      using 1(2) q(1) super_root [of B H] unfolding stuck_def by auto
    have e0: "e \<noteq> 0" using 1(1) by (simp add: QF2BIG_def)
    have rm: "room P' ZSUPER" "room (P' - {ZSUPER}) q" using t(2) card_Diff1_le [of P' ZSUPER] by (auto simp: room_def)
    obtain s5 where s5: "bsetbs ZSUPER 0 s4 = Some s5" "repr (bclrlf s5) B' (P' - {ZSUPER}) (bclrlf R')"
      using unpin [OF t(1,7) rm(1)] by blast
    have r6: "repr (set_scroot q (bclrlf s5)) B' (P' - {ZSUPER}) (set_scroot q (bclrlf R'))"
      using repr_frame(3) [OF s5(2)] repr_fields(8) [OF s5(2)] by simp
    obtain s7 where s7: "bsetbs q 1 (set_scroot q (bclrlf s5)) = Some s7" "repr s7 B' (insert q (P' - {ZSUPER})) (set_scroot q (bclrlf R'))"
      using bsetbs_spec [OF r6 t(6) rm(2), of 1] by (auto simp: runs_def)
    have "s_scroot s4 = ZSUPER" using repr_fields(8) [OF t(1)] t(5) by simp
    then have "?tail = Some s7" using s5(1) s7(1) e0 nn(2) by simp
    then have "btchgr n s = Some (QF2BIG, s7)" using c finish [OF s7(2)] t(3,4) by (simp add: bclrlf_def)
    then show ?thesis using t(4,8) repr_fields(4) [OF s7(2)] by (simp add: bclrlf_def)
  next
    case (2 B' R' h' bs')
    let ?H = "H(ZSUPER := h')"
    have sup: "s_scroot R' = ZSUPER" "scclas (super R') = scclas (super R)" "smode (super R') = smode (super R)"
      using 2(3) by (simp_all add: later_def super_later_def)
    have s4': "s_scroot s4 = ZSUPER" using repr_fields(8) [OF 2(1)] sup(1) by simp
    have rs: "root_set B' ?H = root_set B H" using 2(4) .
    have V': "valid_blk B' p" "wf_keys (B' ! nat p)" "btype_of (B' ! nat p) = ZROOT" if "p \<in> root_set B H" for p
      using root_typed [OF 2(2), of p] that rs by simp_all
    obtain s5 where s5: "bsetbs ZSUPER 0 s4 = Some s5" "repr (bclrlf s5) B' {} (bclrlf R')"
      using unpin [OF 2(1) V'(1) room(3)] by auto
    have nsh: "\<not> shared R'" using 2(2) by (simp add: index_ok_def)
    have i5: "index_ok B' (bclrlf R') ?H bs'" using 2(2) by (simp only: index_ok_frame)
    show ?thesis
    proof (cases "lookup (entries_of B H ZSUPER) k")
      case None
      then have e: "e = QNOKEY" "e \<noteq> 0" using 2(8) by (simp_all add: QNOKEY_def)
      let ?R = "set_scroot q (bclrlf R')"
      have r6: "repr (set_scroot q (bclrlf s5)) B' {} ?R"
        using repr_frame(3) [OF s5(2)] repr_fields(8) [OF s5(2)] by simp
      obtain s7 where s7: "bsetbs q 1 (set_scroot q (bclrlf s5)) = Some s7" "repr s7 B' {q} ?R"
        using bsetbs_spec [OF r6 V'(1) [OF q(1)] room(2), of 1] by (auto simp: runs_def)
      have "?tail = Some s7" using s4' s5(1) s7(1) e nn(2) by simp
      then have ret: "btchgr n s = Some (QNOKEY, s7)"
        using c finish [OF s7(2)] nsh 2(9) e(1) by (simp add: bclrlf_def)
      have "index_ok B' ?R ?H bs'" using i5 by (simp only: index_ok_frame)
      then show ?thesis
        unfolding runs_def using s7(2) None sup 2(5,6) ret
        by (intro exI [of _ "(QNOKEY, s7)"] conjI)
          (assumption, simp only: prod.case option.case, intro disjI2 exI [of _ B'] exI [of _ ?R] exI [of _ ?H] exI [of _ bs'],
           simp del: fun_upd_apply add: bclrlf_def)
    next
      case (Some r)
      then have e: "e = 0" "w = Some r" using 2(8) by simp_all
      have rr: "r \<in> root_set B H" using lookup_root [of B H k r, OF Some] .
      let ?R = "(bclrlf R')\<lparr>super := (super (bclrlf R'))\<lparr>scroot := r, scclas := k\<rparr>\<rparr>"
      have ty: "mem_info (B' ! nat r) ZBTYPE = Some ZROOT"
        using mem_info_type V'(2,3) [OF rr] by (simp add: wf_keys_def)
      obtain s6 where s6: "bgtinf r ZBTYPE (bclrlf s5) = Some (ZROOT, s6)" "repr s6 B' {} (bclrlf R')"
        using bgtinf_spec [OF s5(2) V'(1) [OF rr] room(2) _ ty] by (auto simp: runs_def ZBTYPE_def ZINFSZ_def)
      have r6: "repr (s6\<lparr>super := (super s6)\<lparr>scroot := r, scclas := k\<rparr>\<rparr>) B' {} ?R"
        using repr_frame(3) [OF s6(2)] repr_fields(8) [OF s6(2)] by simp
      obtain s7 where s7: "bsetbs r 1 (s6\<lparr>super := (super s6)\<lparr>scroot := r, scclas := k\<rparr>\<rparr>) = Some s7" "repr s7 B' {r} ?R"
        using bsetbs_spec [OF r6 V'(1) [OF rr] room(2), of 1] by (auto simp: runs_def)
      have "?tail = Some s7" using s4' s5(1) s6(1) s7(1) e k by simp
      then have ret: "btchgr n s = Some (0, s7)"
        using c finish [OF s7(2)] nsh 2(9) e(1) by (simp add: bclrlf_def)
      have "index_ok B' ?R ?H bs'" using i5 by (simp only: index_ok_frame)
      then show ?thesis
        unfolding runs_def using s7(2) Some sup 2(5,6) ret
        by (intro exI [of _ "(0, s7)"] conjI)
          (assumption, simp only: prod.case option.case, intro disjI2 exI [of _ B'] exI [of _ ?R] exI [of _ ?H] exI [of _ bs'],
           simp del: fun_upd_apply add: bclrlf_def)
    qed
  qed
qed

text \<open>As the user of the index sees it.\<close>

lemma serves_chgr:
  fixes n :: string
  assumes s: "serves md cur M s"
  defines "k \<equiv> strncpy_term ZKYLEN n"
  shows "runs (btchgr n s) (\<lambda>(e, s'). e = QF2BIG \<and> md = 0 \<or>
    (if M k = None then e = QNOKEY \<and> serves md cur M s' else e = 0 \<and> serves md k M s'))"
proof -
  obtain B P R H bs r where S: "repr s B P R" "P \<subseteq> {r}" "index_ok B R H bs"
      "lookup (entries_of B H ZSUPER) cur = Some r" "lookup (entries_of B H ZSUPER) ''$$super'' = Some ZSUPER"
      "s_scroot R = r" "scclas (super R) = cur" "smode (super R) = md" "catalog B H = M"
    using s by (auto simp: serves_def)
  have rr: "r \<in> root_set B H" using lookup_root [of B H cur r, OF S(4)] .
  have M: "M k = None \<longleftrightarrow> lookup (entries_of B H ZSUPER) k = None" using S(9) by (auto simp: catalog_def)
  show ?thesis
  proof (rule runs_conseq [OF index_chgr [OF S(1-3) rr S(6) k_def [THEN meta_eq_to_obj_eq]]],
      simp only: split_paired_all prod.case, elim disjE conjE exE, goal_cases)
    case (1 e s')
    then show ?case using S(8) by simp
  next
    case (2 e s' B' R' H' bs')
    have sv: "serves md c M s'" if "repr s' B' {q} R'" "lookup (entries_of B H ZSUPER) c = Some q"
        "s_scroot R' = q" "scclas (super R') = c" for c q
      unfolding serves_def using 2(1-4) that S(5,8,9)
      by (intro exI [of _ B'] exI [of _ "{q}"] exI [of _ R'] exI [of _ H'] exI [of _ bs'] exI [of _ q]) simp
    show ?case
    proof (cases "lookup (entries_of B H ZSUPER) k")
      case None
      then show ?thesis using 2(5) M sv [OF _ S(4)] S(7) by simp
    next
      case (Some q)
      have "M k \<noteq> None" unfolding M using Some by simp
      then show ?thesis using 2(5) Some sv [OF _ Some] by (auto simp del: not_None_eq)
    qed
  qed
qed

end
