(* ===== verification/Reopen.thy ===== *)
theory Reopen
  imports Create Switch
begin

text \<open>
  Closing an index (\<open>btcls\<close>) and opening it again (\<open>btopn\<close>): what an index holds is in its file when it
  is closed, and is there again when the file is opened, also in another slot and with other memory.
\<close>

section \<open>An index in a file\<close>

text \<open>Blocks that stand for the same keys and links.\<close>

definition alike :: "memrec \<Rightarrow> memrec \<Rightarrow> bool" where
  "alike m m' \<longleftrightarrow> entries m' = entries m \<and> links m' = links m \<and> nkeys_of m' = nkeys_of m \<and>
     btype_of m' = btype_of m \<and> (wf_memrec m \<longrightarrow> wf_memrec m')"

lemma tree_alike:
  assumes "wf_tree B h b" "length B' = length B" "\<forall>c. alike (B ! c) (B' ! c)"
  shows "wf_tree B' h b \<and> tree_entries B' h b = tree_entries B h b \<and> tree_blocks B' h b = tree_blocks B h b"
  using assms(1)
proof (induction h arbitrary: b)
  case 0
  then show ?case using assms(2) assms(3) [rule_format, of "nat b"]
    by (auto simp: alike_def valid_blk_def wf_keys_def)
next
  case (Suc h)
  let ?ls = "links (B ! nat b)"
  have b: "links (B' ! nat b) = ?ls" "entries (B' ! nat b) = entries (B ! nat b)" "nkeys_of (B' ! nat b) = nkeys_of (B ! nat b)"
    "valid_blk B' b" "wf_keys (B' ! nat b)"
    using Suc.prems assms(2) assms(3) [rule_format, of "nat b"] by (auto simp: alike_def valid_blk_def wf_keys_def)
  have IH: "wf_tree B' h l \<and> tree_entries B' h l = tree_entries B h l \<and> tree_blocks B' h l = tree_blocks B h l"
    if "l \<in> set ?ls" for l
    using that Suc.prems by (intro Suc.IH) auto
  then have "map (tree_entries B' h) ?ls = map (tree_entries B h) ?ls"
    "map (tree_blocks B' h) ?ls = map (tree_blocks B h) ?ls" by simp_all
  then show ?case using b IH Suc.prems(1) by (simp del: map_eq_conv)
qed

lemma super_alike:
  assumes "btype_of m = ZROOT"
  shows "alike m (super_block R m)"
proof -
  have n: "nkeys_of (super_block R m) = nkeys_of m"
    by (simp add: super_block_def set_words_def word_of_def info_defs)
  moreover have "btype_of (super_block R m) = ZROOT"
    using pack_type(1) [of ZROOT] by (simp add: super_block_def set_words_def btype_of_def word_of_def ZROOT_def)
  moreover have "keyblk (super_block R m) = keyblk m" "lnkblk (super_block R m) = lnkblk m"
    by (simp_all add: super_block_def set_words_def)
  moreover have "wf_memrec (super_block R m)" if "wf_memrec m"
    using that by (simp add: super_block_def set_words_def wf_memrec_def ZINFSZ_def)
  ultimately show ?thesis using assms by (simp add: alike_def entries_def links_def)
qed

lemma alike_refl [simp]: "alike m m"
  by (simp add: alike_def)

text \<open>Write-back of the super root keeps the invariant, and the file holds its words.\<close>

lemma index_synced:
  assumes i: "index_ok B R H bs"
  shows "index_ok (synced B R) (sync_rest R) H bs" "catalog (synced B R) H = catalog B H"
    "entries_of (synced B R) H ZSUPER = entries_of B H ZSUPER"
proof -
  let ?B = "synced B R"
  have f: "forest B H" and fl: "free_list B R bs" "length B < MXBLKS" and sv: "saved B R"
    using i by (simp_all add: index_ok_def)
  have ty: "btype_of (B ! nat q) = ZROOT" "valid_blk B q" if "q \<in> root_set B H" for q
    using root_typed [OF i that] by simp_all
  have al: "alike (B ! c) (?B ! c)" for c
    using super_alike [OF ty(1) [OF super_root]] ty(2) [OF super_root]
    by (cases "c = nat ZSUPER") (auto simp: synced_def valid_blk_def)
  have len: "length ?B = length B" by (simp add: synced_def)
  have tr: "wf_tree ?B h b \<and> tree_entries ?B h b = tree_entries B h b \<and> tree_blocks ?B h b = tree_blocks B h b"
    if "wf_tree B h b" for h b
    using tree_alike [OF that len] al by blast
  have ok: "tree_ok ?B h q \<and> tree_entries ?B h q = tree_entries B h q \<and> tree_blocks ?B h q = tree_blocks B h q"
    if "tree_ok B h q" for h q
    using that tr [of h q] al by (auto simp: tree_ok_def search_tree_def typed_tree_def alike_def)
  have oks: "tree_ok B (H q) q" if "q \<in> root_set B H" for q using f that by (simp add: forest_def)
  show es: "entries_of ?B H ZSUPER = entries_of B H ZSUPER" using ok [OF oks [OF super_root]] by simp
  then have rs: "root_set ?B H = root_set B H" by (simp add: root_set_def)
  show cat: "catalog ?B H = catalog B H"
  proof
    fix n show "catalog ?B H n = catalog B H n"
    proof (cases "lookup (entries_of B H ZSUPER) n")
      case None
      then show ?thesis using es by (simp add: catalog_def)
    next
      case (Some q)
      then show ?thesis using es ok [OF oks [OF lookup_root [of B H n q, OF Some]]] by (simp add: catalog_def)
    qed
  qed
  have "forest ?B H"
    using f ok oks es unfolding forest_def rs by simp
  moreover have "free_list ?B (sync_rest R) bs"
  proof -
    have "\<forall>b \<in> set bs. ?B ! nat b = B ! nat b"
    proof
      fix b assume "b \<in> set bs"
      then have "valid_blk B b" "btype_of (B ! nat b) = ZFREE"
        using fl(1) free_chain_valid by (auto simp: free_list_def)
      then have "nat b \<noteq> nat ZSUPER" using ty(1) [OF super_root] types_differ by force
      then show "?B ! nat b = B ! nat b" by (simp add: synced_def)
    qed
    then show ?thesis using fl(1) free_chain_cong [of B _ bs ?B] len by (simp add: free_list_def sync_rest_def)
  qed
  moreover have "saved ?B (sync_rest R)"
  proof (cases "smod (super R) = 0")
    case True
    then show ?thesis using sv by (simp add: synced_def sync_rest_def saved_def)
  next
    case False
    have "snfree (super R) \<noteq> to_int32 LFSHDR" using fl(1) by (simp add: free_list_def to_int32_def LFSHDR_def)
    then have "super_ok (super_block R (B ! nat ZSUPER))" by (rule super_block_ok)
    moreover have "?B ! nat ZSUPER = super_block R (B ! nat ZSUPER)"
      using False ty(2) [OF super_root] by (simp add: synced_def valid_blk_def ZSUPER_def)
    ultimately show ?thesis
      by (simp add: saved_def sync_rest_def) (simp add: super_block_def set_words_def word_of_def info_defs)
  qed
  moreover have "plain_flags ?B H"
  proof -
    have "?B ! nat r = B ! nat r" if "r \<in> root_set B H - {ZSUPER}" for r
      using that ty(2) [of r] by (auto simp: synced_def valid_blk_def ZSUPER_def)
    then show ?thesis using i by (simp add: index_ok_def plain_flags_def rs)
  qed
  ultimately show "index_ok ?B (sync_rest R) H bs"
    using i len by (simp add: index_ok_def sync_rest_def)
qed

text \<open>The file \<open>f\<close> holds an index with the catalog \<open>M\<close>, without regard to any process.\<close>

definition stored :: "(string \<Rightarrow> keyent list option) \<Rightarrow> memrec list \<Rightarrow> bool" where
  "stored M f \<longleftrightarrow> list_all wf_memrec f \<and> (\<exists>R H bs. index_ok f R H bs \<and> smod (super R) = 0 \<and>
     lookup (entries_of f H ZSUPER) ''$$super'' = Some ZSUPER \<and> catalog f H = M)"

text \<open>The last \<open>bulock\<close> stores an index; a later \<open>brdsup\<close> finds it.\<close>

lemma unlock_stores:
  assumes "serves md cur M s"
  shows "runs (unlock_all (clear_err s)) (\<lambda>s'. \<exists>f. idxunt s' = Some f \<and> stored M f \<and> qerror s' = 0 \<and> ioenv s' = (\<lambda>_ _. 0) \<and>
    lkenv s' = [])"
proof -
  obtain B P R H bs r where S: "repr s B P R" "P \<subseteq> {r}" "index_ok B R H bs"
      "lookup (entries_of B H ZSUPER) ''$$super'' = Some ZSUPER" "catalog B H = M"
    using assms by (auto simp: serves_def)
  let ?R = "clear_err R"
  have r: "repr (clear_err s) B P ?R" using S(1) by auto
  have i: "index_ok B ?R H bs" using S(3) by (simp only: index_ok_frame)
  have V: "valid_blk B ZSUPER" "room P ZSUPER"
    using root_typed [OF S(3) super_root] card_mono [OF _ S(2)] by (auto simp: room_def ZMXBLK_def)
  have l: "lckcnt ?R = 1" using S(3) by (simp add: index_ok_def)
  obtain s1 where s1: "bulock (clear_err s) = Some s1" "repr s1 (synced B ?R) {} ((sync_rest ?R)\<lparr>lckcnt := 0\<rparr>)"
      "idxunt s1 = Some (synced B ?R)"
    using bulock_spec [OF r V l] by (auto simp: runs_def)
  have "lckcnt s1 = 0" "qerror s1 = 0" "lkenv s1 = []" and io: "ioenv s1 = (\<lambda>_ _. 0)"
    using repr_fields [OF s1(2)] S(3) by (simp_all add: sync_rest_def index_ok_def bterr_def)
  moreover have "unlock_all (clear_err s) = Some s1"
    using s1(1) \<open>lckcnt s1 = 0\<close> repr_fields(3) [OF r] l by (simp add: unlock_all.simps)
  moreover have "stored M (synced B ?R)"
    unfolding stored_def using index_synced [OF i] repr_wf(1) [OF s1(2)] S(4,5)
    by (intro conjI exI [of _ "sync_rest ?R"] exI [of _ H] exI [of _ bs]) (simp_all add: sync_rest_def)
  ultimately show ?thesis using s1(3) by (simp add: runs_def)
qed

lemma stored_index:
  assumes f: "index_ok f R H bs" "smod (super R) = 0"
    and R: "\<not> shared R'" "stk_array R'" "lckcnt R' = 1" "lkenv R' = []" "smod (super R') = 0"
  shows "index_ok f (load_super (f ! nat ZSUPER) R') H bs"
proof -
  have "saved f R" using f(1) by (simp add: index_ok_def)
  then show ?thesis
    using f R by (simp add: index_ok_def saved_def free_list_def load_super_def)
qed

section \<open>Opening a file\<close>

lemma bacini_file:
  assumes os: "os_ok (Some m)" and s: "idxunt s = Some f" "list_all wf_memrec f" "length f \<le> MXBLKS" "ioenv s = (\<lambda>_ _. 0)"
  shows "runs (bacini (Some m) s) (\<lambda>(e, s'). e = 0 \<and> (\<exists>R'. repr s' f {} R' \<and> lckcnt R' = 0 \<and> stk_array R' \<and>
    lkenv R' = lkenv s \<and> qerror R' = qerror s \<and> smode (super R') = smode (super m)))"
proof -
  note O = os [unfolded os_ok_def, rule_format, OF refl]
  let ?s = "s\<lparr>fd := fd m, lckcnt := 0, cntrls := cntrls m, mems := mems m, lru := lru m,
                 lf := lf m, stk := stk m, stat := stat m, super := super m\<rparr>"
  obtain t where t: "initcntrl ?s = Some t" "repr t f {} (rest ?s)"
    using initcntrl_repr [of ?s f] O s by (auto simp: runs_def list_all_iff)
  have "bacini (Some m) s = Some (0, bclrst (bclrlf t))" using t(1) by (simp add: bacini_def)
  moreover have "repr (bclrst (bclrlf t)) f {} (bclrlf (rest ?s))"
    using repr_frame(4) [OF repr_frame2(2) [OF t(2)]] by (simp add: bclrst_def)
  ultimately show ?thesis using O by (auto simp: bclrlf_def rest_def intro!: exI [of _ "bclrlf (rest ?s)"])
qed

text \<open>\<open>btchgr\<close> returns the error that it leaves.\<close>

lemma btchgr_code: "btchgr n s = Some (e, s') \<Longrightarrow> idxunt s \<noteq> None \<Longrightarrow> qerror s' = e"
  by (auto simp: btchgr_def bind_eq_Some_conv bvalap_def btgerr_def split: if_splits)

lemma opn_body_runs:
  assumes f: "stored M f" "M ''$$default'' \<noteq> None" and s: "repr s f {} R" "lckcnt R = 0" "stk_array R" "lkenv R = []" "qerror R = 0"
  shows "runs (opn_body mode False s) (\<lambda>(ok, s'). \<not> ok \<and> qerror s' = QF2BIG \<and> smode (super R) = 0 \<or>
    ok \<and> qerror s' = 0 \<and> serves mode ''$$default'' M s')"
proof -
  obtain R0 H bs where i: "index_ok f R0 H bs" "smod (super R0) = 0" "catalog f H = M"
      "lookup (entries_of f H ZSUPER) ''$$super'' = Some ZSUPER"
    using f(1) by (auto simp: stored_def)
  let ?R1 = "R\<lparr>shared := False, super := (super R)\<lparr>smod := 0, scroot := 0\<rparr>, lckcnt := 1\<rparr>"
  let ?s1 = "s\<lparr>shared := False, super := (super s)\<lparr>smod := 0, scroot := 0\<rparr>, lckcnt := 1\<rparr>"
  have r1: "repr ?s1 f {} ?R1"
    by (intro repr_frame_gen [OF s(1)]) (simp_all add: repr_rest [OF s(1), symmetric] rest_def)
  have b: "block (s\<lparr>shared := False, super := (super s)\<lparr>smod := 0, scroot := 0\<rparr>\<rparr>) = Some (True, ?s1)"
    using repr_fields [OF s(1)] s by (simp add: block_def ask_lock_def)
  have V: "valid_blk f ZSUPER" "room {} ZSUPER" using root_typed [OF i(1) super_root] by (simp_all add: room_def ZMXBLK_def)
  have ok: "super_ok (f ! nat ZSUPER)" using i(1) by (simp add: index_ok_def saved_def)
  let ?R2 = "load_super (f ! nat ZSUPER) ?R1"
  have q1: "qerror ?R1 = 0" using s(5) by simp
  obtain s2 where s2: "brdsup ?s1 = Some (0, s2)" "repr s2 f {} ?R2"
    using brdsup_spec [OF r1 V ok q1] by (auto simp: runs_def)
  have i2: "index_ok f ?R2 H bs" using stored_index [OF i(1,2), of ?R1] s by simp
  have sc: "s_scroot ?R2 = ZSUPER" by (simp add: load_super_def ZSUPER_def)
  have k: "''$$default'' = strncpy_term ZKYLEN ''$$default''" by (simp add: strncpy_term_def ZKYLEN_def)
  obtain r where r: "lookup (entries_of f H ZSUPER) ''$$default'' = Some r" using f(2) i(3) by (auto simp: catalog_def)
  obtain e s3 where s3: "btchgr ''$$default'' s2 = Some (e, s3)"
    and g: "e = QF2BIG \<and> smode (super ?R2) = 0 \<and> \<not> shared s3 \<or>
      (\<exists>B' R' H' bs'. index_ok B' R' H' bs' \<and> smode (super R') = smode (super ?R2) \<and> catalog B' H' = catalog f H \<and>
       entries_of B' H' ZSUPER = entries_of f H ZSUPER \<and> e = 0 \<and> repr s3 B' {r} R' \<and> s_scroot R' = r \<and>
       scclas (super R') = ''$$default'')"
    by (rule runs_obtain2 [OF index_chgr [OF s2(2) empty_subsetI i2 super_root sc k, unfolded r option.case]])
  have sv: "serves mode ''$$default'' M (s3\<lparr>super := (super s3)\<lparr>smode := mode\<rparr>\<rparr>)"
    if x: "index_ok B' R' H' bs'" "catalog B' H' = M" "entries_of B' H' ZSUPER = entries_of f H ZSUPER"
      "repr s3 B' {r} R'" "s_scroot R' = r" "scclas (super R') = ''$$default''" for B' R' H' bs'
  proof -
    let ?R = "R'\<lparr>super := (super R')\<lparr>smode := mode\<rparr>\<rparr>"
    have "repr (s3\<lparr>super := (super s3)\<lparr>smode := mode\<rparr>\<rparr>) B' {r} ?R"
      using repr_frame(3) [OF x(4)] repr_fields(8) [OF x(4)] by simp
    moreover have "index_ok B' ?R H' bs'" using x(1) by (simp only: index_ok_frame)
    ultimately show ?thesis
      unfolding serves_def using x i(4) r
      by (intro exI [of _ B'] exI [of _ "{r}"] exI [of _ ?R] exI [of _ H'] exI [of _ bs'] exI [of _ r]) simp
  qed
  have q3: "qerror s3 = e" using btchgr_code [OF s3] repr_fields(19) [OF s2(2)] by simp
  have nsh: "\<not> shared s3" using g repr_fields(4) by (auto simp: index_ok_def simp del: fun_upd_apply)
  show ?thesis
  proof (cases "e = 0")
    case True
    then have "serves mode ''$$default'' M (s3\<lparr>super := (super s3)\<lparr>smode := mode\<rparr>\<rparr>)"
      using g i(3) sv by (auto simp: QF2BIG_def simp del: fun_upd_apply)
    then show ?thesis
      using b s2(1) s3 True q3 nsh by (simp add: opn_body_def runs_def btgerr_def unlock_if_shared_def)
  next
    case False
    then have "e = QF2BIG" "smode (super R) = 0" using g by (auto simp: load_super_def)
    then show ?thesis
      using b s2(1) s3 False q3 nsh by (simp add: opn_body_def runs_def btgerr_def unlock_if_shared_def)
  qed
qed

section \<open>Sessions\<close>

text \<open>The table of contexts has its length, and the operating system carries out what it is asked for.\<close>

definition ready_sess :: "sess \<Rightarrow> bool" where
  "ready_sess ss \<longleftrightarrow> calm ss \<and> length (btat ss) = ZMXACT \<and> length (units ss) = ZMXACT"

text \<open>The handle \<open>b\<close> is an index open on the file \<open>fid\<close>; no other slot has a file of that name.\<close>

definition opened :: "int \<Rightarrow> string \<Rightarrow> int \<Rightarrow> string \<Rightarrow> (string \<Rightarrow> keyent list option) \<Rightarrow> sess \<Rightarrow> bool" where
  "opened b fid md cur M ss \<longleftrightarrow> length (btat ss) = ZMXACT \<and> length (units ss) = ZMXACT \<and> units ss ! nat b = fid \<and>
     (\<forall>i < ZMXACT. i \<noteq> nat b \<longrightarrow> idxfid (btat ss ! i) \<noteq> fid) \<and> (\<exists>s. activate b ss = Some s \<and> serves md cur M s)"

text \<open>The file system has the index under the name \<open>fid\<close>, which no slot has open.\<close>

definition on_disk :: "string \<Rightarrow> (string \<Rightarrow> keyent list option) \<Rightarrow> sess \<Rightarrow> bool" where
  "on_disk fid M ss \<longleftrightarrow> ready_sess ss \<and> (\<forall>a \<in> set (btat ss). idxfid a \<noteq> fid) \<and> (\<exists>f. fsys ss fid = Some f \<and> stored M f)"

lemma activate_range: "activate b ss = Some s \<Longrightarrow> 0 \<le> b \<and> b < int (length (btat ss))"
  by (auto simp: activate_def bind_eq_Some_conv arr_get_def split: if_splits)

lemma opened_step:
  assumes o: "opened b fid md cur M ss" and f: "\<And>s. serves md cur M s \<Longrightarrow> runs (f s) (\<lambda>(r, s'). Q r s')"
  shows "runs (in_slot b f ss) (\<lambda>(r, ss'). \<exists>s'. Q r s' \<and> (\<forall>md' cur' M'. serves md' cur' M' s' \<longrightarrow> opened b fid md' cur' M' ss'))"
proof -
  obtain s where s: "activate b ss = Some s" "serves md cur M s" using o by (auto simp: opened_def)
  from in_slot_runs [of b ss s f, OF s(1) f [OF s(2)]] show ?thesis
  proof (rule runs_conseq, simp only: split_paired_all prod.case, elim exE conjE, goal_cases)
    case (1 r ss' s')
    then show ?case using o by (auto simp: opened_def other_slots_def)
  qed
qed

lemma activate_calm: "activate b ss = Some s \<Longrightarrow> calm ss \<longleftrightarrow> ioenv s = (\<lambda>_ _. 0) \<and> lkenv s = []"
proof -
  assume "activate b ss = Some s"
  then obtain a where "s = bta.extend a (glob ss)" by (auto simp: activate_def bind_eq_Some_conv)
  then have "glob ss = bta.more s" by (simp add: bta_extend_fields)
  then show ?thesis by (simp add: calm_def bta_extend_more)
qed

lemma btcls_slot:
  assumes s: "activate b ss = Some s" "serves md cur M s"
    and L: "length (btat ss) = ZMXACT" "length (units ss) = ZMXACT" "units ss ! nat b = fid"
  shows "runs (btcls b ss) (\<lambda>(e, ss'). e = 0 \<and> (\<exists>f. stored M f \<and> fsys ss' = (fsys ss)(fid \<mapsto> f)) \<and> calm ss' \<and>
    units ss' = units ss \<and> length (btat ss') = ZMXACT \<and> idxunt (btat ss' ! nat b) = None \<and>
    idxfid (btat ss' ! nat b) = [] \<and> (\<forall>i < ZMXACT. i \<noteq> nat b \<longrightarrow> btat ss' ! i = btat ss ! i))"
proof -
  have b: "0 \<le> b" "b < int ZMXACT" using activate_range [OF s(1)] L by simp_all
  obtain s1 f where s1: "unlock_all (clear_err s) = Some s1" "idxunt s1 = Some f" "stored M f" "qerror s1 = 0"
      "ioenv s1 = (\<lambda>_ _. 0)" "lkenv s1 = []"
    using unlock_stores [OF s(2)] by (auto simp: runs_def)
  obtain B P R where "repr s B P R" using s(2) by (auto simp: serves_def)
  then have v: "bvalap ''BTCLS'' (clear_err s) = (0, clear_err s)" using bvalap_ok by blast
  let ?f = "\<lambda>s. do {
            let (e, s) = bvalap ''BTCLS'' (clear_err s);
            if e \<noteq> 0 then Some ((e, False), s)
            else do {
              s \<leftarrow> unlock_all s;
              if ioenv s Op_close 0 \<noteq> 0 then
                Some ((0, False), bterr ''BTCLS'' QCLSIO (Some (idxfid s)) (s\<lparr>errno := ioenv s Op_close 0\<rparr>))
              else Some ((0, True), s)
            }
          }"
  have "runs (?f s) (\<lambda>(r, s'). r = (0, True) \<and> s' = s1)" using v s1(1,5) by simp
  from in_slot_runs [of b ss s ?f, OF s(1) this] obtain ss1 where
    ss1: "in_slot b ?f ss = Some ((0, True), ss1)" "activate b ss1 = Some s1" "other_slots b ss ss1"
    by (auto simp: runs_def)
  have l1: "length (btat ss1) = ZMXACT" "units ss1 = units ss" "\<forall>i < ZMXACT. i \<noteq> nat b \<longrightarrow> btat ss1 ! i = btat ss ! i"
    using ss1(3) L(1) by (simp_all add: other_slots_def)
  have u1: "idxunt (btat ss1 ! nat b) = Some f"
    using ss1(2) s1(2) b l1(1) by (auto simp: activate_def bta_extend_fields)
  let ?ss2 = "ss1\<lparr>fsys := (fsys ss1)(fid \<mapsto> f)\<rparr>"
  let ?ss3 = "?ss2\<lparr>btat := (btat ss1)[nat b := (btat ss1 ! nat b)\<lparr>idxfid := [], idxunt := None, cntrls := [], mems := []\<rparr>]\<rparr>"
  have fb: "file_back b ss1 = Some ?ss2" "bacfre b ?ss2 = Some ?ss3"
    using b l1 L u1 by (simp_all add: file_back_def bacfre_def)
  have g: "sess_gerr ?ss3 = 0" "calm ?ss3"
    using activate_gerr [OF ss1(2)] activate_calm [OF ss1(2)] s1(4-6) by (simp_all add: sess_gerr_def calm_def)
  have "btcls b ss = Some (0, ?ss3)" using b ss1(1) fb g(1) by (simp add: btcls_def)
  then show ?thesis
    using g(2) l1 L s1(3) b ss1(3) by (auto simp: runs_def other_slots_def)
qed

lemma btcls_stores:
  assumes o: "opened b fid md cur M ss" and fid: "fid \<noteq> []"
  shows "runs (btcls b ss) (\<lambda>(e, ss'). e = 0 \<and> on_disk fid M ss' \<and> idxunt (btat ss' ! nat b) = None)"
proof -
  obtain s where s: "activate b ss = Some s" "serves md cur M s" using o by (auto simp: opened_def)
  have L: "length (btat ss) = ZMXACT" "length (units ss) = ZMXACT" "units ss ! nat b = fid" using o by (simp_all add: opened_def)
  show ?thesis
  proof (rule runs_conseq [OF btcls_slot [OF s L]], simp only: split_paired_all prod.case, elim exE conjE, goal_cases)
    case (1 e ss' f)
    have "idxfid (btat ss' ! i) \<noteq> fid" if "i < ZMXACT" for i
      using o fid 1 that by (cases "i = nat b") (simp_all add: opened_def)
    then have "\<forall>a \<in> set (btat ss'). idxfid a \<noteq> fid" using 1(6) by (simp add: all_set_conv_all_nth)
    then show ?case using 1 L by (auto simp: on_disk_def ready_sess_def)
  qed
qed

lemma slot_for:
  assumes "on_disk fid M ss" "idxunt (btat ss ! nat i) = None" "0 \<le> i" "i < int ZMXACT"
  obtains b where "bnewap fid (sess_err [] 0 None ss) = (Some b, sess_err [] 0 None ss)" "0 \<le> b" "b < int ZMXACT"
proof -
  let ?ss = "sess_err [] 0 None ss"
  have n: "\<not> (\<exists>a \<in> set (btat ?ss). strcmp fid (idxfid a) = 0)"
    using assms(1) by (auto simp: on_disk_def sess_err_fields)
  have l: "length (btat ?ss) = ZMXACT" using assms(1) by (simp add: on_disk_def ready_sess_def sess_err_fields)
  have "length (takeWhile (\<lambda>a. idxunt a \<noteq> None) (btat ?ss)) < ZMXACT"
  proof (rule ccontr)
    assume "\<not> ?thesis"
    then have "takeWhile (\<lambda>a. idxunt a \<noteq> None) (btat ?ss) = btat ?ss"
      using l by (subst takeWhile_eq_take) simp
    then have "\<forall>a \<in> set (btat ?ss). idxunt a \<noteq> None" by (simp only: takeWhile_eq_all_conv)
    moreover have "nat i < length (btat ?ss)" using assms(3,4) l by simp
    ultimately have "idxunt (btat ?ss ! nat i) \<noteq> None" using nth_mem by blast
    then show False using assms(2) by (simp add: sess_err_fields)
  qed
  then show thesis using that n l by (simp add: bnewap_def Let_def)
qed

lemma btopn_stored:
  assumes os: "os_ok (Some m)" and d: "on_disk fid M ss" "M ''$$default'' \<noteq> None"
    and n: "bnewap fid (sess_err [] 0 None ss) = (Some b, sess_err [] 0 None ss)" "0 \<le> b" "b < int ZMXACT"
  shows "runs (btopn (Some m) fid mode False ss) (\<lambda>(h, ss').
    h = None \<and> smode (super m) = 0 \<and> sess_gerr ss' = QF2BIG \<or> h = Some b \<and> opened b fid mode ''$$default'' M ss')"
proof -
  let ?s1 = "sess_err [] 0 None ss"
  obtain f where f: "fsys ss fid = Some f" "stored M f" using d(1) by (auto simp: on_disk_def)
  have L: "length (btat ss) = ZMXACT" "length (units ss) = ZMXACT" and c: "calm ss"
    using d(1) by (simp_all add: on_disk_def ready_sess_def)
  have c1: "calm ?s1" using c by (simp add: sess_err_fields)
  define a where "a = (btat ss ! nat b)\<lparr>idxunt := Some f\<rparr>"
  define s2 where "s2 = ?s1\<lparr>btat := (btat ss)[nat b := a], units := (units ss)[nat b := fid]\<rparr>"
  have o: "do_fopen False fid b ?s1 = Some (True, s2)"
    using n(2,3) L f(1) c1 by (simp add: do_fopen_def sess_env_def calm_def sess_err_fields a_def s2_def)
  let ?x = "bta.extend a (glob s2)"
  have x: "activate b s2 = Some ?x" using n(2,3) L by (simp add: activate_def s2_def)
  have c2: "calm s2" "sess_gerr s2 = 0" using c1 sess_err_fields(5) [of ss] by (simp_all add: calm_def sess_gerr_def s2_def)
  have xf: "idxunt ?x = Some f" "ioenv ?x = (\<lambda>_ _. 0)" "lkenv ?x = []" "qerror ?x = 0"
    using c2 bta_extend_more [of a "bta.extend null_bta (glob s2)"]
    by (simp_all add: bta_extend_fields a_def calm_def sess_gerr_def btgerr_def)
  have wf: "list_all wf_memrec f" "length f \<le> MXBLKS" using f(2) by (auto simp: stored_def index_ok_def)
  let ?f = "\<lambda>s. bacini (Some m) (s\<lparr>idxfid := take (FIDSZ - 1) fid\<rparr>)"
  have "runs (?f ?x) (\<lambda>(e, s'). e = 0 \<and> (\<exists>R'. repr s' f {} R' \<and> lckcnt R' = 0 \<and> stk_array R' \<and>
      lkenv R' = [] \<and> qerror R' = 0 \<and> smode (super R') = smode (super m)))"
    using bacini_file [OF os, of "?x\<lparr>idxfid := take (FIDSZ - 1) fid\<rparr>" f] xf wf by simp
  from in_slot_runs [of b s2 ?x ?f, OF x this] obtain s3 y R where s3: "in_slot b ?f s2 = Some (0, s3)" "activate b s3 = Some y"
      "other_slots b s2 s3" "repr y f {} R" "lckcnt R = 0" "stk_array R" "lkenv R = []" "qerror R = 0" "smode (super R) = smode (super m)"
    by (auto simp: runs_def)
  from in_slot_runs [of b s3 y "opn_body mode False", OF s3(2) opn_body_runs [OF f(2) d(2) s3(4-8)]]
  obtain ok s4 z where s4: "in_slot b (opn_body mode False) s3 = Some (ok, s4)" "activate b s4 = Some z" "other_slots b s3 s4"
      "\<not> ok \<and> qerror z = QF2BIG \<and> smode (super R) = 0 \<or> ok \<and> qerror z = 0 \<and> serves mode ''$$default'' M z"
    by (auto simp: runs_def)
  have l4: "length (btat s4) = ZMXACT" "units s4 = (units ss)[nat b := fid]" "fsys s4 = fsys ss"
    "\<forall>i < ZMXACT. i \<noteq> nat b \<longrightarrow> btat s4 ! i = btat ss ! i"
    using s3(3) s4(3) L by (simp_all add: other_slots_def s2_def sess_err_fields)
  show ?thesis
  proof (cases ok)
    case True
    have "btopn (Some m) fid mode False ss = Some (Some b, s4)"
      using n(1) o s3(1) s4(1) True by (simp add: btopn_def)
    moreover have "opened b fid mode ''$$default'' M s4"
      using s4(2,4) True l4 L n(2,3) d(1) by (auto simp: opened_def on_disk_def)
    ultimately show ?thesis by (simp add: runs_def)
  next
    case False
    obtain ss5 where ss5: "file_back b s4 = Some ss5" "glob ss5 = glob s4" "btat ss5 = btat s4"
      using n(2,3) l4 L by (cases "idxunt (btat s4 ! nat b)") (simp_all add: file_back_def)
    obtain ss6 where ss6: "bacfre b ss5 = Some ss6" "glob ss6 = glob s4"
      using n(2,3) l4 ss5 by (simp add: bacfre_def)
    have "sess_gerr ss6 = QF2BIG" using activate_gerr [OF s4(2)] s4(4) False ss6(2) by (simp add: sess_gerr_def)
    moreover have "btopn (Some m) fid mode False ss = Some (None, ss6)"
      using n(1) o s3(1) s4(1) False ss5(1) ss6(1) by (simp add: btopn_def)
    ultimately show ?thesis using s4(4) False s3(9) by (simp add: runs_def)
  qed
qed

lemma bnewap_names:
  assumes "bnewap fid (sess_err [] 0 None ss) = (Some b, ss')"
  shows "\<forall>a \<in> set (btat ss). idxfid a \<noteq> fid"
  using assms by (auto simp: bnewap_def sess_err_fields split: if_splits)

lemma btcrt_opened:
  assumes os: "os_ok (Some m)" and ss: "ready_sess ss" and b: "fst (bnewap fid (sess_err [] 0 None ss)) = Some b"
  shows "runs (btcrt (Some m) fid 0 False ss) (\<lambda>(h, ss'). h = Some b \<and> opened b fid 0 ''$$default'' new_catalog ss')"
proof -
  have c: "calm ss" "length (units ss) = length (btat ss)" and L: "length (btat ss) = ZMXACT" "length (units ss) = ZMXACT"
    using ss by (simp_all add: ready_sess_def)
  obtain ss1 where n: "bnewap fid (sess_err [] 0 None ss) = (Some b, ss1)" using b by (metis prod.collapse)
  have r: "0 \<le> b" "b < int ZMXACT" using bnewap_slot [OF n] L by (simp_all add: sess_err_fields)
  show ?thesis
    using bnewap_names [OF n] L r
    by (intro runs_conseq [OF btcrt_new [OF os c b]]) (auto simp: opened_def)
qed

lemma reopened:
  assumes "opened b fid md cur M ss" "fid \<noteq> []" "M ''$$default'' \<noteq> None" "os_ok (Some m)"
  shows "runs (do { (e, ss) \<leftarrow> btcls b ss; (h, ss) \<leftarrow> btopn (Some m) fid mode False ss; Some (e, h, ss) })
    (\<lambda>(e, h, ss'). e = 0 \<and> (h = None \<and> smode (super m) = 0 \<and> sess_gerr ss' = QF2BIG \<or>
      (\<exists>b'. h = Some b' \<and> opened b' fid mode ''$$default'' M ss')))"
proof (rule runs_bindI [OF btcls_stores [OF assms(1,2)]], simp only: split_paired_all prod.case, elim conjE, goal_cases)
  case (1 e ss1)
  obtain s where "activate b ss = Some s" "length (btat ss) = ZMXACT" using assms(1) by (auto simp: opened_def)
  then have "0 \<le> b" "b < int ZMXACT" using activate_range by fastforce+
  then obtain b' where "bnewap fid (sess_err [] 0 None ss1) = (Some b', sess_err [] 0 None ss1)" "0 \<le> b'" "b' < int ZMXACT"
    using slot_for [OF 1(2,3)] by blast
  note o = btopn_stored [OF assms(4) 1(2) assms(3) this, of mode]
  show ?case
    unfolding runs_bind by (rule runs_conseq [OF o]) (use 1(1) in auto)
qed

text \<open>Filling and searching an index through its handle.\<close>

lemma filled_slot:
  assumes "opened b fid 0 cur M ss" "cur \<noteq> ''$$super''"
  shows "runs (in_slot b (insert_all QF2BIG binsky kvs) ss) (\<lambda>(e, ss'). e = QF2BIG \<or> e \<noteq> QF2BIG \<and>
    (\<exists>es. opened b fid 0 cur (M(cur \<mapsto> es)) ss' \<and>
      lookup es = keep_first (strncpy_term ZKYLEN) kvs (lookup (the (M cur)))))"
proof -
  have f: "runs (insert_all QF2BIG binsky kvs s) (\<lambda>(e, s'). e = QF2BIG \<or> e \<noteq> QF2BIG \<and>
      (\<exists>es. serves 0 cur (M(cur \<mapsto> es)) s' \<and> lookup es = keep_first (strncpy_term ZKYLEN) kvs (lookup (the (M cur)))))"
    if s: "serves 0 cur M s" for s
  proof -
    obtain es where es: "M cur = Some es" using serves_current [OF s] by blast
    then have "cur \<noteq> ''$$super'' \<and> serves 0 cur (M(cur \<mapsto> es)) s" using s assms(2) by (simp add: fun_upd_idem)
    from bix.fill [OF this, of kvs] show ?thesis using es by (auto simp: QF2BIG_def elim!: runs_conseq)
  qed
  show ?thesis
    by (rule runs_conseq [OF opened_step [OF assms(1) f]]) auto
qed

lemma found_slot:
  assumes o: "opened b fid md cur M ss"
  shows "runs (in_slot b (bfndky key None) ss) (\<lambda>((e, w), ss'). e = QF2BIG \<or> opened b fid md cur M ss' \<and>
    (case lookup (the (M cur)) (strncpy_term ZKYLEN key) of None \<Rightarrow> e = QNOKEY | Some x \<Rightarrow> e = 0 \<and> w = Some x))"
proof -
  have f: "runs (bfndky key None s) (\<lambda>(r, s'). fst r = QF2BIG \<or> serves md cur M s' \<and>
      (case lookup (the (M cur)) (strncpy_term ZKYLEN key) of None \<Rightarrow> fst r = QNOKEY | Some x \<Rightarrow> fst r = 0 \<and> snd r = Some x))"
    if s: "serves md cur M s" for s
  proof -
    obtain es where es: "M cur = Some es" using serves_current [OF s] by blast
    show ?thesis by (rule runs_conseq [OF serves_find [OF s es, of key]]) (use es in \<open>auto split: option.splits\<close>)
  qed
  show ?thesis
    by (rule runs_conseq [OF opened_step [OF o f]]) (auto split: option.splits)
qed

end
