(* ===== verification/Repair.thy ===== *)
theory Repair
  imports Position Delete
begin

text \<open>
  What a deletion does to two neighbouring leaves: \<open>bjoin\<close> puts them together with the key between
  them, \<open>balbk1\<close> moves keys from the fuller one to the other through their parent. The lists of the two
  leaves with the key between them stay the same.
\<close>

section \<open>Contents of a block\<close>

text \<open>A block with the given keys and links, and otherwise the info words of \<open>m0\<close>.\<close>

definition node :: "memrec \<Rightarrow> keyent list \<Rightarrow> int list \<Rightarrow> memrec \<Rightarrow> bool" where
  "node m0 es ls m \<longleftrightarrow> wf_keys m \<and> entries m = es \<and> links m = ls \<and>
     (\<forall>t. 0 \<le> t \<and> t \<noteq> ZNKEYS \<longrightarrow> word_of m t = word_of m0 t)"

definition leaf_of :: "memrec \<Rightarrow> keyent list \<Rightarrow> memrec \<Rightarrow> bool" where
  "leaf_of m0 es m \<longleftrightarrow> (\<exists>ls. node m0 es ls m \<and> (es \<noteq> [] \<longrightarrow> (\<forall>l \<in> set ls. l = ZNULL)))"

lemma node_D:
  assumes "node m0 es ls m"
  shows "wf_keys m" "entries m = es" "links m = ls" "nkeys_of m = int (length es)" "sorted_keys es"
    "length es \<le> 22" "length ls = Suc (length es)" "wf_memrec m"
    "0 \<le> t \<Longrightarrow> t \<noteq> ZNKEYS \<Longrightarrow> word_of m t = word_of m0 t"
proof -
  note D = wf_keys_D [of m]
  show "wf_keys m" "entries m = es" "links m = ls" "0 \<le> t \<Longrightarrow> t \<noteq> ZNKEYS \<Longrightarrow> word_of m t = word_of m0 t"
    using assms by (simp_all add: node_def)
  then show "nkeys_of m = int (length es)" "sorted_keys es" "length es \<le> 22" "length ls = Suc (length es)" "wf_memrec m"
    using D by (auto simp: ZMXKEY_val)
qed

lemma leaf_D:
  assumes "leaf_of m0 es m"
  shows "wf_keys m" "entries m = es" "nkeys_of m = int (length es)" "sorted_keys es" "length es \<le> 22"
    "es \<noteq> [] \<Longrightarrow> l \<in> set (links m) \<Longrightarrow> l = ZNULL" "length (links m) = Suc (length es)" "wf_memrec m"
    "0 \<le> t \<Longrightarrow> t \<noteq> ZNKEYS \<Longrightarrow> word_of m t = word_of m0 t"
  using assms node_D [of m0 es _ m] unfolding leaf_of_def by metis+

lemma node_self: "wf_keys m \<Longrightarrow> node m (entries m) (links m) m"
  by (simp add: node_def)

lemma node_type: "node m0 es ls m \<Longrightarrow> btype_of m = btype_of m0"
  using node_D(9) [of m0 es ls m 0] by (simp add: btype_of_def ZNKEYS_def)

lemma leaf_type: "leaf_of m0 es m \<Longrightarrow> btype_of m = btype_of m0"
  using node_type by (auto simp: leaf_of_def)

lemma leaf_tree: "leaf_of m0 es m \<Longrightarrow> B ! nat c = m \<Longrightarrow> valid_blk B c \<Longrightarrow> wf_tree B 0 c \<and> tree_entries B 0 c = es"
  using leaf_D [of m0 es m] by auto

lemma tree_leaf: "wf_tree B 0 c \<Longrightarrow> leaf_of (B ! nat c) (entries (B ! nat c)) (B ! nat c)"
  using wf_keys_D(7) [of "B ! nat c"] by (auto simp: leaf_of_def node_def)

lemma set_put_links: "set (put_links p ZNULL ZNULL ls) \<subseteq> insert ZNULL (set ls)"
  by (auto simp: put_links_def dest: in_set_takeD in_set_dropD)

lemma leaf_put:
  assumes "leaf_of m0 es m" "length es < 22" "put_ok k ZNULL ZNULL m m'" "ke_key k \<notin> ke_key ` set es"
  shows "leaf_of m0 (insert_at (lower (ke_key k) es) k es) m'"
proof -
  note D = leaf_D [OF assms(1)]
  note p = assms(3) [unfolded put_ok_def D(2)]
  have "wf_keys m'" using put_ok_keys [OF D(1) assms(3)] D(2,3) assms(2,4) by (simp add: ZMXKEY_val)
  moreover have "\<forall>l \<in> set (links m'). l = ZNULL"
  proof (cases "es = []")
    case True
    then obtain x where "links m = [x]" using D(7) by (cases "links m") auto
    then show ?thesis using p True by (simp add: put_links_def lower_def)
  next
    case False
    then show ?thesis using p D(6) set_put_links [of "lower (ke_key k) es" "links m"] by auto
  qed
  ultimately show ?thesis using p D(9) by (auto simp: leaf_of_def node_def)
qed

lemma lower_end:
  assumes "sorted_keys (es @ k # es')"
  shows "lower (ke_key k) (es @ es') = length es"
proof (rule lower_eq)
  show "sorted_keys (es @ es')" using assms by (auto simp: sorted_keys_def sorted_wrt_append)
  show "length es = 0 \<or> ke_key ((es @ es') ! (length es - 1)) < ke_key k"
    using assms by (cases "es = []") (auto simp: sorted_keys_def sorted_wrt_append nth_append)
  show "ke_key k \<le> ke_key ((es @ es') ! length es)" if "length es < length (es @ es')"
    using assms that by (cases es') (auto simp: sorted_keys_def sorted_wrt_append intro: less_imp_le)
qed simp

lemma leaf_put_last:
  assumes "leaf_of m0 es m" "length es < 22" "put_ok k ZNULL ZNULL m m'" "sorted_keys (es @ [k])"
  shows "leaf_of m0 (es @ [k]) m'"
proof -
  have "ke_key k \<notin> ke_key ` set es" using assms(4) by (auto simp: sorted_keys_def sorted_wrt_append)
  from leaf_put [OF assms(1-3) this] lower_end [OF assms(4)] show ?thesis by (simp add: insert_at_def)
qed

lemma leaf_put_first:
  assumes "leaf_of m0 es m" "length es < 22" "put_ok k ZNULL ZNULL m m'" "sorted_keys (k # es)"
  shows "leaf_of m0 (k # es) m'"
proof -
  have "ke_key k \<notin> ke_key ` set es" using assms(4) by (auto simp: sorted_keys_def)
  from leaf_put [OF assms(1-3) this] lower_end [of "[]" k es] assms(4) show ?thesis by (simp add: insert_at_def)
qed

lemma set_remove_at: "set (remove_at p xs) \<subseteq> set xs"
  by (auto simp: remove_at_def dest: in_set_takeD in_set_dropD)

lemma node_rem:
  assumes "node m0 es ls m" "p < length es" "rem_ok p m m'"
  shows "node m0 (remove_at p es) (remove_at (Suc p) ls) m'"
proof -
  note D = node_D [OF assms(1)]
  have "0 < nkeys_of m" using D(4) assms(2) by linarith
  then have "wf_keys m'" by (rule rem_ok_keys [OF D(1) assms(3)])
  then show ?thesis using assms(3) D(2,3,9) by (auto simp: node_def rem_ok_def)
qed

lemma leaf_rem:
  assumes "leaf_of m0 es m" "p < length es" "rem_ok p m m'"
  shows "leaf_of m0 (remove_at p es) m'"
proof -
  obtain ls where ls: "node m0 es ls m" "\<forall>l \<in> set ls. l = ZNULL" using assms(1,2) by (auto simp: leaf_of_def)
  then show ?thesis using node_rem [OF ls(1) assms(2,3)] set_remove_at [of "Suc p" ls] unfolding leaf_of_def by blast
qed

text \<open>The keys of a leaf put behind those of another.\<close>

lemma leaf_append:
  assumes m: "leaf_of m0 es m" "es \<noteq> []" and g: "leaf_of g0 es2 g" "es2 \<noteq> []"
    and l: "length es + length es2 \<le> 22" and s: "sorted_keys (es @ es2)"
  shows "leaf_of m0 (es @ es2) (set_word ZNKEYS (int (length es + length es2)) (copied_at (length es) 0 (length es2) g m))"
    (is "leaf_of m0 _ (set_word ZNKEYS ?n ?c)")
proof -
  note M = leaf_D [OF m(1)] and G = leaf_D [OF g(1)]
  have len: "length (keyblk m) = 22" "length (lnkblk m) = 23" "length (keyblk g) = 22" "length (lnkblk g) = 23"
    using M(8) G(8) by (simp_all add: wf_memrec_def ZMXKEY_val)
  have c: "wf_memrec ?c" using copied_at_wf [OF M(8) G(8)] l by (simp add: ZMXKEY_val)
  have w: "word_of (set_word ZNKEYS ?n ?c) t = (if t = ZNKEYS then ?n else word_of m t)" if "0 \<le> t" for t
    using word_of_set_word [OF c, of ZNKEYS t ?n] that
    by (simp add: ZNKEYS_def ZINFSZ_def ZBTYPE_def copied_at_def word_of_def)
  have nk: "nkeys_of (set_word ZNKEYS ?n ?c) = ?n" using w [of ZNKEYS] by (simp add: ZNKEYS_def)
  have e: "take (length es) (keyblk m) = es" "take (length es2) (keyblk g) = es2"
    using M(2,3) G(2,3) by (simp_all add: entries_def)
  have ln: "\<forall>l \<in> set (take (Suc (length es)) (lnkblk m)). l = ZNULL" "\<forall>l \<in> set (take (Suc (length es2)) (lnkblk g)). l = ZNULL"
    using M(3,6) G(3,6) m(2) g(2) by (auto simp: links_def nat_add_distrib)
  have ent: "entries (set_word ZNKEYS ?n ?c) = es @ es2"
    using e len l nk by (simp add: entries_def copied_at_def overlay_def)
  have lg: "lnkblk g ! length es2 = ZNULL"
    using ln(2) len l nth_mem [of "length es2" "take (Suc (length es2)) (lnkblk g)"] by simp
  have "links (set_word ZNKEYS ?n ?c) = take (Suc (length es + length es2))
      ((take (Suc (length es)) (lnkblk m) @ take (length es2) (lnkblk g) @ drop (Suc (length es) + length es2) (lnkblk m))
        [length es + length es2 := ZNULL])"
    using nk m(2) lg by (simp add: links_def copied_at_def overlay_def nat_add_distrib)
  also have "\<dots> = (take (Suc (length es)) (lnkblk m) @ take (length es2) (lnkblk g)) [length es + length es2 := ZNULL]"
    using len l by (simp add: take_update_swap)
  finally have lks: "links (set_word ZNKEYS ?n ?c) = \<dots>" .
  have "\<forall>l \<in> set (links (set_word ZNKEYS ?n ?c)). l = ZNULL"
  proof
    fix x assume "x \<in> set (links (set_word ZNKEYS ?n ?c))"
    then have "x = ZNULL \<or> x \<in> set (take (Suc (length es)) (lnkblk m)) \<or> x \<in> set (take (length es2) (lnkblk g))"
      unfolding lks using set_update_subset_insert by fastforce
    moreover have "set (take (length es2) (lnkblk g)) \<subseteq> set (take (Suc (length es2)) (lnkblk g))"
      by (rule set_take_subset_set_take) simp
    ultimately show "x = ZNULL" using ln by blast
  qed
  moreover have "wf_keys (set_word ZNKEYS ?n ?c)"
    using c nk ent s l by (simp add: wf_keys_def ZMXKEY_val)
  ultimately show ?thesis using ent w M(9) by (auto simp: leaf_of_def node_def)
qed

section \<open>Two leaves are joined\<close>

lemma update_other: "valid_blk B c \<Longrightarrow> valid_blk B d \<Longrightarrow> c \<noteq> d \<Longrightarrow> B[nat d := m] ! nat c = B ! nat c"
  by (auto simp: valid_blk_def eq_nat_nat_iff)

lemma update_same: "valid_blk B d \<Longrightarrow> B[nat d := m] ! nat d = m"
  by (auto simp: valid_blk_def)

lemma update_valid [simp]: "valid_blk (B[i := m]) c \<longleftrightarrow> valid_blk B c"
  by (simp add: valid_blk_def)

lemma same_rest_pushed: "same_rest R (pushed R b)" "lf (pushed R b) = lf R" "stk (pushed R b) = stk R"
  by (simp_all add: same_rest_def pushed_def super_later_def)

text \<open>The free list does not notice changes of blocks in use.\<close>

lemma free_list_use:
  assumes "free_list B R bs" "length B' = length B" "\<forall>c. btype_of (B ! nat c) = ZFREE \<longrightarrow> valid_blk B c \<longrightarrow> B' ! nat c = B ! nat c"
    "super R' = super R"
  shows "free_list B' R' bs"
  using assms free_chain_valid [of B "sfreep (super R)" bs] by (intro free_list_cong [OF assms(1)]) (auto simp: free_list_def)

lemma bjoin_spec:
  assumes r: "repr s B P R" and f: "free_list B R bs" and pb: "s_lfblk R = pb" "s_lfpos R = int q" "in_use B pb" "wf_keys (B ! nat pb)"
      "q < length (entries (B ! nat pb))"
    and u: "in_use B u" "leaf_of (B ! nat u) eu (B ! nat u)" and v: "in_use B v" "leaf_of (B ! nat v) ev (B ! nat v)" "ev \<noteq> []"
      "btype_of (B ! nat v) \<noteq> ZDUP"
    and d: "u \<noteq> v" "u \<noteq> pb" "v \<noteq> pb" and P: "card P + 1 < ZMXBLK" "u \<notin> P"
    and s: "sorted_keys (eu @ srh_keyent R # ev)" "length eu + length ev < 22"
  shows "runs (bjoin u v True s) (\<lambda>s'. \<exists>mp mu mv.
    node (B ! nat pb) (remove_at q (entries (B ! nat pb))) (remove_at (Suc q) (links (B ! nat pb))) mp \<and>
    leaf_of (B ! nat u) (eu @ srh_keyent R # ev) mu \<and>
    repr s' (B[nat pb := mp, nat u := mu, nat v := mv]) P (pushed R v) \<and>
    free_list (B[nat pb := mp, nat u := mu, nat v := mv]) (pushed R v) (v # bs))"
proof -
  let ?k = "srh_keyent R"
  have fin: "finite P" by (rule repr_finite [OF r])
  have room: "room P c" "room (insert u P) c" "room (insert u (insert u P)) c" for c
    using P fin by (simp_all add: room_def)
  have val: "valid_blk B pb" "valid_blk B u" "valid_blk B v" using pb u v by simp_all
  note E = update_other [OF val(1,2)] update_other [OF val(1,3)] update_other [OF val(2,1)] update_other [OF val(2,3)]
    update_other [OF val(3,1)] update_other [OF val(3,2)]
  have lf: "s_lfblk s = pb" "s_lfpos s = int q" using repr_fields(6) [OF r] pb by simp_all
  obtain mp s1 where s1: "bremky pb (int q) s = Some s1" "rem_ok q (B ! nat pb) mp" "repr s1 (B[nat pb := mp]) P R"
    using bremky_spec [OF r val(1) room(1) refl pb(4), of "int q"] pb(5) wf_keys_D(7) [OF pb(4)] by (auto simp: runs_def)
  let ?B1 = "B[nat pb := mp]"
  obtain s2 where s2: "bsetbs u 1 s1 = Some s2" "repr s2 ?B1 (insert u P) R"
    using bsetbs_spec [OF s1(3) _ room(1), of u 1] val by (auto simp: runs_def)
  have k2: "kep_deref True s2 = Some ?k" using repr_fields(15) [OF s2(2)] by (simp add: kep_deref_def)
  have u1: "?B1 ! nat u = B ! nat u" "?B1 ! nat v = B ! nat v" using E d by simp_all
  have nu: "nkeys_of (B ! nat u) < ZMXKEY" using leaf_D(3) [OF u(2)] s(2) by (simp add: ZMXKEY_val)
  obtain m2 s3 where s3: "bputky u ?k ZNULL ZNULL s2 = Some s3" "put_ok ?k ZNULL ZNULL (B ! nat u) m2"
      "repr s3 (?B1[nat u := m2]) (insert u P) R"
    using bputky_spec [OF s2(2) _ room(2) refl, of u ZNULL ZNULL ?k] val u1 nu leaf_D(1) [OF u(2)] by (auto simp: runs_def)
  let ?B2 = "?B1[nat u := m2]"
  have sk: "sorted_keys (eu @ [?k])" using s(1) by (auto simp: sorted_keys_def sorted_wrt_append)
  have l2: "leaf_of (B ! nat u) (eu @ [?k]) m2" by (rule leaf_put_last [OF u(2) _ s3(2) sk]) (use s(2) in simp)
  have B2: "?B2 ! nat u = m2" "?B2 ! nat v = B ! nat v"
    using update_same [of ?B1 u m2] update_other [of ?B1 v u m2] val d u1 by simp_all
  have nk: "mem_info m2 ZNKEYS = Some (int (Suc (length eu)))" "mem_info (B ! nat v) ZNKEYS = Some (int (length ev))"
    "ZNKEYS < int ZINFSZ"
    using mem_info_word [of m2 ZNKEYS] mem_info_word [of "B ! nat v" ZNKEYS] leaf_D(3,8) [OF l2] leaf_D(3,8) [OF v(2)]
    by (simp_all add: ZNKEYS_def ZINFSZ_def)
  obtain s4 where s4: "bgtinf u ZNKEYS s3 = Some (int (Suc (length eu)), s4)" "repr s4 ?B2 (insert u P) R"
    using bgtinf_spec [OF s3(3) _ room(2) nk(3), of u] nk(1) B2(1) val by (auto simp: runs_def)
  obtain s5 where s5: "bgtinf v ZNKEYS s4 = Some (int (length ev), s5)" "repr s5 ?B2 (insert u P) R"
    using bgtinf_spec [OF s4(2) _ room(2) nk(3), of v] nk(2) B2(2) val by (auto simp: runs_def)
  let ?c = "copied_at (Suc (length eu)) 0 (length ev) (B ! nat v) m2"
  let ?mu = "set_word ZNKEYS (int (Suc (length eu) + length ev)) ?c"
  obtain s6 where s6: "bcpybk u v (int (Suc (length eu))) 0 (int (length ev)) s5 = Some s6" "repr s6 (?B2[nat u := ?c]) P R"
  proof -
    have "runs (bcpybk u v (int (Suc (length eu))) (int 0) (int (length ev)) s5)
        (\<lambda>s'. repr s' (?B2[nat u := copied_at (Suc (length eu)) 0 (length ev) (?B2 ! nat v) (?B2 ! nat u)]) (insert u P - {u}) R)"
      by (rule bcpybk_at [OF s5(2)]) (use val room(2,3) d(1) s(2) v(3) in \<open>simp_all add: ZMXKEY_val\<close>)
    then show ?thesis using that B2 P(2) by (auto simp: runs_def)
  qed
  let ?B3 = "?B2[nat u := ?c]"
  have g3: "?B3 ! nat u = ?c" using update_same [of ?B2 u ?c] val by simp
  obtain s7 where s7: "bstinf u ZNKEYS (int (Suc (length eu) + length ev)) s6 = Some s7" "repr s7 (B[nat pb := mp, nat u := ?mu]) P R"
    using bstinf_spec [OF s6(2) _ room(1), of u ZNKEYS "int (Suc (length eu) + length ev)"] val g3
    by (auto simp: runs_def ZNKEYS_def ZINFSZ_def)
  let ?B4 = "B[nat pb := mp, nat u := ?mu]"
  have B4: "?B4 ! nat v = B ! nat v" using update_other [of ?B1 v u ?mu] val d u1 by simp
  have "free_list ?B4 R bs"
  proof (rule free_list_use [OF f])
    show "\<forall>c. btype_of (B ! nat c) = ZFREE \<longrightarrow> valid_blk B c \<longrightarrow> ?B4 ! nat c = B ! nat c"
    proof (intro allI impI)
      fix c assume c: "btype_of (B ! nat c) = ZFREE" "valid_blk B c"
      then have "c \<noteq> pb" "c \<noteq> u" using pb u by auto
      then show "?B4 ! nat c = B ! nat c"
        using update_other [of ?B1 c u ?mu] update_other [OF c(2) val(1)] val c by simp
    qed
  qed simp_all
  moreover have "v \<notin> set bs" using f v(1) free_chain_valid [of B "sfreep (super R)" bs v] by (auto simp: free_list_def)
  ultimately obtain mv s8 where s8: "bmkfre v s7 = Some s8" "repr s8 (?B4[nat v := mv]) P (pushed R v)"
      "free_list (?B4[nat v := mv]) (pushed R v) (v # bs)"
    using bmkfre_push [OF s7(2) _ _ _ room(1), of bs v] B4 val v(4) by (auto simp: runs_def)
  obtain s9 where s9: "bsetbs u 0 s8 = Some s9" "repr s9 (?B4[nat v := mv]) P (pushed R v)"
    using bsetbs_spec [OF s8(2) _ room(1), of u 0] val P(2) by (auto simp: runs_def)
  have "bjoin u v True s = Some (inc_join s9)"
    unfolding bjoin_def lf using s1(1) s2(1) k2 s3(1) s4(1) s5(1) s6(1) s7(1) s8(1) s9(1)
    by (simp add: add.assoc)
  moreover have "repr (inc_join s9) (?B4[nat v := mv]) P (pushed R v)" using s9(2) by auto
  moreover have "leaf_of (B ! nat u) (eu @ ?k # ev) ?mu"
    using leaf_append [OF l2 _ v(2,3)] s by simp
  moreover have "node (B ! nat pb) (remove_at q (entries (B ! nat pb))) (remove_at (Suc q) (links (B ! nat pb))) mp"
    by (rule node_rem [OF node_self [OF pb(4)] pb(5) s1(2)])
  ultimately show ?thesis using s8(3) unfolding runs_def by (intro exI [of _ "inc_join s9"] conjI) (assumption, blast)
qed

section \<open>Keys move to the other leaf\<close>

lemma brepky_spec:
  assumes r: "repr s B P R" and b: "valid_blk B blk" "room P blk" "wf_keys (B ! nat blk)"
    and q: "q < length (entries (B ! nat blk))" "sorted_keys ((entries (B ! nat blk))[q := k])"
  shows "runs (brepky blk (int q) k l1 l2 s) (\<lambda>s'. \<exists>m. repr s' (B[nat blk := m]) P R \<and>
    node (B ! nat blk) ((entries (B ! nat blk))[q := k]) ((links (B ! nat blk))[q := l1, Suc q := l2]) m)"
proof -
  let ?m = "B ! nat blk"
  let ?m' = "?m\<lparr>keyblk := (keyblk ?m)[q := k], lnkblk := (lnkblk ?m)[q := l1, Suc q := l2]\<rparr>"
  note D = wf_keys_D [OF b(3)]
  have n: "q < 22" "nat (nkeys_of ?m) \<le> 22" "q < nat (nkeys_of ?m)" using q(1) D(2,8) by (simp_all add: ZMXKEY_val)
  have rk: "mem_repky (int q) k l1 l2 ?m = Some ?m'"
    using n D(5,6) by (auto simp: mem_repky_def mem_set_key_def mem_set_link_def arr_set_def ZMXKEY_val nat_add_distrib)
  have w: "wf_memrec ?m'" using D(1) by (simp add: wf_memrec_def)
  have wo: "word_of ?m' t = word_of ?m t" for t by (simp add: word_of_def)
  have e: "entries ?m' = (entries ?m)[q := k]" "links ?m' = (links ?m)[q := l1, Suc q := l2]"
    using n by (simp_all add: entries_def links_def wo take_update_swap)
  have nd: "node ?m (entries ?m') (links ?m') ?m'" using w e b(3) q(2) wo by (simp add: node_def wf_keys_def)
  have "runs (modify i 1 (mem_repky (int q) k l1 l2) s1) (\<lambda>s'. \<exists>m. repr s' (B[nat blk := m]) P R \<and>
      node ?m (entries ?m') (links ?m') m)" if "repr s1 B P R" "at_slot s1 i blk" for s1 i
    by (rule runs_conseq [OF modify_spec [OF that, where f = "mem_repky (int q) k l1 l2" and n = 1]])
      (use rk w nd in auto)
  moreover have "\<not> (ZMXKEY \<le> int q \<or> int q < 0)" using n(1) by (simp add: ZMXKEY_val)
  ultimately show ?thesis
    unfolding brepky_def modify_fold e [symmetric] by (auto intro!: brdblk_bind [OF r b(1,2)])
qed

text \<open>A key of a leaf taken out at a position and put into another leaf: a turn of the loop.\<close>

lemma bal_step:
  assumes r: "repr s B P R" "card P < ZMXBLK" and v: "valid_blk B t" "valid_blk B f" "t \<noteq> f"
    and l: "leaf_of m0 et (B ! nat t)" "leaf_of g0 ef (B ! nat f)" "p < length ef" "length et < 22"
    and new: "ke_key (ef ! p) \<notin> ke_key ` set et"
    and step: "\<And>s1 mt mf. leaf_of m0 (insert_at (lower (ke_key (ef ! p)) et) (ef ! p) et) mt \<Longrightarrow> leaf_of g0 (remove_at p ef) mf \<Longrightarrow>
      repr s1 (B[nat f := mf, nat t := mt]) P (R\<lparr>srh_keyent := ef ! p\<rparr>) \<Longrightarrow>
      runs (bal_loop t f dir n (if dir < 0 then int p - 1 else int p) s1) Q"
  shows "runs (bal_loop t f dir (Suc n) (int p) s) Q"
proof -
  have room: "room P c" for c using r(2) by (simp add: room_def)
  note T = leaf_D [OF l(1)] and F = leaf_D [OF l(2)]
  obtain a' s1 where s1: "bsrhbk f (srh_args None (int p)) s = Some ((True, a'), s1)" "s_result a' = Some 0" "s_loc a' = int p"
      "repr s1 B P (R\<lparr>srh_keyent := ef ! p\<rparr>)"
    using bsrhbk_pos [OF r(1) v(2) room refl F(1), of "srh_args None (int p)"] l(3) F(2,3)
    by (auto simp: runs_def srh_args_def)
  obtain mf s2 where s2: "bremky f (int p) s1 = Some s2" "rem_ok p (B ! nat f) mf"
      "repr s2 (B[nat f := mf]) P (R\<lparr>srh_keyent := ef ! p\<rparr>)"
    using bremky_spec [OF s1(4) v(2) room refl F(1), of "int p"] l(3) F(3) by (auto simp: runs_def)
  have k: "kep_deref True s2 = Some (ef ! p)" using repr_fields(15) [OF s2(3)] by (simp add: kep_deref_def)
  have t: "B[nat f := mf] ! nat t = B ! nat t" by (rule update_other [OF v])
  obtain mt s3 where s3: "bputky t (ef ! p) ZNULL ZNULL s2 = Some s3" "put_ok (ef ! p) ZNULL ZNULL (B ! nat t) mt"
      "repr s3 (B[nat f := mf, nat t := mt]) P (R\<lparr>srh_keyent := ef ! p\<rparr>)"
    using bputky_spec [OF s2(3) _ room refl, of t ZNULL ZNULL "ef ! p"] v t l(4) T(1,3) by (auto simp: runs_def ZMXKEY_val)
  have "bal_loop t f dir (Suc n) (int p) s = bal_loop t f dir n (if dir < 0 then int p - 1 else int p) s3"
    using s1(1-3) s2(1) k s3(1) by (simp add: Let_def)
  then show ?thesis using step [OF leaf_put [OF l(1,4) s3(2) new] leaf_rem [OF l(2,3) s2(2)] s3(3)] by simp
qed

lemma sorted_absent: "sorted_keys (xs @ k # ys) \<Longrightarrow> ke_key k \<notin> ke_key ` set (xs @ ys)"
  by (auto simp: sorted_keys_def sorted_wrt_append)

lemma bal_loop_up:
  assumes "repr s B P R" "card P < ZMXBLK" "valid_blk B t" "valid_blk B f" "t \<noteq> f"
    and "leaf_of m0 et (B ! nat t)" "leaf_of g0 ef (B ! nat f)" "n < length ef" "length et + n \<le> 22" "sorted_keys (et @ ef)"
  shows "runs (bal_loop t f 1 n 0 s) (\<lambda>((ok, kp), s'). ok \<and> kp = 0 \<and> (\<exists>mt mf k.
    leaf_of m0 (et @ take n ef) mt \<and> leaf_of g0 (drop n ef) mf \<and>
    repr s' (B[nat f := mf, nat t := mt]) P (R\<lparr>srh_keyent := k\<rparr>)))"
  using assms
proof (induction n arbitrary: s B R et ef)
  case 0
  have "B[nat f := B ! nat f, nat t := B ! nat t] = B" "R\<lparr>srh_keyent := srh_keyent R\<rparr> = R" by simp_all
  then show ?case using "0.prems"
    by (simp, intro exI [of _ "B ! nat t"] conjI exI [of _ "B ! nat f"] exI [of _ "srh_keyent R"]) simp_all
next
  case (Suc n)
  obtain x ef' where ef: "ef = x # ef'" using Suc.prems(8) by (cases ef) auto
  have sx: "sorted_keys (et @ x # ef')" "sorted_keys (et @ [x])" using Suc.prems(10) ef by (auto simp: sorted_keys_def sorted_wrt_append)
  have "runs (bal_loop t f 1 (Suc n) (int 0) s) (\<lambda>((ok, kp), s'). ok \<and> kp = 0 \<and> (\<exists>mt mf k.
    leaf_of m0 (et @ take (Suc n) ef) mt \<and> leaf_of g0 (drop (Suc n) ef) mf \<and>
    repr s' (B[nat f := mf, nat t := mt]) P (R\<lparr>srh_keyent := k\<rparr>)))"
  proof (rule bal_step [OF Suc.prems(1-7)])
    fix s1 mt mf
    assume a: "leaf_of m0 (insert_at (lower (ke_key (ef ! 0)) et) (ef ! 0) et) mt" "leaf_of g0 (remove_at 0 ef) mf"
      "repr s1 (B[nat f := mf, nat t := mt]) P (R\<lparr>srh_keyent := ef ! 0\<rparr>)"
    let ?B = "B[nat f := mf, nat t := mt]"
    have nt: "nat t \<noteq> nat f" using Suc.prems(3-5) by (auto simp: valid_blk_def eq_nat_nat_iff)
    have b: "?B ! nat t = mt" "?B ! nat f = mf" using nt Suc.prems(3,4) by (auto simp: valid_blk_def)
    have l: "leaf_of m0 (et @ [x]) (?B ! nat t)" "leaf_of g0 ef' (?B ! nat f)"
      using a(1,2) lower_end [of et x "[]"] sx(2) unfolding b by (simp_all add: ef insert_at_def remove_at_def)
    have sw: "?B[nat f := mf', nat t := mt'] = B[nat f := mf', nat t := mt']" for mf' mt'
      using nt by (simp add: list_update_swap)
    have "runs (bal_loop t f 1 n 0 s1) (\<lambda>((ok, kp), s'). ok \<and> kp = 0 \<and> (\<exists>mt mf k.
        leaf_of m0 ((et @ [x]) @ take n ef') mt \<and> leaf_of g0 (drop n ef') mf \<and>
        repr s' (?B[nat f := mf, nat t := mt]) P (R\<lparr>srh_keyent := x, srh_keyent := k\<rparr>)))"
      by (rule Suc.IH [OF _ Suc.prems(2) _ _ Suc.prems(5) l])
        (use a(3) Suc.prems(3,4,8,9) sx(1) ef in \<open>simp_all\<close>)
    then show "runs (bal_loop t f 1 n (if 1 < (0::int) then int 0 - 1 else int 0) s1) (\<lambda>((ok, kp), s'). ok \<and> kp = 0 \<and> (\<exists>mt mf k.
      leaf_of m0 (et @ take (Suc n) ef) mt \<and> leaf_of g0 (drop (Suc n) ef) mf \<and>
      repr s' (B[nat f := mf, nat t := mt]) P (R\<lparr>srh_keyent := k\<rparr>)))"
      unfolding sw by (simp add: ef)
  qed (use Suc.prems(8,9) sorted_absent [OF sx(2)] ef in auto)
  then show ?case by simp
qed

lemma bal_loop_down:
  assumes "repr s B P R" "card P < ZMXBLK" "valid_blk B t" "valid_blk B f" "t \<noteq> f"
    and "leaf_of m0 et (B ! nat t)" "leaf_of g0 ef (B ! nat f)" "n < length ef" "length et + n \<le> 22" "sorted_keys (ef @ et)"
  shows "runs (bal_loop t f (-1) n (int (length ef) - 1) s) (\<lambda>((ok, kp), s'). ok \<and> kp = int (length ef - n) - 1 \<and> (\<exists>mt mf k.
    leaf_of m0 (drop (length ef - n) ef @ et) mt \<and> leaf_of g0 (take (length ef - n) ef) mf \<and>
    repr s' (B[nat f := mf, nat t := mt]) P (R\<lparr>srh_keyent := k\<rparr>)))"
  using assms
proof (induction n arbitrary: s B R et ef)
  case 0
  have "B[nat f := B ! nat f, nat t := B ! nat t] = B" "R\<lparr>srh_keyent := srh_keyent R\<rparr> = R" by simp_all
  then show ?case using "0.prems"
    by (simp, intro exI [of _ "B ! nat t"] conjI exI [of _ "B ! nat f"] exI [of _ "srh_keyent R"]) simp_all
next
  case (Suc n)
  have "ef \<noteq> []" using Suc.prems(8) by auto
  then obtain x ef' where ef: "ef = ef' @ [x]" by (cases ef rule: rev_cases) auto
  have sx: "sorted_keys (ef' @ x # et)" "sorted_keys (x # et)" using Suc.prems(10) ef by (auto simp: sorted_keys_def sorted_wrt_append)
  let ?p = "length ef'"
  have "runs (bal_loop t f (-1) (Suc n) (int ?p) s) (\<lambda>((ok, kp), s'). ok \<and> kp = int (length ef - Suc n) - 1 \<and> (\<exists>mt mf k.
    leaf_of m0 (drop (length ef - Suc n) ef @ et) mt \<and> leaf_of g0 (take (length ef - Suc n) ef) mf \<and>
    repr s' (B[nat f := mf, nat t := mt]) P (R\<lparr>srh_keyent := k\<rparr>)))"
  proof (rule bal_step [OF Suc.prems(1-7)])
    fix s1 mt mf
    assume a: "leaf_of m0 (insert_at (lower (ke_key (ef ! ?p)) et) (ef ! ?p) et) mt" "leaf_of g0 (remove_at ?p ef) mf"
      "repr s1 (B[nat f := mf, nat t := mt]) P (R\<lparr>srh_keyent := ef ! ?p\<rparr>)"
    let ?B = "B[nat f := mf, nat t := mt]"
    have nt: "nat t \<noteq> nat f" using Suc.prems(3-5) by (auto simp: valid_blk_def eq_nat_nat_iff)
    have b: "?B ! nat t = mt" "?B ! nat f = mf" using nt Suc.prems(3,4) by (auto simp: valid_blk_def)
    have l: "leaf_of m0 (x # et) (?B ! nat t)" "leaf_of g0 ef' (?B ! nat f)"
      using a(1,2) lower_end [of "[]" x et] sx(2) unfolding b by (simp_all add: ef insert_at_def remove_at_def nth_append)
    have sw: "?B[nat f := mf', nat t := mt'] = B[nat f := mf', nat t := mt']" for mf' mt'
      using nt by (simp add: list_update_swap)
    have "runs (bal_loop t f (-1) n (int (length ef') - 1) s1) (\<lambda>((ok, kp), s'). ok \<and> kp = int (length ef' - n) - 1 \<and> (\<exists>mt mf k.
        leaf_of m0 (drop (length ef' - n) ef' @ x # et) mt \<and> leaf_of g0 (take (length ef' - n) ef') mf \<and>
        repr s' (?B[nat f := mf, nat t := mt]) P (R\<lparr>srh_keyent := x, srh_keyent := k\<rparr>)))"
      by (rule Suc.IH [OF _ Suc.prems(2) _ _ Suc.prems(5) l])
        (use a(3) Suc.prems(3,4,8,9) sx(1) ef in \<open>simp_all add: nth_append\<close>)
    then show "runs (bal_loop t f (-1) n (if - 1 < (0::int) then int ?p - 1 else int ?p) s1) (\<lambda>((ok, kp), s'). ok \<and>
      kp = int (length ef - Suc n) - 1 \<and> (\<exists>mt mf k.
      leaf_of m0 (drop (length ef - Suc n) ef @ et) mt \<and> leaf_of g0 (take (length ef - Suc n) ef) mf \<and>
      repr s' (B[nat f := mf, nat t := mt]) P (R\<lparr>srh_keyent := k\<rparr>)))"
      unfolding sw by (simp add: ef)
  qed (use Suc.prems(8,9) sorted_absent [of "[]" x et] sx(2) ef in \<open>auto simp: nth_append\<close>)
  then show ?case by (simp add: ef)
qed

text \<open>What \<open>balbk1\<close> makes of the leaves and of the key between them.\<close>

definition evened :: "keyent list \<Rightarrow> keyent \<Rightarrow> keyent list \<Rightarrow> keyent list \<Rightarrow> keyent \<Rightarrow> keyent list \<Rightarrow> bool" where
  "evened eu k ev eu' k' ev' \<longleftrightarrow> eu' @ k' # ev' = eu @ k # ev \<and>
     min (length eu) (length ev) \<le> length eu' \<and> min (length eu) (length ev) \<le> length ev'"

lemma bal_finish:
  assumes r: "repr s B P R" "card P < ZMXBLK" and pb: "s_lfblk R = pb" "s_lfpos R = int q" "valid_blk B pb" "wf_keys (B ! nat pb)"
      "q < length (entries (B ! nat pb))" "links (B ! nat pb) ! q = l" "links (B ! nat pb) ! Suc q = r"
      "sorted_keys ((entries (B ! nat pb))[q := ef ! p])"
    and f: "valid_blk B f" "f \<noteq> pb" "leaf_of g0 ef (B ! nat f)" "p < length ef"
  shows "runs (bal_end l r f (int p) s) (\<lambda>s'. \<exists>mp mf. leaf_of g0 (remove_at p ef) mf \<and>
      node (B ! nat pb) ((entries (B ! nat pb))[q := ef ! p]) (links (B ! nat pb)) mp \<and>
      repr s' (B[nat pb := mp, nat f := mf]) P (R\<lparr>srh_keyent := ef ! p\<rparr>))"
proof -
  have room: "room P c" for c using r(2) by (simp add: room_def)
  note F = leaf_D [OF f(3)] and D = wf_keys_D [OF pb(4)]
  let ?R = "R\<lparr>srh_keyent := ef ! p\<rparr>"
  obtain a s1 where s1: "bsrhbk f (srh_args None (int p)) s = Some ((True, a), s1)" "s_result a = Some 0" "s_loc a = int p"
      "repr s1 B P ?R"
    using bsrhbk_pos [OF r(1) f(1) room refl F(1), of "srh_args None (int p)"] f(4) F(2,3)
    by (auto simp: runs_def srh_args_def)
  have lf: "s_lfblk s1 = pb" "s_lfpos s1 = int q" using repr_fields(6) [OF s1(4)] pb(1,2) by simp_all
  have nk: "mem_info (B ! nat pb) ZNKEYS = Some (nkeys_of (B ! nat pb))" "ZNKEYS < int ZINFSZ"
    using mem_info_word [OF D(1), of ZNKEYS] by (simp_all add: ZNKEYS_def ZINFSZ_def)
  obtain s2 where s2: "bgtinf pb ZNKEYS s1 = Some (nkeys_of (B ! nat pb), s2)" "repr s2 B P ?R"
    using bgtinf_spec [OF s1(4) pb(3) room nk(2,1)] by (auto simp: runs_def)
  have lf2: "s_lfblk s2 = pb" "s_lfpos s2 = int q" "kep_deref True s2 = Some (ef ! p)"
    using repr_fields(6,15) [OF s2(2)] pb(1,2) by (simp_all add: kep_deref_def)
  have q: "int q \<noteq> nkeys_of (B ! nat pb)" using pb(5) D(7) by linarith
  obtain mp s3 where s3: "brepky pb (int q) (ef ! p) l r s2 = Some s3" "repr s3 (B[nat pb := mp]) P ?R"
      "node (B ! nat pb) ((entries (B ! nat pb))[q := ef ! p]) ((links (B ! nat pb))[q := l, Suc q := r]) mp"
    using brepky_spec [OF s2(2) pb(3) room pb(4,5,8), of l r] by (auto simp: runs_def)
  have f3: "B[nat pb := mp] ! nat f = B ! nat f" by (rule update_other [OF f(1) pb(3) f(2)])
  obtain mf s4 where s4: "bremky f (int p) s3 = Some s4" "rem_ok p (B ! nat f) mf" "repr s4 (B[nat pb := mp, nat f := mf]) P ?R"
    using bremky_spec [OF s3(2) _ room refl, of f "int p"] f f3 F(1,3) by (auto simp: runs_def)
  have "(links (B ! nat pb))[q := l, Suc q := r] = links (B ! nat pb)" using pb(6,7) by (metis list_update_id)
  then have "node (B ! nat pb) ((entries (B ! nat pb))[q := ef ! p]) (links (B ! nat pb)) mp" using s3(3) by simp
  moreover have "repr (inc_bal s4) (B[nat pb := mp, nat f := mf]) P ?R" using s4(3) by auto
  ultimately show ?thesis
    using s1(1-3) lf s2(1) lf2 q s3(1) s4(1) leaf_rem [OF f(3,4) s4(2)] unfolding runs_def bal_end_def
    by (intro exI [of _ "inc_bal s4"]) (simp add: Let_def, blast)
qed

lemma balbk1_spec:
  assumes r: "repr s B P R" "card P < ZMXBLK" and pb: "s_lfblk R = pb" "s_lfpos R = int q" "valid_blk B pb" "wf_keys (B ! nat pb)"
      "q < length (entries (B ! nat pb))" "links (B ! nat pb) ! q = u" "links (B ! nat pb) ! Suc q = v"
    and uv: "valid_blk B u" "valid_blk B v" "u \<noteq> v" "u \<noteq> pb" "v \<noteq> pb"
    and l: "leaf_of mu0 eu (B ! nat u)" "leaf_of mv0 ev (B ! nat v)" and s: "sorted_keys (eu @ srh_keyent R # ev)"
    and d: "11 < \<bar>int (length eu) - int (length ev)\<bar>"
    and new: "\<And>x. x \<in> set eu \<union> set ev \<Longrightarrow> sorted_keys ((entries (B ! nat pb))[q := x])"
  shows "runs (balbk1 u v (int (length eu) - int (length ev)) True s) (\<lambda>s'. \<exists>eu' k' ev' mp mu mv.
    evened eu (srh_keyent R) ev eu' k' ev' \<and> leaf_of mu0 eu' mu \<and> leaf_of mv0 ev' mv \<and>
    node (B ! nat pb) ((entries (B ! nat pb))[q := k']) (links (B ! nat pb)) mp \<and>
    repr s' (B[nat pb := mp, nat u := mu, nat v := mv]) P (R\<lparr>srh_keyent := k'\<rparr>))"
proof -
  let ?k = "srh_keyent R" and ?d = "int (length eu) - int (length ev)"
  have room: "room P c" for c using r(2) by (simp add: room_def)
  note U = leaf_D [OF l(1)] and V = leaf_D [OF l(2)]
  note E = update_other [OF uv(1,2,3)] update_other [OF uv(2,1) uv(3) [symmetric]]
    update_other [OF pb(3) uv(1)] update_other [OF pb(3) uv(2)]
  have nn: "nat u \<noteq> nat v" "nat u \<noteq> nat pb" "nat v \<noteq> nat pb"
    using uv pb(3) by (auto simp: valid_blk_def eq_nat_nat_iff)
  have k: "kep_deref True s = Some ?k" using repr_fields(15) [OF r(1)] by (simp add: kep_deref_def)
  define h where "h = nat \<bar>cdiv ?d 2\<bar>"
  have sk: "sorted_keys (eu @ [?k])" "sorted_keys (?k # ev)" using s by (auto simp: sorted_keys_def sorted_wrt_append)
  show ?thesis
  proof (cases "?d < 0")
    case True
    have h: "int h = \<bar>cdiv ?d 2\<bar>" "2 * h \<le> length ev - length eu" "h < length ev" "length eu + h + 1 \<le> 22"
      "length eu < 22" "min (length eu) (length ev) \<le> length ev - Suc h"
      using True d V(5) by (auto simp: h_def cdiv_def)
    obtain m1 s1 where s1: "bputky u ?k ZNULL ZNULL s = Some s1" "put_ok ?k ZNULL ZNULL (B ! nat u) m1" "repr s1 (B[nat u := m1]) P R"
      using bputky_spec [OF r(1) uv(1) room refl, of ZNULL ZNULL ?k] U(1,3) h(5) by (auto simp: runs_def ZMXKEY_val)
    let ?B1 = "B[nat u := m1]"
    have b1: "?B1 ! nat u = m1" "?B1 ! nat v = B ! nat v" using update_same [OF uv(1)] E uv by simp_all
    have l1: "leaf_of mu0 (eu @ [?k]) (?B1 ! nat u)" "leaf_of mv0 ev (?B1 ! nat v)"
      using leaf_put_last [OF l(1) h(5) s1(2) sk(1)] l(2) b1 by simp_all
    obtain mu mv k0 s2 where s2: "bal_loop u v 1 h 0 s1 = Some ((True, 0), s2)" "leaf_of mu0 ((eu @ [?k]) @ take h ev) mu"
        "leaf_of mv0 (drop h ev) mv" "repr s2 (?B1[nat v := mv, nat u := mu]) P (R\<lparr>srh_keyent := k0\<rparr>)"
      using bal_loop_up [OF s1(3) r(2) _ _ uv(3) l1 h(3)] uv h s by (auto simp: runs_def)
    let ?B2 = "?B1[nat v := mv, nat u := mu]"
    have B2: "?B2 = B[nat u := mu, nat v := mv]" using nn by (simp add: list_update_swap)
    have b2: "?B2 ! nat v = mv" "?B2 ! nat pb = B ! nat pb" "valid_blk ?B2 pb" "valid_blk ?B2 v"
      unfolding B2 using nn pb(3) uv(2) by (auto simp: valid_blk_def)
    have dn: "drop h ev ! 0 = ev ! h" using h(3) by simp
    have sp: "sorted_keys ((entries (B ! nat pb))[q := ev ! h])" using new nth_mem [OF h(3)] by blast
    note F = bal_finish [OF s2(4) r(2), of pb q u v "drop h ev" 0 v mv0, unfolded b2(1,2) dn]
    obtain mp mf s3 where s3: "bal_end u v v (int 0) s2 = Some s3" "leaf_of mv0 (remove_at 0 (drop h ev)) mf"
      "node (B ! nat pb) ((entries (B ! nat pb))[q := ev ! h]) (links (B ! nat pb)) mp"
      "repr s3 (?B2[nat pb := mp, nat v := mf]) P (R\<lparr>srh_keyent := k0, srh_keyent := ev ! h\<rparr>)"
      using F pb(1,2,4-7) b2(3,4) uv(5) s2(3) h(3) sp unfolding runs_def by auto
    have "balbk1 u v ?d True s = Some s3"
      using k s1(1) s2(1) s3(1) True by (simp add: balbk1_def h_def Let_def)
    moreover have "?B2[nat pb := mp, nat v := mf] = B[nat pb := mp, nat u := mu, nat v := mf]"
      unfolding B2 using nn by (simp add: list_update_swap)
    moreover have "remove_at 0 (drop h ev) = drop (Suc h) ev" by (simp add: remove_at_def)
    moreover have "evened eu ?k ev ((eu @ [?k]) @ take h ev) (ev ! h) (drop (Suc h) ev)"
      using h by (simp add: evened_def id_take_nth_drop [symmetric])
    ultimately show ?thesis using s3 s2(2) unfolding runs_def
      by (intro exI [of _ s3]) (simp, blast)
  next
    case False
    have h: "int h = \<bar>cdiv ?d 2\<bar>" "2 * h \<le> length eu - length ev" "h < length eu" "length ev + h + 1 \<le> 22"
      "length ev < 22" "min (length eu) (length ev) \<le> length eu - Suc h"
      using False d U(5) by (auto simp: h_def cdiv_def)
    define p where "p = length eu - Suc h"
    have p: "p < length eu" "length eu - h = Suc p" "int (length eu - h) - 1 = int p" using h(3) by (auto simp: p_def)
    have nk: "mem_info (B ! nat u) ZNKEYS = Some (int (length eu))" "ZNKEYS < int ZINFSZ"
      using mem_info_word [OF U(8), of ZNKEYS] U(3) by (simp_all add: ZNKEYS_def ZINFSZ_def)
    obtain s0 where s0: "bgtinf u ZNKEYS s = Some (int (length eu), s0)" "repr s0 B P R"
      using bgtinf_spec [OF r(1) uv(1) room nk(2,1)] by (auto simp: runs_def)
    have k': "kep_deref True s0 = Some ?k" using repr_fields(15) [OF s0(2)] by (simp add: kep_deref_def)
    obtain m1 s1 where s1: "bputky v ?k ZNULL ZNULL s0 = Some s1" "put_ok ?k ZNULL ZNULL (B ! nat v) m1" "repr s1 (B[nat v := m1]) P R"
      using bputky_spec [OF s0(2) uv(2) room refl, of ZNULL ZNULL ?k] V(1,3) h(5) by (auto simp: runs_def ZMXKEY_val)
    let ?B1 = "B[nat v := m1]"
    have b1: "?B1 ! nat v = m1" "?B1 ! nat u = B ! nat u" using update_same [OF uv(2)] E uv by simp_all
    have l1: "leaf_of mv0 (?k # ev) (?B1 ! nat v)" "leaf_of mu0 eu (?B1 ! nat u)"
      using leaf_put_first [OF l(2) h(5) s1(2) sk(2)] l(1) b1 by simp_all
    obtain mu mv k0 s2 where s2: "bal_loop v u (-1) h (int (length eu) - 1) s1 = Some ((True, int p), s2)"
        "leaf_of mv0 (drop (Suc p) eu @ ?k # ev) mv" "leaf_of mu0 (take (Suc p) eu) mu"
        "repr s2 (?B1[nat u := mu, nat v := mv]) P (R\<lparr>srh_keyent := k0\<rparr>)"
      using bal_loop_down [OF s1(3) r(2) _ _ uv(3) [symmetric] l1 h(3)] uv h s unfolding p(2,3) by (auto simp: runs_def)
    let ?B2 = "?B1[nat u := mu, nat v := mv]"
    have B2: "?B2 = B[nat u := mu, nat v := mv]" using nn by (simp add: list_update_swap)
    have b2: "?B2 ! nat u = mu" "?B2 ! nat pb = B ! nat pb" "valid_blk ?B2 pb" "valid_blk ?B2 u"
      unfolding B2 using nn pb(3) uv(1) by (auto simp: valid_blk_def)
    have dn: "take (Suc p) eu ! p = eu ! p" "p < length (take (Suc p) eu)" using p(1) by simp_all
    have sp: "sorted_keys ((entries (B ! nat pb))[q := eu ! p])" using new nth_mem [OF p(1)] by blast
    note F = bal_finish [OF s2(4) r(2), of pb q u v "take (Suc p) eu" p u mu0, unfolded b2(1,2) dn]
    obtain mp mf s3 where s3: "bal_end u v u (int p) s2 = Some s3" "leaf_of mu0 (remove_at p (take (Suc p) eu)) mf"
      "node (B ! nat pb) ((entries (B ! nat pb))[q := eu ! p]) (links (B ! nat pb)) mp"
      "repr s3 (?B2[nat pb := mp, nat u := mf]) P (R\<lparr>srh_keyent := k0, srh_keyent := eu ! p\<rparr>)"
      using F pb(1,2,4-7) b2(3,4) uv(4) s2(3) dn(2) sp unfolding runs_def by auto
    have lim: "nat \<bar>int (length eu) - 1 - int h - (int (length eu) - 1)\<bar> = h" by simp
    have "balbk1 u v ?d True s = Some s3"
      using k' s0(1) s1(1) s2(1) s3(1) False h(1) [symmetric] lim by (simp add: balbk1_def Let_def)
    moreover have "?B2[nat pb := mp, nat u := mf] = B[nat pb := mp, nat u := mf, nat v := mv]"
      unfolding B2 using nn by (simp add: list_update_swap)
    moreover have "remove_at p (take (Suc p) eu) = take p eu" by (simp add: remove_at_def)
    moreover have "evened eu ?k ev (take p eu) (eu ! p) (drop (Suc p) eu @ ?k # ev)"
      using h p(1) by (simp add: evened_def p_def id_take_nth_drop [symmetric])
    ultimately show ?thesis using s3 s2(2) unfolding runs_def
      by (intro exI [of _ s3]) (simp, blast)
  qed
qed

end
