(* ===== verification/Route.thy ===== *)
theory Route
  imports Repair
begin

text \<open>
  A change in one place of a tree, seen from its root. A route is the list of the positions that lead
  from the root of a tree down to one of its blocks, as the stack of a search holds them; the entries
  of the tree are those below that block, between lists that a change below it does not touch. The
  lemmas on neighbouring leaves say what a join and a balance of them make of their parent's tree.
\<close>

section \<open>Routes\<close>

primrec route :: "memrec list \<Rightarrow> nat \<Rightarrow> int \<Rightarrow> (int \<times> nat) list \<Rightarrow> nat \<Rightarrow> int \<Rightarrow> bool" where
  "route B h b [] g c \<longleftrightarrow> g = h \<and> c = b"
| "route B h b (x # ps) g c \<longleftrightarrow> fst x = b \<and> 0 < h \<and> snd x < length (links (B ! nat b)) \<and>
     route B (h - 1) (links (B ! nat b) ! snd x) ps g c"

lemma route_append:
  "route B h b (ps @ qs) g c \<longleftrightarrow> (\<exists>h' b'. route B h b ps h' b' \<and> route B h' b' qs g c)"
  by (induction ps arbitrary: h b) auto

lemma route_height: "route B h b ps g c \<Longrightarrow> g + length ps = h"
  by (induction ps arbitrary: h b) fastforce+

text \<open>The child that a route goes through.\<close>

lemma child_context:
  assumes t: "wf_tree B (Suc h) b" "distinct (tree_blocks B (Suc h) b)" and p: "p < length (links (B ! nat b))"
  defines "c \<equiv> links (B ! nat b) ! p"
  assumes B': "\<forall>d \<in> set (tree_blocks B (Suc h) b) - set (tree_blocks B h c). B' ! nat d = B ! nat d"
      "length B \<le> length B'" "wf_tree B' h c"
  shows "wf_tree B' (Suc h) b \<and>
    tree_entries B' (Suc h) b = left_part p (map (tree_entries B h) (links (B ! nat b))) (entries (B ! nat b)) @
      tree_entries B' h c @ right_part p (map (tree_entries B h) (links (B ! nat b))) (entries (B ! nat b)) \<and>
    mset (tree_blocks B' (Suc h) b) + mset (tree_blocks B h c) = mset (tree_blocks B (Suc h) b) + mset (tree_blocks B' h c)"
proof -
  let ?ls = "links (B ! nat b)" and ?es = "entries (B ! nat b)"
  define l1 where "l1 = take p ?ls"
  define l2 where "l2 = drop (Suc p) ?ls"
  have ls: "?ls = l1 @ c # l2" "length l1 = p" using id_take_nth_drop [OF p] p by (simp_all add: l1_def l2_def c_def)
  have D: "distinct (b # concat (map (tree_blocks B h) l1) @ tree_blocks B h c @ concat (map (tree_blocks B h) l2))"
    using t(2) ls(1) by simp
  have b: "B' ! nat b = B ! nat b" using B'(1) D by auto
  have cong: "wf_tree B' h l \<and> tree_entries B' h l = tree_entries B h l \<and> tree_blocks B' h l = tree_blocks B h l"
    if l: "l \<in> set l1 \<union> set l2" for l
  proof (rule tree_cong [OF _ B'(2)])
    show "wf_tree B h l" using t(1) l ls(1) by auto
    show "\<forall>d \<in> set (tree_blocks B h l). B' ! nat d = B ! nat d"
    proof
      fix d assume d: "d \<in> set (tree_blocks B h l)"
      then have "d \<notin> set (tree_blocks B h c)" using D l by auto
      moreover have "d \<in> set (tree_blocks B (Suc h) b)" using d l ls(1) by auto
      ultimately show "B' ! nat d = B ! nat d" using B'(1) by blast
    qed
  qed
  have e: "map (tree_entries B' h) l1 = map (tree_entries B h) l1" "map (tree_entries B' h) l2 = map (tree_entries B h) l2"
    "map (tree_blocks B' h) l1 = map (tree_blocks B h) l1" "map (tree_blocks B' h) l2 = map (tree_blocks B h) l2"
    using cong by (intro map_cong refl; blast)+
  have len: "length (map (tree_entries B h) ?ls) = Suc (length ?es)" using wf_tree_links [OF t(1)] by simp
  have "map (tree_entries B' h) ?ls = (map (tree_entries B h) ?ls)[p := tree_entries B' h c]"
    unfolding ls(1) using e ls(2) by (simp add: list_update_append)
  then have "tree_entries B' (Suc h) b = interleave ((map (tree_entries B h) ?ls)[p := tree_entries B' h c]) ?es"
    using b by simp
  also have "\<dots> = left_part p (map (tree_entries B h) ?ls) ?es @ tree_entries B' h c @ right_part p (map (tree_entries B h) ?ls) ?es"
    by (rule interleave_update [OF len]) (use p len in simp)
  finally have "tree_entries B' (Suc h) b = \<dots>" .
  moreover have "mset (tree_blocks B' (Suc h) b) + mset (tree_blocks B h c) =
      mset (tree_blocks B (Suc h) b) + mset (tree_blocks B' h c)"
    using b ls(1) e by (simp del: map_eq_conv)
  moreover have "wf_tree B' (Suc h) b"
    using t(1) b ls(1) B'(2,3) cong by (auto simp: valid_blk_def)
  ultimately show ?thesis by blast
qed

text \<open>What stands around the block at the end of a route, whatever happens below that block.\<close>

lemma route_context:
  assumes "wf_tree B h b" "distinct (tree_blocks B h b)" "route B h b ps g c"
  shows "wf_tree B g c \<and> distinct (tree_blocks B g c) \<and> set (tree_blocks B g c) \<subseteq> set (tree_blocks B h b) \<and>
    (ps \<noteq> [] \<longrightarrow> b \<notin> set (tree_blocks B g c)) \<and>
    (\<exists>L R. tree_entries B h b = L @ tree_entries B g c @ R \<and>
      (\<forall>B'. (\<forall>d \<in> set (tree_blocks B h b) - set (tree_blocks B g c). B' ! nat d = B ! nat d) \<longrightarrow> length B \<le> length B' \<longrightarrow>
        wf_tree B' g c \<longrightarrow> wf_tree B' h b \<and> tree_entries B' h b = L @ tree_entries B' g c @ R \<and>
        mset (tree_blocks B' h b) + mset (tree_blocks B g c) = mset (tree_blocks B h b) + mset (tree_blocks B' g c)))"
  using assms
proof (induction ps arbitrary: h b)
  case Nil
  then show ?case by (intro conjI exI [of _ "[]"]) simp_all
next
  case (Cons x ps)
  obtain k where k: "h = Suc k" using Cons.prems(3) by (cases h) auto
  let ?ls = "links (B ! nat b)" and ?es = "entries (B ! nat b)"
  define p where "p = snd x"
  define l where "l = ?ls ! p"
  have p: "p < length ?ls" and r: "route B k l ps g c" using Cons.prems(3) k by (simp_all add: p_def l_def)
  have li: "l \<in> set ?ls" using nth_mem [OF p] by (simp add: l_def)
  have wl: "wf_tree B k l" using Cons.prems(1) k li by simp
  have dl: "distinct (tree_blocks B k l)" "b \<notin> set (tree_blocks B k l)"
    using Cons.prems(2) li unfolding k by (auto simp: distinct_concat_iff)
  have sub: "set (tree_blocks B k l) \<subseteq> set (tree_blocks B h b)" using child_blocks [OF li] k by blast
  note t = Cons.prems(1,2) [unfolded k]
  from Cons.IH [OF wl dl(1) r] obtain L R where IH: "wf_tree B g c" "distinct (tree_blocks B g c)"
    "set (tree_blocks B g c) \<subseteq> set (tree_blocks B k l)" "tree_entries B k l = L @ tree_entries B g c @ R"
    "\<And>B'. (\<forall>d \<in> set (tree_blocks B k l) - set (tree_blocks B g c). B' ! nat d = B ! nat d) \<Longrightarrow> length B \<le> length B' \<Longrightarrow>
        wf_tree B' g c \<Longrightarrow> wf_tree B' k l \<and> tree_entries B' k l = L @ tree_entries B' g c @ R \<and>
        mset (tree_blocks B' k l) + mset (tree_blocks B g c) = mset (tree_blocks B k l) + mset (tree_blocks B' g c)"
    by blast
  let ?L = "left_part p (map (tree_entries B k) ?ls) ?es" and ?R = "right_part p (map (tree_entries B k) ?ls) ?es"
  have e: "tree_entries B h b = (?L @ L) @ tree_entries B g c @ (R @ ?R)"
    using child_context [OF t p, of B] wl IH(4) by (simp add: k l_def)
  have up: "wf_tree B' h b \<and> tree_entries B' h b = (?L @ L) @ tree_entries B' g c @ (R @ ?R) \<and>
      mset (tree_blocks B' h b) + mset (tree_blocks B g c) = mset (tree_blocks B h b) + mset (tree_blocks B' g c)"
    if s: "\<forall>d \<in> set (tree_blocks B h b) - set (tree_blocks B g c). B' ! nat d = B ! nat d" "length B \<le> length B'" "wf_tree B' g c" for B'
  proof -
    have I: "wf_tree B' k l" "tree_entries B' k l = L @ tree_entries B' g c @ R"
      "mset (tree_blocks B' k l) + mset (tree_blocks B g c) = mset (tree_blocks B k l) + mset (tree_blocks B' g c)"
      using IH(5) [OF _ s(2,3)] s(1) sub by blast+
    have "\<forall>d \<in> set (tree_blocks B (Suc k) b) - set (tree_blocks B k l). B' ! nat d = B ! nat d"
      using s(1) IH(3) k by blast
    note C = child_context [OF t p, folded l_def, OF this s(2) I(1)]
    have "mset (tree_blocks B' h b) + mset (tree_blocks B k l) + mset (tree_blocks B g c) =
        mset (tree_blocks B h b) + mset (tree_blocks B' g c) + mset (tree_blocks B k l)"
      using C I(3) unfolding k by (metis (no_types, lifting) union_assoc union_commute)
    then have "mset (tree_blocks B' h b) + mset (tree_blocks B g c) = mset (tree_blocks B h b) + mset (tree_blocks B' g c)"
      by (simp add: ac_simps)
    then show ?thesis using C I(2) unfolding k by simp
  qed
  show ?case using IH(1-3) sub dl(2) e up by blast
qed

section \<open>Neighbouring leaves\<close>

lemma sorted_interleave: "length cs = Suc (length es) \<Longrightarrow> sorted_keys (interleave cs es) \<Longrightarrow> sorted_keys es"
proof (induction cs es rule: interleave.induct)
  case (1 c cs e es)
  have "sorted_keys (e # interleave cs es)" using "1.prems"(2) by (auto simp: sorted_keys_append)
  moreover have "set es \<subseteq> set (interleave cs es)" using "1.prems"(1) by (simp add: set_interleave)
  ultimately show ?case using "1.IH" "1.prems"(1) by (auto simp: sorted_keys_def)
qed (simp_all add: sorted_keys_def)

text \<open>Two leaves \<open>u\<close> and \<open>v\<close> with the key \<open>k\<close> between them in their parent.\<close>

definition sisters :: "memrec list \<Rightarrow> int \<Rightarrow> keyent list \<Rightarrow> int list \<Rightarrow> int \<Rightarrow> keyent \<Rightarrow> int \<Rightarrow> keyent list \<Rightarrow> int list \<Rightarrow> bool" where
  "sisters B b es1 ls1 u k v es2 ls2 \<longleftrightarrow> length ls1 = length es1 \<and>
     entries (B ! nat b) = es1 @ k # es2 \<and> links (B ! nat b) = ls1 @ u # v # ls2"

lemma sisters_at:
  assumes "wf_tree B 1 b" "q < length (entries (B ! nat b))"
  shows "\<exists>es1 ls1 es2 ls2. length es1 = q \<and>
    sisters B b es1 ls1 (links (B ! nat b) ! q) (entries (B ! nat b) ! q) (links (B ! nat b) ! Suc q) es2 ls2"
proof -
  let ?ls = "links (B ! nat b)" and ?es = "entries (B ! nat b)"
  have l: "length ?ls = Suc (length ?es)" using wf_tree_links [OF assms(1)] .
  have "?es = take q ?es @ ?es ! q # drop (Suc q) ?es" "?ls = take q ?ls @ ?ls ! q # drop (Suc q) ?ls"
    "drop (Suc q) ?ls = ?ls ! Suc q # drop (Suc (Suc q)) ?ls"
    using assms(2) l by (simp_all add: id_take_nth_drop Cons_nth_drop_Suc)
  then show ?thesis using assms(2) l unfolding sisters_def
    by (intro exI [of _ "take q ?es"] exI [of _ "take q ?ls"] exI [of _ "drop (Suc q) ?es"] exI [of _ "drop (Suc (Suc q)) ?ls"]) simp
qed

lemma sisters_entries:
  assumes "sisters B b es1 ls1 u k v es2 ls2"
  shows "tree_entries B 1 b = interleave (map (tree_entries B 0) ls1 @ (tree_entries B 0 u @ k # tree_entries B 0 v) #
    map (tree_entries B 0) ls2) (es1 @ es2)"
  using assms interleave_two [of "map (tree_entries B 0) ls1" es1] by (simp add: sisters_def)

lemma sisters_sorted:
  assumes t: "wf_tree B 1 b" "sorted_keys (tree_entries B 1 b)" and s: "sisters B b es1 ls1 u k v es2 ls2"
  shows "sorted_keys (tree_entries B 0 u @ k # tree_entries B 0 v)"
    "x \<in> set (tree_entries B 0 u) \<union> set (tree_entries B 0 v) \<Longrightarrow> sorted_keys (es1 @ x # es2)"
proof -
  let ?l1 = "map (tree_entries B 0) ls1" and ?l2 = "map (tree_entries B 0) ls2"
  let ?d = "tree_entries B 0 u @ k # tree_entries B 0 v"
  have len: "length ls1 = length es1" "length ls2 = length es2"
    using s wf_tree_links [OF t(1)] by (auto simp: sisters_def)
  have S: "sorted_keys (interleave (?l1 @ ?d # ?l2) (es1 @ es2))" using t(2) sisters_entries [OF s] by simp
  have "interleave (?l1 @ ?d # ?l2) (es1 @ es2) = left_part (length es1) (?l1 @ ?d # ?l2) (es1 @ es2) @ ?d @
      right_part (length es1) (?l1 @ ?d # ?l2) (es1 @ es2)"
    using interleave_split [of "?l1 @ ?d # ?l2" "es1 @ es2" "length es1"] len by (simp add: nth_append)
  with S have "sorted_keys (?d @ right_part (length es1) (?l1 @ ?d # ?l2) (es1 @ es2))"
    using sorted_keys_append by metis
  then show "sorted_keys ?d" using sorted_keys_append by blast
  have "sorted_keys (es1 @ x # es2)" if "?d = a @ x # c" for a c
  proof (rule sorted_interleave)
    show "length (?l1 @ a # c # ?l2) = Suc (length (es1 @ x # es2))" using len by simp
    show "sorted_keys (interleave (?l1 @ a # c # ?l2) (es1 @ x # es2))"
      using S len that interleave_two [of ?l1 es1 a c ?l2 x es2] by simp
  qed
  moreover assume "x \<in> set (tree_entries B 0 u) \<union> set (tree_entries B 0 v)"
  then have "\<exists>a c. ?d = a @ x # c" by (metis Un_iff in_set_conv_decomp append.assoc append_Cons)
  ultimately show "sorted_keys (es1 @ x # es2)" by blast
qed

lemma leaf_blocks: "concat (map (tree_blocks B 0) ls) = ls"
  by (induction ls) simp_all

lemma leaves_kept:
  assumes "\<forall>l \<in> set ls. wf_tree B 0 l \<and> B' ! nat l = B ! nat l" "length B \<le> length B'"
  shows "map (tree_entries B' 0) ls = map (tree_entries B 0) ls" "\<forall>l \<in> set ls. wf_tree B' 0 l"
  using assms by (auto simp: valid_blk_def)

text \<open>Keys have moved from one to the other.\<close>

lemma sisters_evened:
  assumes t: "wf_tree B 1 b" "distinct (tree_blocks B 1 b)" and s: "sisters B b es1 ls1 u k v es2 ls2"
    and b: "wf_keys (B' ! nat b)" "entries (B' ! nat b) = es1 @ k' # es2" "links (B' ! nat b) = links (B ! nat b)"
    and uv: "wf_tree B' 0 u" "wf_tree B' 0 v" "tree_entries B' 0 u @ k' # tree_entries B' 0 v = tree_entries B 0 u @ k # tree_entries B 0 v"
    and B': "\<forall>d \<in> set (tree_blocks B 1 b) - {b, u, v}. B' ! nat d = B ! nat d" "length B \<le> length B'"
  shows "wf_tree B' 1 b \<and> tree_entries B' 1 b = tree_entries B 1 b \<and> tree_blocks B' 1 b = tree_blocks B 1 b"
proof -
  have ls: "links (B ! nat b) = ls1 @ u # v # ls2" "length ls1 = length es1" using s by (simp_all add: sisters_def)
  have D: "distinct (b # ls1 @ u # v # ls2)" using t(2) ls(1) by (simp add: leaf_blocks)
  have "\<forall>l \<in> set (ls1 @ ls2). wf_tree B 0 l \<and> B' ! nat l = B ! nat l" using t(1) ls(1) B'(1) D by auto
  note K = leaves_kept [OF this B'(2)]
  have s': "sisters B' b es1 ls1 u k' v es2 ls2" using b(2,3) ls by (simp add: sisters_def)
  have e: "map (tree_entries B' 0) ls1 = map (tree_entries B 0) ls1" "map (tree_entries B' 0) ls2 = map (tree_entries B 0) ls2"
    using K(1) by simp_all
  have "tree_entries B' 1 b = tree_entries B 1 b"
    unfolding sisters_entries [OF s'] sisters_entries [OF s] uv(3) e ..
  moreover have "tree_blocks B' 1 b = tree_blocks B 1 b" using b(3) by (simp add: leaf_blocks)
  moreover have "0 < nkeys_of (B' ! nat b)" using wf_keys_D(7) [OF b(1)] b(2) by auto
  then have "wf_tree B' 1 b"
    using b(1,3) uv(1,2) K(2) ls(1) wf_tree_D [OF t(1)] B'(2) by (auto simp: valid_blk_def)
  ultimately show ?thesis by blast
qed

text \<open>The left one has taken over the keys of the right one.\<close>

lemma sisters_joined:
  assumes t: "wf_tree B 1 b" "distinct (tree_blocks B 1 b)" and s: "sisters B b es1 ls1 u k v es2 ls2"
    and b: "wf_keys (B' ! nat b)" "entries (B' ! nat b) = es1 @ es2" "links (B' ! nat b) = ls1 @ u # ls2" "es1 @ es2 \<noteq> []"
    and u: "wf_tree B' 0 u" "tree_entries B' 0 u = tree_entries B 0 u @ k # tree_entries B 0 v"
    and B': "\<forall>d \<in> set (tree_blocks B 1 b) - {b, u, v}. B' ! nat d = B ! nat d" "length B \<le> length B'"
  shows "wf_tree B' 1 b \<and> tree_entries B' 1 b = tree_entries B 1 b \<and>
    mset (tree_blocks B 1 b) = add_mset v (mset (tree_blocks B' 1 b))"
proof -
  have ls: "links (B ! nat b) = ls1 @ u # v # ls2" using s by (simp add: sisters_def)
  have D: "distinct (b # ls1 @ u # v # ls2)" using t(2) ls by (simp add: leaf_blocks)
  have "\<forall>l \<in> set (ls1 @ ls2). wf_tree B 0 l \<and> B' ! nat l = B ! nat l" using t(1) ls B'(1) D by auto
  note K = leaves_kept [OF this B'(2)]
  have e: "map (tree_entries B' 0) ls1 = map (tree_entries B 0) ls1" "map (tree_entries B' 0) ls2 = map (tree_entries B 0) ls2"
    using K(1) by simp_all
  have "tree_entries B' 1 b = interleave (map (tree_entries B' 0) ls1 @ tree_entries B' 0 u # map (tree_entries B' 0) ls2) (es1 @ es2)"
    using b(2,3) by simp
  then have "tree_entries B' 1 b = tree_entries B 1 b"
    unfolding sisters_entries [OF s] u(2) e .
  moreover have "mset (tree_blocks B 1 b) = add_mset v (mset (tree_blocks B' 1 b))"
    using b(3) ls by (simp add: leaf_blocks)
  moreover have "0 < nkeys_of (B' ! nat b)" using wf_keys_D(7) [OF b(1)] b(2,4) by (cases "es1 @ es2") auto
  then have "wf_tree B' 1 b"
    using b(1,3) u(1) K(2) wf_tree_D [OF t(1)] B'(2) by (auto simp: valid_blk_def)
  ultimately show ?thesis by blast
qed

section \<open>A tree in another shape\<close>

text \<open>The tree stands for the same entries with fewer blocks, or blocks of other sizes.\<close>

definition reshaped ::
  "memrec list \<Rightarrow> st \<Rightarrow> nat \<Rightarrow> int \<Rightarrow> memrec list \<Rightarrow> st \<Rightarrow> nat \<Rightarrow> int list \<Rightarrow> bool" where
  "reshaped B R h b B' R' h' bs' \<longleftrightarrow>
     open_tree B' R' h' b bs' \<and> tree_entries B' h' b = tree_entries B h b \<and> others_kept B h b B' h' \<and>
     (\<forall>t. 0 \<le> t \<and> t \<noteq> ZNKEYS \<longrightarrow> word_of (B' ! nat b) t = word_of (B ! nat b) t) \<and> same_rest R R'"

lemma open_tree_super: "super R' = super R \<Longrightarrow> open_tree B R' h b bs = open_tree B R h b bs"
  by (simp add: open_tree_def free_list_def)

lemma reshaped_refl: "open_tree B R h b bs \<Longrightarrow> same_rest R R' \<Longrightarrow> super R' = super R \<Longrightarrow> reshaped B R h b B R' h bs"
  using open_tree_super [of R' R B h b bs] by (simp add: reshaped_def others_kept_def)

lemma resplit_reshaped: "resplit B R h b B' R' h' bs' \<Longrightarrow> reshaped B R h b B' R' h' bs'"
  by (simp add: resplit_def reshaped_def)

lemma reshaped_trans:
  "reshaped B R h b B1 R1 h1 bs1 \<Longrightarrow> reshaped B1 R1 h1 b B2 R2 h2 bs2 \<Longrightarrow> reshaped B R h b B2 R2 h2 bs2"
  unfolding reshaped_def using same_rest_trans others_kept_trans by auto

lemma reshaped_intro:
  assumes o: "open_tree B R h b bs"
    and t: "wf_tree B' h' b" "tree_entries B' h' b = tree_entries B h b"
      "mset (tree_blocks B h b) = mset (xs @ tree_blocks B' h' b)"
    and f: "free_list B' R' bs'" "length B' = length B"
    and same: "\<forall>d. in_use B d \<and> d \<notin> set (tree_blocks B h b) \<longrightarrow> B' ! nat d = B ! nat d"
      "\<forall>d \<in> set (tree_blocks B' h' b). btype_of (B' ! nat d) = btype_of (B ! nat d) \<and> (d \<noteq> b \<longrightarrow> 0 < nkeys_of (B' ! nat d))"
      "\<forall>t. 0 \<le> t \<and> t \<noteq> ZNKEYS \<longrightarrow> word_of (B' ! nat b) t = word_of (B ! nat b) t"
    and R: "same_rest R R'"
  shows "reshaped B R h b B' R' h' bs'"
proof -
  note D = open_tree_D [OF o]
  have sub: "set (tree_blocks B' h' b) \<subseteq> set (tree_blocks B h b)"
    using mset_eq_setD [OF t(3)] by auto
  have "distinct (xs @ tree_blocks B' h' b)" using t(3) D(3) mset_eq_imp_distinct_iff by blast
  then have dis: "distinct (tree_blocks B' h' b)" by simp
  have "btype_of (B' ! nat c) = ZINUSE" if "c \<in> set (tree_blocks B' h' b)" "c \<noteq> b" for c
    using that D(9) [of c] same(2) sub by auto
  then have ty: "typed_tree B' h' b"
    using D(10) same(2) root_in_blocks [of b B' h'] by (simp add: typed_tree_def)
  have out: "B' ! nat c = B ! nat c \<and> in_use B' c \<and> c \<notin> set (tree_blocks B' h' b)"
    if c: "in_use B c" "c \<notin> set (tree_blocks B h b)" for c
  proof -
    have "B' ! nat c = B ! nat c" using same(1) c by blast
    then show ?thesis using c f(2) sub by (auto simp: valid_blk_def)
  qed
  have "others_kept B h b B' h'" unfolding others_kept_def using out by blast
  moreover have "\<exists>c. in_use B' c \<and> c \<notin> set (tree_blocks B' h' b)"
    using o out by (auto simp: open_tree_def)
  then have "open_tree B' R' h' b bs'"
    using t(1,2) D(2,4,6) dis ty f by (simp add: open_tree_def search_tree_def)
  ultimately show ?thesis using t(2) same(3) R by (simp add: reshaped_def)
qed

end
