(* ===== verification/Merge.thy ===== *)
theory Merge
  imports Route
begin

text \<open>
  The repair of a tree after a key has left a leaf: \<open>bjnblk\<close> joins the leaf with a neighbour if both
  fit well into one block, else \<open>balblk\<close> evens them out if one is much fuller; \<open>bdemte\<close> takes in the
  only child of a root that a join has emptied. The tree stands for the same entries. The lemmas are
  for trees in which no block but the root can lose its last key.
\<close>

lemma leaf_copy:
  assumes m: "wf_memrec m" and g: "leaf_of g0 es g" "es \<noteq> []"
  shows "leaf_of m es (set_word ZNKEYS (int (length es)) (copied_at 0 0 (length es) g m))"
    (is "leaf_of m es (set_word ZNKEYS ?n ?c)")
proof -
  note G = leaf_D [OF g(1)]
  have len: "length (keyblk m) = 22" "length (lnkblk m) = 23" "length (keyblk g) = 22" "length (lnkblk g) = 23"
    using m G(8) by (simp_all add: wf_memrec_def ZMXKEY_val)
  have c: "wf_memrec ?c" using copied_at_wf [OF m G(8)] G(5) by (simp add: ZMXKEY_val)
  have w: "word_of (set_word ZNKEYS ?n ?c) t = (if t = ZNKEYS then ?n else word_of m t)" if "0 \<le> t" for t
    using word_of_set_word [OF c, of ZNKEYS t ?n] that
    by (simp add: ZNKEYS_def ZINFSZ_def ZBTYPE_def copied_at_def word_of_def)
  have nk: "nkeys_of (set_word ZNKEYS ?n ?c) = ?n" using w [of ZNKEYS] by (simp add: ZNKEYS_def)
  have e: "take (length es) (keyblk g) = es" using G(2,3) by (simp add: entries_def)
  have ent: "entries (set_word ZNKEYS ?n ?c) = es"
    using e len nk G(5) by (simp add: entries_def copied_at_def overlay_def)
  have ln: "take (Suc (length es)) (lnkblk g) = links g" using G(3) by (simp add: links_def nat_add_distrib)
  have ov: "(overlay 0 (length es) 0 (lnkblk g) (lnkblk m))[length es := lnkblk g ! length es] =
      overlay 0 (Suc (length es)) 0 (lnkblk g) (lnkblk m)"
    using overlay_last [of 0 "length es" "lnkblk g" "lnkblk m"] len G(5) by simp
  have "links (set_word ZNKEYS ?n ?c) = take (Suc (length es)) (overlay 0 (Suc (length es)) 0 (lnkblk g) (lnkblk m))"
    using nk ov by (simp add: links_def copied_at_def nat_add_distrib)
  also have "\<dots> = links g" using len G(5) unfolding ln [symmetric] by (simp add: overlay_def)
  finally have "\<forall>l \<in> set (links (set_word ZNKEYS ?n ?c)). l = ZNULL" using G(6) g(2) by simp
  moreover have "wf_keys (set_word ZNKEYS ?n ?c)" using c nk ent G(4,5) by (simp add: wf_keys_def ZMXKEY_val)
  ultimately show ?thesis using ent w by (auto simp: leaf_of_def node_def)
qed

section \<open>A parent of leaves in its tree\<close>

lemma pair_facts:
  assumes o: "open_tree B R h b bs" and rt: "route B h b ps 1 pb" and q: "q < length (entries (B ! nat pb))"
  defines "u \<equiv> links (B ! nat pb) ! q" and "v \<equiv> links (B ! nat pb) ! Suc q"
  shows "wf_tree B 1 pb" "distinct (tree_blocks B 1 pb)" "set (tree_blocks B 1 pb) \<subseteq> set (tree_blocks B h b)"
    "u \<noteq> v" "u \<noteq> pb" "v \<noteq> pb" "u \<noteq> b" "v \<noteq> b" "u \<in> set (tree_blocks B h b)" "v \<in> set (tree_blocks B h b)" "pb \<in> set (tree_blocks B h b)"
    "u \<in> set (tree_blocks B 1 pb)" "v \<in> set (tree_blocks B 1 pb)" "pb = b \<longrightarrow> h = 1"
    "wf_tree B 0 u" "wf_tree B 0 v" "sorted_keys (tree_entries B 1 pb)"
proof -
  note D = open_tree_D [OF o]
  note C = route_context [OF D(1,3) rt]
  show w: "wf_tree B 1 pb" "distinct (tree_blocks B 1 pb)" "set (tree_blocks B 1 pb) \<subseteq> set (tree_blocks B h b)"
    using C by blast+
  obtain L S where "tree_entries B h b = L @ tree_entries B 1 pb @ S" using C by blast
  then show "sorted_keys (tree_entries B 1 pb)" using D(2) sorted_keys_append by metis
  have l: "Suc q < length (links (B ! nat pb))" using wf_tree_links [OF w(1)] q by simp
  then have in_links: "u \<in> set (links (B ! nat pb))" "v \<in> set (links (B ! nat pb))" by (simp_all add: u_def v_def)
  then show "wf_tree B 0 u" "wf_tree B 0 v" using w(1) by simp_all
  have ls: "distinct (pb # links (B ! nat pb))" using w(2) by (simp add: leaf_blocks)
  have "u \<noteq> v" using ls l nth_eq_iff_index_eq [of "links (B ! nat pb)" q "Suc q"] by (auto simp: u_def v_def)
  moreover have "u \<noteq> pb" "v \<noteq> pb" using in_links ls by auto
  ultimately show ne: "u \<noteq> v" "u \<noteq> pb" "v \<noteq> pb" by blast+
  show "u \<in> set (tree_blocks B 1 pb)" "v \<in> set (tree_blocks B 1 pb)" using in_links by (simp_all add: leaf_blocks)
  then show "u \<in> set (tree_blocks B h b)" "v \<in> set (tree_blocks B h b)" using w(3) by blast+
  show "pb \<in> set (tree_blocks B h b)" using w(3) root_in_blocks by blast
  show "pb = b \<longrightarrow> h = 1"
  proof
    assume "pb = b"
    then have "ps = []" using C root_in_blocks [of b B 1] by blast
    then show "h = 1" using rt by simp
  qed
  show "u \<noteq> b" "v \<noteq> b"
  proof -
    have "b \<notin> {u, v}"
    proof (cases "ps = []")
      case True
      then show ?thesis using rt ne by auto
    next
      case False
      then have "b \<notin> set (tree_blocks B 1 pb)" using C by blast
      then show ?thesis using in_links by (auto simp: leaf_blocks)
    qed
    then show "u \<noteq> b" "v \<noteq> b" by auto
  qed
qed

text \<open>What a change below the parent of the leaves makes of the whole tree.\<close>

lemma pair_reshaped:
  assumes o: "open_tree B R h b bs" and rt: "route B h b ps 1 pb"
    and t: "wf_tree B' 1 pb" "tree_entries B' 1 pb = tree_entries B 1 pb"
      "mset (tree_blocks B 1 pb) = mset (xs @ tree_blocks B' 1 pb)"
    and f: "free_list B' R' bs'" "length B' = length B"
    and same: "\<forall>d. in_use B d \<and> d \<notin> set (tree_blocks B 1 pb) \<longrightarrow> B' ! nat d = B ! nat d"
      "\<forall>d \<in> set (tree_blocks B' 1 pb). (\<forall>t. 0 \<le> t \<and> t \<noteq> ZNKEYS \<longrightarrow> word_of (B' ! nat d) t = word_of (B ! nat d) t) \<and>
        (d \<noteq> b \<longrightarrow> int m \<le> nkeys_of (B' ! nat d))"
    and m: "stocked m B h b" "0 < m" and R: "same_rest R R'"
  shows "reshaped B R h b B' R' h bs' \<and> stocked m B' h b"
proof -
  note D = open_tree_D [OF o]
  note C = route_context [OF D(1,3) rt]
  from C have sub: "set (tree_blocks B 1 pb) \<subseteq> set (tree_blocks B h b)" by blast
  have out: "B' ! nat d = B ! nat d" if "d \<in> set (tree_blocks B h b) - set (tree_blocks B 1 pb)" for d
    using that same(1) D(7) by blast
  from C obtain L S where LS: "tree_entries B h b = L @ tree_entries B 1 pb @ S"
    and up: "\<forall>B'. (\<forall>d \<in> set (tree_blocks B h b) - set (tree_blocks B 1 pb). B' ! nat d = B ! nat d) \<longrightarrow> length B \<le> length B' \<longrightarrow>
        wf_tree B' 1 pb \<longrightarrow> wf_tree B' h b \<and> tree_entries B' h b = L @ tree_entries B' 1 pb @ S \<and>
        mset (tree_blocks B' h b) + mset (tree_blocks B 1 pb) = mset (tree_blocks B h b) + mset (tree_blocks B' 1 pb)"
    by blast
  have "wf_tree B' h b \<and> tree_entries B' h b = L @ tree_entries B' 1 pb @ S \<and>
     mset (tree_blocks B' h b) + mset (tree_blocks B 1 pb) = mset (tree_blocks B h b) + mset (tree_blocks B' 1 pb)"
    using up out f(2) t(1) by simp
  note LS = LS this
  have ms: "mset (tree_blocks B h b) = mset (xs @ tree_blocks B' h b)"
  proof -
    have "mset (tree_blocks B h b) + mset (tree_blocks B' 1 pb) = mset (tree_blocks B' h b) + mset (tree_blocks B 1 pb)"
      using LS(2) by simp
    also have "\<dots> = (mset xs + mset (tree_blocks B' h b)) + mset (tree_blocks B' 1 pb)"
      unfolding t(3) by (simp only: mset_append ac_simps)
    finally show ?thesis by (simp only: add_right_cancel mset_append)
  qed
  have old: "set (tree_blocks B' h b) \<subseteq> set (tree_blocks B h b)" using mset_eq_setD [OF ms] by auto
  have in': "d \<in> set (tree_blocks B' 1 pb)" if d: "d \<in> set (tree_blocks B' h b)" "d \<in> set (tree_blocks B 1 pb)" for d
  proof -
    have "d \<notin> set xs"
    proof
      assume "d \<in> set xs"
      moreover have "distinct (xs @ tree_blocks B' h b)" using ms D(3) mset_eq_imp_distinct_iff by blast
      ultimately show False using d(1) by auto
    qed
    then show ?thesis using d(2) mset_eq_setD [OF t(3)] by auto
  qed
  have w: "word_of (B' ! nat d) t = word_of (B ! nat d) t" if "d \<in> set (tree_blocks B' h b)" "0 \<le> t" "t \<noteq> ZNKEYS" for d t
    using that in' [of d] same(2) out [of d] old by (cases "d \<in> set (tree_blocks B 1 pb)") auto
  have n: "int m \<le> nkeys_of (B' ! nat d)" if "d \<in> set (tree_blocks B' h b)" "d \<noteq> b" for d
    using that in' [of d] same(2) out [of d] old m(1) by (cases "d \<in> set (tree_blocks B 1 pb)") (auto simp: stocked_def)
  have ty: "btype_of (B' ! nat d) = btype_of (B ! nat d)" if "d \<in> set (tree_blocks B' h b)" for d
    using w [OF that, of 0] by (simp add: btype_of_def ZNKEYS_def)
  have "reshaped B R h b B' R' h bs'"
  proof (rule reshaped_intro [OF o _ _ ms f])
    show "wf_tree B' h b" "tree_entries B' h b = tree_entries B h b" using LS t(2) by simp_all
    show "\<forall>d. in_use B d \<and> d \<notin> set (tree_blocks B h b) \<longrightarrow> B' ! nat d = B ! nat d" using same(1) sub by blast
    show "\<forall>d \<in> set (tree_blocks B' h b). btype_of (B' ! nat d) = btype_of (B ! nat d) \<and> (d \<noteq> b \<longrightarrow> 0 < nkeys_of (B' ! nat d))"
      using ty n m(2) by (fastforce simp: less_le_trans [of 0 "int m"])
    show "\<forall>t. 0 \<le> t \<and> t \<noteq> ZNKEYS \<longrightarrow> word_of (B' ! nat b) t = word_of (B ! nat b) t"
      using w [OF root_in_blocks] by blast
  qed (rule R)
  then show ?thesis using n by (simp add: stocked_def)
qed

section \<open>The join\<close>

lemma pushed_simps [simp]: "lf (pushed R b) = lf R" "stk (pushed R b) = stk R"
  by (simp_all add: same_rest_pushed)

lemma pair_in_use:
  assumes o: "open_tree B R h b bs" and rt: "route B h b ps 1 pb" and q: "q < length (entries (B ! nat pb))"
  defines "u \<equiv> links (B ! nat pb) ! q" and "v \<equiv> links (B ! nat pb) ! Suc q"
  shows "in_use B pb" "in_use B u" "in_use B v" "btype_of (B ! nat u) = ZINUSE" "btype_of (B ! nat v) = ZINUSE"
    "leaf_of (B ! nat u) (tree_entries B 0 u) (B ! nat u)" "leaf_of (B ! nat v) (tree_entries B 0 v) (B ! nat v)"
    "nkeys_of (B ! nat u) = int (length (tree_entries B 0 u))" "nkeys_of (B ! nat v) = int (length (tree_entries B 0 v))"
    "tree_entries B 0 u \<noteq> []" "tree_entries B 0 v \<noteq> []" "wf_keys (B ! nat pb)"
proof -
  note D = open_tree_D [OF o] and F = pair_facts [OF o rt q, folded u_def v_def]
  show "in_use B pb" "in_use B u" "in_use B v" using D(7) F(9-11) by blast+
  show "btype_of (B ! nat u) = ZINUSE" "btype_of (B ! nat v) = ZINUSE" using D(9) F(7-10) by blast+
  show l: "leaf_of (B ! nat u) (tree_entries B 0 u) (B ! nat u)" "leaf_of (B ! nat v) (tree_entries B 0 v) (B ! nat v)"
    using tree_leaf F(15,16) by simp_all
  show "nkeys_of (B ! nat u) = int (length (tree_entries B 0 u))" "nkeys_of (B ! nat v) = int (length (tree_entries B 0 v))"
    using leaf_D(3) l by blast+
  then show "tree_entries B 0 u \<noteq> []" "tree_entries B 0 v \<noteq> []" using D(11) F(7-10) by fastforce+
  show "wf_keys (B ! nat pb)" using wf_tree_D [OF F(1)] by blast
qed

lemma three_updates:
  assumes "valid_blk B x" "valid_blk B y" "valid_blk B z" "x \<noteq> y" "x \<noteq> z" "y \<noteq> z"
  shows "B[nat x := mx, nat y := my, nat z := mz] ! nat x = mx" "B[nat x := mx, nat y := my, nat z := mz] ! nat y = my"
    "B[nat x := mx, nat y := my, nat z := mz] ! nat z = mz"
    "valid_blk B d \<Longrightarrow> d \<notin> {x, y, z} \<Longrightarrow> B[nat x := mx, nat y := my, nat z := mz] ! nat d = B ! nat d"
  using assms by (auto simp: valid_blk_def nth_list_update eq_nat_nat_iff)

lemma remove_at_mid: "length xs = p \<Longrightarrow> remove_at p (xs @ x # ys) = xs @ ys" "length xs = p \<Longrightarrow> remove_at (Suc p) (xs @ x # y # ys) = xs @ x # ys"
  by (auto simp: remove_at_def)

lemma pair_join:
  assumes r: "repr s B P R" "P \<subseteq> {b}" and o: "open_tree B R h b bs" and rt: "route B h b ps 1 pb"
    and lf: "s_lfblk R = pb" "s_lfpos R = int q" "q < length (entries (B ! nat pb))" "srh_keyent R = entries (B ! nat pb) ! q"
  defines "u \<equiv> links (B ! nat pb) ! q" and "v \<equiv> links (B ! nat pb) ! Suc q"
  assumes l: "length (tree_entries B 0 u) + length (tree_entries B 0 v) < 22"
    and m: "stocked m B h b" "0 < m" "pb = b \<or> int m < nkeys_of (B ! nat pb)" and more: "1 < length (entries (B ! nat pb))"
  shows "runs (bjoin u v True s) (\<lambda>s'. \<exists>B' R'. repr s' B' P R' \<and> reshaped B R h b B' R' h (v # bs) \<and> stocked m B' h b \<and>
    lf R' = lf R \<and> stk R' = stk R \<and> valid_blk B' pb \<and> wf_keys (B' ! nat pb) \<and> 0 < nkeys_of (B' ! nat pb))"
proof -
  note D = open_tree_D [OF o] and F = pair_facts [OF o rt lf(3), folded u_def v_def]
  note U = pair_in_use [OF o rt lf(3), folded u_def v_def]
  let ?k = "entries (B ! nat pb) ! q" and ?es = "entries (B ! nat pb)" and ?ls = "links (B ! nat pb)"
  have P: "card P + 1 < ZMXBLK" "u \<notin> P" using card_mono [OF _ r(2)] r(2) F(7) by (auto simp: ZMXBLK_def)
  obtain es1 ls1 es2 ls2 where si: "length es1 = q" "sisters B pb es1 ls1 u ?k v es2 ls2"
    using sisters_at [OF F(1) lf(3)] unfolding u_def v_def by blast
  have sk: "sorted_keys (tree_entries B 0 u @ ?k # tree_entries B 0 v)" by (rule sisters_sorted(1) [OF F(1,17) si(2)])
  have eq: "?es = es1 @ ?k # es2" "?ls = ls1 @ u # v # ls2" "length ls1 = q" using si by (simp_all add: sisters_def)
  have zd: "btype_of (B ! nat v) \<noteq> ZDUP" using U(5) by (simp add: ZINUSE_def ZDUP_def)
  show ?thesis
  proof (rule runs_conseq [OF bjoin_spec [OF r(1) D(5) lf(1,2) U(1,12) lf(3) U(2,6) U(3,7,11) zd F(4-6) P, unfolded lf(4), OF sk l]],
      elim exE conjE)
    fix s' mp mu mv
    assume mp: "node (B ! nat pb) (remove_at q ?es) (remove_at (Suc q) ?ls) mp"
      and mu: "leaf_of (B ! nat u) (tree_entries B 0 u @ ?k # tree_entries B 0 v) mu"
      and r': "repr s' (B[nat pb := mp, nat u := mu, nat v := mv]) P (pushed R v)"
      and fr: "free_list (B[nat pb := mp, nat u := mu, nat v := mv]) (pushed R v) (v # bs)"
    let ?B = "B[nat pb := mp, nat u := mu, nat v := mv]"
    have val: "valid_blk B pb" "valid_blk B u" "valid_blk B v" using U(1-3) by simp_all
    note N = three_updates [OF val F(5,6) [symmetric] F(4), where mx = mp and my = mu and mz = mv]
    have e: "remove_at q ?es = es1 @ es2" "remove_at (Suc q) ?ls = ls1 @ u # ls2"
      using remove_at_mid si(1) eq by metis+
    note M = node_D [OF mp, unfolded e]
    have ne: "es1 @ es2 \<noteq> []" using more arg_cong [OF eq(1), of length] by auto
    have same: "?B ! nat d = B ! nat d" if "valid_blk B d" "d \<notin> {pb, u, v}" for d using N(4) [OF that] .
    have j: "wf_tree ?B 1 pb \<and> tree_entries ?B 1 pb = tree_entries B 1 pb \<and>
        mset (tree_blocks B 1 pb) = add_mset v (mset (tree_blocks ?B 1 pb))"
    proof (rule sisters_joined [OF F(1,2) si(2)])
      show "wf_keys (?B ! nat pb)" "entries (?B ! nat pb) = es1 @ es2" "links (?B ! nat pb) = ls1 @ u # ls2"
        using M(1-3) N(1) by simp_all
      show "wf_tree ?B 0 u" "tree_entries ?B 0 u = tree_entries B 0 u @ ?k # tree_entries B 0 v"
        using leaf_tree [OF mu N(2)] val(2) by simp_all
      show "\<forall>d \<in> set (tree_blocks B 1 pb) - {pb, u, v}. ?B ! nat d = B ! nat d"
        using same tree_blocks_valid [OF F(1)] by blast
    qed (use ne in simp_all)
    have np: "nkeys_of (?B ! nat pb) = nkeys_of (B ! nat pb) - 1" "0 < nkeys_of (?B ! nat pb)"
      using M(4) N(1) wf_keys_D(7) [OF U(12)] ne arg_cong [OF eq(1), of length] by (auto simp: length_greater_0_conv [symmetric] simp del: length_greater_0_conv)
    have wk: "wf_keys (?B ! nat pb)" using M(1) N(1) by simp
    have "reshaped B R h b ?B (pushed R v) h (v # bs) \<and> stocked m ?B h b"
    proof (rule pair_reshaped [OF o rt _ _ _ fr _ _ _ m(1,2) same_rest_pushed(1)])
      show "wf_tree ?B 1 pb" "tree_entries ?B 1 pb = tree_entries B 1 pb" using j by blast+
      show "mset (tree_blocks B 1 pb) = mset ([v] @ tree_blocks ?B 1 pb)" using j by simp
      show "\<forall>d. in_use B d \<and> d \<notin> set (tree_blocks B 1 pb) \<longrightarrow> ?B ! nat d = B ! nat d"
        using same F(12,13) root_in_blocks [of pb B 1] by blast
      show "\<forall>d \<in> set (tree_blocks ?B 1 pb). (\<forall>t. 0 \<le> t \<and> t \<noteq> ZNKEYS \<longrightarrow> word_of (?B ! nat d) t = word_of (B ! nat d) t) \<and>
        (d \<noteq> b \<longrightarrow> int m \<le> nkeys_of (?B ! nat d))"
      proof
        fix d assume d: "d \<in> set (tree_blocks ?B 1 pb)"
        then have "d \<in> set (tree_blocks B 1 pb)" using j by (metis insertCI set_mset_add_mset_insert set_mset_mset)
        then have db: "d \<in> set (tree_blocks B h b)" using F(3) by blast
        have dv: "d \<noteq> v"
        proof
          assume "d = v"
          then have "count (mset (tree_blocks B 1 pb)) v \<ge> 2" using j d
            by (metis Suc_1 Suc_le_mono count_add_mset count_greater_eq_one_iff set_mset_mset)
          then show False using F(2) distinct_count_atmost_1 [of "tree_blocks B 1 pb"]
            by (metis F(13) One_nat_def Suc_1 Suc_n_not_le_n)
        qed
        consider "d = pb" | "d = u" | "d \<notin> {pb, u, v}" using dv by blast
        then show "(\<forall>t. 0 \<le> t \<and> t \<noteq> ZNKEYS \<longrightarrow> word_of (?B ! nat d) t = word_of (B ! nat d) t) \<and>
          (d \<noteq> b \<longrightarrow> int m \<le> nkeys_of (?B ! nat d))"
        proof cases
          case 1
          then show ?thesis using M(9) N(1) np(1) m(3) by auto
        next
          case 2
          have "int m \<le> nkeys_of (B ! nat u)" using m(1) F(7,9) by (auto simp: stocked_def)
          then show ?thesis using 2 leaf_D(3,9) [OF mu] N(2) U(8) by auto
        next
          case 3
          then show ?thesis using same [of d] D(7) [OF db] db m(1) by (auto simp: stocked_def)
        qed
      qed
    qed simp
    then show "\<exists>B' R'. repr s' B' P R' \<and> reshaped B R h b B' R' h (v # bs) \<and> stocked m B' h b \<and>
        lf R' = lf R \<and> stk R' = stk R \<and> valid_blk B' pb \<and> wf_keys (B' ! nat pb) \<and> 0 < nkeys_of (B' ! nat pb)"
      using r' np(2) val(1) wk by (intro exI [of _ ?B] exI [of _ "pushed R v"]) (simp only: update_valid pushed_simps simp_thms)
  qed
qed

section \<open>The root that has lost its last key\<close>

lemma bdemte_none:
  assumes r: "repr s B P R" "card P < ZMXBLK" and b: "valid_blk B (s_lfblk R)" "wf_keys (B ! nat (s_lfblk R))"
    "0 < nkeys_of (B ! nat (s_lfblk R))"
  shows "runs (bdemte u s) (\<lambda>(c, s'). c = ZNULL \<and> repr s' B P R)"
proof -
  have room: "room P (s_lfblk R)" using r(2) by (simp add: room_def)
  have nk: "mem_info (B ! nat (s_lfblk R)) ZNKEYS = Some (nkeys_of (B ! nat (s_lfblk R)))" "ZNKEYS < int ZINFSZ"
    using mem_info_word [OF wf_keys_D(1) [OF b(2)], of ZNKEYS] by (simp_all add: ZNKEYS_def ZINFSZ_def)
  have lf: "s_lfblk s = s_lfblk R" using repr_fields(6) [OF r(1)] by simp
  show ?thesis
    unfolding bdemte_def lf
    by (rule runs_bindI [OF bgtinf_spec [OF r(1) b(1) room nk(2,1)]]) (use b(3) in auto)
qed

lemma bdemte_root:
  assumes r: "repr s B P R" "card P + 1 < ZMXBLK" and f: "free_list B R bs"
    and b: "s_lfblk R = b" "in_use B b" "btype_of (B ! nat b) = ZROOT" "wf_keys (B ! nat b)" "nkeys_of (B ! nat b) = 0"
    and u: "in_use B u" "leaf_of m0 es (B ! nat u)" "es \<noteq> []" "btype_of (B ! nat u) \<noteq> ZDUP" "u \<noteq> b"
  shows "runs (bdemte u s) (\<lambda>(c, s'). c = ZNULL \<and> (\<exists>mb mu. leaf_of (B ! nat b) es mb \<and>
    repr s' (B[nat b := mb, nat u := mu]) (P - {b}) (pushed R u) \<and>
    free_list (B[nat b := mb, nat u := mu]) (pushed R u) (u # bs)))"
proof -
  note U = leaf_D [OF u(2)]
  have fin: "finite P" by (rule repr_finite [OF r(1)])
  then have room: "room P c" "room (P - {b}) c" "room (insert b P) c" for c
    using r(2) card_Diff1_le [of P b] by (auto simp: room_def card_insert_if)
  have val: "valid_blk B b" "valid_blk B u" using b(2) u(1) by simp_all
  have lf: "s_lfblk s = b" using repr_fields(6) [OF r(1)] b(1) by simp
  have wb: "wf_memrec (B ! nat b)" using wf_keys_D(1) [OF b(4)] .
  have nk: "mem_info (B ! nat b) ZNKEYS = Some 0" "mem_info (B ! nat u) ZNKEYS = Some (int (length es))"
    "mem_info (B ! nat b) ZBTYPE = Some ZROOT" "ZNKEYS < int ZINFSZ" "ZBTYPE < int ZINFSZ"
    using mem_info_word [OF wb, of ZNKEYS] mem_info_word [OF U(8), of ZNKEYS] mem_info_type [OF wb] b(3,5) U(3)
    by (simp_all add: ZNKEYS_def ZBTYPE_def ZINFSZ_def)
  obtain s1 where s1: "bgtinf b ZNKEYS s = Some (0, s1)" "repr s1 B P R"
    using bgtinf_spec [OF r(1) val(1) room(1) nk(4,1)] by (auto simp: runs_def)
  obtain s2 where s2: "bgtinf b ZBTYPE s1 = Some (ZROOT, s2)" "repr s2 B P R"
    using bgtinf_spec [OF s1(2) val(1) room(1) nk(5,3)] by (auto simp: runs_def)
  obtain s3 where s3: "bgtinf u ZNKEYS s2 = Some (int (length es), s3)" "repr s3 B P R"
    using bgtinf_spec [OF s2(2) val(2) room(1) nk(4,2)] by (auto simp: runs_def)
  let ?c = "copied_at 0 0 (length es) (B ! nat u) (B ! nat b)"
  let ?mb = "set_word ZNKEYS (int (length es)) ?c"
  have n: "0 + length es \<le> nat ZMXKEY" "0 < length es" using U(5) u(3) by (simp_all add: ZMXKEY_val)
  obtain s4 where s4: "bcpybk b u 0 0 (int (length es)) s3 = Some s4" "repr s4 (B[nat b := ?c]) (P - {b}) R"
    using bcpybk_at [OF s3(2) val(1) room(1) room(3) val(2) u(5) [symmetric] n(1) n(1) n(2)] by (auto simp: runs_def)
  have c: "B[nat b := ?c] ! nat b = ?c" by (rule update_same [OF val(1)])
  obtain s5 where s5: "bstinf b ZNKEYS (int (length es)) s4 = Some s5" "repr s5 (B[nat b := ?mb]) (P - {b}) R"
    using bstinf_spec [OF s4(2) _ room(2), of b ZNKEYS "int (length es)"] val c nk(4) by (auto simp: runs_def ZNKEYS_def)
  have B5: "B[nat b := ?mb] ! nat u = B ! nat u" by (rule update_other [OF val(2,1) u(5)])
  have "free_list (B[nat b := ?mb]) R bs"
    by (rule free_list_use [OF f]) (use b(2) update_other [OF _ val(1)] in auto)
  moreover have "u \<notin> set bs" using f u(1) free_chain_valid [of B "sfreep (super R)" bs u] by (auto simp: free_list_def)
  ultimately obtain mu s6 where s6: "bmkfre u s5 = Some s6" "repr s6 (B[nat b := ?mb, nat u := mu]) (P - {b}) (pushed R u)"
      "free_list (B[nat b := ?mb, nat u := mu]) (pushed R u) (u # bs)"
    using bmkfre_push [OF s5(2) _ _ _ room(2), of bs u] B5 val u(4) by (auto simp: runs_def)
  have lf3: "s_lfblk s1 = b" "s_lfblk s3 = b" "s_lfblk s4 = b"
    using repr_fields(6) [OF s1(2)] repr_fields(6) [OF s3(2)] repr_fields(6) [OF s4(2)] b(1) by simp_all
  have "bdemte u s = Some (ZNULL, s6)"
    unfolding bdemte_def lf using s1(1) s2(1) s3(1) s4(1) s5(1) s6(1) lf3 by simp
  then show ?thesis
    using s6 leaf_copy [OF wb u(2,3)] unfolding runs_def by (intro exI [of _ "(ZNULL, s6)"]) (simp, blast)
qed

lemma root_collapse:
  assumes r: "repr s B P R" "P \<subseteq> {b}" and o: "open_tree B R 1 b bs"
    and lf: "s_lfblk R = b" "s_lfpos R = int 0" "srh_keyent R = k"
    and e: "entries (B ! nat b) = [k]" "links (B ! nat b) = [u, v]"
    and l: "length (tree_entries B 0 u) + length (tree_entries B 0 v) < 22"
  shows "runs (do { s \<leftarrow> bjoin u v True s; bdemte u s }) (\<lambda>(c, s'). c = ZNULL \<and>
    (\<exists>B' R'. repr s' B' (P - {b}) R' \<and> reshaped B R 1 b B' R' 0 (u # v # bs) \<and> lf R' = lf R \<and> stk R' = stk R))"
proof -
  have rt: "route B 1 b [] 1 b" by simp
  have q: "0 < length (entries (B ! nat b))" using e by simp
  note D = open_tree_D [OF o] and F = pair_facts [OF o rt q, unfolded e nth_Cons_0 nth_Cons_Suc]
  note U = pair_in_use [OF o rt q, unfolded e nth_Cons_0 nth_Cons_Suc]
  have P: "card P + 1 < ZMXBLK" "u \<notin> P" using card_mono [OF _ r(2)] r(2) F(7) by (auto simp: ZMXBLK_def)
  have te: "tree_entries B 1 b = tree_entries B 0 u @ k # tree_entries B 0 v" using e by simp
  have sk: "sorted_keys (tree_entries B 0 u @ k # tree_entries B 0 v)" using D(2) te by simp
  have zd: "btype_of (B ! nat v) \<noteq> ZDUP" "btype_of (B ! nat u) \<noteq> ZDUP" using U(4,5) by (simp_all add: ZINUSE_def ZDUP_def)
  have val: "valid_blk B b" "valid_blk B u" "valid_blk B v" using U(1-3) by simp_all
  have rem: "remove_at 0 [k] = []" "remove_at (Suc 0) [u, v] = [u]" by (simp_all add: remove_at_def)
  let ?eu = "tree_entries B 0 u @ k # tree_entries B 0 v"
  show ?thesis
  proof (rule runs_bindI [OF bjoin_spec [OF r(1) D(5) lf(1,2) U(1,12) q U(2,6) U(3,7,11) zd(1) F(4-6) P, unfolded lf(3) e rem, OF sk l]],
      elim exE conjE)
    fix s1 mp mu mv
    assume mp: "node (B ! nat b) [] [u] mp" and mu: "leaf_of (B ! nat u) ?eu mu"
      and r1: "repr s1 (B[nat b := mp, nat u := mu, nat v := mv]) P (pushed R v)"
      and f1: "free_list (B[nat b := mp, nat u := mu, nat v := mv]) (pushed R v) (v # bs)"
    let ?B1 = "B[nat b := mp, nat u := mu, nat v := mv]"
    note N = three_updates [OF val F(5,6) [symmetric] F(4), where mx = mp and my = mu and mz = mv]
    note M = node_D [OF mp]
    have b1: "in_use ?B1 b" "btype_of (?B1 ! nat b) = ZROOT" "wf_keys (?B1 ! nat b)" "nkeys_of (?B1 ! nat b) = 0"
      using N(1) M(1,4) node_type [OF mp] D(10) val types_differ by auto
    have u1: "in_use ?B1 u" "leaf_of (B ! nat u) ?eu (?B1 ! nat u)" "btype_of (?B1 ! nat u) \<noteq> ZDUP"
      using N(2) leaf_type [OF mu] U(2) zd(2) mu by auto
    show "runs (bdemte u s1) (\<lambda>(c, s'). c = ZNULL \<and>
      (\<exists>B' R'. repr s' B' (P - {b}) R' \<and> reshaped B R 1 b B' R' 0 (u # v # bs) \<and> lf R' = lf R \<and> stk R' = stk R))"
    proof (rule runs_conseq [OF bdemte_root [OF r1 P(1) f1 _ b1 u1(1,2) _ u1(3) F(5)]])
      fix x
      assume "case x of (c, s') \<Rightarrow> c = ZNULL \<and> (\<exists>mb mu. leaf_of (?B1 ! nat b) ?eu mb \<and>
        repr s' (?B1[nat b := mb, nat u := mu]) (P - {b}) (pushed (pushed R v) u) \<and>
        free_list (?B1[nat b := mb, nat u := mu]) (pushed (pushed R v) u) (u # v # bs))"
      then obtain s' mb mu2 where x: "x = (ZNULL, s')" and mb: "leaf_of mp ?eu mb"
        and r2: "repr s' (?B1[nat b := mb, nat u := mu2]) (P - {b}) (pushed (pushed R v) u)"
        and f2: "free_list (?B1[nat b := mb, nat u := mu2]) (pushed (pushed R v) u) (u # v # bs)"
        unfolding N(1) by (cases x) auto
      let ?B2 = "?B1[nat b := mb, nat u := mu2]"
      have bv: "?B2 ! nat b = mb" "valid_blk ?B2 b"
        using val F(5) by (auto simp: valid_blk_def nth_list_update eq_nat_nat_iff)
      have "reshaped B R 1 b ?B2 (pushed (pushed R v) u) 0 (u # v # bs)"
      proof (rule reshaped_intro [OF o _ _ _ f2, where xs = "[u, v]"])
        show "wf_tree ?B2 0 b" "tree_entries ?B2 0 b = tree_entries B 1 b"
          using leaf_tree [OF mb bv] te by simp_all
        show "mset (tree_blocks B 1 b) = mset ([u, v] @ tree_blocks ?B2 0 b)" using e by simp
        show "\<forall>d. in_use B d \<and> d \<notin> set (tree_blocks B 1 b) \<longrightarrow> ?B2 ! nat d = B ! nat d"
        proof (intro allI impI, elim conjE)
          fix d assume d: "valid_blk B d" "d \<notin> set (tree_blocks B 1 b)"
          then have "d \<noteq> b" "d \<noteq> u" "d \<noteq> v" using e by auto
          then show "?B2 ! nat d = B ! nat d" using d(1) val by (auto simp: valid_blk_def nth_list_update eq_nat_nat_iff)
        qed
        have w: "word_of mb t = word_of (B ! nat b) t" if "0 \<le> t" "t \<noteq> ZNKEYS" for t
          using leaf_D(9) [OF mb that] M(9) [OF that] by simp
        then show "\<forall>t. 0 \<le> t \<and> t \<noteq> ZNKEYS \<longrightarrow> word_of (?B2 ! nat b) t = word_of (B ! nat b) t" using bv(1) by simp
        show "\<forall>d \<in> set (tree_blocks ?B2 0 b). btype_of (?B2 ! nat d) = btype_of (B ! nat d) \<and>
            (d \<noteq> b \<longrightarrow> 0 < nkeys_of (?B2 ! nat d))"
          using w [of 0] bv(1) by (simp add: btype_of_def ZNKEYS_def)
        show "same_rest R (pushed (pushed R v) u)"
          using same_rest_trans [OF same_rest_pushed(1) same_rest_pushed(1)] .
      qed simp
      then show "case x of (c, s') \<Rightarrow> c = ZNULL \<and> (\<exists>B' R'. repr s' B' (P - {b}) R' \<and>
          reshaped B R 1 b B' R' 0 (u # v # bs) \<and> lf R' = lf R \<and> stk R' = stk R)"
        using r2 unfolding x prod.case
        by (intro conjI refl exI [of _ ?B2] exI [of _ "pushed (pushed R v) u"]) simp_all
    qed (use lf(1) in simp_all)
  qed
qed

text \<open>The tree after a repair.\<close>

definition mended :: "memrec list \<Rightarrow> int set \<Rightarrow> st \<Rightarrow> nat \<Rightarrow> int \<Rightarrow> nat \<Rightarrow> st \<Rightarrow> bool" where
  "mended B P R h b m s' \<longleftrightarrow> (\<exists>B' P' R' h' bs'. repr s' B' P' R' \<and> P' \<subseteq> P \<and> reshaped B R h b B' R' h' bs' \<and>
     stocked m B' h' b \<and> wf_stk (stk R') \<and> s_lfkey R' = s_lfkey R)"

lemma mendedI:
  "repr s' B' P' R' \<Longrightarrow> P' \<subseteq> P \<Longrightarrow> reshaped B R h b B' R' h' bs' \<Longrightarrow> stocked m B' h' b \<Longrightarrow> wf_stk (stk R') \<Longrightarrow>
   s_lfkey R' = s_lfkey R \<Longrightarrow> mended B P R h b m s'"
  unfolding mended_def by blast

lemma demote_end [simp]: "demote_loop ZNULL s = Some s"
  by (simp add: demote_loop.simps)

lemma demote_once:
  assumes "u \<noteq> ZNULL" "runs (bdemte u s) (\<lambda>(c, s'). c = ZNULL \<and> Q s')"
  shows "runs (demote_loop u s) Q"
  using assms by (auto simp: runs_def demote_loop.simps [of u])

lemma pair_merge:
  assumes r: "repr s B P R" "P \<subseteq> {b}" and o: "open_tree B R h b bs" and rt: "route B h b ps 1 pb"
    and lf: "s_lfblk R = pb" "s_lfpos R = int q" "q < length (entries (B ! nat pb))" "srh_keyent R = entries (B ! nat pb) ! q"
  defines "u \<equiv> links (B ! nat pb) ! q" and "v \<equiv> links (B ! nat pb) ! Suc q"
  assumes l: "length (tree_entries B 0 u) + length (tree_entries B 0 v) < 22"
    and m: "stocked m B h b" "0 < m" "pb = b \<or> int m < nkeys_of (B ! nat pb)" and w: "wf_stk (stk R)"
  shows "runs (do { s \<leftarrow> bjoin u v True s; demote_loop u s }) (mended B P R h b m)"
proof -
  note F = pair_facts [OF o rt lf(3), folded u_def v_def] and U = pair_in_use [OF o rt lf(3), folded u_def v_def]
  have u0: "u \<noteq> ZNULL" using U(2) by (auto simp: valid_blk_def ZNULL_def)
  have P: "card P < ZMXBLK" using card_mono [OF _ r(2)] by (simp add: ZMXBLK_def)
  show ?thesis
  proof (cases "length (entries (B ! nat pb)) = 1")
    case False
    then have more: "1 < length (entries (B ! nat pb))" using lf(3) by linarith
    show ?thesis
    proof (rule runs_bindI [OF pair_join [OF r o rt lf l [unfolded u_def v_def] m more, folded u_def v_def]],
        elim exE conjE, rule demote_once [OF u0])
      fix s1 B' R'
      assume a: "repr s1 B' P R'" "reshaped B R h b B' R' h (v # bs)" "stocked m B' h b" "lf R' = lf R" "stk R' = stk R"
        "valid_blk B' pb" "wf_keys (B' ! nat pb)" "0 < nkeys_of (B' ! nat pb)"
      then show "runs (bdemte u s1) (\<lambda>(c, s'). c = ZNULL \<and> mended B P R h b m s')"
        using lf(1) w by (intro runs_conseq [OF bdemte_none [OF a(1) P, of u]]) (auto intro: mendedI [OF _ _ a(2,3)])
    qed
  next
    case True
    have nk: "nkeys_of (B ! nat pb) = 1" using wf_keys_D(7) [OF U(12)] True by simp
    then have pb: "pb = b" "h = 1" using m(2,3) F(14) by auto
    obtain k where k: "entries (B ! nat b) = [k]" "links (B ! nat b) = [u, v]"
    proof -
      have q: "q = 0" using lf(3) True by simp
      obtain k where "entries (B ! nat b) = [k]" using True pb(1) by (auto simp: length_Suc_conv)
      moreover have "length (links (B ! nat b)) = 2" using wf_tree_links [OF F(1)] True pb(1) by simp
      then have "links (B ! nat b) = [u, v]" using pb(1) q unfolding u_def v_def
        by (auto simp: numeral_2_eq_2 length_Suc_conv)
      ultimately show ?thesis using that by blast
    qed
    have q: "q = 0" "srh_keyent R = k" using lf(3,4) True k(1) pb(1) by simp_all
    have "runs (do { s \<leftarrow> bjoin u v True s; bdemte u s }) (\<lambda>(c, s'). c = ZNULL \<and>
        (\<exists>B' R'. repr s' B' (P - {b}) R' \<and> reshaped B R 1 b B' R' 0 (u # v # bs) \<and> lf R' = lf R \<and> stk R' = stk R))"
      by (rule root_collapse [OF r]) (use o lf pb q k l in simp_all)
    then show ?thesis
      unfolding runs_bind
    proof (rule runs_conseq)
      fix s1 assume b: "runs (bdemte u s1) (\<lambda>(c, s'). c = ZNULL \<and>
        (\<exists>B' R'. repr s' B' (P - {b}) R' \<and> reshaped B R 1 b B' R' 0 (u # v # bs) \<and> lf R' = lf R \<and> stk R' = stk R))"
      have "runs (bdemte u s1) (\<lambda>(c, s'). c = ZNULL \<and> mended B P R h b m s')"
        by (rule runs_conseq [OF b])
          (use pb(2) w in \<open>auto simp: stocked_def intro: mendedI [where P' = "P - {b}" and h' = 0]\<close>)
      then show "runs (demote_loop u s1) (mended B P R h b m)" by (rule demote_once [OF u0])
    qed
  qed
qed

section \<open>The balance\<close>

lemma pair_balance:
  assumes r: "repr s B P R" "P \<subseteq> {b}" and o: "open_tree B R h b bs" and rt: "route B h b ps 1 pb"
    and lf: "s_lfblk R = pb" "s_lfpos R = int q" "q < length (entries (B ! nat pb))" "srh_keyent R = entries (B ! nat pb) ! q"
  defines "u \<equiv> links (B ! nat pb) ! q" and "v \<equiv> links (B ! nat pb) ! Suc q"
  defines "d \<equiv> int (length (tree_entries B 0 u)) - int (length (tree_entries B 0 v))"
  assumes l: "11 < \<bar>d\<bar>" and m: "stocked m B h b" "0 < m" and w: "wf_stk (stk R)"
  shows "runs (balbk1 u v d True s) (mended B P R h b m)"
proof -
  note D = open_tree_D [OF o] and F = pair_facts [OF o rt lf(3), folded u_def v_def]
  note U = pair_in_use [OF o rt lf(3), folded u_def v_def]
  let ?k = "entries (B ! nat pb) ! q" and ?es = "entries (B ! nat pb)" and ?ls = "links (B ! nat pb)"
  have P: "card P < ZMXBLK" using card_mono [OF _ r(2)] by (simp add: ZMXBLK_def)
  obtain es1 ls1 es2 ls2 where si: "length es1 = q" "sisters B pb es1 ls1 u ?k v es2 ls2"
    using sisters_at [OF F(1) lf(3)] unfolding u_def v_def by blast
  have sk: "sorted_keys (tree_entries B 0 u @ ?k # tree_entries B 0 v)" by (rule sisters_sorted(1) [OF F(1,17) si(2)])
  have e1: "?es = es1 @ ?k # es2" using si by (simp add: sisters_def)
  have eq: "?es = es1 @ ?k # es2" "?es[q := x] = es1 @ x # es2" for x
    using e1 si(1) list_update_length [of es1 ?k es2 x] by simp_all
  have val: "valid_blk B pb" "valid_blk B u" "valid_blk B v" using U(1-3) by simp_all
  have uv: "?ls ! q = u" "?ls ! Suc q = v" by (simp_all add: u_def v_def)
  show ?thesis
    unfolding d_def
  proof (rule runs_conseq [OF balbk1_spec [OF r(1) P lf(1,2) val(1) U(12) lf(3) uv val(2,3) F(4-6) U(6,7),
          unfolded lf(4), OF sk l [unfolded d_def]]], goal_cases)
    case (1 x)
    then show ?case using sisters_sorted(2) [OF F(1,17) si(2)] eq(2) by simp
  next
    case (2 s')
    then obtain eu' k' ev' mp mu mv where a: "evened (tree_entries B 0 u) ?k (tree_entries B 0 v) eu' k' ev'"
      and mu: "leaf_of (B ! nat u) eu' mu" and mv: "leaf_of (B ! nat v) ev' mv"
      and mp: "node (B ! nat pb) (es1 @ k' # es2) ?ls mp"
      and r': "repr s' (B[nat pb := mp, nat u := mu, nat v := mv]) P (R\<lparr>srh_keyent := k'\<rparr>)"
      unfolding eq(2) by blast
    let ?B = "B[nat pb := mp, nat u := mu, nat v := mv]"
    note N = three_updates [OF val F(5,6) [symmetric] F(4), where mx = mp and my = mu and mz = mv]
    note M = node_D [OF mp]
    have same: "?B ! nat d = B ! nat d" if "valid_blk B d" "d \<notin> {pb, u, v}" for d using N(4) [OF that] .
    have e: "wf_tree ?B 1 pb \<and> tree_entries ?B 1 pb = tree_entries B 1 pb \<and> tree_blocks ?B 1 pb = tree_blocks B 1 pb"
    proof (rule sisters_evened [OF F(1,2) si(2)])
      show "wf_keys (?B ! nat pb)" "entries (?B ! nat pb) = es1 @ k' # es2" "links (?B ! nat pb) = ?ls"
        using M(1-3) N(1) by simp_all
      show "wf_tree ?B 0 u" "wf_tree ?B 0 v"
        using leaf_tree [OF mu N(2)] leaf_tree [OF mv N(3)] val by simp_all
      show "tree_entries ?B 0 u @ k' # tree_entries ?B 0 v = tree_entries B 0 u @ ?k # tree_entries B 0 v"
        using leaf_tree [OF mu N(2)] leaf_tree [OF mv N(3)] val a by (simp add: evened_def)
      show "\<forall>d \<in> set (tree_blocks B 1 pb) - {pb, u, v}. ?B ! nat d = B ! nat d"
        using same tree_blocks_valid [OF F(1)] by blast
    qed simp
    have fr: "free_list ?B (R\<lparr>srh_keyent := k'\<rparr>) bs"
    proof (rule free_list_use [OF D(5)])
      show "\<forall>c. btype_of (B ! nat c) = ZFREE \<longrightarrow> valid_blk B c \<longrightarrow> ?B ! nat c = B ! nat c"
        using same U(1-3) by blast
    qed simp_all
    have big: "int m \<le> int (length (tree_entries B 0 u))" "int m \<le> int (length (tree_entries B 0 v))"
      using m(1) F(7-10) U(8,9) unfolding stocked_def by (metis Diff_iff singletonD)+
    have "reshaped B R h b ?B (R\<lparr>srh_keyent := k'\<rparr>) h bs \<and> stocked m ?B h b"
    proof (rule pair_reshaped [OF o rt _ _ _ fr _ _ _ m(1,2), where xs = "[]"])
      show "\<forall>d. in_use B d \<and> d \<notin> set (tree_blocks B 1 pb) \<longrightarrow> ?B ! nat d = B ! nat d"
        using same F(12,13) root_in_blocks [of pb B 1] by blast
      show "\<forall>d \<in> set (tree_blocks ?B 1 pb). (\<forall>t. 0 \<le> t \<and> t \<noteq> ZNKEYS \<longrightarrow> word_of (?B ! nat d) t = word_of (B ! nat d) t) \<and>
        (d \<noteq> b \<longrightarrow> int m \<le> nkeys_of (?B ! nat d))"
      proof
        fix d assume "d \<in> set (tree_blocks ?B 1 pb)"
        moreover have "tree_blocks ?B 1 pb = tree_blocks B 1 pb" using e by blast
        ultimately have d: "d \<in> set (tree_blocks B h b)" using F(3) by (metis subsetD)
        consider "d = pb" | "d = u" | "d = v" | "d \<notin> {pb, u, v}" by blast
        then show "(\<forall>t. 0 \<le> t \<and> t \<noteq> ZNKEYS \<longrightarrow> word_of (?B ! nat d) t = word_of (B ! nat d) t) \<and>
          (d \<noteq> b \<longrightarrow> int m \<le> nkeys_of (?B ! nat d))"
        proof cases
          case 1
          have "nkeys_of (B ! nat pb) = int (length ?es)" using wf_keys_D(7) [OF U(12)] by simp
          also have "\<dots> = int (length (es1 @ k' # es2))" by (subst eq(1)) simp
          finally have "nkeys_of mp = nkeys_of (B ! nat pb)" using M(4) by simp
          then show ?thesis using 1 M(9) N(1) d m(1) by (auto simp: stocked_def)
        next
          case 2
          then show ?thesis using leaf_D(3,9) [OF mu] N(2) big a by (auto simp: evened_def)
        next
          case 3
          then show ?thesis using leaf_D(3,9) [OF mv] N(3) big a by (auto simp: evened_def)
        next
          case 4
          then show ?thesis using same [of d] D(7) [OF d] d m(1) by (auto simp: stocked_def)
        qed
      qed
    qed (use e in simp_all)
    then show ?case using w by (intro mendedI [OF r']) auto
  qed
qed

section \<open>The repair\<close>

text \<open>The state in which \<open>bjnblk\<close> and \<open>balblk\<close> find a leaf: on the stack is the place of the leaf in its
  parent.\<close>

definition at_leaf :: "memrec list \<Rightarrow> st \<Rightarrow> int \<Rightarrow> nat \<Rightarrow> int \<Rightarrow> bool" where
  "at_leaf B R pb p c \<longleftrightarrow> s_lfblk R = c \<and> wf_stk (stk R) \<and> (\<exists>xs. stack_of (stk R) = xs @ [pb, int p]) \<and>
     p < length (links (B ! nat pb)) \<and> links (B ! nat pb) ! p = c"

lemma mended_from: "mended B P R h b m s' \<Longrightarrow> same_rest R0 R \<Longrightarrow> s_lfkey R = s_lfkey R0 \<Longrightarrow> mended B P R0 h b m s'"
  by (elim mended_def [THEN iffD1, elim_format] exE conjE, rule mendedI, assumption, assumption,
      unfold reshaped_def, elim conjE, intro conjI, assumption)
    (simp_all add: same_rest_trans [of R0 R])

lemma srh_parent_spec:
  assumes r: "repr s B P R" "card P < ZMXBLK" and pb: "s_lfblk R = pb" "s_lfpos R = int q" "valid_blk B pb" "wf_keys (B ! nat pb)"
    "q < length (entries (B ! nat pb))"
  shows "runs (srh_parent s) (\<lambda>((kep, a), s'). kep \<and> s_result a = Some 0 \<and> s_link1 a = Some (links (B ! nat pb) ! q) \<and>
    s_link2 a = Some (links (B ! nat pb) ! Suc q) \<and> repr s' B P (R\<lparr>srh_keyent := entries (B ! nat pb) ! q\<rparr>))"
proof -
  let ?R = "R\<lparr>srh_keyent := entries (B ! nat pb) ! q\<rparr>"
  have room: "room P pb" using r(2) by (simp add: room_def)
  have lf: "s_lfblk s = pb" "s_lfpos s = int q" using repr_fields(6) [OF r(1)] pb(1,2) by simp_all
  obtain a s1 where s1: "bsrhbk pb (srh_args None (int q)) s = Some ((True, a), s1)" "s_result a = Some 0" "s_loc a = int q"
      "s_link1 a = Some (links (B ! nat pb) ! q)" "s_link2 a = Some (links (B ! nat pb) ! Suc q)" "repr s1 B P ?R"
    using bsrhbk_pos [OF r(1) pb(3) room refl pb(4), of "srh_args None (int q)"] pb(5) wf_keys_D(7) [OF pb(4)]
    by (auto simp: runs_def srh_args_def)
  have "set_lfpos (int q) s1 = s1" using repr_fields(6) [OF s1(6)] pb(2) by simp
  then show ?thesis using s1 lf by (simp add: srh_parent_def)
qed

text \<open>What the attempt to join with one of the neighbours leaves.\<close>

definition tried :: "memrec list \<Rightarrow> int set \<Rightarrow> st \<Rightarrow> nat \<Rightarrow> int \<Rightarrow> nat \<Rightarrow> int option \<Rightarrow> st \<Rightarrow> bool" where
  "tried B P R h b m x s' \<longleftrightarrow> (case x of None \<Rightarrow> \<exists>k. repr s' B P (R\<lparr>srh_keyent := k\<rparr>)
     | Some d \<Rightarrow> d \<noteq> ZNULL \<and> runs (demote_loop d s') (mended B P R h b m))"

lemma nkeys_leaf:
  assumes r: "repr s B P R" "card P < ZMXBLK" and c: "wf_tree B 0 c"
  shows "runs (bgtinf c ZNKEYS s) (\<lambda>(n, s'). n = int (length (tree_entries B 0 c)) \<and> repr s' B P R)"
proof -
  have w: "wf_keys (B ! nat c)" "valid_blk B c" using wf_tree_D [OF c] by simp_all
  have "mem_info (B ! nat c) ZNKEYS = Some (int (length (tree_entries B 0 c)))" "ZNKEYS < int ZINFSZ"
    using mem_info_word [OF wf_keys_D(1) [OF w(1)], of ZNKEYS] wf_keys_D(7) [OF w(1)] by (simp_all add: ZNKEYS_def ZINFSZ_def)
  then show ?thesis using bgtinf_spec [OF r(1) w(2)] r(2) by (auto simp: room_def runs_def)
qed

lemma join_right_spec:
  assumes r: "repr s B P R" "P \<subseteq> {b}" and o: "open_tree B R h b bs" and rt: "route B h b ps 1 pb"
    and lf: "s_lfblk R = pb" "s_lfpos R = int q" "q < length (entries (B ! nat pb))" "links (B ! nat pb) ! q = c"
    and m: "stocked m B h b" "0 < m" "pb = b \<or> int m < nkeys_of (B ! nat pb)" and w: "wf_stk (stk R)"
  shows "runs (join_right c (int (length (tree_entries B 0 c))) s) (\<lambda>(x, s'). tried B P R h b m x s')"
proof -
  note F = pair_facts [OF o rt lf(3), unfolded lf(4)] and U = pair_in_use [OF o rt lf(3), unfolded lf(4)]
  let ?R = "R\<lparr>srh_keyent := entries (B ! nat pb) ! q\<rparr>" and ?v = "links (B ! nat pb) ! Suc q"
  have P: "card P < ZMXBLK" using card_mono [OF _ r(2)] by (simp add: ZMXBLK_def)
  have val: "valid_blk B pb" using U(1) by blast
  obtain a s1 where s1: "srh_parent s = Some ((True, a), s1)" "s_result a = Some 0" "s_link2 a = Some ?v" "repr s1 B P ?R"
    using srh_parent_spec [OF r(1) P lf(1,2) val U(12) lf(3)] by (auto simp: runs_def)
  obtain s2 where s2: "bgtinf ?v ZNKEYS s1 = Some (int (length (tree_entries B 0 ?v)), s2)" "repr s2 B P ?R"
    using nkeys_leaf [OF s1(4) P F(16)] by (auto simp: runs_def)
  have o': "open_tree B ?R h b bs" using o open_tree_super [of ?R R] by simp
  show ?thesis
  proof (cases "int (length (tree_entries B 0 c)) + int (length (tree_entries B 0 ?v)) < ZMXKEY - ZTHRES")
    case True
    then have l: "length (tree_entries B 0 c) + length (tree_entries B 0 ?v) < 22" by (simp add: ZMXKEY_val ZTHRES_def)
    have "runs (do { s \<leftarrow> bjoin c ?v True s2; demote_loop c s }) (mended B P ?R h b m)"
      using pair_merge [OF s2(2) r(2) o' rt, of q m] lf l m w by simp
    moreover have "same_rest R ?R" by simp
    moreover have "c \<noteq> ZNULL" using U(2) by (auto simp: valid_blk_def ZNULL_def)
    ultimately show ?thesis using s1 s2(1) True unfolding join_right_def runs_bind
      by (auto simp: tried_def runs_bind elim!: runs_conseq intro: mended_from)
  next
    case False
    then show ?thesis using s1 s2 unfolding join_right_def by (auto simp: tried_def)
  qed
qed

lemma left_place:
  assumes r: "repr s B P R" "s_lfpos R = int (Suc q)"
  shows "repr (set_lfpos (s_lfpos s - 1) s) B P (set_lfpos (int q) R)"
    "repr s' B P ((set_lfpos (int q) R)\<lparr>srh_keyent := k\<rparr>) \<Longrightarrow> repr (set_lfpos (s_lfpos s' + 1) s') B P (R\<lparr>srh_keyent := k\<rparr>)"
proof -
  have lf: "lf s = lf R" using repr_fields(6) [OF r(1)] .
  then show "repr (set_lfpos (s_lfpos s - 1) s) B P (set_lfpos (int q) R)"
    using repr_frame(1) [OF r(1), of "(lf s)\<lparr>lfpos := s_lfpos s - 1\<rparr>"] r(2) by simp
  assume a: "repr s' B P ((set_lfpos (int q) R)\<lparr>srh_keyent := k\<rparr>)"
  have l: "lf s' = (lf R)\<lparr>lfpos := int q\<rparr>" using repr_fields(6) [OF a] by simp
  have "(lf R)\<lparr>lfpos := int q + 1\<rparr> = lf R" using r(2) by simp
  then show "repr (set_lfpos (s_lfpos s' + 1) s') B P (R\<lparr>srh_keyent := k\<rparr>)"
    using repr_frame(1) [OF a, of "(lf s')\<lparr>lfpos := s_lfpos s' + 1\<rparr>"] l by simp
qed

lemma join_left_spec:
  assumes r: "repr s B P R" "P \<subseteq> {b}" and o: "open_tree B R h b bs" and rt: "route B h b ps 1 pb"
    and lf: "s_lfblk R = pb" "s_lfpos R = int (Suc q)" "q < length (entries (B ! nat pb))" "links (B ! nat pb) ! Suc q = c"
    and m: "stocked m B h b" "0 < m" "pb = b \<or> int m < nkeys_of (B ! nat pb)" and w: "wf_stk (stk R)"
  shows "runs (join_left c (int (length (tree_entries B 0 c))) s) (\<lambda>(x, s'). tried B P R h b m x s')"
proof -
  note F = pair_facts [OF o rt lf(3), unfolded lf(4)] and U = pair_in_use [OF o rt lf(3), unfolded lf(4)]
  let ?R1 = "set_lfpos (int q) R" and ?u = "links (B ! nat pb) ! q"
  let ?R = "?R1\<lparr>srh_keyent := entries (B ! nat pb) ! q\<rparr>"
  have P: "card P < ZMXBLK" using card_mono [OF _ r(2)] by (simp add: ZMXBLK_def)
  have val: "valid_blk B pb" using U(1) by blast
  note L = left_place [OF r(1) lf(2)]
  obtain a s1 where s1: "srh_parent (set_lfpos (s_lfpos s - 1) s) = Some ((True, a), s1)" "s_result a = Some 0" "s_link1 a = Some ?u"
      "repr s1 B P ?R"
    using srh_parent_spec [OF L(1) P, of pb q] lf(1,3) val U(12) by (auto simp: runs_def)
  obtain s2 where s2: "bgtinf ?u ZNKEYS s1 = Some (int (length (tree_entries B 0 ?u)), s2)" "repr s2 B P ?R"
    using nkeys_leaf [OF s1(4) P F(15)] by (auto simp: runs_def)
  have o': "open_tree B ?R h b bs" using o open_tree_super [of ?R R] by simp
  show ?thesis
  proof (cases "int (length (tree_entries B 0 c)) + int (length (tree_entries B 0 ?u)) < ZMXKEY - ZTHRES")
    case True
    then have l: "length (tree_entries B 0 ?u) + length (tree_entries B 0 c) < 22" by (simp add: ZMXKEY_val ZTHRES_def)
    have "runs (do { s \<leftarrow> bjoin ?u c True s2; demote_loop ?u s }) (mended B P ?R h b m)"
      using pair_merge [OF s2(2) r(2) o' rt, of q m] lf l m w by simp
    moreover have "same_rest R ?R" by simp
    moreover have "?u \<noteq> ZNULL" using U(1,2) by (auto simp: valid_blk_def ZNULL_def)
    ultimately show ?thesis using s1 s2(1) True unfolding join_left_def runs_bind
      by (auto simp: tried_def runs_bind elim!: runs_conseq intro: mended_from)
  next
    case False
    have "repr (set_lfpos (s_lfpos s2 + 1) s2) B P (R\<lparr>srh_keyent := entries (B ! nat pb) ! q\<rparr>)" by (rule L(2) [OF s2(2)])
    then show ?thesis using False s1(1-3) s2(1) unfolding join_left_def by (simp add: tried_def) blast
  qed
qed

text \<open>The same for the balance.\<close>

definition evened_out :: "memrec list \<Rightarrow> int set \<Rightarrow> st \<Rightarrow> nat \<Rightarrow> int \<Rightarrow> nat \<Rightarrow> bool \<Rightarrow> st \<Rightarrow> bool" where
  "evened_out B P R h b m x s' \<longleftrightarrow> (if x then mended B P R h b m s' else \<exists>k. repr s' B P (R\<lparr>srh_keyent := k\<rparr>))"

lemma bal_right_spec:
  assumes r: "repr s B P R" "P \<subseteq> {b}" and o: "open_tree B R h b bs" and rt: "route B h b ps 1 pb"
    and lf: "s_lfblk R = pb" "s_lfpos R = int q" "q < length (entries (B ! nat pb))" "links (B ! nat pb) ! q = c"
    and m: "stocked m B h b" "0 < m" and w: "wf_stk (stk R)"
  shows "runs (bal_right c (int (length (tree_entries B 0 c))) s) (\<lambda>(x, s'). evened_out B P R h b m x s')"
proof -
  note F = pair_facts [OF o rt lf(3), unfolded lf(4)] and U = pair_in_use [OF o rt lf(3), unfolded lf(4)]
  let ?R = "R\<lparr>srh_keyent := entries (B ! nat pb) ! q\<rparr>" and ?v = "links (B ! nat pb) ! Suc q"
  let ?d = "int (length (tree_entries B 0 c)) - int (length (tree_entries B 0 ?v))"
  have P: "card P < ZMXBLK" using card_mono [OF _ r(2)] by (simp add: ZMXBLK_def)
  have val: "valid_blk B pb" using U(1) by blast
  obtain a s1 where s1: "srh_parent s = Some ((True, a), s1)" "s_result a = Some 0" "s_link2 a = Some ?v" "repr s1 B P ?R"
    using srh_parent_spec [OF r(1) P lf(1,2) val U(12) lf(3)] by (auto simp: runs_def)
  obtain s2 where s2: "bgtinf ?v ZNKEYS s1 = Some (int (length (tree_entries B 0 ?v)), s2)" "repr s2 B P ?R"
    using nkeys_leaf [OF s1(4) P F(16)] by (auto simp: runs_def)
  have o': "open_tree B ?R h b bs" using o open_tree_super [of ?R R] by simp
  show ?thesis
  proof (cases "\<bar>?d\<bar> > ZMXKEY div 2")
    case True
    then have "11 < \<bar>?d\<bar>" by (simp add: ZMXKEY_val)
    then have "runs (balbk1 c ?v ?d True s2) (mended B P ?R h b m)"
      using pair_balance [OF s2(2) r(2) o' rt, of q m] lf m w by simp
    moreover have "same_rest R ?R" by simp
    ultimately show ?thesis using s1 s2(1) True unfolding bal_right_def
      by (auto simp: evened_out_def runs_bind Let_def elim!: runs_conseq intro: mended_from)
  next
    case False
    then show ?thesis using s1 s2 unfolding bal_right_def by (auto simp: evened_out_def Let_def)
  qed
qed

lemma bal_left_spec:
  assumes r: "repr s B P R" "P \<subseteq> {b}" and o: "open_tree B R h b bs" and rt: "route B h b ps 1 pb"
    and lf: "s_lfblk R = pb" "s_lfpos R = int (Suc q)" "q < length (entries (B ! nat pb))" "links (B ! nat pb) ! Suc q = c"
    and m: "stocked m B h b" "0 < m" and w: "wf_stk (stk R)"
  shows "runs (bal_left c (int (length (tree_entries B 0 c))) s) (\<lambda>(x, s'). evened_out B P R h b m x s')"
proof -
  note F = pair_facts [OF o rt lf(3), unfolded lf(4)] and U = pair_in_use [OF o rt lf(3), unfolded lf(4)]
  let ?R1 = "set_lfpos (int q) R" and ?u = "links (B ! nat pb) ! q"
  let ?R = "?R1\<lparr>srh_keyent := entries (B ! nat pb) ! q\<rparr>"
  let ?d = "int (length (tree_entries B 0 ?u)) - int (length (tree_entries B 0 c))"
  have P: "card P < ZMXBLK" using card_mono [OF _ r(2)] by (simp add: ZMXBLK_def)
  have val: "valid_blk B pb" using U(1) by blast
  note L = left_place [OF r(1) lf(2)]
  obtain a s1 where s1: "srh_parent (set_lfpos (s_lfpos s - 1) s) = Some ((True, a), s1)" "s_result a = Some 0" "s_link1 a = Some ?u"
      "repr s1 B P ?R"
    using srh_parent_spec [OF L(1) P, of pb q] lf(1,3) val U(12) by (auto simp: runs_def)
  obtain s2 where s2: "bgtinf ?u ZNKEYS s1 = Some (int (length (tree_entries B 0 ?u)), s2)" "repr s2 B P ?R"
    using nkeys_leaf [OF s1(4) P F(15)] by (auto simp: runs_def)
  have o': "open_tree B ?R h b bs" using o open_tree_super [of ?R R] by simp
  show ?thesis
  proof (cases "\<bar>?d\<bar> > ZMXKEY div 2")
    case True
    then have "11 < \<bar>?d\<bar>" by (simp add: ZMXKEY_val)
    then have "runs (balbk1 ?u c ?d True s2) (mended B P ?R h b m)"
      using pair_balance [OF s2(2) r(2) o' rt, of q m] lf m w by simp
    moreover have "same_rest R ?R" by simp
    ultimately show ?thesis using s1 s2(1) True unfolding bal_left_def
      by (auto simp: evened_out_def runs_bind Let_def elim!: runs_conseq intro: mended_from)
  next
    case False
    have "repr (set_lfpos (s_lfpos s2 + 1) s2) B P (R\<lparr>srh_keyent := entries (B ! nat pb) ! q\<rparr>)" by (rule L(2) [OF s2(2)])
    then show ?thesis using False s1(1-3) s2(1) unfolding bal_left_def by (simp add: evened_out_def Let_def) blast
  qed
qed

end
