(* ===== verification/Mend.thy ===== *)
theory Mend
  imports Merge
begin

text \<open>
  \<open>bjnblk\<close>, \<open>balblk\<close> and the loop around \<open>bdemte\<close> put together: after a key has left a leaf they leave
  a tree in order that stands for the same entries.
\<close>

lemma nkeys_block:
  assumes r: "repr s B P R" "card P < ZMXBLK" and c: "valid_blk B c" "wf_keys (B ! nat c)"
  shows "runs (bgtinf c ZNKEYS s) (\<lambda>(n, s'). n = int (length (entries (B ! nat c))) \<and> repr s' B P R)"
proof -
  have "mem_info (B ! nat c) ZNKEYS = Some (int (length (entries (B ! nat c))))" "ZNKEYS < int ZINFSZ"
    using mem_info_word [OF wf_keys_D(1) [OF c(2)], of ZNKEYS] wf_keys_D(7) [OF c(2)] by (simp_all add: ZNKEYS_def ZINFSZ_def)
  then show ?thesis using bgtinf_spec [OF r(1) c(1)] r(2) by (auto simp: room_def runs_def)
qed

text \<open>The parent as the current block.\<close>

definition at_parent :: "st \<Rightarrow> st \<Rightarrow> int \<Rightarrow> nat \<Rightarrow> bool" where
  "at_parent R R1 pb p \<longleftrightarrow> s_lfblk R1 = pb \<and> s_lfpos R1 = int p \<and> wf_stk (stk R1) \<and>
     stack_of (stk R) = stack_of (stk R1) @ [pb, int p] \<and> same_rest R R1 \<and> super R1 = super R \<and>
     s_lfkey R1 = s_lfkey R"

lemma to_parent:
  assumes r: "repr s B P R" and a: "at_leaf B R pb p c"
  shows "runs (pull_pos s) (\<lambda>s'. \<exists>R1. repr s' B P R1 \<and> at_parent R R1 pb p)"
proof -
  obtain xs where xs: "stack_of (stk R) = xs @ [pb, int p]" "wf_stk (stk R)" using a by (auto simp: at_leaf_def)
  have st: "stk s = stk R" "lf s = lf R" using repr_fields(6,7) [OF r] by simp_all
  obtain t where t: "pull_pos s = Some (s\<lparr>stk := t, lf := (lf s)\<lparr>lfpos := int p, lfblk := pb\<rparr>\<rparr>)" "wf_stk t" "stack_of t = xs"
    using pull_pos_stk [of s xs pb "int p"] xs st(1) by auto
  let ?R1 = "R\<lparr>stk := t, lf := (lf R)\<lparr>lfpos := int p, lfblk := pb\<rparr>\<rparr>"
  have "repr (s\<lparr>stk := t, lf := (lf s)\<lparr>lfpos := int p, lfblk := pb\<rparr>\<rparr>) B P ?R1"
    using repr_frame(1) [OF repr_frame(2) [OF r, of t], of "(lf s)\<lparr>lfpos := int p, lfblk := pb\<rparr>"] st(2) by simp
  moreover have "at_parent R ?R1 pb p" using t(2,3) xs(1) by (simp add: at_parent_def)
  ultimately show ?thesis using t(1) by auto
qed

lemma to_leaf:
  assumes r: "repr s B P (R1\<lparr>srh_keyent := k\<rparr>)" and p: "at_parent R R1 pb p" and a: "at_leaf B R pb p c"
  shows "runs (do { s \<leftarrow> push_pos (s_lfblk s) (s_lfpos s) s; Some (set_lfblk c s) })
    (\<lambda>s'. \<exists>R'. repr s' B P R' \<and> at_leaf B R' pb p c \<and> same_rest R R' \<and> super R' = super R \<and> s_lfkey R' = s_lfkey R)"
proof -
  have st: "stk s = stk R1" "lf s = lf R1" using repr_fields(6,7) [OF r] by simp_all
  have "int (length (stack_of (stk R))) \<le> STKMAX" using stack_length [of "stk R"] a by (auto simp: at_leaf_def wf_stk_def)
  then have "length (stack_of (stk s)) + 2 \<le> nat STKMAX" using p st(1) by (simp add: at_parent_def)
  then obtain t where t: "push_pos (s_lfblk s) (s_lfpos s) s = Some (s\<lparr>stk := t\<rparr>)" "wf_stk t"
      "stack_of t = stack_of (stk s) @ [s_lfblk s, s_lfpos s]"
    using push_pos_stk [of s "s_lfblk s" "s_lfpos s"] p st(1) by (auto simp: at_parent_def)
  let ?R' = "R1\<lparr>srh_keyent := k, stk := t, lf := (lf R1)\<lparr>lfblk := c\<rparr>\<rparr>"
  have "repr (s\<lparr>stk := t, lf := (lf s)\<lparr>lfblk := c\<rparr>\<rparr>) B P ?R'"
    using repr_frame(1) [OF repr_frame(2) [OF r, of t], of "(lf s)\<lparr>lfblk := c\<rparr>"] st(2) by simp
  moreover have "at_leaf B ?R' pb p c" using a p t(2,3) st by (auto simp: at_leaf_def at_parent_def)
  moreover have "same_rest R ?R'" "super ?R' = super R" "s_lfkey ?R' = s_lfkey R" using p by (simp_all add: at_parent_def)
  ultimately have "\<exists>R'. repr (s\<lparr>stk := t, lf := (lf s)\<lparr>lfblk := c\<rparr>\<rparr>) B P R' \<and> at_leaf B R' pb p c \<and>
      same_rest R R' \<and> super R' = super R \<and> s_lfkey R' = s_lfkey R" by blast
  then show ?thesis using t(1) by simp
qed

text \<open>What holds at a leaf of an open tree.\<close>

lemma leaf_facts:
  assumes o: "open_tree B R h b bs" and rt: "route B h b ps 1 pb" and a: "at_leaf B R pb p c"
  shows "valid_blk B pb" "wf_keys (B ! nat pb)" "p \<le> length (entries (B ! nat pb))" "wf_tree B 0 c"
    "0 < length (entries (B ! nat pb))" "links (B ! nat pb) ! p = c" "s_lfblk R = c"
proof -
  have w: "wf_tree B 1 pb" using route_context [OF open_tree_D(1,3) [OF o] rt] by blast
  then show v: "valid_blk B pb" "wf_keys (B ! nat pb)" using wf_tree_D by blast+
  show "p \<le> length (entries (B ! nat pb))" "links (B ! nat pb) ! p = c" "s_lfblk R = c"
    using a wf_tree_links [OF w] by (auto simp: at_leaf_def)
  have "c \<in> set (links (B ! nat pb))" using a unfolding at_leaf_def by (metis nth_mem)
  then show "wf_tree B 0 c" using w by simp
  have "0 < nkeys_of (B ! nat pb)" using w by simp
  then show "0 < length (entries (B ! nat pb))" using wf_keys_D(7) [OF v(2)] by linarith
qed

lemma tried_from: "tried B P (R\<lparr>srh_keyent := k\<rparr>) h b m x s' \<Longrightarrow> tried B P R h b m x s'"
  using mended_from [of B P "R\<lparr>srh_keyent := k\<rparr>" h b m _ R]
  by (auto simp: tried_def split: option.splits elim!: runs_conseq)

lemma bjnblk_spec:
  assumes r: "repr s B P R" "P \<subseteq> {b}" and o: "open_tree B R h b bs" and rt: "route B h b ps 1 pb" and a: "at_leaf B R pb p c"
    and m: "stocked m B h b" "0 < m" "pb = b \<or> int m < nkeys_of (B ! nat pb)"
  shows "runs (bjnblk s) (\<lambda>(d, s').
    if d = ZNULL then \<exists>R'. repr s' B P R' \<and> at_leaf B R' pb p c \<and> same_rest R R' \<and> super R' = super R \<and> s_lfkey R' = s_lfkey R
    else runs (demote_loop d s') (mended B P R h b m))"
proof -
  note L = leaf_facts [OF o rt a]
  have P: "card P < ZMXBLK" using card_mono [OF _ r(2)] by (simp add: ZMXBLK_def)
  let ?n = "int (length (tree_entries B 0 c))" and ?np = "int (length (entries (B ! nat pb)))"
  have c: "s_lfblk s = c" using repr_fields(6) [OF r(1)] L(7) by simp
  obtain s1 R1 where s1: "pull_pos s = Some s1" "repr s1 B P R1" and p1: "at_parent R R1 pb p"
    using to_parent [OF r(1) a] by (auto simp: runs_def)
  have lf1: "s_lfblk s1 = pb" using repr_fields(6) [OF s1(2)] p1 by (simp add: at_parent_def)
  obtain s2 where s2: "bgtinf pb ZNKEYS s1 = Some (?np, s2)" "repr s2 B P R1"
    using nkeys_block [OF s1(2) P L(1,2)] by (auto simp: runs_def)
  obtain s3 where s3: "bgtinf c ZNKEYS s2 = Some (?n, s3)" "repr s3 B P R1"
    using nkeys_leaf [OF s2(2) P L(4)] by (auto simp: runs_def)
  have lf3: "s_lfpos s3 = int p" using repr_fields(6) [OF s3(2)] p1 by (simp add: at_parent_def)
  have P1: "s_lfblk R1 = pb" "s_lfpos R1 = int p" "wf_stk (stk R1)" "same_rest R R1" "super R1 = super R" "s_lfkey R1 = s_lfkey R"
    using p1 by (simp_all add: at_parent_def)
  have o1: "open_tree B R1 h b bs" using o P1(5) open_tree_super by blast
  have right: "runs (if s_lfpos s3 < ?np then join_right c ?n s3 else Some (None, s3)) (\<lambda>(x, s'). tried B P R1 h b m x s')"
  proof (cases "s_lfpos s3 < ?np")
    case True
    then have "p < length (entries (B ! nat pb))" using lf3 by simp
    then show ?thesis using join_right_spec [OF s3(2) r(2) o1 rt P1(1,2) _ L(6) m P1(3)] True by simp
  next
    case False
    have "R1\<lparr>srh_keyent := srh_keyent R1\<rparr> = R1" by simp
    then show ?thesis using False s3(2) by (auto simp: tried_def intro: exI [of _ "srh_keyent R1"])
  qed
  have left: "runs (if 0 < s_lfpos s4 then join_left c ?n s4 else Some (None, s4)) (\<lambda>(x, s'). tried B P R1 h b m x s')"
    if r4: "repr s4 B P (R1\<lparr>srh_keyent := k\<rparr>)" for s4 k
  proof (cases p)
    case 0
    then show ?thesis using r4 repr_fields(6) [OF r4] P1(2) by (auto simp: tried_def)
  next
    case (Suc q)
    let ?R = "R1\<lparr>srh_keyent := k\<rparr>"
    have "open_tree B ?R h b bs" using o1 open_tree_super [of ?R R1] by simp
    from join_left_spec [OF r4 r(2) this rt, of q c m] show ?thesis
      using Suc P1 L(3,6) m repr_fields(6) [OF r4] by (auto elim!: runs_conseq intro: tried_from)
  qed
  let ?Q = "\<lambda>(d, s'). if d = ZNULL then \<exists>R'. repr s' B P R' \<and> at_leaf B R' pb p c \<and> same_rest R R' \<and> super R' = super R \<and> s_lfkey R' = s_lfkey R
    else runs (demote_loop d s') (mended B P R h b m)"
  have restore: "runs (do { s \<leftarrow> push_pos (s_lfblk s5) (s_lfpos s5) s5; Some (ZNULL, set_lfblk c s) }) ?Q"
    if r5: "repr s5 B P (R1\<lparr>srh_keyent := k\<rparr>)" for s5 k
    using to_leaf [OF r5 p1 a] by (auto simp: runs_bind elim!: runs_conseq)
  have joined: "?Q (d, s')" if "d \<noteq> ZNULL" "runs (demote_loop d s') (mended B P R1 h b m)" for d s'
    using that P1(4,6) by (auto elim!: runs_conseq intro: mended_from)
  let ?fini = "\<lambda>(fin, s). case fin of Some d \<Rightarrow> Some (d, s)
    | None \<Rightarrow> do { s \<leftarrow> push_pos (s_lfblk s) (s_lfpos s) s; Some (ZNULL, set_lfblk c s) }"
  have fin: "runs (?fini (x, s')) ?Q" if t: "tried B P R1 h b m x s'" for x s'
  proof (cases x)
    case None
    then obtain k where "repr s' B P (R1\<lparr>srh_keyent := k\<rparr>)" using t by (auto simp: tried_def)
    from restore [OF this] show ?thesis by (simp only: None prod.case option.case)
  qed (use t joined in \<open>auto simp: tried_def\<close>)
  have "bjnblk s = do {
      (fin, s) \<leftarrow> (if s_lfpos s3 < ?np then join_right c ?n s3 else Some (None, s3));
      case fin of Some d \<Rightarrow> Some (d, s)
      | None \<Rightarrow> do { y \<leftarrow> (if 0 < s_lfpos s then join_left c ?n s else Some (None, s)); ?fini y } }"
    using s1(1) s2(1) s3(1) lf1 by (simp add: bjnblk_def c Let_def del: tree_entries.simps)
  moreover have "runs \<dots> ?Q"
  proof (rule runs_bindI [OF right], clarify)
    fix x s4 assume x: "tried B P R1 h b m x s4"
    show "runs (case x of Some d \<Rightarrow> Some (d, s4)
      | None \<Rightarrow> do { y \<leftarrow> (if 0 < s_lfpos s4 then join_left c ?n s4 else Some (None, s4)); ?fini y }) ?Q"
    proof (cases x)
      case None
      then obtain k where k: "repr s4 B P (R1\<lparr>srh_keyent := k\<rparr>)" using x by (auto simp: tried_def)
      have "runs (do { y \<leftarrow> (if 0 < s_lfpos s4 then join_left c ?n s4 else Some (None, s4)); ?fini y }) ?Q"
        by (rule runs_bindI [OF left [OF k]]) (use fin in \<open>simp only: split_paired_all prod.case\<close>)
      then show ?thesis using None by simp
    qed (use x joined in \<open>auto simp: tried_def\<close>)
  qed
  ultimately show ?thesis by simp
qed

lemma evened_from: "evened_out B P (R\<lparr>srh_keyent := k\<rparr>) h b m x s' \<Longrightarrow> evened_out B P R h b m x s'"
  using mended_from [of B P "R\<lparr>srh_keyent := k\<rparr>" h b m _ R]
  by (auto simp: evened_out_def split: if_splits)

lemma balblk_spec:
  assumes r: "repr s B P R" "P \<subseteq> {b}" and o: "open_tree B R h b bs" and rt: "route B h b ps 1 pb" and a: "at_leaf B R pb p c"
    and m: "stocked m B h b" "0 < m"
  shows "runs (balblk s) (mended B P R h b m)"
proof -
  note L = leaf_facts [OF o rt a]
  have P: "card P < ZMXBLK" using card_mono [OF _ r(2)] by (simp add: ZMXBLK_def)
  let ?n = "int (length (tree_entries B 0 c))" and ?np = "int (length (entries (B ! nat pb)))"
  have c: "s_lfblk s = c" using repr_fields(6) [OF r(1)] L(7) by simp
  obtain s1 R1 where s1: "pull_pos s = Some s1" "repr s1 B P R1" and p1: "at_parent R R1 pb p"
    using to_parent [OF r(1) a] by (auto simp: runs_def)
  have lf1: "s_lfblk s1 = pb" using repr_fields(6) [OF s1(2)] p1 by (simp add: at_parent_def)
  obtain s2 where s2: "bgtinf pb ZNKEYS s1 = Some (?np, s2)" "repr s2 B P R1"
    using nkeys_block [OF s1(2) P L(1,2)] by (auto simp: runs_def)
  obtain s3 where s3: "bgtinf c ZNKEYS s2 = Some (?n, s3)" "repr s3 B P R1"
    using nkeys_leaf [OF s2(2) P L(4)] by (auto simp: runs_def)
  have lf3: "s_lfpos s3 = int p" using repr_fields(6) [OF s3(2)] p1 by (simp add: at_parent_def)
  have P1: "s_lfblk R1 = pb" "s_lfpos R1 = int p" "wf_stk (stk R1)" "same_rest R R1" "super R1 = super R" "s_lfkey R1 = s_lfkey R"
    using p1 by (simp_all add: at_parent_def)
  have o1: "open_tree B R1 h b bs" using o P1(5) open_tree_super by blast
  have right: "runs (if s_lfpos s3 < ?np then bal_right c ?n s3 else Some (False, s3)) (\<lambda>(x, s'). evened_out B P R1 h b m x s')"
  proof (cases "s_lfpos s3 < ?np")
    case True
    then have "p < length (entries (B ! nat pb))" using lf3 by simp
    then show ?thesis using bal_right_spec [OF s3(2) r(2) o1 rt P1(1,2) _ L(6) m P1(3)] True by simp
  next
    case False
    have "R1\<lparr>srh_keyent := srh_keyent R1\<rparr> = R1" by simp
    then show ?thesis using False s3(2) by (auto simp: evened_out_def intro: exI [of _ "srh_keyent R1"])
  qed
  have left: "runs (if 0 < s_lfpos s4 then bal_left c ?n s4 else Some (False, s4)) (\<lambda>(x, s'). evened_out B P R1 h b m x s')"
    if r4: "repr s4 B P (R1\<lparr>srh_keyent := k\<rparr>)" for s4 k
  proof (cases p)
    case 0
    then show ?thesis using r4 repr_fields(6) [OF r4] P1(2) by (auto simp: evened_out_def)
  next
    case (Suc q)
    let ?R = "R1\<lparr>srh_keyent := k\<rparr>"
    have "open_tree B ?R h b bs" using o1 open_tree_super [of ?R R1] by simp
    from bal_left_spec [OF r4 r(2) this rt, of q c m] show ?thesis
      using Suc P1 L(3,6) m repr_fields(6) [OF r4] by (auto elim!: runs_conseq intro: evened_from)
  qed
  have unchanged: "mended B P R h b m s'"
    if "repr s' B P R'" "at_leaf B R' pb p c" "same_rest R R'" "super R' = super R" "s_lfkey R' = s_lfkey R" for s' R'
    by (rule mendedI [OF that(1) order_refl reshaped_refl [OF o that(3,4)] m(1)]) (use that(2,5) in \<open>simp_all add: at_leaf_def\<close>)
  have restore: "runs (do { s \<leftarrow> push_pos (s_lfblk s5) (s_lfpos s5) s5; Some (set_lfblk c s) }) (mended B P R h b m)"
    if r5: "repr s5 B P (R1\<lparr>srh_keyent := k\<rparr>)" for s5 k
    by (rule runs_conseq [OF to_leaf [OF r5 p1 a]]) (use unchanged in blast)
  have mended1: "mended B P R h b m s'" if "mended B P R1 h b m s'" for s' by (rule mended_from [OF that P1(4,6)])
  let ?fini = "\<lambda>(fin, s). if fin then Some s else do { s \<leftarrow> push_pos (s_lfblk s) (s_lfpos s) s; Some (set_lfblk c s) }"
  have fin: "runs (?fini (x, s')) (mended B P R h b m)" if t: "evened_out B P R1 h b m x s'" for x s'
  proof (cases x)
    case False
    then obtain k where "repr s' B P (R1\<lparr>srh_keyent := k\<rparr>)" using t by (auto simp: evened_out_def)
    from restore [OF this] show ?thesis by (simp add: False)
  qed (use t mended1 in \<open>auto simp: evened_out_def\<close>)
  have "balblk s = do {
      (fin, s) \<leftarrow> (if s_lfpos s3 < ?np then bal_right c ?n s3 else Some (False, s3));
      if fin then Some s
      else do { y \<leftarrow> (if 0 < s_lfpos s then bal_left c ?n s else Some (False, s)); ?fini y } }"
    using s1(1) s2(1) s3(1) lf1 by (simp add: balblk_def c Let_def split_def cong: if_cong)
  moreover have "runs \<dots> (mended B P R h b m)"
  proof (rule runs_bindI [OF right], clarify)
    fix x s4 assume x: "evened_out B P R1 h b m x s4"
    show "runs (if x then Some s4
      else do { y \<leftarrow> (if 0 < s_lfpos s4 then bal_left c ?n s4 else Some (False, s4)); ?fini y }) (mended B P R h b m)"
    proof (cases x)
      case False
      then obtain k where k: "repr s4 B P (R1\<lparr>srh_keyent := k\<rparr>)" using x by (auto simp: evened_out_def)
      have "runs (do { y \<leftarrow> (if 0 < s_lfpos s4 then bal_left c ?n s4 else Some (False, s4)); ?fini y }) (mended B P R h b m)"
        by (rule runs_bindI [OF left [OF k]]) (use fin in \<open>simp only: split_paired_all prod.case\<close>)
      then show ?thesis using False by simp
    qed (use x mended1 in \<open>auto simp: evened_out_def\<close>)
  qed
  ultimately show ?thesis by simp
qed

text \<open>The repair as \<open>bdelk1\<close> calls it.\<close>

lemma repair_spec:
  assumes r: "repr s B P R" "P \<subseteq> {b}" and o: "open_tree B R h b bs" and rt: "route B h b ps 1 pb" and a: "at_leaf B R pb p c"
    and m: "stocked m B h b" "0 < m" "pb = b \<or> int m < nkeys_of (B ! nat pb)"
  shows "runs (do {
      (cblk, s) \<leftarrow> bjnblk s;
      s \<leftarrow> (if cblk = ZNULL then balblk s else Some s);
      demote_loop cblk s }) (mended B P R h b m)"
proof (rule runs_bindI [OF bjnblk_spec [OF r o rt a m]], clarify)
  fix d s1
  assume d: "if d = ZNULL then \<exists>R'. repr s1 B P R' \<and> at_leaf B R' pb p c \<and> same_rest R R' \<and> super R' = super R \<and> s_lfkey R' = s_lfkey R
    else runs (demote_loop d s1) (mended B P R h b m)"
  show "runs (do { s \<leftarrow> (if d = ZNULL then balblk s1 else Some s1); demote_loop d s }) (mended B P R h b m)"
  proof (cases "d = ZNULL")
    case True
    then obtain R' where R': "repr s1 B P R'" "at_leaf B R' pb p c" "same_rest R R'" "super R' = super R" "s_lfkey R' = s_lfkey R"
      using d by auto
    have "open_tree B R' h b bs" using o R'(4) open_tree_super by blast
    from balblk_spec [OF R'(1) r(2) this rt R'(2) m(1,2)] show ?thesis
      using True mended_from [OF _ R'(3,5)] by (auto simp: runs_bind elim!: runs_conseq)
  qed (use d in simp)
qed

end
