(* ===== verification/Remove.thy ===== *)
theory Remove
  imports Mend
begin

text \<open>
  Deletion of a key: \<open>bdelk1\<close> takes the key out of its leaf, or puts the key before it in its place and
  takes that one out of its leaf; the repair follows, and a search for the old position.
\<close>

section \<open>Down to the key before\<close>

abbreviation steps :: "(int \<times> nat) list \<Rightarrow> (int \<times> int) list" where
  "steps ps \<equiv> map (\<lambda>(b, p). (b, int p)) ps"

text \<open>The way a search takes is a route.\<close>

lemma path_route:
  "wf_tree B h b \<Longrightarrow> \<exists>g. route B h b (map (\<lambda>c. (c, place B k c)) (butlast (path B h b k))) g (List.last (path B h b k))"
proof (induction h arbitrary: b)
  case (Suc h)
  show ?case
  proof (cases "has_key B k b")
    case False
    obtain g where "route B h (child B k b) (map (\<lambda>c. (c, place B k c)) (butlast (path B h (child B k b) k))) g
        (List.last (path B h (child B k b) k))"
      using Suc.IH [OF child_wf [OF Suc.prems]] by blast
    then show ?thesis using False place_le [OF Suc.prems, of k] by (intro exI [of _ g]) simp
  qed simp
qed simp

text \<open>The route along the last links, and the leaf at its end.\<close>

primrec spine :: "memrec list \<Rightarrow> nat \<Rightarrow> int \<Rightarrow> (int \<times> nat) list" where
  "spine B 0 b = []"
| "spine B (Suc h) b = (b, length (entries (B ! nat b))) # spine B h (links (B ! nat b) ! length (entries (B ! nat b)))"

primrec rightmost :: "memrec list \<Rightarrow> nat \<Rightarrow> int \<Rightarrow> int" where
  "rightmost B 0 b = b"
| "rightmost B (Suc h) b = rightmost B h (links (B ! nat b) ! length (entries (B ! nat b)))"

lemma last_link: "wf_tree B (Suc h) b \<Longrightarrow> length (entries (B ! nat b)) < length (links (B ! nat b)) \<and>
  links (B ! nat b) ! length (entries (B ! nat b)) \<in> set (links (B ! nat b))"
  using wf_tree_links [of B "Suc h" b] by simp

lemma spine_route: "wf_tree B h b \<Longrightarrow> route B h b (spine B h b) 0 (rightmost B h b)"
proof (induction h arbitrary: b)
  case (Suc h)
  then show ?case using last_link [OF Suc.prems] by auto
qed simp

text \<open>No block of the tree is empty.\<close>

abbreviation stuffed :: "memrec list \<Rightarrow> nat \<Rightarrow> int \<Rightarrow> bool" where
  "stuffed B h b \<equiv> wf_tree B h b \<and> (\<forall>c \<in> set (tree_blocks B h b). 0 < nkeys_of (B ! nat c))"

lemma stuffed_child: "stuffed B (Suc h) b \<Longrightarrow> l \<in> set (links (B ! nat b)) \<Longrightarrow> stuffed B h l"
  by auto

lemma rightmost_in: "wf_tree B h b \<Longrightarrow> rightmost B h b \<in> set (tree_blocks B h b)"
proof (induction h arbitrary: b)
  case (Suc h)
  then show ?case using last_link [OF Suc.prems] by auto
qed simp

lemma spine_last:
  "stuffed B h b \<Longrightarrow> tree_entries B h b \<noteq> [] \<and>
     List.last (tree_entries B h b) = List.last (entries (B ! nat (rightmost B h b)))"
proof (induction h arbitrary: b)
  case 0
  then have "wf_keys (B ! nat b)" "0 < nkeys_of (B ! nat b)" by simp_all
  then show ?case using wf_keys_D(7) [of "B ! nat b"] by auto
next
  case (Suc h)
  let ?es = "entries (B ! nat b)" and ?cs = "map (tree_entries B h) (links (B ! nat b))"
  have l: "length ?cs = Suc (length ?es)" using wf_tree_links [of B "Suc h" b] Suc.prems by simp
  let ?l = "links (B ! nat b) ! length ?es"
  have c: "stuffed B h ?l" using stuffed_child [OF Suc.prems] last_link [of B h b] Suc.prems by blast
  have "tree_entries B (Suc h) b = left_part (length ?es) ?cs ?es @ tree_entries B h ?l"
    using interleave_split [OF l, of "length ?es"] right_part_end [OF l] l by simp
  then show ?case using Suc.IH [OF c] by simp
qed

text \<open>One turn of the loop of \<open>bleaf\<close>, to the right.\<close>

lemma bleaf_step:
  assumes r: "repr s B P R" "at_slot s i (s_lfblk R)" "card P < ZMXBLK"
    and b: "wf_keys (B ! nat (s_lfblk R))" "s_lfpos R = int p" "p < length (links (B ! nat (s_lfblk R)))"
    and l: "links (B ! nat (s_lfblk R)) ! p = l" "valid_blk B l" "wf_keys (B ! nat l)" "l \<noteq> ZNULL"
    and w: "wf_stk (stk R)" "length (stack_of (stk R)) + 2 \<le> nat STKMAX"
  shows "\<exists>j s' R'. bleaf_loop 1 i s = bleaf_loop 1 j s' \<and> repr s' B P R' \<and> at_slot s' j l \<and> same_rest R R' \<and>
    super R' = super R \<and> s_lfkey R' = s_lfkey R \<and> wf_stk (stk R') \<and> s_lfblk R' = l \<and>
    s_lfpos R' = nkeys_of (B ! nat l) \<and> stack_of (stk R') = stack_of (stk R) @ [s_lfblk R, int p]"
proof -
  let ?b = "s_lfblk R" let ?m = "B ! nat ?b"
  have lf: "lf s = lf R" "stk s = stk R" using repr_fields(6,7) [OF r(1)] by simp_all
  have "int p \<le> nkeys_of ?m" using wf_keys_D(3) [OF b(1)] wf_keys_D(7) [OF b(1)] b(3) by simp
  then have get: "arr_get (lnkblk ?m) (int p) = Some l"
    using wf_keys_D(6,8) [OF b(1)] b(3) l(1) by (auto simp: links_def)
  obtain t where t: "push_pos ?b (int p) s = Some (s\<lparr>stk := t\<rparr>)" "wf_stk t" "stack_of t = stack_of (stk s) @ [?b, int p]"
    using push_pos_stk [of s] w lf(2) by metis
  let ?s1 = "s\<lparr>stk := t, lf := (lf s)\<lparr>lfblk := l\<rparr>\<rparr>" and ?R1 = "R\<lparr>stk := t, lf := (lf R)\<lparr>lfblk := l\<rparr>\<rparr>"
  have r1: "repr ?s1 B P ?R1" using repr_frame(1) [OF repr_frame(2) [OF r(1)]] lf by simp
  obtain j s2 where s2: "brdblk l ?s1 = Some ((0, j), s2)" "at_slot s2 j l" "repr s2 B P ?R1"
    using brdblk_spec [OF r1 l(2)] r(3) by (auto simp: runs_def room_def)
  have nk: "mem_info (B ! nat l) ZNKEYS = Some (nkeys_of (B ! nat l))" "ZNKEYS < int ZINFSZ"
    using mem_info_word [OF wf_keys_D(1) [OF l(3)], of ZNKEYS] by (simp_all add: ZNKEYS_def ZINFSZ_def)
  obtain s3 where s3: "bgtinf l ZNKEYS s2 = Some (nkeys_of (B ! nat l), s3)" "repr s3 B P ?R1" "at_slot s3 j l"
    using bgtinf_hit [OF s2(3,2) nk(2,1)] s2(2) same_cached_at by (fastforce simp: runs_def)
  let ?n = "nkeys_of (B ! nat l)"
  have r3: "repr (set_lfpos ?n s3) B P (set_lfpos ?n ?R1)" using repr_frame(1) [OF s3(2)] repr_fields(6) [OF s3(2)] by simp
  have "bleaf_loop 1 i s = bleaf_loop 1 j (set_lfpos ?n s3)"
    using get_mem_slot [OF r(1,2)] lf b(2) get l(4) t(1) s2(1) s3(1) at_slot_pos [OF s2(2)]
    by (subst bleaf_loop.simps) simp
  then show ?thesis
    using r3 s3(3) t(2,3) lf(2)
    by (intro exI [of _ j] exI [of _ "set_lfpos ?n s3"] exI [of _ "set_lfpos ?n ?R1"]) (simp add: at_slot_def)
qed

lemma bleaf_loop_right:
  assumes "repr s B P R" "at_slot s i (s_lfblk R)" "card P < ZMXBLK" "stuffed B h (s_lfblk R)"
    and "s_lfpos R = nkeys_of (B ! nat (s_lfblk R))" "wf_stk (stk R)" "length (stack_of (stk R)) + 2 * h \<le> nat STKMAX"
  shows "runs (bleaf_loop 1 i s) (\<lambda>(j, s'). \<exists>R'. repr s' B P R' \<and> same_rest R R' \<and> super R' = super R \<and>
    s_lfkey R' = s_lfkey R \<and> wf_stk (stk R') \<and> s_lfblk R' = rightmost B h (s_lfblk R) \<and>
    s_lfpos R' = nkeys_of (B ! nat (rightmost B h (s_lfblk R))) \<and>
    stack_of (stk R') = stack_of (stk R) @ flat (steps (spine B h (s_lfblk R))))"
  using assms
proof (induction h arbitrary: s R i)
  case 0
  let ?m = "B ! nat (s_lfblk R)"
  have m: "wf_keys ?m" "0 < nkeys_of ?m" using "0.prems"(4) by simp_all
  have lf: "lf s = lf R" using repr_fields(6) [OF "0.prems"(1)] .
  have l: "nat (nkeys_of ?m) < length (links ?m)" using wf_keys_D(3) [OF m(1)] by simp
  then have "links ?m ! nat (nkeys_of ?m) = ZNULL" using "0.prems"(4) nth_mem [OF l] by simp
  moreover have "arr_get (lnkblk ?m) (nkeys_of ?m) = Some (links ?m ! nat (nkeys_of ?m))"
    using wf_keys_D(6,8) [OF m(1)] l m(2) by (simp add: links_def)
  ultimately have "bleaf_loop 1 i s = Some (i, s)"
    using get_mem_slot [OF "0.prems"(1,2)] lf "0.prems"(5) by (subst bleaf_loop.simps) simp
  then show ?case using "0.prems" by (auto intro!: exI [of _ R])
next
  case (Suc h)
  let ?b = "s_lfblk R" let ?p = "length (entries (B ! nat ?b))"
  let ?l = "links (B ! nat ?b) ! ?p"
  have w: "wf_tree B (Suc h) ?b" using Suc.prems(4) by blast
  then have k: "wf_keys (B ! nat ?b)" using wf_tree_D by blast
  note L = last_link [OF w]
  have c: "stuffed B h ?l" using stuffed_child [OF Suc.prems(4)] L by blast
  then have v: "valid_blk B ?l" "wf_keys (B ! nat ?l)" "?l \<noteq> ZNULL" using wf_tree_D [of B h ?l] by (auto simp: valid_blk_def ZNULL_def)
  have p: "s_lfpos R = int ?p" "length (stack_of (stk R)) + 2 \<le> nat STKMAX" using Suc.prems(5,7) wf_keys_D(7) [OF k] by simp_all
  obtain j s1 R1 where 1: "bleaf_loop 1 i s = bleaf_loop 1 j s1" "repr s1 B P R1" "at_slot s1 j ?l" "same_rest R R1"
      "super R1 = super R" "s_lfkey R1 = s_lfkey R" "wf_stk (stk R1)" "s_lfblk R1 = ?l"
      "s_lfpos R1 = nkeys_of (B ! nat ?l)" "stack_of (stk R1) = stack_of (stk R) @ [?b, int ?p]"
    using bleaf_step [OF Suc.prems(1-3) k p(1) L [THEN conjunct1] refl v(1-3) Suc.prems(6) p(2)] by blast
  have ih: "runs (bleaf_loop 1 j s1) (\<lambda>(j, s'). \<exists>R'. repr s' B P R' \<and> same_rest R1 R' \<and> super R' = super R1 \<and>
    s_lfkey R' = s_lfkey R1 \<and> wf_stk (stk R') \<and> s_lfblk R' = rightmost B h (s_lfblk R1) \<and>
    s_lfpos R' = nkeys_of (B ! nat (rightmost B h (s_lfblk R1))) \<and>
    stack_of (stk R') = stack_of (stk R1) @ flat (steps (spine B h (s_lfblk R1))))"
    by (rule Suc.IH [OF 1(2)]) (use 1 c Suc.prems(3,7) in simp_all)
  show ?case
    unfolding 1(1)
    by (rule runs_conseq [OF ih]) (use 1(4-10) same_rest_trans [OF 1(4)] in auto)
qed

text \<open>\<open>bleaf(1)\<close> at a key of an inner block leads to the leaf with the key before it.\<close>

lemma bleaf_right:
  assumes r: "repr s B P R" "card P < ZMXBLK" and t: "stuffed B (Suc h) (s_lfblk R)"
    and p: "s_lfpos R = int p" "p < length (entries (B ! nat (s_lfblk R)))" "links (B ! nat (s_lfblk R)) ! p = l"
    and w: "wf_stk (stk R)" "length (stack_of (stk R)) + 2 * Suc h \<le> nat STKMAX"
  shows "runs (bleaf 1 s) (\<lambda>(j, s'). \<exists>R'. repr s' B P R' \<and> same_rest R R' \<and> super R' = super R \<and>
    s_lfkey R' = s_lfkey R \<and> wf_stk (stk R') \<and> s_lfblk R' = rightmost B h l \<and>
    s_lfpos R' = nkeys_of (B ! nat (rightmost B h l)) \<and>
    stack_of (stk R') = stack_of (stk R) @ flat (steps ((s_lfblk R, p) # spine B h l)))"
proof -
  let ?b = "s_lfblk R" let ?m = "B ! nat ?b"
  have m: "wf_keys ?m" "valid_blk B ?b" "nkeys_of ?m \<noteq> 0" using t by auto
  have nk: "mem_info ?m ZNKEYS = Some (nkeys_of ?m)" "ZNKEYS < int ZINFSZ"
    using mem_info_word [OF wf_keys_D(1) [OF m(1)], of ZNKEYS] by (simp_all add: ZNKEYS_def ZINFSZ_def)
  have rm: "room P ?b" using r(2) by (simp add: room_def)
  obtain i s1 where s1: "brdblk ?b s = Some ((0, i), s1)" "at_slot s1 i ?b" "repr s1 B P R"
    using brdblk_spec [OF r(1) m(2) rm] by (auto simp: runs_def)
  obtain s2 where s2: "bgtinf ?b ZNKEYS s1 = Some (nkeys_of ?m, s2)" "repr s2 B P R" "at_slot s2 i ?b"
    using bgtinf_hit [OF s1(3,2) nk(2,1)] s1(2) same_cached_at by (fastforce simp: runs_def)
  have eq: "bleaf 1 s = bleaf_loop 1 i s2"
    using repr_fields(6) [OF r(1)] repr_fields(6) [OF s1(3)] s1(1) s2(1) m(3) at_slot_pos [OF s1(2)] by (simp add: bleaf_def)
  have pl: "p < length (links ?m)" using p(2) wf_tree_links [of B "Suc h" ?b] t by simp
  then have "l \<in> set (links ?m)" using p(3) nth_mem by blast
  from stuffed_child [OF t this] have c: "stuffed B h l" .
  then have v: "valid_blk B l" "wf_keys (B ! nat l)" "l \<noteq> ZNULL" using wf_tree_D [of B h l] by (auto simp: valid_blk_def ZNULL_def)
  obtain j s3 R3 where 3: "bleaf_loop 1 i s2 = bleaf_loop 1 j s3" "repr s3 B P R3" "at_slot s3 j l" "same_rest R R3"
      "super R3 = super R" "s_lfkey R3 = s_lfkey R" "wf_stk (stk R3)" "s_lfblk R3 = l"
      "s_lfpos R3 = nkeys_of (B ! nat l)" "stack_of (stk R3) = stack_of (stk R) @ [?b, int p]"
    using bleaf_step [OF s2(2,3) r(2) m(1) p(1) pl p(3) v(1-3) w(1)] w(2) by auto
  have g: "runs (bleaf_loop 1 j s3) (\<lambda>(j, s'). \<exists>R'. repr s' B P R' \<and> same_rest R3 R' \<and> super R' = super R3 \<and>
    s_lfkey R' = s_lfkey R3 \<and> wf_stk (stk R') \<and> s_lfblk R' = rightmost B h (s_lfblk R3) \<and>
    s_lfpos R' = nkeys_of (B ! nat (rightmost B h (s_lfblk R3))) \<and>
    stack_of (stk R') = stack_of (stk R3) @ flat (steps (spine B h (s_lfblk R3))))"
    by (rule bleaf_loop_right [OF 3(2)]) (use 3 c r(2) w(2) in simp_all)
  show ?thesis
    unfolding eq 3(1)
    by (rule runs_conseq [OF g]) (use 3(4-10) same_rest_trans [OF 3(4)] in auto)
qed

section \<open>What is left of the entries\<close>

lemma sorted_keys_Cons: "sorted_keys (x # xs) \<longleftrightarrow> sorted_keys xs \<and> (\<forall>y \<in> set xs. ke_key x < ke_key y)"
  by (auto simp: sorted_keys_def)

lemma sorted_split_unique:
  assumes s: "sorted_keys (xs @ y # zs)" and e: "xs @ y # zs = us @ w # vs" and k: "ke_key y = ke_key w"
  shows "xs = us" "y = w" "zs = vs"
proof -
  have "zs = vs" using beyond_split [OF s refl] beyond_split [of us w vs] s k unfolding e by simp
  then show "xs = us" "y = w" "zs = vs" using e by simp_all
qed

abbreviation without :: "string \<Rightarrow> keyent list \<Rightarrow> keyent list" where
  "without k es \<equiv> filter (\<lambda>e. ke_key e \<noteq> k) es"

lemma without_split: "sorted_keys (xs @ y # zs) \<Longrightarrow> ke_key y = k \<Longrightarrow> without k (xs @ y # zs) = xs @ zs"
proof -
  assume s: "sorted_keys (xs @ y # zs)" and y: "ke_key y = k"
  have "\<forall>x \<in> set xs. ke_key x \<noteq> k" "\<forall>x \<in> set zs. ke_key x \<noteq> k"
    using s y by (fastforce simp: sorted_keys_def sorted_wrt_append)+
  then show "without k (xs @ y # zs) = xs @ zs" using y by (simp add: filter_id_conv)
qed

lemma set_take_left: "length cs = length es \<Longrightarrow> set es \<subseteq> set (concat (map2 (\<lambda>c e. c @ [e]) cs es))"
  by (induction rule: list_induct2) auto

text \<open>Other keys in a leaf; another key in an inner block.\<close>

lemma leaf_change:
  assumes t: "wf_tree B h b" "distinct (tree_blocks B h b)" "route B h b ps 0 v" and m: "leaf_of (B ! nat v) es m"
  shows "\<exists>L R. tree_entries B h b = L @ entries (B ! nat v) @ R \<and> wf_tree (B[nat v := m]) h b \<and>
    tree_entries (B[nat v := m]) h b = L @ es @ R \<and> mset (tree_blocks (B[nat v := m]) h b) = mset (tree_blocks B h b)"
proof -
  let ?B = "B[nat v := m]"
  obtain L R where c: "wf_tree B 0 v" "set (tree_blocks B 0 v) \<subseteq> set (tree_blocks B h b)" "tree_entries B h b = L @ tree_entries B 0 v @ R"
      "\<And>B'. (\<forall>d \<in> set (tree_blocks B h b) - set (tree_blocks B 0 v). B' ! nat d = B ! nat d) \<Longrightarrow> length B \<le> length B' \<Longrightarrow>
        wf_tree B' 0 v \<Longrightarrow> wf_tree B' h b \<and> tree_entries B' h b = L @ tree_entries B' 0 v @ R \<and>
        mset (tree_blocks B' h b) + mset (tree_blocks B 0 v) = mset (tree_blocks B h b) + mset (tree_blocks B' 0 v)"
    using route_context [OF t] by blast
  have v: "valid_blk B v" using c(1) by simp
  have l: "wf_tree ?B 0 v \<and> tree_entries ?B 0 v = es"
    using leaf_tree [OF m update_same [OF v]] v by simp
  have "wf_tree ?B h b \<and> tree_entries ?B h b = L @ tree_entries ?B 0 v @ R \<and>
        mset (tree_blocks ?B h b) + mset (tree_blocks B 0 v) = mset (tree_blocks B h b) + mset (tree_blocks ?B 0 v)"
    using update_other [OF _ v] tree_blocks_valid [OF t(1)] l by (intro c(4)) auto
  then show ?thesis using c(3) l by (intro exI [of _ L] exI [of _ R]) simp
qed

lemma entry_left:
  assumes t: "wf_tree B h b" "distinct (tree_blocks B h b)" "route B h b ps (Suc g) c" and p: "p < length (entries (B ! nat c))"
  shows "\<exists>L R. tree_entries B h b = L @ tree_entries B g (links (B ! nat c) ! p) @ entries (B ! nat c) ! p # R \<and>
    set (take p (entries (B ! nat c))) \<subseteq> set L"
proof -
  let ?es = "entries (B ! nat c)" and ?cs = "map (tree_entries B g) (links (B ! nat c))"
  obtain L R where c: "wf_tree B (Suc g) c" "tree_entries B h b = L @ tree_entries B (Suc g) c @ R"
    using route_context [OF t] by blast
  have len: "length ?cs = Suc (length ?es)" using wf_tree_links [OF c(1)] by simp
  obtain xs where "right_part p ?cs ?es = ?es ! p # xs" using right_part_hd [OF len p] by blast
  moreover have "set (take p ?es) \<subseteq> set (left_part p ?cs ?es)"
    using set_take_left [of "take p ?cs" "take p ?es"] len p by (simp add: left_part_def)
  ultimately show ?thesis using c(2) interleave_split [OF len, of p] len p
    by (intro exI [of _ "L @ left_part p ?cs ?es"] exI [of _ "xs @ R"]) auto
qed

lemma entry_change:
  assumes t: "wf_tree B h b" "distinct (tree_blocks B h b)" "route B h b ps (Suc g) c" and p: "p < length (entries (B ! nat c))"
    and m: "node (B ! nat c) ((entries (B ! nat c))[p := e]) (links (B ! nat c)) m"
  shows "\<exists>L R. tree_entries B h b = L @ entries (B ! nat c) ! p # R \<and> wf_tree (B[nat c := m]) h b \<and>
    tree_entries (B[nat c := m]) h b = L @ e # R \<and> mset (tree_blocks (B[nat c := m]) h b) = mset (tree_blocks B h b)"
proof -
  let ?B = "B[nat c := m]" and ?es = "entries (B ! nat c)" and ?ls = "links (B ! nat c)"
  let ?cs = "map (tree_entries B g) ?ls"
  obtain L R where c: "wf_tree B (Suc g) c" "distinct (tree_blocks B (Suc g) c)" "tree_entries B h b = L @ tree_entries B (Suc g) c @ R"
      "\<And>B'. (\<forall>d \<in> set (tree_blocks B h b) - set (tree_blocks B (Suc g) c). B' ! nat d = B ! nat d) \<Longrightarrow> length B \<le> length B' \<Longrightarrow>
        wf_tree B' (Suc g) c \<Longrightarrow> wf_tree B' h b \<and> tree_entries B' h b = L @ tree_entries B' (Suc g) c @ R \<and>
        mset (tree_blocks B' h b) + mset (tree_blocks B (Suc g) c) = mset (tree_blocks B h b) + mset (tree_blocks B' (Suc g) c)"
    using route_context [OF t] by blast
  note N = node_D [OF m]
  have v: "valid_blk B c" using c(1) by simp
  have cm: "?B ! nat c = m" using update_same [OF v] .
  have cong: "wf_tree ?B g l \<and> tree_entries ?B g l = tree_entries B g l \<and> tree_blocks ?B g l = tree_blocks B g l"
    if l: "l \<in> set ?ls" for l
  proof (rule tree_cong)
    show "wf_tree B g l" using c(1) l by simp
    show "\<forall>d \<in> set (tree_blocks B g l). ?B ! nat d = B ! nat d"
    proof
      fix d assume d: "d \<in> set (tree_blocks B g l)"
      then have "d \<noteq> c" using c(2) l by auto
      then show "?B ! nat d = B ! nat d" using update_other [OF _ v] tree_blocks_valid [OF \<open>wf_tree B g l\<close> d] by blast
    qed
  qed simp
  have maps: "map (tree_entries ?B g) ?ls = ?cs" "map (tree_blocks ?B g) ?ls = map (tree_blocks B g) ?ls"
    using cong by (intro map_cong refl; blast)+
  have len: "length ?cs = Suc (length ?es)" using wf_tree_links [OF c(1)] by simp
  obtain xs where xs: "right_part p ?cs ?es = ?es ! p # xs" using right_part_hd [OF len p] by blast
  have rp: "right_part p ?cs (?es[p := e]) = e # xs"
  proof -
    have "drop p (?es[p := e]) = e # drop (Suc p) ?es"
      using p by (metis Cons_nth_drop_Suc drop_update_cancel length_list_update lessI nth_list_update_eq)
    moreover have "drop p ?es = ?es ! p # drop (Suc p) ?es" using p by (simp add: Cons_nth_drop_Suc)
    moreover have "drop (Suc p) ?cs = ?cs ! Suc p # drop (Suc (Suc p)) ?cs"
      by (rule Cons_nth_drop_Suc [symmetric]) (use p len in simp)
    ultimately show ?thesis using xs by (simp add: right_part_def)
  qed
  have e1: "tree_entries B (Suc g) c = left_part p ?cs ?es @ ?cs ! p @ ?es ! p # xs"
    using interleave_split [OF len, of p] p xs by simp
  have "tree_entries ?B (Suc g) c = interleave ?cs (?es[p := e])" by (simp only: tree_entries.simps cm N(2,3) maps(1))
  also have "\<dots> = left_part p ?cs ?es @ ?cs ! p @ e # xs"
    using interleave_split [of ?cs "?es[p := e]" p] len p rp by (simp add: left_part_def)
  finally have e2: "tree_entries ?B (Suc g) c = \<dots>" .
  have bl: "tree_blocks ?B (Suc g) c = tree_blocks B (Suc g) c" by (simp only: tree_blocks.simps cm N(3) maps(2))
  have "wf_tree ?B (Suc g) c" using N(1,3,4) c(1) cm cong v wf_keys_D(7) [of "B ! nat c"] by simp
  moreover have "\<forall>d \<in> set (tree_blocks B h b) - set (tree_blocks B (Suc g) c). ?B ! nat d = B ! nat d"
    using update_other [OF _ v] tree_blocks_valid [OF t(1)] root_in_blocks [of c B "Suc g"] by (metis Diff_iff)
  ultimately have "wf_tree ?B h b \<and> tree_entries ?B h b = L @ tree_entries ?B (Suc g) c @ R \<and>
        mset (tree_blocks ?B h b) + mset (tree_blocks B (Suc g) c) = mset (tree_blocks B h b) + mset (tree_blocks ?B (Suc g) c)"
    by (intro c(4)) simp_all
  then show ?thesis using c(3) e1 e2 bl
    by (intro exI [of _ "L @ left_part p ?cs ?es @ ?cs ! p"] exI [of _ "xs @ R"]) simp
qed

text \<open>A tree that has lost a key.\<close>

lemma open_tree_drop:
  assumes o: "open_tree B R h b bs"
    and t: "wf_tree B' h b" "tree_entries B' h b = without k (tree_entries B h b)"
      "mset (tree_blocks B' h b) = mset (tree_blocks B h b)"
    and f: "length B' = length B" "super R' = super R"
    and same: "\<forall>d. valid_blk B d \<and> d \<notin> set (tree_blocks B h b) \<longrightarrow> B' ! nat d = B ! nat d"
      "\<forall>d \<in> set (tree_blocks B h b). (\<forall>t. 0 \<le> t \<and> t \<noteq> ZNKEYS \<longrightarrow> word_of (B' ! nat d) t = word_of (B ! nat d) t) \<and>
        (d \<noteq> b \<longrightarrow> int m \<le> nkeys_of (B' ! nat d))"
    and m: "0 < m"
  shows "open_tree B' R' h b bs \<and> others_kept B h b B' h \<and> stocked m B' h b"
proof -
  note D = open_tree_D [OF o]
  have set: "set (tree_blocks B' h b) = set (tree_blocks B h b)" using mset_eq_setD [OF t(3)] .
  have ty: "btype_of (B' ! nat d) = btype_of (B ! nat d)" if "d \<in> set (tree_blocks B h b)" for d
    using same(2) that by (auto simp: btype_of_def ZNKEYS_def)
  have out: "B' ! nat c = B ! nat c \<and> in_use B' c \<and> c \<notin> set (tree_blocks B' h b)"
    if c: "in_use B c" "c \<notin> set (tree_blocks B h b)" for c
    using same(1) c f(1) set by (auto simp: valid_blk_def)
  then have k: "others_kept B h b B' h" by (simp add: others_kept_def)
  have s: "stocked m B' h b" using same(2) set by (simp add: stocked_def)
  have "btype_of (B' ! nat c) = ZINUSE \<and> 0 < nkeys_of (B' ! nat c)" if c: "c \<in> set (tree_blocks B h b)" "c \<noteq> b" for c
    using D(9) [OF c] ty [OF c(1)] same(2) c m by fastforce
  then have "typed_tree B' h b"
    using D(10) ty [OF root_in_blocks] set by (simp add: typed_tree_def)
  moreover have "sorted_keys (tree_entries B' h b)" "no_dups (tree_entries B' h b)"
    using D(2,4) t(2) by (auto simp: sorted_keys_def no_dups_def sorted_wrt_map intro: sorted_wrt_filter)
  moreover have "distinct (tree_blocks B' h b)" using D(3) mset_eq_imp_distinct_iff [OF t(3)] by blast
  moreover have "free_list B' R' bs"
    using same(1) D(7) f by (intro free_list_use [OF D(5)]) auto
  moreover have "\<exists>c. in_use B' c \<and> c \<notin> set (tree_blocks B' h b)" using o out by (auto simp: open_tree_def)
  ultimately have "open_tree B' R' h b bs" using t(1) D(6) f(1) by (simp add: open_tree_def search_tree_def)
  then show ?thesis using k s by blast
qed

section \<open>The key leaves its leaf\<close>

lemma route_cong:
  "route B h b ps g c \<Longrightarrow> \<forall>x \<in> set ps. links (B' ! nat (fst x)) = links (B ! nat (fst x)) \<Longrightarrow> route B' h b ps g c"
  by (induction ps arbitrary: h b) auto

lemma route_avoid:
  "wf_tree B h b \<Longrightarrow> distinct (tree_blocks B h b) \<Longrightarrow> route B h b ps g c \<Longrightarrow> fst ` set ps \<subseteq> set (tree_blocks B h b) - {c}"
proof (induction ps arbitrary: h b)
  case (Cons x ps)
  obtain h' where h: "h = Suc h'" using Cons.prems(3) by (cases h) auto
  let ?l = "links (B ! nat b) ! snd x"
  have x: "fst x = b" "snd x < length (links (B ! nat b))" "route B h' ?l ps g c" using Cons.prems(3) h by simp_all
  then have "route B h b [x] h' ?l" using h by simp
  from route_context [OF Cons.prems(1,2) this]
  have l: "wf_tree B h' ?l" "distinct (tree_blocks B h' ?l)" "set (tree_blocks B h' ?l) \<subseteq> set (tree_blocks B h b)" by blast+
  have "c \<noteq> b" using route_context [OF Cons.prems] root_in_blocks [of c B g] by auto
  then show ?case using x(1) Cons.IH [OF l(1,2) x(3)] l(3) root_in_blocks [of b B h] by auto
qed simp

text \<open>The state after the key is gone: the tree has the other entries, and the way to the leaf that is one
  shorter is on the stack.\<close>

definition cut_out :: "memrec list \<Rightarrow> int set \<Rightarrow> st \<Rightarrow> nat \<Rightarrow> int \<Rightarrow> int list \<Rightarrow> nat \<Rightarrow> string \<Rightarrow> st \<Rightarrow> bool" where
  "cut_out B P R h b bs m k s' \<longleftrightarrow> (\<exists>B' R' ps. repr s' B' P R' \<and> open_tree B' R' h b bs \<and> others_kept B h b B' h \<and>
     stocked m B' h b \<and> tree_entries B' h b = without k (tree_entries B h b) \<and>
     (\<forall>t. 0 \<le> t \<and> t \<noteq> ZNKEYS \<longrightarrow> word_of (B' ! nat b) t = word_of (B ! nat b) t) \<and> same_rest R R' \<and>
     s_lfkey R' = s_lfkey R \<and> wf_stk (stk R') \<and> (\<exists>xs. stack_of (stk R') = xs @ flat (steps ps)) \<and>
     route B' h b ps 0 (s_lfblk R') \<and> (\<forall>d \<in> set (tree_blocks B' h b) - {b, s_lfblk R'}. int m < nkeys_of (B' ! nat d)))"

lemma cut_leaf:
  assumes r: "repr s B P R" "P \<subseteq> {b}" and o: "open_tree B R h b bs" and rt: "route B h b ps 0 c"
    and p: "s_lfblk R = c" "p < length (entries (B ! nat c))" "ke_key (entries (B ! nat c) ! p) = k"
    and w: "wf_stk (stk R)" "stack_of (stk R) = xs @ flat (steps ps)" and m: "stocked (Suc m) B h b" "0 < m"
  shows "runs (bremky c (int p) s) (cut_out B P R h b bs m k)"
proof -
  note D = open_tree_D [OF o]
  let ?m = "B ! nat c" let ?E = "entries ?m"
  have c: "wf_tree B 0 c" "c \<in> set (tree_blocks B h b)" using route_context [OF D(1,3) rt] by auto
  have v: "valid_blk B c" "wf_keys ?m" "nkeys_of ?m = int (length ?E)" using c(1) wf_keys_D(7) [of ?m] by simp_all
  have rm: "room P c" using card_mono [OF _ r(2)] by (simp add: room_def ZMXBLK_def)
  obtain m' s1 where s1: "bremky c (int p) s = Some s1" "rem_ok p ?m m'" "repr s1 (B[nat c := m']) P R"
    using bremky_spec [OF r(1) v(1) rm refl v(2), of "int p"] p(2) v(3) by (auto simp: runs_def)
  let ?B = "B[nat c := m']"
  have lf: "leaf_of ?m (remove_at p ?E) m'" by (rule leaf_rem [OF tree_leaf [OF c(1)] p(2) s1(2)])
  obtain L T where t: "tree_entries B h b = L @ ?E @ T" "wf_tree ?B h b" "tree_entries ?B h b = L @ remove_at p ?E @ T"
      "mset (tree_blocks ?B h b) = mset (tree_blocks B h b)"
    using leaf_change [OF D(1,3) rt lf] by blast
  have "tree_entries B h b = (L @ take p ?E) @ ?E ! p # (drop (Suc p) ?E @ T)"
    using id_take_nth_drop [OF p(2)] t(1) by simp
  then have e: "tree_entries ?B h b = without k (tree_entries B h b)"
    using without_split [of "L @ take p ?E" "?E ! p" "drop (Suc p) ?E @ T" k] D(2) p(3) t(3) by (simp add: remove_at_def)
  have same: "?B ! nat d = B ! nat d" if "valid_blk B d" "d \<noteq> c" for d using update_other [OF that(1) v(1) that(2)] .
  have new: "?B ! nat c = m'" using update_same [OF v(1)] .
  have words: "word_of (?B ! nat d) t = word_of (B ! nat d) t" if "0 \<le> t" "t \<noteq> ZNKEYS" "d \<in> set (tree_blocks B h b)" for d t
    using leaf_D(9) [OF lf that(1,2)] new same [of d] tree_blocks_valid [OF D(1) that(3)] by (cases "d = c") auto
  have n: "int (if d = c then m else Suc m) \<le> nkeys_of (?B ! nat d)" if d: "d \<in> set (tree_blocks B h b)" "d \<noteq> b" for d
  proof (cases "d = c")
    case True
    have "nkeys_of m' = nkeys_of ?m - 1" using s1(2) by (simp add: rem_ok_def)
    moreover have "int (Suc m) \<le> nkeys_of ?m" using m(1) d True unfolding stocked_def by blast
    ultimately show ?thesis using new True by simp
  next
    case False
    then show ?thesis using same [OF tree_blocks_valid [OF D(1) d(1)]] m(1) d unfolding stocked_def by auto
  qed
  have "int m \<le> nkeys_of (?B ! nat d)" if "d \<in> set (tree_blocks B h b)" "d \<noteq> b" for d
    using n [OF that] by (simp split: if_splits)
  then have od: "open_tree ?B R h b bs \<and> others_kept B h b ?B h \<and> stocked m ?B h b"
    using words same c(2) by (intro open_tree_drop [OF o t(2) e t(4) _ _ _ _ m(2)]) auto
  have "route ?B h b ps 0 c"
    using route_avoid [OF D(1,3) rt] same tree_blocks_valid [OF D(1)] by (intro route_cong [OF rt]) fastforce
  moreover have "int m < nkeys_of (?B ! nat d)" if "d \<in> set (tree_blocks ?B h b) - {b, c}" for d
    using n [of d] that mset_eq_setD [OF t(4)] by auto
  ultimately have "cut_out B P R h b bs m k s1"
    unfolding cut_out_def using s1(3) od e words root_in_blocks w p(1)
    by (intro exI [of _ ?B] exI [of _ R] exI [of _ ps]) auto
  then show ?thesis using s1(1) by (simp add: runs_def)
qed

text \<open>A key of an inner block: the key before it takes its place.\<close>

lemma key_before:
  assumes t: "wf_tree B h b" "distinct (tree_blocks B h b)" "sorted_keys (tree_entries B h b)" "route B h b ps (Suc g) c"
    and p: "p < length (entries (B ! nat c))" "l = links (B ! nat c) ! p" and f: "stuffed B (Suc g) c"
  defines "v \<equiv> rightmost B g l" and "e \<equiv> entries (B ! nat c) ! p"
  shows "route B h b (ps @ (c, p) # spine B g l) 0 v" "v \<noteq> c" "0 < length (entries (B ! nat v))"
    "\<exists>L R. tree_entries B h b = L @ List.last (entries (B ! nat v)) # e # R \<and> set (take p (entries (B ! nat c))) \<subseteq> set L"
proof -
  let ?x = "List.last (entries (B ! nat v))"
  have c: "wf_tree B (Suc g) c" "distinct (tree_blocks B (Suc g) c)" using route_context [OF t(1,2,4)] by blast+
  have pl: "p < length (links (B ! nat c))" using wf_tree_links [OF c(1)] p(1) by simp
  then have ll: "l \<in> set (links (B ! nat c))" using p(2) by simp
  have s: "stuffed B g l" using stuffed_child [OF f ll] .
  have "route B g l (spine B g l) 0 v" using spine_route s v_def by blast
  then have "route B (Suc g) c ((c, p) # spine B g l) 0 v" using pl p(2) by simp
  then show rt: "route B h b (ps @ (c, p) # spine B g l) 0 v" unfolding route_append using t(4) by blast
  have vin: "v \<in> set (tree_blocks B g l)" using rightmost_in s v_def by blast
  then show "v \<noteq> c" using c(2) ll by auto
  have "wf_keys (B ! nat v)" "0 < nkeys_of (B ! nat v)"
    using vin s route_context [OF t(1,2) rt] by auto
  then show "0 < length (entries (B ! nat v))" using wf_keys_D(7) [of "B ! nat v"] by linarith
  obtain L R where "tree_entries B h b = L @ tree_entries B g l @ e # R" "set (take p (entries (B ! nat c))) \<subseteq> set L"
    using entry_left [OF t(1,2,4) p(1)] p(2) e_def by blast
  moreover obtain Y where "tree_entries B g l = Y @ [?x]"
    using spine_last [OF s] append_butlast_last_id [of "tree_entries B g l"] v_def by metis
  ultimately show "\<exists>L R. tree_entries B h b = L @ ?x # e # R \<and> set (take p (entries (B ! nat c))) \<subseteq> set L"
    by (intro exI [of _ "L @ Y"] exI [of _ R]) auto
qed

lemma swap_change:
  assumes t: "wf_tree B h b" "distinct (tree_blocks B h b)" "sorted_keys (tree_entries B h b)" "route B h b ps (Suc g) c"
    and p: "p < length (entries (B ! nat c))" "l = links (B ! nat c) ! p" and f: "stuffed B (Suc g) c"
    and v: "v = rightmost B g l" "e = entries (B ! nat c) ! p" "x = List.last (entries (B ! nat v))"
    and mv: "leaf_of (B ! nat v) (butlast (entries (B ! nat v))) mv"
    and mc: "node (B ! nat c) ((entries (B ! nat c))[p := x]) (links (B ! nat c)) mc"
  defines "B' \<equiv> B[nat v := mv, nat c := mc]"
  shows "wf_tree B' h b \<and> tree_entries B' h b = without (ke_key e) (tree_entries B h b) \<and>
    mset (tree_blocks B' h b) = mset (tree_blocks B h b) \<and> route B' h b (ps @ (c, p) # spine B g l) 0 v"
proof -
  note K = key_before [OF t p f, folded v(1,2), folded v(3)]
  let ?E = "entries (B ! nat v)" and ?B = "B[nat v := mv]" and ?es = "entries (B ! nat c)"
  have val: "valid_blk B c" "valid_blk B v" using route_context [OF t(1,2,4)] route_context [OF t(1,2) K(1)] by auto
  have E: "?E = butlast ?E @ [x]" using K(3) v(3) by simp
  obtain L R where T: "tree_entries B h b = L @ x # e # R" using K(4) by blast
  obtain L3 R3 where 3: "tree_entries B h b = L3 @ ?E @ R3" "wf_tree ?B h b" "tree_entries ?B h b = L3 @ butlast ?E @ R3"
      "mset (tree_blocks ?B h b) = mset (tree_blocks B h b)"
    using leaf_change [OF t(1,2) K(1) mv] by blast
  have "tree_entries B h b = (L3 @ butlast ?E) @ x # R3" using 3(1) by (subst (asm) E) simp
  then have u: "L3 @ butlast ?E = L" "R3 = e # R"
    using sorted_split_unique [of L x "e # R" "L3 @ butlast ?E" x R3] T t(3) by simp_all
  have Tv: "tree_entries ?B h b = L @ e # R" using 3(3) u by simp
  have s: "sorted_keys (L @ e # R)" using t(3) sorted_keys_append [of "[x]" "e # R"] unfolding T by (auto simp: sorted_keys_append)
  have av: "fst ` set (ps @ (c, p) # spine B g l) \<subseteq> set (tree_blocks B h b) - {v}" using route_avoid [OF t(1,2) K(1)] .
  have same: "?B ! nat (fst y) = B ! nat (fst y)" if "y \<in> set (ps @ (c, p) # spine B g l)" for y
  proof -
    have y: "fst y \<in> set (tree_blocks B h b)" "fst y \<noteq> v" using av that by blast+
    show ?thesis by (rule update_other [OF tree_blocks_valid [OF t(1) y(1)] val(2) y(2)])
  qed
  have rv: "route ?B h b (ps @ (c, p) # spine B g l) 0 v" by (rule route_cong [OF K(1)]) (use same in simp)
  have rc: "route ?B h b ps (Suc g) c" by (rule route_cong [OF t(4)]) (use same in simp)
  have c: "?B ! nat c = B ! nat c" using same [of "(c, p)"] by simp
  have d: "distinct (tree_blocks ?B h b)" using t(2) mset_eq_imp_distinct_iff [OF 3(4)] by blast
  obtain L1 R1 where 1: "tree_entries ?B h b = L1 @ e # R1" "wf_tree B' h b" "tree_entries B' h b = L1 @ x # R1"
      "mset (tree_blocks B' h b) = mset (tree_blocks ?B h b)"
    using entry_change [OF 3(2) d rc, unfolded c, OF p(1) mc] v(2) B'_def by auto
  have "L1 = L" "R1 = R" using sorted_split_unique [of L e R L1 e R1] s 1(1) Tv by simp_all
  then have "tree_entries B' h b = (L @ [x]) @ R" using 1(3) by simp
  moreover have "without (ke_key e) ((L @ [x]) @ e # R) = (L @ [x]) @ R"
    using t(3) T by (intro without_split) simp_all
  ultimately have "tree_entries B' h b = without (ke_key e) (tree_entries B h b)" using T by simp
  moreover have "route B' h b (ps @ (c, p) # spine B g l) 0 v"
  proof (rule route_cong [OF rv], intro ballI)
    fix y assume "y \<in> set (ps @ (c, p) # spine B g l)"
    then have "valid_blk B (fst y)" using av tree_blocks_valid [OF t(1)] by blast
    then have "fst y = c \<or> B' ! nat (fst y) = ?B ! nat (fst y)" using val(1) update_other [of ?B "fst y" c] by (auto simp: B'_def)
    moreover have "links (B' ! nat c) = links (?B ! nat c)" using c node_D(3) [OF mc] update_same [of ?B c] val(1) by (simp add: B'_def)
    ultimately show "links (B' ! nat (fst y)) = links (?B ! nat (fst y))" by auto
  qed
  ultimately show ?thesis using 1(2,4) 3(4) by simp
qed

text \<open>The calls of \<open>bdelk1\<close> between its first search and the removal, for a key of an inner block.\<close>

definition take_before :: "int \<Rightarrow> int \<Rightarrow> int \<Rightarrow> int \<Rightarrow> st \<Rightarrow> (bool \<times> st) option" where
  "take_before blk pos llink rlink s = do {
     (idx, s) \<leftarrow> bleaf 1 s;
     ((kep, r), s) \<leftarrow> srh_parent (set_lfpos (s_lfpos s - 1) s);
     result \<leftarrow> s_result r;
     if result \<noteq> 0 then Some (True, bterr ''BDELK1'' QDELRP (Some (itostr (s_lfblk s))) s)
     else do { k \<leftarrow> kep_deref kep s; s \<leftarrow> brepky blk pos k llink rlink s; Some (False, s) } }"

lemma cut_inner:
  assumes r: "repr s B P R" "P \<subseteq> {b}" and o: "open_tree B R h b bs" and rt: "route B h b ps (Suc g) c"
    and p: "s_lfblk R = c" "s_lfpos R = int p" "p < length (entries (B ! nat c))" "ke_key (entries (B ! nat c) ! p) = k"
    and w: "wf_stk (stk R)" "stack_of (stk R) = xs @ flat (steps ps)" "length xs \<le> 2" and m: "stocked (Suc m) B h b" "0 < m"
  shows "runs (do { (fail, s) \<leftarrow> take_before c (int p) (links (B ! nat c) ! p) (links (B ! nat c) ! Suc p) s;
      s \<leftarrow> bremky (s_lfblk s) (s_lfpos s) s; Some (fail, s) }) (\<lambda>(fail, s'). \<not> fail \<and> cut_out B P R h b bs m k s')"
proof -
  note D = open_tree_D [OF o]
  let ?m = "B ! nat c" let ?es = "entries ?m" and ?ls = "links ?m"
  define l where "l = ?ls ! p"
  define v where "v = rightmost B g l"
  define n where "n = length (entries (B ! nat v))"
  define x where "x = List.last (entries (B ! nat v))"
  have c: "wf_tree B (Suc g) c" "c \<in> set (tree_blocks B h b)" "set (tree_blocks B (Suc g) c) \<subseteq> set (tree_blocks B h b)"
    using route_context [OF D(1,3) rt] root_in_blocks [of c B "Suc g"] by auto
  have card: "card P < ZMXBLK" using card_mono [OF _ r(2)] by (simp add: ZMXBLK_def)
  have h0: "h \<noteq> 0" using route_height [OF rt] by simp
  then have ne: "0 < nkeys_of (B ! nat d)" if "d \<in> set (tree_blocks B h b)" for d
    using open_filled [OF o] that by (simp add: filled_def)
  have f: "stuffed B (Suc g) c" using c ne by blast
  note K = key_before [OF D(1,3,2) rt p(3) l_def f, folded v_def, folded x_def]
  have vt: "wf_tree B 0 v" "v \<in> set (tree_blocks B h b)" using route_context [OF D(1,3) K(1)] by auto
  have val: "valid_blk B c" "wf_keys ?m" "valid_blk B v" "wf_keys (B ! nat v)" "nkeys_of (B ! nat v) = int n"
    using c(1) vt(1) wf_keys_D(7) [of "B ! nat v"] by (simp_all add: n_def)
  have room: "room P d" for d using card by (simp add: room_def)
  have vb: "v \<noteq> b"
    using route_context [OF D(1,3) K(1)] by auto
  have deep: "length (stack_of (stk R)) + 2 * Suc g \<le> nat STKMAX"
    using w(2,3) D(8) route_height [OF rt] by (simp add: length_flat)
  obtain i s1 R1 where 1: "bleaf 1 s = Some (i, s1)" "repr s1 B P R1" "same_rest R R1" "super R1 = super R"
      "s_lfkey R1 = s_lfkey R" "wf_stk (stk R1)" "s_lfblk R1 = v" "s_lfpos R1 = int n"
      "stack_of (stk R1) = stack_of (stk R) @ flat (steps ((c, p) # spine B g l))"
    using bleaf_right [OF r(1) card, of g p l] f p l_def w(1) deep val(5) unfolding v_def by (auto simp: runs_def)
  let ?R2 = "set_lfpos (int n - 1) R1"
  have r2: "repr (set_lfpos (s_lfpos s1 - 1) s1) B P ?R2"
    using repr_frame(1) [OF 1(2)] repr_fields(6) [OF 1(2)] 1(8) by simp
  have n: "0 < n" using K(3) by (simp add: n_def)
  then have R2: "s_lfblk ?R2 = v" "s_lfpos ?R2 = int (n - 1)" "n - 1 < length (entries (B ! nat v))"
    using 1(7) n unfolding n_def [symmetric] by simp_all
  have xn: "entries (B ! nat v) ! (n - 1) = x" using n by (simp add: x_def n_def last_conv_nth)
  let ?R3 = "?R2\<lparr>srh_keyent := x\<rparr>"
  obtain a s2 where 2: "srh_parent (set_lfpos (s_lfpos s1 - 1) s1) = Some ((True, a), s2)" "s_result a = Some 0" "repr s2 B P ?R3"
    using srh_parent_spec [OF r2 card R2(1,2) val(3,4) R2(3)] xn by (auto simp: runs_def)
  have kx: "srh_keyent s2 = x" using repr_fields [OF 2(3)] by simp
  obtain L T where LT: "tree_entries B h b = L @ x # ?es ! p # T" "set (take p ?es) \<subseteq> set L" using K(4) by blast
  have es: "?es[p := x] = take p ?es @ x # drop (Suc p) ?es" using p(3) by (simp add: upd_conv_take_nth_drop)
  have lt: "ke_key x < ke_key (?es ! p)" "\<forall>y \<in> set (take p ?es). ke_key y < ke_key x"
    using D(2) LT sorted_keys_append [of "[x]" "?es ! p # T"] by (auto simp: sorted_keys_append)
  have "sorted_keys (take p ?es @ ?es ! p # drop (Suc p) ?es)"
    using wf_keys_D(4) [OF val(2)] id_take_nth_drop [OF p(3)] by simp
  then have so: "sorted_keys (?es[p := x])"
    using lt unfolding es sorted_keys_append sorted_keys_Cons by auto
  obtain mc s3 where 3: "brepky c (int p) x (?ls ! p) (?ls ! Suc p) s2 = Some s3" "repr s3 (B[nat c := mc]) P ?R3"
      "node ?m (?es[p := x]) ?ls mc"
    using brepky_spec [OF 2(3) val(1) room val(2) p(3) so, of "?ls ! p" "?ls ! Suc p"] by (auto simp: runs_def)
  let ?Bc = "B[nat c := mc]"
  have vc: "?Bc ! nat v = B ! nat v" using update_other [OF val(3,1)] K(2) by simp
  have lf3: "s_lfblk s3 = v" "s_lfpos s3 = int n - 1" using repr_fields(6) [OF 3(2)] R2(1) by simp_all
  obtain mv s4 where 4: "bremky v (int n - 1) s3 = Some s4" "rem_ok (n - 1) (B ! nat v) mv" "repr s4 (?Bc[nat v := mv]) P ?R3"
    using bremky_spec [OF 3(2) _ room refl, of v "int n - 1"] val(3,4,5) vc n by (auto simp: runs_def nat_diff_distrib)
  have lv: "leaf_of (B ! nat v) (butlast (entries (B ! nat v))) mv"
    using leaf_rem [OF tree_leaf [OF vt(1)] R2(3) 4(2)] n by (simp add: remove_at_def n_def butlast_conv_take)
  define B' where "B' = B[nat v := mv, nat c := mc]"
  have B': "?Bc[nat v := mv] = B'" unfolding B'_def
    using K(2) val(1,3) by (intro list_update_swap) (auto simp: valid_blk_def eq_nat_nat_iff)
  note S = swap_change [OF D(1,3,2) rt p(3) l_def f v_def refl x_def lv 3(3), folded B'_def, unfolded p(4)]
  have new: "B' ! nat c = mc" "B' ! nat v = mv" using update_same [of _ c] update_same [of B v] val(1,3) vc K(2)
    update_other [of "B[nat v := mv]" v c mc] by (simp_all add: B'_def)
  have same: "B' ! nat d = B ! nat d" if "valid_blk B d" "d \<noteq> c" "d \<noteq> v" for d
    using update_other [of "B[nat v := mv]" d c mc] update_other [of B d v mv] that val(1,3) by (simp add: B'_def)
  have words: "word_of (B' ! nat d) t = word_of (B ! nat d) t" if "0 \<le> t" "t \<noteq> ZNKEYS" "d \<in> set (tree_blocks B h b)" for d t
    using node_D(9) [OF 3(3) that(1,2)] leaf_D(9) [OF lv that(1,2)] new same [of d] tree_blocks_valid [OF D(1) that(3)]
    by (cases "d = c"; cases "d = v") auto
  have nc: "nkeys_of mc = nkeys_of ?m" "nkeys_of mv = int n - 1"
    using node_D(4) [OF 3(3)] wf_keys_D(7) [OF val(2)] 4(2) val(5) by (simp_all add: rem_ok_def)
  have nk: "int (if d = v then m else Suc m) \<le> nkeys_of (B' ! nat d)" if d: "d \<in> set (tree_blocks B h b)" "d \<noteq> b" for d
  proof -
    have "int (Suc m) \<le> nkeys_of (B ! nat d)" using m(1) d unfolding stocked_def by blast
    then show ?thesis using nc new same [OF tree_blocks_valid [OF D(1) d(1)]] val(5) by (cases "d = c"; cases "d = v") auto
  qed
  have "int m \<le> nkeys_of (B' ! nat d)" if "d \<in> set (tree_blocks B h b)" "d \<noteq> b" for d
    using nk [OF that] by (simp split: if_splits)
  moreover have "B' ! nat d = B ! nat d" if "valid_blk B d" "d \<notin> set (tree_blocks B h b)" for d
    using same [OF that(1)] that(2) c(2) vt(2) by blast
  moreover have "length B' = length B" by (simp add: B'_def)
  ultimately have od: "open_tree B' ?R3 h b bs \<and> others_kept B h b B' h \<and> stocked m B' h b"
    using words S 1(4) by (intro open_tree_drop [OF o _ _ _ _ _ _ _ m(2)]) auto
  have "int m < nkeys_of (B' ! nat d)" if "d \<in> set (tree_blocks B' h b) - {b, v}" for d
    using nk [of d] that S mset_eq_setD [of "tree_blocks B' h b" "tree_blocks B h b"] by auto
  then have "cut_out B P R h b bs m k s4"
    unfolding cut_out_def using 4(3) od S words root_in_blocks w 1 R2(1) unfolding B'
    by (intro exI [of _ B'] exI [of _ ?R3] exI [of _ "ps @ (c, p) # spine B g l"]) auto
  moreover have "take_before c (int p) (?ls ! p) (?ls ! Suc p) s = Some (False, s3)"
    using 1(1) 2(1,2) 3(1) kx by (simp add: take_before_def kep_deref_def)
  ultimately show ?thesis using 4(1) lf3 by (simp add: runs_def)
qed

section \<open>The key is gone and the tree in order\<close>

definition erased :: "memrec list \<Rightarrow> int set \<Rightarrow> st \<Rightarrow> nat \<Rightarrow> int \<Rightarrow> nat \<Rightarrow> string \<Rightarrow> st \<Rightarrow> bool" where
  "erased B P R h b m k s' \<longleftrightarrow> (\<exists>B' P' R' h' bs'. repr s' B' P' R' \<and> P' \<subseteq> P \<and> open_tree B' R' h' b bs' \<and>
     others_kept B h b B' h' \<and> stocked m B' h' b \<and> tree_entries B' h' b = without k (tree_entries B h b) \<and>
     (\<forall>t. 0 \<le> t \<and> t \<noteq> ZNKEYS \<longrightarrow> word_of (B' ! nat b) t = word_of (B ! nat b) t) \<and> same_rest R R' \<and>
     s_lfkey R' = s_lfkey R \<and> wf_stk (stk R'))"

definition repair :: "st \<Rightarrow> st option" where
  "repair s = do {
     (type, s) \<leftarrow> bgtinf (s_lfblk s) ZBTYPE s;
     if type \<noteq> ZROOT then do {
       (cblk, s) \<leftarrow> bjnblk s;
       s \<leftarrow> (if cblk = ZNULL then balblk s else Some s);
       demote_loop cblk s
     } else Some s }"

lemma type_block:
  assumes r: "repr s B P R" "card P < ZMXBLK" and c: "valid_blk B c" "wf_keys (B ! nat c)"
  shows "runs (bgtinf c ZBTYPE s) (\<lambda>(t, s'). t = btype_of (B ! nat c) \<and> repr s' B P R)"
proof -
  have "mem_info (B ! nat c) ZBTYPE = Some (btype_of (B ! nat c))" "ZBTYPE < int ZINFSZ"
    using mem_info_type [OF wf_keys_D(1) [OF c(2)]] by (simp_all add: ZBTYPE_def ZINFSZ_def)
  then show ?thesis using bgtinf_spec [OF r(1) c(1)] r(2) by (auto simp: room_def runs_def)
qed

lemma repair_erased:
  assumes c: "cut_out B P R h b bs m k s1" and P: "P \<subseteq> {b}" and m: "0 < m"
  shows "runs (repair s1) (erased B P R h b m k)"
proof -
  obtain B' R' ps xs where C: "repr s1 B' P R'" "open_tree B' R' h b bs" "others_kept B h b B' h" "stocked m B' h b"
      "tree_entries B' h b = without k (tree_entries B h b)"
      "\<forall>t. 0 \<le> t \<and> t \<noteq> ZNKEYS \<longrightarrow> word_of (B' ! nat b) t = word_of (B ! nat b) t" "same_rest R R'"
      "s_lfkey R' = s_lfkey R" "wf_stk (stk R')" "stack_of (stk R') = xs @ flat (steps ps)"
      "route B' h b ps 0 (s_lfblk R')" "\<forall>d \<in> set (tree_blocks B' h b) - {b, s_lfblk R'}. int m < nkeys_of (B' ! nat d)"
    using c unfolding cut_out_def by blast
  note D = open_tree_D [OF C(2)]
  let ?v = "s_lfblk R'"
  have v: "wf_tree B' 0 ?v" "?v \<in> set (tree_blocks B' h b)" using route_context [OF D(1,3) C(11)] by auto
  have card: "card P < ZMXBLK" using card_mono [OF _ P] by (simp add: ZMXBLK_def)
  have lf: "s_lfblk s1 = ?v" using repr_fields(6) [OF C(1)] by simp
  have "valid_blk B' ?v" "wf_keys (B' ! nat ?v)" using v(1) by simp_all
  then obtain s2 where s2: "bgtinf ?v ZBTYPE s1 = Some (btype_of (B' ! nat ?v), s2)" "repr s2 B' P R'"
    using type_block [OF C(1) card] by (auto simp: runs_def)
  show ?thesis
  proof (cases ps rule: rev_cases)
    case Nil
    then have "?v = b" using C(11) by simp
    then have "repair s1 = Some s2" using s2(1) lf D(10) by (simp add: repair_def)
    moreover have "erased B P R h b m k s2" unfolding erased_def using s2(2) C by blast
    ultimately show ?thesis by (simp add: runs_def)
  next
    case (snoc qs y)
    obtain pb q where y: "y = (pb, q)" by (cases y)
    obtain g where g: "route B' h b qs g pb" "0 < g" "g - 1 = 0" "q < length (links (B' ! nat pb))" "links (B' ! nat pb) ! q = ?v"
      using C(11) unfolding snoc route_append y by auto
    then have "g = 1" by simp
    note rt = g(1) [unfolded this] and q = g(4,5)
    have "fst ` set ps \<subseteq> set (tree_blocks B' h b) - {?v}" using route_avoid [OF D(1,3) C(11)] .
    then have pb: "pb \<in> set (tree_blocks B' h b)" "pb \<noteq> ?v" using snoc y by auto
    then have mp: "pb = b \<or> int m < nkeys_of (B' ! nat pb)" using C(12) by blast
    have "?v \<noteq> b" using route_context [OF D(1,3) C(11)] snoc by auto
    then have ty: "btype_of (B' ! nat ?v) \<noteq> ZROOT" using D(9) [OF v(2)] types_differ(3) by simp
    have a: "at_leaf B' R' pb q ?v" using C(9,10) q snoc y by (simp add: at_leaf_def)
    have "repair s1 = do { (cblk, s) \<leftarrow> bjnblk s2; s \<leftarrow> (if cblk = ZNULL then balblk s else Some s); demote_loop cblk s }"
      using s2(1) lf ty by (simp add: repair_def)
    moreover have "erased B P R h b m k s'" if "mended B' P R' h b m s'" for s'
    proof -
      obtain B2 P2 R2 h2 bs2 where M: "repr s' B2 P2 R2" "P2 \<subseteq> P" "reshaped B' R' h b B2 R2 h2 bs2" "stocked m B2 h2 b"
          "wf_stk (stk R2)" "s_lfkey R2 = s_lfkey R'"
        using \<open>mended B' P R' h b m s'\<close> unfolding mended_def by blast
      note S = M(3) [unfolded reshaped_def]
      have "others_kept B h b B2 h2" using others_kept_trans [OF C(3)] S by blast
      moreover have "same_rest R R2" using same_rest_trans [OF C(7)] S by blast
      ultimately show ?thesis unfolding erased_def using M S C(5,6,8)
        by (intro exI [of _ B2] exI [of _ P2] exI [of _ R2] exI [of _ h2] exI [of _ bs2]) simp
    qed
    ultimately show ?thesis
      using runs_conseq [OF repair_spec [OF s2(2) P C(2) rt a C(4) m mp]] by simp
  qed
qed

section \<open>\<open>bdelk1\<close>\<close>

definition bdelk1_end :: "st \<Rightarrow> (int \<times> st) option" where
  "bdelk1_end s = do {
     s \<leftarrow> (if \<not> shared s \<and> btgerr s = 0 then do {
         ((status, val), s) \<leftarrow> bfndky (s_lfkey s) None s;
         Some (if status = QNOKEY then clear_err s else s)
       } else Some s);
     Some (btgerr s, s) }"

lemma bdelk1_steps:
  assumes s: "s_lfexct s" "s_draddr s = ZNULL" and b: "bsrhbk (s_lfblk s) (srh_args None (s_lfpos s)) s = Some ((kep, a), s1)"
    and a: "s_loc a = s_lfpos s" "s_result a = Some 0" "s_key a = Some k" "s_link1 a = Some l" "s_link2 a = Some r"
    and t: "(if l \<noteq> ZNULL then take_before (s_lfblk s) (s_lfpos s) l r s1 else Some (False, s1)) = Some (False, s2)"
    and u: "bremky (s_lfblk s2) (s_lfpos s2) s2 = Some s3" "repair s3 = Some s4"
  shows "bdelk1 (Some k) s = bdelk1_end s4"
proof -
  have d: "btdeldup s = Some (ZNULL, s)" using s(2) by (simp add: btdeldup_def)
  have r: "Option.bind (bgtinf (s_lfblk s3) ZBTYPE s3) (\<lambda>(type, s). Option.bind
      (if type \<noteq> ZROOT then do { (cblk, s) \<leftarrow> bjnblk s; s \<leftarrow> (if cblk = ZNULL then balblk s else Some s); demote_loop cblk s }
       else Some s) K) = K s4" for K :: "st \<Rightarrow> 'a option"
    using u(2) by (auto simp: repair_def bind_eq_Some_conv split: prod.splits if_splits)
  show ?thesis
  proof (cases "l = ZNULL")
    case True
    then have "s2 = s1" using t by simp
    then show ?thesis using s b a True u(1) d
      by (simp add: bdelk1_def Let_def strcmp_eq r bdelk1_end_def)
  next
    case False
    then obtain i sa k2 a2 sb e where "bleaf 1 s1 = Some (i, sa)" "srh_parent (set_lfpos (s_lfpos sa - 1) sa) = Some ((k2, a2), sb)"
        "s_result a2 = Some 0" "kep_deref k2 sb = Some e" "brepky (s_lfblk s) (s_lfpos s) e l r sb = Some s2"
      using t by (auto simp: take_before_def bind_eq_Some_conv split: if_splits)
    then show ?thesis using s b a u(1) d False
      by (simp add: bdelk1_def Let_def strcmp_eq r bdelk1_end_def)
  qed
qed

text \<open>The position that a search for a key of the tree has left, and the search of its block from there.\<close>

lemma found_at:
  assumes o: "open_tree B R1 h b bs" and f: "search_post B h b k (find_start k R0) res R" "fst res = 0"
  shows "\<exists>ps g c p. route B h b ps g c \<and> valid_blk B c \<and> wf_keys (B ! nat c) \<and> p < length (entries (B ! nat c)) \<and>
    ke_key (entries (B ! nat c) ! p) = k \<and> wf_stk (stk R) \<and> stack_of (stk R) = [ZNULL, ZNULL] @ flat (steps ps) \<and>
    lf R = \<lparr>lfkey = k, lfblk = c, lfpos = int p, lfexct = True, draddr = ZNULL\<rparr>"
proof -
  note D = open_tree_D [OF o] and S = search_post_D [OF f(1)]
  define c where "c = List.last (path B h b k)"
  define p where "p = place B k c"
  define ps where "ps = map (\<lambda>c. (c, place B k c)) (butlast (path B h b k))"
  obtain g where rt: "route B h b ps g c" using path_route [OF D(1), of k] unfolding ps_def c_def by blast
  let ?m = "B ! nat c"
  have c: "wf_tree B g c" using route_context [OF D(1,3) rt] by blast
  then have v: "valid_blk B c" "wf_keys ?m" using wf_tree_D by blast+
  have hk: "has_key B k c" using S(5) f(2) by (simp add: c_def)
  then have p: "p < length (entries ?m)" "ke_key (entries ?m ! p) = k"
    using lower_present [OF wf_keys_D(4) [OF v(2)]] by (auto simp: has_key_def p_def)
  have nk: "nkeys_of ?m = int (length (entries ?m))" using wf_keys_D(7) [OF v(2)] by simp
  have R: "lf R = \<lparr>lfkey = k, lfblk = c, lfpos = int p, lfexct = True, draddr = ZNULL\<rparr>" "wf_stk (stk R)"
      "stack_of (stk R) = [ZNULL, ZNULL] @ flat (steps ps)"
    using f(1) hk p(1) nk
    by (auto simp: search_post_def Let_def find_start_fields trail_flat passed_def ps_def c_def p_def end_pos_def comp_def split: if_splits)
  then show ?thesis using rt v p by blast
qed

lemma found_search:
  assumes r: "repr s B P R" "card P < ZMXBLK" and c: "valid_blk B c" "wf_keys (B ! nat c)"
    and p: "p < length (entries (B ! nat c))" "ke_key (entries (B ! nat c) ! p) = k" and k: "k = strncpy_term ZKYLEN k"
  shows "\<exists>a s1. bsrhbk c (srh_args None (int p)) s = Some ((True, a), s1) \<and> s_loc a = int p \<and> s_result a = Some 0 \<and>
    s_key a = Some k \<and> s_link1 a = Some (links (B ! nat c) ! p) \<and> s_link2 a = Some (links (B ! nat c) ! Suc p) \<and>
    repr s1 B P (R\<lparr>srh_keyent := entries (B ! nat c) ! p\<rparr>)"
  using bsrhbk_pos [OF r(1) c(1) _ refl c(2), of "srh_args None (int p)"] p wf_keys_D(7) [OF c(2)] k [symmetric] r(2)
  by (auto simp: runs_def srh_args_def room_def)

lemma bdelk1_erases:
  assumes r: "repr s B P R" "P \<subseteq> {b}" and o: "open_tree B R h b bs"
    and f: "search_post B h b k (find_start k R0) res R" "fst res = 0" and k: "k = strncpy_term ZKYLEN k"
    and m: "stocked (Suc m) B h b" "0 < m"
  shows "\<exists>s'. bdelk1 (Some k) s = bdelk1_end s' \<and> erased B P R h b m k s'"
proof -
  note D = open_tree_D [OF o]
  obtain ps g c p where rt: "route B h b ps g c" and v: "valid_blk B c" "wf_keys (B ! nat c)"
      and p: "p < length (entries (B ! nat c))" "ke_key (entries (B ! nat c) ! p) = k"
      and R: "wf_stk (stk R)" "stack_of (stk R) = [ZNULL, ZNULL] @ flat (steps ps)"
        "lf R = \<lparr>lfkey = k, lfblk = c, lfpos = int p, lfexct = True, draddr = ZNULL\<rparr>"
    using found_at [OF o f] by blast
  let ?m = "B ! nat c" let ?l = "links ?m ! p" and ?r = "links ?m ! Suc p"
  have c: "wf_tree B g c" using route_context [OF D(1,3) rt] by blast
  have card: "card P < ZMXBLK" using card_mono [OF _ r(2)] by (simp add: ZMXBLK_def)
  have nk: "nkeys_of ?m = int (length (entries ?m))" using wf_keys_D(7) [OF v(2)] by simp
  have lf: "lf s = lf R" using repr_fields(6) [OF r(1)] .
  obtain a s1 where 1: "bsrhbk c (srh_args None (int p)) s = Some ((True, a), s1)" "s_loc a = int p" "s_result a = Some 0"
      "s_key a = Some k" "s_link1 a = Some ?l" "s_link2 a = Some ?r" "repr s1 B P (R\<lparr>srh_keyent := entries ?m ! p\<rparr>)"
    using found_search [OF r(1) card v p k] by blast
  let ?R = "R\<lparr>srh_keyent := entries ?m ! p\<rparr>"
  have o1: "open_tree B ?R h b bs" using o open_tree_super [of ?R R] by simp
  have "\<exists>s2 s3. (if ?l \<noteq> ZNULL then take_before c (int p) ?l ?r s1 else Some (False, s1)) = Some (False, s2) \<and>
      bremky (s_lfblk s2) (s_lfpos s2) s2 = Some s3 \<and> cut_out B P ?R h b bs m k s3"
  proof (cases g)
    case 0
    have "?l \<in> set (links ?m)" using p(1) wf_tree_links [OF c] by simp
    then have l: "?l = ZNULL" using c 0 p(1) nk by auto
    have "runs (bremky c (int p) s1) (cut_out B P ?R h b bs m k)"
      by (rule cut_leaf [OF 1(7) r(2) o1 rt [unfolded 0] _ p, where xs = "[ZNULL, ZNULL]"]) (use R m in simp_all)
    then show ?thesis using l repr_fields(6) [OF 1(7)] R(3) by (auto simp: runs_def)
  next
    case (Suc g')
    have "?l \<in> set (links ?m)" using p(1) wf_tree_links [OF c] by simp
    then have "wf_tree B g' ?l" using c Suc by simp
    then have l: "?l \<noteq> ZNULL" using wf_tree_D by (force simp: valid_blk_def ZNULL_def)
    have "runs (do { (fail, s) \<leftarrow> take_before c (int p) ?l ?r s1; s \<leftarrow> bremky (s_lfblk s) (s_lfpos s) s; Some (fail, s) })
        (\<lambda>(fail, s'). \<not> fail \<and> cut_out B P ?R h b bs m k s')"
      by (rule cut_inner [OF 1(7) r(2) o1 rt [unfolded Suc] _ _ p, where xs = "[ZNULL, ZNULL]"]) (use R m in simp_all)
    then show ?thesis using l by (auto simp: runs_def bind_eq_Some_conv)
  qed
  then obtain s2 s3 where 2: "(if ?l \<noteq> ZNULL then take_before c (int p) ?l ?r s1 else Some (False, s1)) = Some (False, s2)"
      "bremky (s_lfblk s2) (s_lfpos s2) s2 = Some s3" "cut_out B P ?R h b bs m k s3"
    by blast
  obtain s4 where 3: "repair s3 = Some s4" "erased B P ?R h b m k s4"
    using repair_erased [OF 2(3) r(2) m(2)] by (auto simp: runs_def)
  have sr: "same_rest R R'" if "same_rest ?R R'" for R' by (rule same_rest_trans [OF _ that]) simp
  obtain B' P' R' h' bs' where "repr s4 B' P' R'" "P' \<subseteq> P" "open_tree B' R' h' b bs'" "others_kept B h b B' h'" "stocked m B' h' b"
      "tree_entries B' h' b = without k (tree_entries B h b)" "same_rest ?R R'" "s_lfkey R' = s_lfkey R" "wf_stk (stk R')"
      "\<forall>t. 0 \<le> t \<and> t \<noteq> ZNKEYS \<longrightarrow> word_of (B' ! nat b) t = word_of (B ! nat b) t"
    using 3(2) by (auto simp: erased_def)
  then have "erased B P R h b m k s4" unfolding erased_def using sr by blast
  moreover have sf: "s_lfblk s = c" "s_lfpos s = int p" "s_lfexct s" "s_draddr s = ZNULL" using lf R(3) by simp_all
  have "bdelk1 (Some k) s = bdelk1_end s4"
    by (rule bdelk1_steps [OF sf(3,4) _ _ 1(3-6) _ 2(2) 3(1)], unfold sf(1,2), rule 1(1), rule 1(2), rule 2(1))
  ultimately show ?thesis by blast
qed

end
