(* ===== verification/Scan.thy ===== *)
theory Scan
  imports Walk Index
begin

text \<open>
  The walk over a tree in the order of its keys: \<open>btpos\<close> or \<open>bfndky\<close> sets a position, \<open>bnxtky\<close> goes on
  from there and hands out one entry after the other.
\<close>

section \<open>Down to the next leaf\<close>

text \<open>Only the find context and the stack change.\<close>

definition moved :: "st \<Rightarrow> st \<Rightarrow> bool" where
  "moved R R' \<longleftrightarrow> R' = R\<lparr>lf := lf R', stk := stk R', dup_keyent := dup_keyent R'\<rparr>"

lemma moved_refl [simp]: "moved R R"
  by (cases R) (simp add: moved_def)

lemma moved_trans: "moved R S \<Longrightarrow> moved S T \<Longrightarrow> moved R T"
  unfolding moved_def by (cases R, cases S, cases T) simp

lemma moved_upd [simp]:
  "moved R (R'\<lparr>lf := l\<rparr>) = moved R R'" "moved R (R'\<lparr>stk := t\<rparr>) = moved R R'"
  "moved R (R'\<lparr>dup_keyent := d\<rparr>) = moved R R'" "moved (R\<lparr>lf := l\<rparr>) R' = moved R R'"
  "moved (R\<lparr>stk := t\<rparr>) R' = moved R R'" "moved (R\<lparr>dup_keyent := d\<rparr>) R' = moved R R'"
  by (cases R, cases R', auto simp: moved_def)+

lemma moved_fields:
  assumes "moved R R'"
  shows "super R' = super R" "shared R' = shared R" "lckcnt R' = lckcnt R" "lkenv R' = lkenv R" "qerror R' = qerror R"
  using assms by (cases R, cases R', simp add: moved_def)+

lemma bleaf_loop_left:
  assumes "repr s B P R" "at_slot s i (s_lfblk R)" "card P < ZMXBLK"
    and "wf_tree B h (s_lfblk R)" "h = 0 \<longrightarrow> nkeys_of (B ! nat (s_lfblk R)) \<noteq> 0" "h = 0 \<or> filled B h (s_lfblk R)"
    and "s_lfpos R = int p" "int p \<le> nkeys_of (B ! nat (s_lfblk R))"
    and "wf_stk (stk R)" "stack_of (stk R) = flat (rev ps0)" "2 * length ps0 + 2 * h \<le> nat STKMAX"
  shows "runs (bleaf_loop 0 i s) (\<lambda>(j, s'). \<exists>R' ps.
    repr s' B P R' \<and> at_slot s' j (s_lfblk R') \<and> moved R R' \<and> s_lfexct R' = s_lfexct R \<and> s_draddr R' = s_draddr R \<and>
    wf_tree B 0 (s_lfblk R') \<and> 0 \<le> s_lfpos R' \<and>
    (if h = 0 then R' = R \<and> ps = [] else s_lfpos R' = 0 \<and> filled B 0 (s_lfblk R')) \<and>
    wf_stk (stk R') \<and> stack_of (stk R') = flat (rev (ps @ ps0)) \<and> length ps = h \<and> above_ok B 0 ps \<and>
    rest_from B 0 (s_lfblk R') (nat (s_lfpos R')) @ rest_up B 0 ps = below B h (s_lfblk R) p @ rest_from B h (s_lfblk R) p)"
  using assms
proof (induction h arbitrary: s R i p ps0)
  case 0
  let ?b = "s_lfblk R" let ?m = "B ! nat ?b"
  have m: "wf_keys ?m" using "0.prems"(4) by simp
  have lf: "lf s = lf R" using repr_fields(6) [OF "0.prems"(1)] .
  have l: "p < length (links ?m)" using wf_keys_D(3) [OF m] "0.prems"(8) by simp
  have "links ?m ! p \<in> set (links ?m)" using l by simp
  then have "links ?m ! p = ZNULL" using "0.prems"(4,5) by simp
  moreover have "arr_get (lnkblk ?m) (int p) = Some (links ?m ! p)"
    using wf_keys_D(6,8) [OF m] l "0.prems"(8) by (simp add: links_def)
  ultimately have "bleaf_loop 0 i s = Some (i, s)"
    using get_mem_slot [OF "0.prems"(1,2)] lf "0.prems"(7) by (subst bleaf_loop.simps) simp
  then show ?case
    using "0.prems" by (auto simp: below_def intro!: exI [of _ R] exI [of _ "[]"])
next
  case (Suc g)
  let ?b = "s_lfblk R" let ?m = "B ! nat ?b"
  have m: "wf_keys ?m" using wf_tree_D [OF Suc.prems(4)] by blast
  have lf: "lf s = lf R" using repr_fields(6) [OF Suc.prems(1)] .
  have l: "p < length (links ?m)" using wf_keys_D(3) [OF m] Suc.prems(8) by simp
  define c where "c = links ?m ! p"
  have cl: "c \<in> set (links ?m)" using l by (simp add: c_def)
  have fc: "filled B g c" using filled_child [OF _ cl] Suc.prems(6) by simp
  have vc: "valid_blk B c" "wf_tree B g c" "c \<noteq> ZNULL" "0 < nkeys_of (B ! nat c)"
    using fc wf_tree_D [of B g c] root_in_blocks [of c B g] by (auto simp: filled_def valid_blk_def ZNULL_def)
  have get: "arr_get (lnkblk ?m) (int p) = Some c"
    using wf_keys_D(6,8) [OF m] l Suc.prems(8) by (simp add: links_def c_def)
  have w: "wf_stk (stk s)" "stack_of (stk s) = flat (rev ps0)" "length (stack_of (stk s)) + 2 \<le> nat STKMAX"
    using repr_fields(7) [OF Suc.prems(1)] Suc.prems(9-11) by (simp_all add: length_flat)
  obtain t where t: "push_pos ?b (int p) s = Some (s\<lparr>stk := t\<rparr>)" "wf_stk t" "stack_of t = stack_of (stk s) @ [?b, int p]"
    using push_pos_stk [OF w(1,3)] by blast
  let ?s1 = "s\<lparr>stk := t, lf := (lf s)\<lparr>lfblk := c\<rparr>\<rparr>" and ?R1 = "R\<lparr>stk := t, lf := (lf R)\<lparr>lfblk := c\<rparr>\<rparr>"
  have r1: "repr ?s1 B P ?R1" using repr_frame(1) [OF repr_frame(2) [OF Suc.prems(1)]] lf by simp
  obtain j s2 where s2: "brdblk c ?s1 = Some ((0, j), s2)" "at_slot s2 j c" "repr s2 B P ?R1"
    using brdblk_spec [OF r1 vc(1)] Suc.prems(3) by (auto simp: runs_def room_def)
  let ?R2 = "set_lfpos 0 ?R1"
  have r2: "repr (set_lfpos 0 s2) B P ?R2" using repr_frame(1) [OF s2(3)] repr_fields(6) [OF s2(3)] by simp
  have eq: "bleaf_loop 0 i s = bleaf_loop 0 j (set_lfpos 0 s2)"
    using get_mem_slot [OF Suc.prems(1,2)] lf Suc.prems(7) get vc(3) t(1) s2(1) at_slot_pos [OF s2(2)]
    by (subst bleaf_loop.simps) simp
  have st: "stack_of (stk ?R2) = flat (rev ((?b, int p) # ps0))" using t(3) w(2) by simp
  have ih: "runs (bleaf_loop 0 j (set_lfpos 0 s2)) (\<lambda>(j, s'). \<exists>R' ps.
    repr s' B P R' \<and> at_slot s' j (s_lfblk R') \<and> moved ?R2 R' \<and> s_lfexct R' = s_lfexct ?R2 \<and> s_draddr R' = s_draddr ?R2 \<and>
    wf_tree B 0 (s_lfblk R') \<and> 0 \<le> s_lfpos R' \<and>
    (if g = 0 then R' = ?R2 \<and> ps = [] else s_lfpos R' = 0 \<and> filled B 0 (s_lfblk R')) \<and>
    wf_stk (stk R') \<and> stack_of (stk R') = flat (rev (ps @ (?b, int p) # ps0)) \<and> length ps = g \<and> above_ok B 0 ps \<and>
    rest_from B 0 (s_lfblk R') (nat (s_lfpos R')) @ rest_up B 0 ps = below B g (s_lfblk ?R2) 0 @ rest_from B g (s_lfblk ?R2) 0)"
    by (rule Suc.IH [OF r2]) (use s2(2) vc fc Suc.prems(3,11) t(2) st in \<open>simp_all add: at_slot_def\<close>)
  show ?case
    unfolding eq
  proof (rule runs_conseq [OF ih], simp only: split_paired_all prod.case, elim exE conjE, goal_cases)
    case (1 k s' R' ps)
    have "filled B 0 (s_lfblk R')" "s_lfpos R' = 0"
      using 1(8) fc by (auto split: if_splits)
    moreover have "below B g c 0 @ rest_from B g c 0 = below B (Suc g) ?b p" using below_first [OF vc(2)] by (simp add: below_def c_def)
    ultimately show ?case
      using 1 Suc.prems(6)
      by (intro exI [of _ R'] exI [of _ "ps @ [(?b, int p)]"])
        (simp add: rest_up_append above_ok_append del: rest_from.simps)
  qed
qed

lemma bleaf_left:
  assumes r: "repr s B P R" and c: "card P < ZMXBLK"
    and b: "wf_tree B h (s_lfblk R)" "nkeys_of (B ! nat (s_lfblk R)) \<noteq> 0" "h = 0 \<or> filled B h (s_lfblk R)"
    and p: "s_lfpos R = int p" "int p \<le> nkeys_of (B ! nat (s_lfblk R))"
    and w: "wf_stk (stk R)" "stack_of (stk R) = flat (rev ps0)" "2 * length ps0 + 2 * h \<le> nat STKMAX"
  shows "runs (bleaf 0 s) (\<lambda>(j, s'). \<exists>R' ps.
    repr s' B P R' \<and> at_slot s' j (s_lfblk R') \<and> moved R R' \<and> s_lfexct R' = s_lfexct R \<and> s_draddr R' = s_draddr R \<and>
    wf_tree B 0 (s_lfblk R') \<and> 0 \<le> s_lfpos R' \<and>
    (if h = 0 then R' = R \<and> ps = [] else s_lfpos R' = 0 \<and> filled B 0 (s_lfblk R')) \<and>
    wf_stk (stk R') \<and> stack_of (stk R') = flat (rev (ps @ ps0)) \<and> length ps = h \<and> above_ok B 0 ps \<and>
    rest_from B 0 (s_lfblk R') (nat (s_lfpos R')) @ rest_up B 0 ps = below B h (s_lfblk R) p @ rest_from B h (s_lfblk R) p)"
proof -
  let ?b = "s_lfblk R" let ?m = "B ! nat ?b"
  have m: "wf_keys ?m" "valid_blk B ?b" using wf_tree_D [OF b(1)] by auto
  have nk: "mem_info ?m ZNKEYS = Some (nkeys_of ?m)" "ZNKEYS < int ZINFSZ"
    using mem_info_word [OF wf_keys_D(1) [OF m(1)], of ZNKEYS] by (simp_all add: ZNKEYS_def ZINFSZ_def)
  have rm: "room P ?b" using c by (simp add: room_def)
  obtain i s1 where s1: "brdblk ?b s = Some ((0, i), s1)" "at_slot s1 i ?b" "repr s1 B P R"
    using brdblk_spec [OF r m(2) rm] by (auto simp: runs_def)
  obtain s2 where s2: "bgtinf ?b ZNKEYS s1 = Some (nkeys_of ?m, s2)" "repr s2 B P R" "at_slot s2 i ?b"
    using bgtinf_hit [OF s1(3,2) nk(2,1)] s1(2) same_cached_at by (fastforce simp: runs_def)
  have "bleaf 0 s = bleaf_loop 0 i s2"
    using repr_fields(6) [OF r] repr_fields(6) [OF s1(3)] s1(1) s2(1) b(2) at_slot_pos [OF s1(2)] by (simp add: bleaf_def)
  then show ?thesis
    using bleaf_loop_left [OF s2(2,3) c b(1) _ b(3) p w] b(2) by simp
qed

section \<open>The next key\<close>

definition shown :: "keyent \<Rightarrow> kv" where
  "shown e = (Some (strncpy_term ZKYLEN (ke_key e)), Some (ke_val e))"

lemma take_key_spec:
  assumes r: "repr s B P R" "at_slot s i (s_lfblk R)" "card P < ZMXBLK"
    and b: "wf_keys (B ! nat (s_lfblk R))" "0 \<le> s_lfpos R" "s_lfpos R < nkeys_of (B ! nat (s_lfblk R))"
    and d: "ke_dup (entries (B ! nat (s_lfblk R)) ! nat (s_lfpos R)) = ZNULL" "s_draddr R = ZNULL" "s_lfexct R"
  shows "runs (take_key ZNEXT i s) (\<lambda>(kv, s'). kv = shown (entries (B ! nat (s_lfblk R)) ! nat (s_lfpos R)) \<and>
    (\<exists>k. repr s' B P (R\<lparr>lf := (lf R)\<lparr>lfkey := k\<rparr>, dup_keyent := entries (B ! nat (s_lfblk R)) ! nat (s_lfpos R)\<rparr>)))"
proof -
  let ?m = "B ! nat (s_lfblk R)" let ?e = "entries ?m ! nat (s_lfpos R)"
  let ?k = "strncpy_term ZKYLEN (ke_key ?e)"
  have lf: "lf s = lf R" using repr_fields(6) [OF r(1)] .
  have r1: "repr (set_lfkey ?k s) B P (set_lfkey ?k R)" using repr_frame(1) [OF r(1)] lf by simp
  have v: "valid_blk B (s_lfblk R)" using at_slot_valid [OF r(1,2)] .
  obtain s2 where "btduppos ZNEXT (Some (ke_val ?e)) (set_lfkey ?k s) = Some ((ZNULL, Some (ke_val ?e)), s2)"
      "repr s2 B P ((set_lfkey ?k R)\<lparr>dup_keyent := ?e\<rparr>)"
    using btduppos_none [OF r1, of ZNEXT "Some (ke_val ?e)"] v r(3) b d by (auto simp: runs_def room_def)
  moreover have "arr_get (keyblk ?m) (s_lfpos R) = Some ?e"
    using b wf_keys_D(2,5,8) [OF b(1)] by (simp add: entries_def)
  ultimately show ?thesis
    using get_mem_slot [OF r(1,2)] lf by (auto simp: take_key_def shown_def runs_def)
qed

lemma bnxtky_loop_spec:
  assumes "repr s B P R" "card P < ZMXBLK" "place_in True B R h ps es" "s_draddr R = ZNULL"
    and "2 * (h + length ps + 1) \<le> nat STKMAX"
  shows "runs (bnxtky_loop kv s) (\<lambda>(kv', s'). \<exists>R'. repr s' B P R' \<and> moved R R' \<and> s_draddr R' = ZNULL \<and>
    (case es of [] \<Rightarrow> kv' = kv \<and> s_lfblk R' = ZNULL \<and> \<not> s_lfexct R' \<and> stk_array R'
     | e # es' \<Rightarrow> kv' = shown e \<and> s_lfexct R' \<and> (\<exists>h' ps'. h' + length ps' = h + length ps \<and> place_in False B R' h' ps' es')))"
    (is "runs _ (?Q R h ps es)")
  using assms
proof (induction "2 * length ps + (if nkeys_of (B ! nat (s_lfblk R)) \<le> s_lfpos R then 0 else 1)" arbitrary: s R h ps es rule: less_induct)
  case less
  let ?b = "s_lfblk R" let ?m = "B ! nat ?b" let ?p = "s_lfpos R"
  note pl = less.prems(3) [unfolded place_in_def]
  have lf: "lf s = lf R" using repr_fields(6) [OF less.prems(1)] .
  have t: "wf_tree B h ?b" "h = 0 \<or> filled B h ?b" "no_dups (tree_entries B h ?b)" using pl by blast+
  have m: "wf_keys ?m" "valid_blk B ?b" "?b \<noteq> ZNULL" using wf_tree_D [OF t(1)] by (auto simp: valid_blk_def ZNULL_def)
  have nk: "mem_info ?m ZNKEYS = Some (nkeys_of ?m)" "ZNKEYS < int ZINFSZ"
    using mem_info_word [OF wf_keys_D(1) [OF m(1)], of ZNKEYS] by (simp_all add: ZNKEYS_def ZINFSZ_def)
  have rm: "room P x" for x using less.prems(2) by (simp add: room_def)
  obtain i s1 where s1: "brdblk ?b s = Some ((0, i), s1)" "at_slot s1 i ?b" "repr s1 B P R"
    using brdblk_spec [OF less.prems(1) m(2) rm] by (auto simp: runs_def)
  obtain s2 where s2: "bgtinf ?b ZNKEYS s1 = Some (nkeys_of ?m, s2)" "repr s2 B P R" "at_slot s2 i ?b"
    using bgtinf_hit [OF s1(3,2) nk(2,1)] s1(2) same_cached_at by (fastforce simp: runs_def)
  have lf2: "lf s1 = lf R" "lf s2 = lf R" "stk s2 = stk R"
    using repr_fields(6) [OF s1(3)] repr_fields(6,7) [OF s2(2)] by simp_all
  note i0 = at_slot_pos [OF s1(2)]
  have nkn: "0 \<le> nkeys_of ?m" using m(1) by (simp add: wf_keys_def)
  obtain z where z: "stack_of (stk R) = flat (rev (ps @ [(ZNULL, z)]))" "wf_stk (stk R)" using pl by blast
  have take: "runs (take_key ZNEXT j t) (\<lambda>(kv', s'). \<exists>R'. repr s' B P R' \<and> moved R R' \<and> s_draddr R' = ZNULL \<and>
      (case es of [] \<Rightarrow> kv' = kv \<and> s_lfblk R' = ZNULL \<and> \<not> s_lfexct R' \<and> stk_array R'
       | e # es' \<Rightarrow> kv' = shown e \<and> s_lfexct R' \<and> (\<exists>h' ps'. h' + length ps' = h + length ps \<and> place_in False B R' h' ps' es')))"
    if u: "repr t B P S" "at_slot t j (s_lfblk S)" "moved R S" "s_draddr S = ZNULL" "s_lfexct S"
      "0 \<le> s_lfpos S" "s_lfpos S < nkeys_of (B ! nat (s_lfblk S))" "wf_tree B h' (s_lfblk S)"
      "no_dups (tree_entries B h' (s_lfblk S))" "h' = 0 \<or> filled B h' (s_lfblk S)" "wf_stk (stk S)"
      "stack_of (stk S) = flat (rev (ps' @ [(ZNULL, z)]))" "above_ok B h' ps'" "h' + length ps' = h + length ps"
      "es = rest_from B h' (s_lfblk S) (nat (s_lfpos S)) @ rest_up B h' ps'" for t j S h' ps'
  proof -
    let ?e = "entries (B ! nat (s_lfblk S)) ! nat (s_lfpos S)"
    have w: "wf_keys (B ! nat (s_lfblk S))" using wf_tree_D [OF u(8)] by blast
    have "?e \<in> set (entries (B ! nat (s_lfblk S)))" using u(6,7) wf_keys_D(2) [OF w] by simp
    then have "ke_dup ?e = ZNULL"
      using u(9) entries_in_tree [OF u(8)] by (auto simp: no_dups_def)
    note tk = take_key_spec [OF u(1,2) less.prems(2) w u(6,7) this u(4,5)]
    have es: "es = ?e # tl (rest_from B h' (s_lfblk S) (nat (s_lfpos S))) @ rest_up B h' ps'"
      using u(15) rest_step [OF u(8), of "nat (s_lfpos S)"] u(6,7) by simp
    show ?thesis
    proof (rule runs_conseq [OF tk], simp only: split_paired_all prod.case, elim conjE exE, goal_cases)
      case (1 k1 k2 s' k)
      let ?S = "S\<lparr>lf := (lf S)\<lparr>lfkey := k\<rparr>, dup_keyent := ?e\<rparr>"
      have "place_in False B ?S h' ps' (tl (rest_from B h' (s_lfblk S) (nat (s_lfpos S))) @ rest_up B h' ps')"
        using u by (simp add: place_in_def)
      then show ?case
        using 1 u(3-5,14) unfolding es list.case
        by (intro exI [of _ ?S] conjI exI [of _ h'] exI [of _ ps']) simp_all
    qed
  qed
  show ?case
  proof (cases "nkeys_of ?m \<le> ?p \<or> nkeys_of ?m = 0")
    case True
    have "rest_from B h ?b (nat ?p) = []" using True nkn by (intro rest_end [OF t(1)]) auto
    then have es: "es = rest_up B h ps" using pl by auto
    show ?thesis
    proof (cases ps)
      case Nil
      obtain u where u: "pull_pos s2 = Some (s2\<lparr>stk := u, lf := (lf s2)\<lparr>lfpos := z, lfblk := ZNULL\<rparr>\<rparr>)" "wf_stk u"
        using pull_pos_stk [of s2 "[]" ZNULL z] z lf2(3) Nil by auto
      let ?s3 = "set_lfexct False (s2\<lparr>stk := u, lf := (lf s2)\<lparr>lfpos := z, lfblk := ZNULL\<rparr>\<rparr>)"
      let ?R3 = "set_lfexct False (R\<lparr>stk := u, lf := (lf R)\<lparr>lfpos := z, lfblk := ZNULL\<rparr>\<rparr>)"
      have "bnxtky_loop kv s = bnxtky_loop kv ?s3"
        using lf m(3) s1(1) s2(1) i0 True u(1) lf2 by (subst bnxtky_loop.simps) (auto simp: ZNULL_def)
      also have "\<dots> = Some (kv, ?s3)" by (subst bnxtky_loop.simps) simp
      finally have "bnxtky_loop kv s = Some (kv, ?s3)" .
      moreover have "repr ?s3 B P ?R3" using repr_frame(1) [OF repr_frame(2) [OF s2(2)]] lf2(2) by simp
      ultimately show ?thesis
        using es Nil u(2) less.prems(4) by (auto simp: runs_def wf_stk_def intro!: exI [of _ ?R3])
    next
      case (Cons x ps')
      obtain b' p' where x: "x = (b', p')" by (cases x)
      have st: "stack_of (stk s2) = flat (rev (ps' @ [(ZNULL, z)])) @ [b', p']" using z lf2(3) Cons x by simp
      obtain u where u: "pull_pos s2 = Some (s2\<lparr>stk := u, lf := (lf s2)\<lparr>lfpos := p', lfblk := b'\<rparr>\<rparr>)" "wf_stk u"
          "stack_of u = flat (rev (ps' @ [(ZNULL, z)]))"
        using pull_pos_stk [OF _ st] z lf2(3) by auto
      let ?s3 = "set_lfexct False (s2\<lparr>stk := u, lf := (lf s2)\<lparr>lfpos := p', lfblk := b'\<rparr>\<rparr>)"
      let ?R3 = "set_lfexct False (R\<lparr>stk := u, lf := (lf R)\<lparr>lfpos := p', lfblk := b'\<rparr>\<rparr>)"
      have eq: "bnxtky_loop kv s = bnxtky_loop kv ?s3"
        using lf m(3) s1(1) s2(1) i0 True u(1) lf2 by (subst bnxtky_loop.simps) (auto simp: ZNULL_def)
      have r3: "repr ?s3 B P ?R3" using repr_frame(1) [OF repr_frame(2) [OF s2(2)]] lf2(2) by simp
      have a: "filled B (Suc h) b'" "0 \<le> p'" "above_ok B (Suc h) ps'" using pl Cons x by simp_all
      have "place_in True B ?R3 (Suc h) ps' es"
        using a u(2,3) es Cons x by (auto simp: place_in_def filled_def)
      note ih = less.hyps [OF _ r3 less.prems(2) this]
      have hl: "h + length ps = Suc h + length ps'" using Cons by simp
      have "(2 * length ps' + (if nkeys_of (B ! nat (s_lfblk ?R3)) \<le> s_lfpos ?R3 then 0 else 1)) <
          2 * length ps + (if nkeys_of ?m \<le> ?p then 0 else (1::nat))"
        using Cons by simp
      from ih [OF this] have "runs (bnxtky_loop kv ?s3) (\<lambda>(kv', s'). \<exists>R'. repr s' B P R' \<and> moved ?R3 R' \<and> s_draddr R' = ZNULL \<and>
        (case es of [] \<Rightarrow> kv' = kv \<and> s_lfblk R' = ZNULL \<and> \<not> s_lfexct R' \<and> stk_array R'
         | e # es' \<Rightarrow> kv' = shown e \<and> s_lfexct R' \<and>
             (\<exists>h' qs. h' + length qs = h + length ps \<and> place_in False B R' h' qs es')))"
        unfolding hl using less.prems(4,5) hl by simp
      then show ?thesis unfolding eq by simp
    qed
  next
    case False
    then have p: "0 \<le> ?p" "?p < nkeys_of ?m" using pl by auto
    show ?thesis
    proof (cases "s_lfexct R")
      case x: False
      let ?S = "set_lfexct True R"
      have eq: "bnxtky_loop kv s = take_key ZNEXT i (set_lfexct True s2)"
        using lf m(3) s1(1) s2(1) i0 p lf2 x by (subst bnxtky_loop.simps) (auto simp: at_slot_pos)
      have "repr (set_lfexct True s2) B P ?S" using repr_frame(1) [OF s2(2)] lf2(2) by simp
      moreover have "at_slot (set_lfexct True s2) i (s_lfblk ?S)" using s2(3) by (simp add: at_slot_def)
      moreover have "es = rest_from B h ?b (nat ?p) @ rest_up B h ps" using pl x by simp
      ultimately show ?thesis
        unfolding eq using take [of "set_lfexct True s2" ?S i h ps] p t z pl less.prems(4) by simp
    next
      case x: True
      let ?S = "set_draddr ZNULL (set_lfpos (?p + 1) R)" and ?s3 = "set_draddr ZNULL (set_lfpos (?p + 1) s2)"
      have r3: "repr ?s3 B P ?S" using repr_frame(1) [OF s2(2)] lf2(2) by simp
      have q: "s_lfpos ?S = int (Suc (nat ?p))" "int (Suc (nat ?p)) \<le> nkeys_of ?m" using p by simp_all
      have st: "stack_of (stk ?S) = flat (rev (ps @ [(ZNULL, z)]))" "2 * length (ps @ [(ZNULL, z)]) + 2 * h \<le> nat STKMAX"
        using z less.prems(5) by simp_all
      have es: "es = (below B h ?b (Suc (nat ?p)) @ rest_from B h ?b (Suc (nat ?p))) @ rest_up B h ps"
        using pl x rest_step [OF t(1), of "nat ?p"] p by simp
      have bl: "runs (bleaf 0 ?s3) (\<lambda>(j, s'). \<exists>R' qs.
        repr s' B P R' \<and> at_slot s' j (s_lfblk R') \<and> moved ?S R' \<and> s_lfexct R' = s_lfexct ?S \<and> s_draddr R' = s_draddr ?S \<and>
        wf_tree B 0 (s_lfblk R') \<and> 0 \<le> s_lfpos R' \<and>
        (if h = 0 then R' = ?S \<and> qs = [] else s_lfpos R' = 0 \<and> filled B 0 (s_lfblk R')) \<and>
        wf_stk (stk R') \<and> stack_of (stk R') = flat (rev (qs @ (ps @ [(ZNULL, z)]))) \<and> length qs = h \<and> above_ok B 0 qs \<and>
        rest_from B 0 (s_lfblk R') (nat (s_lfpos R')) @ rest_up B 0 qs =
          below B h (s_lfblk ?S) (Suc (nat ?p)) @ rest_from B h (s_lfblk ?S) (Suc (nat ?p)))"
        by (rule bleaf_left [OF r3 less.prems(2)]) (use t p q st z(2) in simp_all)
      then obtain j s4 R' qs where s4: "bleaf 0 ?s3 = Some (j, s4)" "repr s4 B P R'" "at_slot s4 j (s_lfblk R')" "moved ?S R'"
          "s_lfexct R'" "s_draddr R' = ZNULL" "wf_tree B 0 (s_lfblk R')" "0 \<le> s_lfpos R'"
          "if h = 0 then R' = ?S \<and> qs = [] else s_lfpos R' = 0 \<and> filled B 0 (s_lfblk R')"
          "wf_stk (stk R')" "stack_of (stk R') = flat (rev (qs @ (ps @ [(ZNULL, z)])))" "length qs = h" "above_ok B 0 qs"
          "rest_from B 0 (s_lfblk R') (nat (s_lfpos R')) @ rest_up B 0 qs =
            below B h ?b (Suc (nat ?p)) @ rest_from B h ?b (Suc (nat ?p))"
        using x by (auto simp: runs_def)
      have eq: "bnxtky_loop kv s = (if s_lfpos R' < nkeys_of ?m then take_key ZNEXT j s4 else bnxtky_loop kv s4)"
        using lf m(3) s1(1) s2(1) i0 p lf2 x s4(1) at_slot_pos [OF s4(3)] repr_fields(6) [OF s4(2)]
        by (subst bnxtky_loop.simps) auto
      have es': "es = rest_from B 0 (s_lfblk R') (nat (s_lfpos R')) @ rest_up B 0 (qs @ ps)"
        using es s4(12,14) by (simp add: rest_up_append)
      have ab: "above_ok B 0 (qs @ ps)" using s4(12,13) pl by (simp add: above_ok_append)
      have mv: "moved R R'" using s4(4) by simp
      show ?thesis
      proof (cases "s_lfpos R' < nkeys_of ?m")
        case True
        have "s_lfpos R' < nkeys_of (B ! nat (s_lfblk R'))"
          using s4(9) True root_in_blocks [of "s_lfblk R'" B 0] by (auto simp: filled_def split: if_splits)
        moreover have "no_dups (tree_entries B 0 (s_lfblk R'))"
          using s4(9) t by (auto simp: filled_def split: if_splits)
        ultimately have "runs (take_key ZNEXT j s4) (\<lambda>(kv', s'). \<exists>R'. repr s' B P R' \<and> moved R R' \<and> s_draddr R' = ZNULL \<and>
          (case es of [] \<Rightarrow> kv' = kv \<and> s_lfblk R' = ZNULL \<and> \<not> s_lfexct R' \<and> stk_array R'
           | e # es' \<Rightarrow> kv' = shown e \<and> s_lfexct R' \<and> (\<exists>h' ps'. h' + length ps' = h + length ps \<and> place_in False B R' h' ps' es')))"
          by (intro take [OF s4(2,3) mv s4(6,5,8) _ s4(7) _ _ s4(10), of "qs @ ps"]) (use s4(11,12) ab es' in simp_all)
        then show ?thesis unfolding eq using True by simp
      next
        case F: False
        then have h0: "h = 0" "R' = ?S" "qs = []" using s4(9) t(2) p by (auto split: if_splits)
        have dr: "drop (nat (?p + 1)) (entries ?m) = []"
          using rest_end [of B 0 ?b "nat (?p + 1)"] t(1) h0 F p by simp
        have "place_in True B R' h ps es"
          using h0 s4(5,7,8,10,11) t ab es' F p dr by (auto simp: place_in_def)
        moreover have "2 * length ps + (if nkeys_of (B ! nat (s_lfblk R')) \<le> s_lfpos R' then 0 else 1)
            < 2 * length ps + (if nkeys_of ?m \<le> ?p then 0 else (1::nat))"
          using h0 F p by auto
        ultimately have "runs (bnxtky_loop kv s4) (\<lambda>(kv', s'). \<exists>S. repr s' B P S \<and> moved R' S \<and> s_draddr S = ZNULL \<and>
          (case es of [] \<Rightarrow> kv' = kv \<and> s_lfblk S = ZNULL \<and> \<not> s_lfexct S \<and> stk_array S
           | e # es' \<Rightarrow> kv' = shown e \<and> s_lfexct S \<and> (\<exists>h' ps'. h' + length ps' = h + length ps \<and> place_in False B S h' ps' es')))"
          using less.hyps [OF _ s4(2) less.prems(2) _ s4(6) less.prems(5)] by blast
        then show ?thesis unfolding eq using F mv moved_trans by (auto elim!: runs_conseq)
      qed
    qed
  qed
qed

text \<open>One call: the next entry is handed out, or there is none.\<close>

lemma bnxtky_spec:
  assumes r: "repr s B P R" "card P < ZMXBLK" "\<not> shared R" and a: "scan_at B R hh es" and h: "2 * (hh + 1) \<le> nat STKMAX"
  shows "runs (bnxtky kv s) (\<lambda>((e, kv'), s'). \<exists>R'. repr s' B P R' \<and> later R R' \<and> super R' = super R \<and>
    (case es of [] \<Rightarrow> e = QNOKEY \<and> kv' = kv \<and> scan_at B R' hh []
     | x # es' \<Rightarrow> e = 0 \<and> kv' = shown x \<and> scan_at B R' hh es'))"
proof -
  let ?R = "clear_err R"
  have r1: "repr (clear_err s) B P ?R" using r(1) by auto
  have v: "bvalap ''BNXTKY'' (clear_err s) = (0, clear_err s)" using bvalap_ok [OF r1] .
  have ns: "\<not> shared (clear_err s)" using repr_fields(4) [OF r1] r(3) by simp
  have a1: "scan_at B ?R hh es" using a by (simp add: scan_at_def place_in_def)
  have d: "s_draddr ?R = ZNULL" "stk_array ?R" using a by (simp_all add: scan_at_def)
  have lf1: "lf (clear_err s) = lf R" using repr_fields(6) [OF r1] by simp
  obtain s2 R2 where s2: "btduppos ZNEXT (snd kv) (clear_err s) = Some ((ZNULL, snd kv), s2)" "repr s2 B P R2"
      "moved ?R R2" "lf R2 = lf R" "stk R2 = stk R"
  proof (cases "s_lfexct R")
    case False
    have "btduppos ZNEXT (snd kv) (clear_err s) = Some ((ZNULL, snd kv), clear_err s)"
      using lf1 False a by (simp add: btduppos_def scan_at_def)
    then show thesis using that r1 by simp
  next
    case True
    then obtain g ps where p: "place_in False B ?R g ps es" using a1 by (auto simp: scan_at_def)
    note p = p [unfolded place_in_def]
    have w: "wf_tree B g (s_lfblk ?R)" "0 \<le> s_lfpos ?R" "s_lfpos ?R < nkeys_of (B ! nat (s_lfblk ?R))"
      using p True by auto
    have k: "wf_keys (B ! nat (s_lfblk ?R))" "valid_blk B (s_lfblk ?R)" using wf_tree_D [OF w(1)] by simp_all
    have "entries (B ! nat (s_lfblk ?R)) ! nat (s_lfpos ?R) \<in> set (entries (B ! nat (s_lfblk ?R)))"
      using w wf_keys_D(2) [OF k(1)] by simp
    then have dup: "ke_dup (entries (B ! nat (s_lfblk ?R)) ! nat (s_lfpos ?R)) = ZNULL"
      using p entries_in_tree [OF w(1)] by (auto simp: no_dups_def)
    have x: "s_lfexct ?R" "room P (s_lfblk ?R)" using True r(2) by (simp_all add: room_def)
    show thesis
      using btduppos_none [OF r1 k(2) x(2) k(1) w(2,3) dup d(1) x(1), of ZNEXT "snd kv"] that by (auto simp: runs_def)
  qed
  have ns2: "\<not> shared s2" "\<not> shared R2" using repr_fields(4) [OF s2(2)] moved_fields(2) [OF s2(3)] r(3) by simp_all
  have a2: "scan_at B R2 hh es" using a s2(4,5) by (simp add: scan_at_def place_in_def)
  have q2: "qerror R2 = 0" using moved_fields(5) [OF s2(3)] by (simp add: bterr_def)
  have nz: "ZNULL < 0" "ZNULL \<noteq> 0" by (simp_all add: ZNULL_def)
  define tail :: "kv \<times> st \<Rightarrow> ((int \<times> kv) \<times> st) option" where "tail = (\<lambda>(kv, s). do {
       (kv, s) \<leftarrow> Some (kv, if s_lfblk s = ZNULL then bterr ''BNXTKY'' QNOKEY None (bclrlf s) else s);
       s \<leftarrow> unlock_if_shared s;
       Some ((btgerr s, kv), s) })"
  have call: "bnxtky kv s = Option.bind (bnxtky_loop kv s2) tail"
    using v ns s2(1) ns2(1) nz by (cases kv) (auto simp: bnxtky_def lock_if_shared_def tail_def split_def)
  have lat: "later R S \<and> super S = super R" if "moved R2 S" for S
    using moved_fields [OF that] moved_fields [OF s2(3)] by (simp add: later_def)
  have fin: "runs (tail (kv', s')) (\<lambda>((e, kv'), s'). \<exists>R'. repr s' B P R' \<and> later R R' \<and> super R' = super R \<and>
    (case es of [] \<Rightarrow> e = QNOKEY \<and> kv' = kv \<and> scan_at B R' hh []
     | x # es' \<Rightarrow> e = 0 \<and> kv' = shown x \<and> scan_at B R' hh es'))"
    if g: "repr s' B P S" "moved R2 S" "s_draddr S = ZNULL" "stk_array S"
      "case es of [] \<Rightarrow> kv' = kv \<and> s_lfblk S = ZNULL \<and> \<not> s_lfexct S
       | x # es' \<Rightarrow> kv' = shown x \<and> s_lfblk S \<noteq> ZNULL \<and> scan_at B S hh es'" for kv' s' S
  proof -
    have sh: "\<not> shared s'" "qerror s' = 0" "s_lfblk s' = s_lfblk S"
      using repr_fields [OF g(1)] moved_fields [OF g(2)] ns2(2) q2 by simp_all
    show ?thesis
    proof (cases es)
      case Nil
      let ?S = "bterr ''BNXTKY'' QNOKEY None (bclrlf S)"
      have "repr (bterr ''BNXTKY'' QNOKEY None (bclrlf s')) B P ?S" using g(1) by auto
      moreover have "scan_at B ?S hh []" using g(4) by (simp add: scan_at_def bclrlf_def)
      moreover have "qerror (bterr ''BNXTKY'' QNOKEY None (bclrlf s')) = QNOKEY"
        using sh(2) by (simp add: bterr_records bclrlf_def)
      ultimately show ?thesis
        using g(5) sh Nil lat [OF g(2)] by (auto simp: tail_def unlock_if_shared_def btgerr_def bclrlf_def later_def intro!: exI [of _ ?S])
    next
      case (Cons x es')
      then show ?thesis
        using g sh lat [OF g(2)] by (auto simp: tail_def unlock_if_shared_def btgerr_def intro!: exI [of _ S])
    qed
  qed
  have valid: "s_lfblk S \<noteq> ZNULL \<and> stk_array S" if "place_in x B S g ps fs" for x S g ps fs
    using that wf_tree_D [of B g "s_lfblk S"] by (auto simp: place_in_def valid_blk_def ZNULL_def wf_stk_def)
  show ?thesis
  proof (cases "s_lfblk R2 = ZNULL")
    case True
    then have "es = []" using a2 valid by (auto simp: scan_at_def)
    moreover have "bnxtky_loop kv s2 = Some (kv, s2)"
      using True repr_fields(6) [OF s2(2)] by (subst bnxtky_loop.simps) simp
    moreover have "\<not> s_lfexct R2" using a2 True valid by (auto simp: scan_at_def)
    ultimately show ?thesis
      using fin [OF s2(2) moved_refl, of kv] True a2 by (simp add: call scan_at_def)
  next
    case False
    then obtain g ps where p: "g + length ps = hh" "place_in False B R2 g ps es" using a2 by (auto simp: scan_at_def)
    have p2: "place_in True B R2 g ps es" "2 * (g + length ps + 1) \<le> nat STKMAX" "s_draddr R2 = ZNULL"
      using p h a2 by (simp_all add: place_in_def scan_at_def)
    show ?thesis
      unfolding call
    proof (rule runs_bindI [OF bnxtky_loop_spec [OF s2(2) r(2) p2(1,3,2), of kv]], goal_cases)
      case (1 x)
      obtain kv' s' where x: "x = (kv', s')" by (cases x)
      show ?case
      proof (cases es)
        case Nil
        then obtain S where S: "repr s' B P S" "moved R2 S" "s_draddr S = ZNULL" "kv' = kv" "s_lfblk S = ZNULL"
            "\<not> s_lfexct S" "stk_array S"
          using 1 unfolding x by auto
        show ?thesis unfolding x using fin [OF S(1-3,7), of kv'] S(4-6) Nil by simp
      next
        case (Cons e es')
        then obtain S g' ps' where S: "repr s' B P S" "moved R2 S" "s_draddr S = ZNULL" "kv' = shown e"
            "g' + length ps' = g + length ps" "place_in False B S g' ps' es'"
          using 1 unfolding x by auto
        have "scan_at B S hh es'" using S(3,5,6) valid [OF S(6)] p(1) by (auto simp: scan_at_def)
        then show ?thesis unfolding x using fin [OF S(1-3)] S(4) valid [OF S(6)] Cons by simp
      qed
    qed
  qed
qed

section \<open>The first key\<close>

lemma btpos_start:
  assumes r: "repr s B P R" "card P < ZMXBLK" "\<not> shared R" "stk_array R" "s_scroot R = b" and o: "open_tree B R0 h b bs"
  shows "runs (btpos ZSTART s) (\<lambda>(e, s'). e = 0 \<and> (\<exists>R'. repr s' B P R' \<and> later R R' \<and> super R' = super R \<and>
    scan_at B R' h (tree_entries B h b)))"
proof -
  note D = open_tree_D [OF o]
  let ?R0 = "bstkin (bclrlf (clear_err R))" and ?s0 = "bstkin (bclrlf (clear_err s))"
  have r0: "repr (clear_err s) B P (clear_err R)" using r(1) by auto
  have r1: "repr ?s0 B P ?R0" using r0 by (intro repr_frame2)
  have v: "bvalap ''BTPOS'' (clear_err s) = (0, clear_err s)" using bvalap_ok [OF r0] .
  have ns: "\<not> shared (clear_err s)" using repr_fields(4) [OF r0] r(3) by simp
  have w: "wf_stk (stk ?R0)" "stack_of (stk ?R0) = []"
    using r(4) by (simp_all add: bstkin_def bclrlf_def wf_stk_def stack_of_def STKMAX_def)
  have ws: "wf_stk (stk ?s0)" "length (stack_of (stk ?s0)) + 2 \<le> nat STKMAX"
    using w repr_fields(7) [OF r1] by (simp_all add: STKMAX_def)
  obtain t where t: "push_pos ZNULL ZNULL ?s0 = Some (?s0\<lparr>stk := t\<rparr>)" "wf_stk t" "stack_of t = [ZNULL, ZNULL]"
    using push_pos_stk [OF ws] w repr_fields(7) [OF r1] by auto
  let ?s1 = "?s0\<lparr>stk := t, lf := (lf ?s0)\<lparr>lfblk := b, lfkey := [], lfpos := 0\<rparr>\<rparr>"
  let ?R1 = "?R0\<lparr>stk := t, lf := (lf ?R0)\<lparr>lfblk := b, lfkey := [], lfpos := 0\<rparr>\<rparr>"
  have r2: "repr ?s1 B P ?R1" using repr_frame(1) [OF repr_frame(2) [OF r1]] repr_fields(6) [OF r1] by simp
  have lf1: "lf ?R1 = \<lparr>lfkey = [], lfblk = b, lfpos = 0, lfexct = False, draddr = ZNULL\<rparr>"
    by (simp add: bstkin_def bclrlf_def)
  have st: "stack_of (stk ?R1) = flat (rev [(ZNULL, ZNULL)])" using t(3) by simp
  have hh: "2 * length [(ZNULL, ZNULL)] + 2 * h \<le> nat STKMAX" using D(8) by simp
  have sc: "s_scroot ?s0 = b" using repr_fields(8) [OF r0] r(5) by (simp add: bstkin_def bclrlf_def)
  have leaf: "runs (bleaf 0 ?s1) (\<lambda>(j, s'). \<exists>R'. repr s' B P R' \<and> moved ?R1 R' \<and> scan_at B R' h (tree_entries B h b))"
  proof (cases "nkeys_of (B ! nat b) = 0")
    case True
    then have h0: "h = 0" using D(1) by (cases h) auto
    have w: "wf_keys (B ! nat b)" using wf_tree_D [OF D(1)] by blast
    have "entries (B ! nat b) = []" using wf_keys_D(2) [OF w] True by simp
    then have "place_in False B ?R1 0 [] (tree_entries B h b)"
      using D(1,4) h0 lf1 t(2) st True by (simp add: place_in_def)
    then have "scan_at B ?R1 h (tree_entries B h b)"
      using h0 lf1 t(2) by (auto simp: scan_at_def wf_stk_def)
    moreover have "wf_tree B 0 (s_lfblk ?R1)" "card P < ZMXBLK"
      "nkeys_of (B ! nat (s_lfblk ?R1)) = 0 \<or> 0 \<le> s_lfpos ?R1 \<and> s_lfpos ?R1 \<le> nkeys_of (B ! nat (s_lfblk ?R1))"
      using D(1) h0 lf1 True r(2) by simp_all
    from bleaf_leaf [OF r2 this, of 0] have "runs (bleaf 0 ?s1) (\<lambda>(j, s'). repr s' B P ?R1)" .
    ultimately show ?thesis by (auto elim!: runs_conseq)
  next
    case False
    show ?thesis
    proof (rule runs_conseq [OF bleaf_left [OF r2 r(2), where h = h and p = 0 and ?ps0.0 = "[(ZNULL, ZNULL)]"]], goal_cases)
      case (9 x)
      obtain j s' where x: "x = (j, s')" by (cases x)
      obtain R' ps where g: "repr s' B P R'" "moved ?R1 R'" "s_lfexct R' = s_lfexct ?R1" "s_draddr R' = s_draddr ?R1"
          "wf_tree B 0 (s_lfblk R')" "0 \<le> s_lfpos R'" "if h = 0 then R' = ?R1 \<and> ps = [] else s_lfpos R' = 0 \<and> filled B 0 (s_lfblk R')"
          "wf_stk (stk R')" "stack_of (stk R') = flat (rev (ps @ [(ZNULL, ZNULL)]))" "length ps = h" "above_ok B 0 ps"
          "rest_from B 0 (s_lfblk R') (nat (s_lfpos R')) @ rest_up B 0 ps = below B h b 0 @ rest_from B h b 0"
        using 9 lf1 unfolding x by auto
      have "no_dups (tree_entries B 0 (s_lfblk R'))" using g(7) D(4) lf1 by (auto simp: filled_def split: if_splits)
      then have "place_in False B R' 0 ps (tree_entries B h b)"
        using g lf1 below_first [OF D(1)] by (simp add: place_in_def)
      then have "scan_at B R' h (tree_entries B h b)" using g(4,8,10) lf1 by (auto simp: scan_at_def wf_stk_def)
      then show ?case unfolding x using g(1,2) by auto
    qed (use D(1) False open_filled [OF o] lf1 t(2) st hh wf_tree_D [OF D(1)] in \<open>simp_all add: wf_keys_def\<close>)
  qed
  obtain j s4 R' where s4: "bleaf 0 ?s1 = Some (j, s4)" "repr s4 B P R'" "moved ?R1 R'" "scan_at B R' h (tree_entries B h b)"
    using leaf by (auto simp: runs_def)
  have f: "shared R' = shared R" "qerror R' = 0" "super R' = super R" "lckcnt R' = lckcnt R" "lkenv R' = lkenv R"
    using moved_fields [OF s4(3)] by (simp_all add: bstkin_def bclrlf_def bterr_def)
  have "btpos ZSTART s = Some (0, s4)"
    using v ns t(1) s4(1) sc repr_fields(4,9) [OF s4(2)] f(1,2) r(3)
    by (simp add: btpos_def lock_if_shared_def unlock_if_shared_def btgerr_def ZSTART_def ZEND_def)
  then show ?thesis using s4(2,4) f by (auto simp: later_def)
qed

section \<open>The interface of a walk\<close>

text \<open>The loop of an application: one call after the other until one fails.\<close>

partial_function (option) scan_loop ::
  "('kv \<Rightarrow> 's \<Rightarrow> ((int \<times> 'kv) \<times> 's) option) \<Rightarrow> 'kv \<Rightarrow> 'kv list \<Rightarrow> 's \<Rightarrow> ((int \<times> 'kv list) \<times> 's) option" where
  "scan_loop nxt kv acc s = Option.bind (nxt kv s)
     (\<lambda>((e, kv), s). if e = 0 then scan_loop nxt kv (acc @ [kv]) s else Some ((e, acc), s))"

locale cursor =
  fixes at :: "'s \<Rightarrow> 'e list \<Rightarrow> bool" and nxt :: "'kv \<Rightarrow> 's \<Rightarrow> ((int \<times> 'kv) \<times> 's) option"
    and out :: "'e \<Rightarrow> 'kv" and ended :: int
  assumes ended: "ended \<noteq> 0"
    and nxt_some: "at s (e # es) \<Longrightarrow> runs (nxt kv s) (\<lambda>((c, kv'), s'). c = 0 \<and> kv' = out e \<and> at s' es)"
    and nxt_none: "at s [] \<Longrightarrow> runs (nxt kv s) (\<lambda>((c, kv'), s'). c = ended \<and> kv' = kv \<and> at s' [])"
begin

text \<open>The loop ends, with every entry in order.\<close>

lemma scan:
  "at s es \<Longrightarrow> runs (scan_loop nxt kv acc s) (\<lambda>((c, kvs), s'). c = ended \<and> kvs = acc @ map out es \<and> at s' [])"
proof (induction es arbitrary: s kv acc)
  case Nil
  then show ?case
    using ended by (subst scan_loop.simps) (auto simp: runs_bind intro: runs_conseq [OF nxt_none])
next
  case (Cons e es)
  show ?case
    by (subst scan_loop.simps, rule runs_bindI [OF nxt_some [OF Cons.prems]])
      (use Cons.IH [of _ "out e" "acc @ [out e]"] in auto)
qed

end

section \<open>Walks over an open index\<close>

lemma index_ok_later:
  "index_ok B R H bs \<Longrightarrow> later R R' \<Longrightarrow> super R' = super R \<Longrightarrow> stk_array R' \<Longrightarrow> index_ok B R' H bs"
  by (simp add: index_ok_def later_def saved_def free_list_def)

lemma scanning_next:
  assumes "scanning md cur M s es"
  shows "runs (bnxtky kv s) (\<lambda>((e, kv'), s').
    (case es of [] \<Rightarrow> e = QNOKEY \<and> kv' = kv \<and> scanning md cur M s' []
     | x # es' \<Rightarrow> e = 0 \<and> kv' = shown x \<and> scanning md cur M s' es'))"
proof -
  obtain B P R H bs r where S: "repr s B P R" "P \<subseteq> {r}" "index_ok B R H bs"
      "lookup (entries_of B H ZSUPER) cur = Some r" "lookup (entries_of B H ZSUPER) ''$$super'' = Some ZSUPER"
      "s_scroot R = r" "scclas (super R) = cur" "smode (super R) = md" "catalog B H = M" "scan_at B R (H r) es"
    using assms by (auto simp: scanning_def)
  have rr: "r \<in> root_set B H" using lookup_root [of B H cur r, OF S(4)] .
  note o = index_open [OF S(3) rr]
  have c: "card P < ZMXBLK" "\<not> shared R" "2 * (H r + 1) \<le> nat STKMAX"
    using card_mono [OF _ S(2)] S(3) open_tree_D(8) [OF o] by (simp_all add: ZMXBLK_def index_ok_def)
  have sc: "scanning md cur M s' fs" if "repr s' B P R'" "later R R'" "super R' = super R" "scan_at B R' (H r) fs" for s' R' fs
  proof -
    have "index_ok B R' H bs" using index_ok_later [OF S(3) that(2,3)] that(4) by (simp add: scan_at_def)
    then show ?thesis unfolding scanning_def using that S by (metis (no_types))
  qed
  show ?thesis
    by (rule runs_conseq [OF bnxtky_spec [OF S(1) c(1,2) S(10) c(3), of kv]]) (auto split: list.splits intro: sc)
qed

text \<open>\<open>btpos\<close> starts at the first entry.\<close>

lemma scanning_start:
  assumes "serves md cur M s" and es: "M cur = Some es"
  shows "runs (btpos ZSTART s) (\<lambda>(e, s'). e = 0 \<and> scanning md cur M s' es)"
proof -
  obtain B P R H bs r where S: "repr s B P R" "P \<subseteq> {r}" "index_ok B R H bs"
      "lookup (entries_of B H ZSUPER) cur = Some r" "lookup (entries_of B H ZSUPER) ''$$super'' = Some ZSUPER"
      "s_scroot R = r" "scclas (super R) = cur" "smode (super R) = md" "catalog B H = M"
    using assms(1) by (auto simp: serves_def)
  have rr: "r \<in> root_set B H" using lookup_root [of B H cur r, OF S(4)] .
  note o = index_open [OF S(3) rr]
  have ents: "entries_of B H r = es" using es S(4,9) by (auto simp: catalog_def)
  have c: "card P < ZMXBLK" "\<not> shared R" "stk_array R"
    using card_mono [OF _ S(2)] S(3) by (simp_all add: ZMXBLK_def index_ok_def)
  show ?thesis
  proof (rule runs_conseq [OF btpos_start [OF S(1) c S(6) o]], simp only: split_paired_all prod.case, elim conjE exE, goal_cases)
    case (1 e s' R')
    have "index_ok B R' H bs" using index_ok_later [OF S(3) 1(3,4)] 1(5) by (simp add: scan_at_def)
    then have "scanning md cur M s' es"
      unfolding scanning_def using 1 S(2,4-9) ents
      by (intro exI [of _ B] exI [of _ P] exI [of _ R'] exI [of _ H] exI [of _ bs] exI [of _ r]) simp
    then show ?case using 1(1) by simp
  qed
qed

interpretation bcur: cursor "scanning md cur M" bnxtky shown QNOKEY for md cur M
proof
  show "QNOKEY \<noteq> 0" by (simp add: QNOKEY_def)
  show "runs (bnxtky kv s) (\<lambda>((c, kv'), s'). c = 0 \<and> kv' = shown e \<and> scanning md cur M s' es)"
    if "scanning md cur M s (e # es)" for s e es kv
    using scanning_next [OF that, of kv] by simp
  show "runs (bnxtky kv s) (\<lambda>((c, kv'), s'). c = QNOKEY \<and> kv' = kv \<and> scanning md cur M s' [])"
    if "scanning md cur M s []" for s kv
    using scanning_next [OF that, of kv] by simp
qed

end
