(* ===== verification/Erase.thy ===== *)
theory Erase
  imports Remove Scan
begin

text \<open>
  Deletion in an open index: \<open>bdelky\<close> removes the key it is given and nothing else. The blocks below
  the root must have at least two keys each, so that no join leaves a block below the root empty; an
  index that was only inserted into has at least ten, and every deletion takes one from that reserve.
\<close>

section \<open>A deletion in one of the trees\<close>

text \<open>The end of \<open>bdelk1\<close>: the search for the old position, which does not find the key.\<close>

lemma delete_end:
  assumes s: "repr s B P R" "P \<subseteq> {r}" and i: "index_ok B R H bs" and r: "r \<in> root_set B H" "s_scroot R = r"
    and R: "s_lfkey R = k" "qerror R = 0" "k = strncpy_term ZKYLEN k" and n: "lookup (entries_of B H r) k = None"
    and m: "stocked m B (H r) r" "m \<le> 10"
  shows "runs (bdelk1_end s) (\<lambda>(e, s'). e = btgerr s' \<and> \<not> shared s' \<and> (e = QF2BIG \<or> e = 0 \<and>
    (\<exists>B' R' h' bs'. repr s' B' P R' \<and> index_ok B' R' (H(r := h')) bs' \<and> later R R' \<and>
      entries_of B' (H(r := h')) ZSUPER = entries_of B H ZSUPER \<and> catalog B' (H(r := h')) = catalog B H \<and>
      stocked m B' h' r \<and> scan_at B' R' h' (beyond k (entries_of B H r)))))"
proof -
  have sh: "\<not> shared R" using i by (simp add: index_ok_def)
  have f: "\<not> shared s" "btgerr s = 0" "s_lfkey s = k"
    using repr_fields(4,6,9) [OF s(1)] sh R(1,2) by (simp_all add: btgerr_def)
  have call: "bdelk1_end s = Option.bind (bfndky k None s)
      (\<lambda>((status, val), s). let s = (if status = QNOKEY then clear_err s else s) in Some (btgerr s, s))"
    using f by (simp add: bdelk1_end_def split_def Let_def)
  show ?thesis
    unfolding call
  proof (rule runs_bindI [OF index_find [OF s i r R(3), of None]], simp only: split_paired_all prod.case, elim disjE conjE exE, goal_cases)
    case (1 e w s')
    then obtain B' P' R' where t: "repr s' B' P' R'" "qerror R' = QF2BIG" "\<not> shared R'" by (auto simp: stuck_def)
    then have "btgerr s' = QF2BIG" "\<not> shared s'" using repr_fields(4,9) [OF t(1)] by (simp_all add: btgerr_def)
    then show ?case using 1 by (simp add: Let_def QF2BIG_def QNOKEY_def)
  next
    case (2 e w s' B' R' h' bs')
    have e: "e = QNOKEY" using 2(8) n by simp
    let ?s = "clear_err s'" and ?R = "clear_err R'"
    have r': "repr ?s B' P ?R" using 2(1) by auto
    have l: "later R ?R" "later R' ?R" "super ?R = super R'" "stk_array ?R" using 2(2,3) by (simp_all add: index_ok_def)
    have "index_ok B' ?R (H(r := h')) bs'" using index_ok_later [OF 2(2) l(2-4)] .
    moreover have "scan_at B' ?R h' (beyond k (entries_of B H r))" using 2(10) by (simp add: scan_at_def place_in_def)
    moreover have "btgerr ?s = 0" "\<not> shared ?s"
      using repr_fields(4) [OF r'] 2(2) by (simp_all add: btgerr_def bterr_def index_ok_def)
    ultimately show ?case using e r' l(1) 2(5,6) 2(11) m
      by (auto simp: Let_def intro!: exI [of _ B'] exI [of _ ?R] exI [of _ h'] exI [of _ bs'])
  qed
qed

text \<open>A key that the tree has, from the state in which \<open>bfndky\<close> has found it.\<close>

lemma delete_found:
  assumes i: "index_ok B R H bs" and r: "lookup (entries_of B H ZSUPER) cur = Some r" "r \<noteq> ZSUPER" "s_scroot R = r"
    and P: "P \<subseteq> {r}" and k: "k = strncpy_term ZKYLEN k"
    and m: "stocked (Suc m) B (H r) r" "0 < m" "Suc m \<le> 10"
    and g: "repr s B' P R'" "resplit B (find_start k R) (H r) r B' R' h' bs'" "search_post B' h' r k (find_start k R) res R'"
      "fst res = 0"
  shows "runs (bdelk1 (Some k) s) (\<lambda>(e, s'). e = btgerr s' \<and> \<not> shared s' \<and> (e = QF2BIG \<or> e = 0 \<and>
    (\<exists>B' P' R' h' bs'. repr s' B' P' R' \<and> P' \<subseteq> P \<and> index_ok B' R' (H(r := h')) bs' \<and> later R R' \<and>
      entries_of B' (H(r := h')) ZSUPER = entries_of B H ZSUPER \<and>
      catalog B' (H(r := h')) = (catalog B H)(cur \<mapsto> without k (entries_of B H r)) \<and>
      stocked m B' h' r \<and> scan_at B' R' h' (beyond k (entries_of B H r)))))"
proof -
  have rr: "r \<in> root_set B H" using lookup_root [of B H cur r, OF r(1)] .
  have f: "forest B H" using i by (simp add: index_ok_def)
  have o': "open_tree B' R' h' r bs'" and ents: "tree_entries B' h' r = entries_of B H r"
    and k': "others_kept B (H r) r B' h'" and sr: "same_rest (find_start k R) R'"
    and w: "\<forall>t. 0 \<le> t \<and> t \<noteq> ZNKEYS \<longrightarrow> word_of (B' ! nat r) t = word_of (B ! nat r) t"
    and m': "stocked (Suc m) B' h' r"
    using g(2) m by (simp_all add: resplit_def)
  obtain s1 where s1: "bdelk1 (Some k) s = bdelk1_end s1" "erased B' P R' h' r m k s1"
    using bdelk1_erases [OF g(1) P o' g(3,4) k m' m(2)] by blast
  obtain B2 P2 R2 h2 bs2 where 2: "repr s1 B2 P2 R2" "P2 \<subseteq> P" "open_tree B2 R2 h2 r bs2" "others_kept B' h' r B2 h2"
      "stocked m B2 h2 r" "tree_entries B2 h2 r = without k (tree_entries B' h' r)" "same_rest R' R2" "s_lfkey R2 = s_lfkey R'"
      "wf_stk (stk R2)" "\<forall>t. 0 \<le> t \<and> t \<noteq> ZNKEYS \<longrightarrow> word_of (B2 ! nat r) t = word_of (B' ! nat r) t"
    using s1(2) by (auto simp: erased_def)
  have k2: "others_kept B (H r) r B2 h2" using others_kept_trans [OF k' 2(4)] .
  have sr2: "same_rest (find_start k R) R2" using same_rest_trans [OF sr 2(7)] .
  then have l: "later R R2" using later_same_rest by fastforce
  have st: "stk_array R2" using 2(9) by (simp add: wf_stk_def)
  have w2: "\<forall>t. 0 \<le> t \<and> t \<noteq> ZNKEYS \<longrightarrow> word_of (B2 ! nat r) t = word_of (B ! nat r) t" using w 2(10) by simp
  let ?H = "H(r := h2)" and ?es = "without k (entries_of B H r)"
  have i2: "index_ok B2 R2 ?H bs2" using index_step [OF i rr 2(3) k2 _ l st w2] r(2) by blast
  note F = forest_step [OF f rr 2(3) k2]
  have e2: "entries_of B2 ?H r = ?es" using 2(6) ents by simp
  have c2: "catalog B2 ?H = (catalog B H)(cur \<mapsto> ?es)" using catalog_step [OF f r(1) 2(3) k2] r(2) e2 by simp
  have R2: "s_lfkey R2 = k" "qerror R2 = 0" "s_scroot R2 = r" "\<not> shared R2"
    using 2(8) g(3) same_rest_fields [OF sr2] find_start_fields r(3) i2
    by (simp_all add: search_post_def Let_def index_ok_def)
  have none: "lookup (entries_of B2 ?H r) k = None" using 2(6) ents by (auto simp: lookup_None)
  have bey: "beyond k ?es = beyond k (entries_of B H r)" by (simp add: filter_filter) (metis less_irrefl)
  have r2: "r \<in> root_set B2 ?H" "P2 \<subseteq> {r}" "stocked m B2 (?H r) r" "m \<le> 10" using F(2) rr r(2) 2(2,5) P m(3) by auto
  note E = delete_end [OF 2(1) r2(2) i2 r2(1) R2(3,1,2) k none r2(3,4)]
  show ?thesis
    unfolding s1(1)
  proof (rule runs_conseq [OF E], simp only: split_paired_all prod.case, elim conjE disjE exE, goal_cases)
    case (2 e s' B3 R3 h3 bs3)
    have "later R R3" using later_trans [OF l 2(6)] .
    moreover have "?H(r := h3) = H(r := h3)" by simp
    ultimately show ?case using 2 \<open>P2 \<subseteq> P\<close> c2 F(3) r(2) bey e2
      by (intro conjI disjI2 exI [of _ B3] exI [of _ P2] exI [of _ R3] exI [of _ h3] exI [of _ bs3]) simp_all
  qed simp
qed

text \<open>The call of \<open>bfndky\<close> with which \<open>bdelky\<close> begins, and what is left to do after it.\<close>

definition kept :: "memrec list \<Rightarrow> int set \<Rightarrow> st \<Rightarrow> heights \<Rightarrow> int \<Rightarrow> keyent list \<Rightarrow> st \<Rightarrow> bool" where
  "kept B P R H r es s' \<longleftrightarrow> (\<exists>B' R' h' bs'. repr s' B' P R' \<and> index_ok B' R' (H(r := h')) bs' \<and> later R R' \<and>
     entries_of B' (H(r := h')) ZSUPER = entries_of B H ZSUPER \<and> catalog B' (H(r := h')) = catalog B H \<and>
     scan_at B' R' h' es \<and> (\<forall>f \<le> 10. stocked f B (H r) r \<longrightarrow> stocked f B' h' r))"

definition found :: "memrec list \<Rightarrow> int set \<Rightarrow> st \<Rightarrow> heights \<Rightarrow> int \<Rightarrow> string \<Rightarrow> st \<Rightarrow> bool" where
  "found B P R H r k s1 \<longleftrightarrow> (\<exists>B' R' h' bs' res. repr s1 B' P R' \<and>
     resplit B (find_start k (clear_err R)) (H r) r B' R' h' bs' \<and>
     search_post B' h' r k (find_start k (clear_err R)) res R' \<and> fst res = 0)"

lemma index_ok_clear:
  assumes i: "index_ok B R H bs"
  shows "index_ok B (clear_err R) H bs"
  by (rule index_ok_later [OF i]) (use i in \<open>simp_all add: index_ok_def\<close>)

lemma bdelky_find:
  assumes s: "repr s B P R" "P \<subseteq> {r}" and i: "index_ok B R H bs" and r: "r \<in> root_set B H" "s_scroot R = r" "smode (super R) = 0"
    and k: "k = strncpy_term ZKYLEN key"
  defines "es \<equiv> entries_of B H r"
  shows "\<exists>s1. bdelky (Some key) s = Some (QF2BIG, s1) \<or>
    lookup es k = None \<and> bdelky (Some key) s = Some (QNOKEY, s1) \<and> kept B P R H r (beyond k es) s1 \<or>
    lookup es k \<noteq> None \<and> found B P R H r k s1 \<and>
      bdelky (Some key) s = do { (e, s) \<leftarrow> bdelk1 (Some key) s1; s \<leftarrow> unlock_if_shared s; Some (btgerr s, s) }"
proof -
  let ?s0 = "clear_err s" and ?R0 = "clear_err R"
  have r0: "repr ?s0 B P ?R0" using s(1) by auto
  note i0 = index_ok_clear [OF i]
  have ready: "update_ready ?R0 r" using i0 r(2,3) by (simp add: update_ready_def index_ok_def)
  have sc: "s_scroot ?R0 = r" using r(2) by simp
  have sf: "\<not> shared ?s0" "smode (super ?s0) = 0" using repr_fields(4,8) [OF r0] i r(3) by (simp_all add: index_ok_def)
  obtain e w s1 where s1: "bfndky key None ?s0 = Some ((e, w), s1)" and
    F: "e = QF2BIG \<and> stuck B ?R0 H s1 \<or> (\<exists>B' R' h' bs'. repr s1 B' P R' \<and> index_ok B' R' (H(r := h')) bs' \<and> later ?R0 R' \<and>
      root_set B' (H(r := h')) = root_set B H \<and> entries_of B' (H(r := h')) ZSUPER = entries_of B H ZSUPER \<and>
      catalog B' (H(r := h')) = catalog B H \<and> tree_entries B' h' r = es \<and>
      (case lookup es k of None \<Rightarrow> e = QNOKEY | Some x \<Rightarrow> e = 0 \<and> w = Some x) \<and> qerror R' = e \<and>
      scan_at B' R' h' (beyond k es) \<and> (\<forall>f \<le> 10. stocked f B (H r) r \<longrightarrow> stocked f B' h' r))"
    unfolding es_def by (rule runs_obtain3 [OF index_find [OF r0 s(2) i0 r(1) sc k]])
  obtain e' w' s1' where "bfndky key None ?s0 = Some ((e', w'), s1')" and
    A: "e' = QF2BIG \<and> too_big B (find_start k ?R0) (H r) r s1' \<or>
      (\<exists>B' R' h' bs' res. repr s1' B' P (find_end k (fst res = 0) R') \<and>
        resplit B (find_start k ?R0) (H r) r B' R' h' bs' \<and> search_post B' h' r k (find_start k ?R0) res R' \<and>
        nkeys_of (B' ! nat (List.last (path B' h' r k))) < ZMXKEY \<and>
        w' = snd res \<and> e' = (if fst res = 0 then 0 else QNOKEY))"
    by (rule runs_obtain3 [OF bfndky_update [OF r0 s(2) ready index_open [OF i0 r(1)] k]])
  then have eq: "e' = e" "s1' = s1" using s1 by simp_all
  have call: "bdelky (Some key) s = do { s \<leftarrow> (if e = 0 then do { (e, s) \<leftarrow> bdelk1 (Some key) s1; Some s } else Some s1);
      s \<leftarrow> unlock_if_shared s; Some (btgerr s, s) }"
    using bvalap_ok [OF r0, of "''BDELKY''"] sf s1 by (simp add: bdelky_def lock_if_shared_def Let_def)
  have stop: "bdelky (Some key) s = Some (btgerr s1, s1)" if "e \<noteq> 0" "\<not> shared s1"
    using that by (simp add: call unlock_if_shared_def)
  from F show ?thesis
  proof (elim disjE conjE exE, goal_cases)
    case 1
    then obtain B' P' R' where t: "repr s1 B' P' R'" "qerror R' = QF2BIG" "\<not> shared R'" by (auto simp: stuck_def)
    then have "btgerr s1 = QF2BIG" "\<not> shared s1" using repr_fields(4,9) [OF t(1)] by (simp_all add: btgerr_def)
    then show ?case using stop 1(1) by (auto simp: QF2BIG_def)
  next
    case (2 B' R' h' bs')
    show ?case
    proof (cases "lookup es k")
      case None
      then have e: "e = QNOKEY" using 2(8) by simp
      have "btgerr s1 = QNOKEY" "\<not> shared s1"
        using repr_fields(4,9) [OF 2(1)] 2(2,9) e(1) by (simp_all add: btgerr_def index_ok_def)
      then have "bdelky (Some key) s = Some (QNOKEY, s1)" using stop e(1) by (simp add: QNOKEY_def)
      moreover have "kept B P R H r (beyond k es) s1"
        unfolding kept_def using 2(1,2,3,5,6,10,11) by (auto intro!: exI [of _ B'] exI [of _ R'] exI [of _ h'] exI [of _ bs'])
      ultimately show ?thesis using None by blast
    next
      case (Some x)
      then have e: "e = 0" using 2(8) by simp
      then obtain B' R' h' bs' res where "repr s1 B' P (find_end k (fst res = 0) R')" "fst res = 0"
          "resplit B (find_start k ?R0) (H r) r B' R' h' bs'" "search_post B' h' r k (find_start k ?R0) res R'"
        using A unfolding eq by (auto simp: QF2BIG_def QNOKEY_def split: if_splits)
      moreover from this have "repr s1 B' P R'" by (simp add: find_end_def)
      ultimately have "found B P R H r k s1" unfolding found_def by blast
      moreover have "bdelky (Some key) s = do { (e, s) \<leftarrow> bdelk1 (Some key) s1; s \<leftarrow> unlock_if_shared s; Some (btgerr s, s) }"
        using e by (simp add: call split_def)
      ultimately show ?thesis using Some by auto
    qed
  qed
qed

lemma index_delete:
  assumes s: "repr s B P R" "P \<subseteq> {r}" and i: "index_ok B R H bs"
    and r: "lookup (entries_of B H ZSUPER) cur = Some r" "r \<noteq> ZSUPER" "s_scroot R = r" "smode (super R) = 0"
    and k: "k = strncpy_term ZKYLEN k" and m: "stocked (Suc m) B (H r) r" "0 < m" "Suc m \<le> 10"
  defines "es \<equiv> entries_of B H r"
  shows "runs (bdelky (Some k) s) (\<lambda>(e, s'). e = QF2BIG \<or> e = (if lookup es k = None then QNOKEY else 0) \<and>
    (\<exists>B' P' R' h' bs'. repr s' B' P' R' \<and> P' \<subseteq> P \<and> index_ok B' R' (H(r := h')) bs' \<and> later R R' \<and>
      entries_of B' (H(r := h')) ZSUPER = entries_of B H ZSUPER \<and>
      catalog B' (H(r := h')) = (catalog B H)(cur \<mapsto> without k es) \<and>
      stocked m B' h' r \<and> scan_at B' R' h' (beyond k es)))"
proof -
  have rr: "r \<in> root_set B H" using lookup_root [of B H cur r, OF r(1)] .
  have cat: "catalog B H cur = Some es" using r(1) by (simp add: catalog_def es_def)
  obtain s1 where "bdelky (Some k) s = Some (QF2BIG, s1) \<or>
    lookup es k = None \<and> bdelky (Some k) s = Some (QNOKEY, s1) \<and> kept B P R H r (beyond k es) s1 \<or>
    lookup es k \<noteq> None \<and> found B P R H r k s1 \<and>
      bdelky (Some k) s = do { (e, s) \<leftarrow> bdelk1 (Some k) s1; s \<leftarrow> unlock_if_shared s; Some (btgerr s, s) }"
    unfolding es_def using bdelky_find [OF s i rr r(3,4) k] by blast
  then show ?thesis
  proof (elim disjE conjE, goal_cases)
    case 1
    then show ?case by simp
  next
    case 2
    obtain B' R' h' bs' where 3: "repr s1 B' P R'" "index_ok B' R' (H(r := h')) bs'" "later R R'"
        "entries_of B' (H(r := h')) ZSUPER = entries_of B H ZSUPER" "catalog B' (H(r := h')) = catalog B H"
        "scan_at B' R' h' (beyond k es)" "\<forall>f \<le> 10. stocked f B (H r) r \<longrightarrow> stocked f B' h' r"
      using 2(3) by (auto simp: kept_def)
    have "without k es = es" using 2(1) by (auto simp: lookup_None filter_id_conv)
    moreover have "stocked m B' h' r" using 3(7) m(1,3) stocked_less [of "Suc m" B' h' r m] by simp
    ultimately show ?case using 2(1,2) 3 cat
      by (auto intro!: exI [of _ B'] exI [of _ P] exI [of _ R'] exI [of _ h'] exI [of _ bs'])
  next
    case 3
    have sc: "s_scroot (clear_err R) = r" using r(3) by simp
    obtain B' R' h' bs' res where g: "repr s1 B' P R'" "resplit B (find_start k (clear_err R)) (H r) r B' R' h' bs'"
        "search_post B' h' r k (find_start k (clear_err R)) res R'" "fst res = 0"
      using 3(2) by (auto simp: found_def)
    note DF = delete_found [OF index_ok_clear [OF i] r(1,2) sc s(2) k m g, folded es_def]
    obtain e2 s2 where 5: "bdelk1 (Some k) s1 = Some (e2, s2)" and
        4: "e2 = btgerr s2 \<and> \<not> shared s2 \<and> (e2 = QF2BIG \<or> e2 = 0 \<and> (\<exists>B' P' R' h' bs'. repr s2 B' P' R' \<and> P' \<subseteq> P \<and>
          index_ok B' R' (H(r := h')) bs' \<and> later (clear_err R) R' \<and> entries_of B' (H(r := h')) ZSUPER = entries_of B H ZSUPER \<and>
          catalog B' (H(r := h')) = (catalog B H)(cur \<mapsto> without k es) \<and> stocked m B' h' r \<and> scan_at B' R' h' (beyond k es)))"
      by (rule runs_obtain2 [OF DF])
    have "bdelky (Some k) s = Some (e2, s2)" using 3(3) 4 5 by (simp add: unlock_if_shared_def)
    moreover have "e2 = QF2BIG \<or> e2 = (if lookup es k = None then QNOKEY else 0) \<and> (\<exists>B' P' R' h' bs'. repr s2 B' P' R' \<and> P' \<subseteq> P \<and>
        index_ok B' R' (H(r := h')) bs' \<and> later R R' \<and> entries_of B' (H(r := h')) ZSUPER = entries_of B H ZSUPER \<and>
        catalog B' (H(r := h')) = (catalog B H)(cur \<mapsto> without k es) \<and> stocked m B' h' r \<and> scan_at B' R' h' (beyond k es))"
      using 4 unfolding find_start_later(2) if_not_P [OF 3(1)] by blast
    ultimately show ?case unfolding runs_def by blast
  qed
qed

text \<open>A key that is too long: the search cuts it off and finds it, \<open>bdelk1\<close> compares the whole argument.\<close>

lemma index_delete_long:
  assumes s: "repr s B P R" "P \<subseteq> {r}" and i: "index_ok B R H bs"
    and r: "r \<in> root_set B H" "s_scroot R = r" "smode (super R) = 0"
    and k: "k = strncpy_term ZKYLEN key" "k \<noteq> key" and n: "lookup (entries_of B H r) k \<noteq> None"
  shows "runs (bdelky (Some key) s) (\<lambda>(e, s'). e = QF2BIG \<or> e = QDELER \<and>
    (\<exists>B' R' h' bs'. repr s' B' P R' \<and> index_ok B' R' (H(r := h')) bs' \<and> later R R' \<and>
      entries_of B' (H(r := h')) ZSUPER = entries_of B H ZSUPER \<and> catalog B' (H(r := h')) = catalog B H))"
proof -
  have f: "forest B H" using i by (simp add: index_ok_def)
  have kk: "k = strncpy_term ZKYLEN k" using k(1) by (simp add: strncpy_term_def)
  have card: "card P < ZMXBLK" using card_mono [OF _ s(2)] by (simp add: ZMXBLK_def)
  obtain s1 where "bdelky (Some key) s = Some (QF2BIG, s1) \<or> found B P R H r k s1 \<and>
      bdelky (Some key) s = do { (e, s) \<leftarrow> bdelk1 (Some key) s1; s \<leftarrow> unlock_if_shared s; Some (btgerr s, s) }"
    using bdelky_find [OF s i r k(1)] n by blast
  then show ?thesis
  proof (elim disjE conjE, goal_cases)
    case 2
    obtain B' R' h' bs' res where g: "repr s1 B' P R'" "resplit B (find_start k (clear_err R)) (H r) r B' R' h' bs'"
        "search_post B' h' r k (find_start k (clear_err R)) res R'" "fst res = 0"
      using 2(1) by (auto simp: found_def)
    have o': "open_tree B' R' h' r bs'" and ents: "tree_entries B' h' r = entries_of B H r"
      and k': "others_kept B (H r) r B' h'" and sr: "same_rest (find_start k (clear_err R)) R'"
      and w: "\<forall>t. 0 \<le> t \<and> t \<noteq> ZNKEYS \<longrightarrow> word_of (B' ! nat r) t = word_of (B ! nat r) t"
      using g(2) by (simp_all add: resplit_def)
    obtain c p where c: "valid_blk B' c" "wf_keys (B' ! nat c)" "p < length (entries (B' ! nat c))" "ke_key (entries (B' ! nat c) ! p) = k"
        "wf_stk (stk R')" "lf R' = \<lparr>lfkey = k, lfblk = c, lfpos = int p, lfexct = True, draddr = ZNULL\<rparr>"
      using found_at [OF o' g(3,4)] by blast
    let ?R1 = "R'\<lparr>srh_keyent := entries (B' ! nat c) ! p\<rparr>"
    obtain a s2 where a: "bsrhbk c (srh_args None (int p)) s1 = Some ((True, a), s2)" "s_loc a = int p" "s_result a = Some 0"
        "s_key a = Some k" "repr s2 B' P ?R1"
      using found_search [OF g(1) card c(1-4) kk] by blast
    let ?s = "bterr ''BDELK1'' QDELER None s2" and ?R = "bterr ''BDELK1'' QDELER None ?R1"
    have q: "qerror R' = 0" "\<not> shared R'" using same_rest_fields [OF sr] find_start_fields(5,6) i by (simp_all add: index_ok_def)
    have q2: "btgerr ?s = QDELER" "\<not> shared ?s"
      using repr_fields(4,9) [OF a(5)] q by (simp_all add: bterr_records btgerr_def)
    have lf: "lf s1 = lf R'" using repr_fields(6) [OF g(1)] .
    have "bdelk1 (Some key) s1 = Some (QDELER, ?s)"
      using lf c(6) a(1-4) k(2) q2(1) by (simp add: bdelk1_def btdeldup_def Let_def strcmp_eq)
    then have call: "bdelky (Some key) s = Some (QDELER, ?s)" using 2(2) q2 by (simp add: unlock_if_shared_def)
    have "later R R'" using later_same_rest [OF sr] by simp
    moreover have "later R ?R1" using calculation by (simp add: later_def)
    then have l: "later R ?R" "stk_array ?R" using c(5) by (simp_all add: wf_stk_def)
    have oR: "open_tree B' ?R h' r bs'" using o' open_tree_super [of ?R R'] by simp
    have "index_ok B' ?R (H(r := h')) bs'" by (rule index_step [OF i r(1) oR k' ents l w])
    moreover have "repr ?s B' P ?R" using a(5) by auto
    ultimately have "\<exists>B' R' h' bs'. repr ?s B' P R' \<and> index_ok B' R' (H(r := h')) bs' \<and> later R R' \<and>
        entries_of B' (H(r := h')) ZSUPER = entries_of B H ZSUPER \<and> catalog B' (H(r := h')) = catalog B H"
      using l(1) forest_step(3) [OF f r(1) o' k' ents] catalog_same [OF f r(1) o' k' ents] by blast
    then show ?case unfolding call runs_Some prod.case by blast
  qed simp
qed

section \<open>The current root as an index with deletion\<close>

lemma stocks_delete:
  assumes "stocks (Suc m) cur M s" "0 < m" "Suc m \<le> 10" and es: "M cur = Some es" and ns: "cur \<noteq> ''$$super''"
    and k: "k = strncpy_term ZKYLEN k"
  shows "runs (bdelky (Some k) s) (\<lambda>(e, s'). e = QF2BIG \<or> e = (if lookup es k = None then QNOKEY else 0) \<and>
    stocks m cur (M(cur \<mapsto> without k es)) s' \<and> scanning 0 cur (M(cur \<mapsto> without k es)) s' (beyond k es))"
proof -
  obtain B P R H bs r where S: "repr s B P R" "P \<subseteq> {r}" "index_ok B R H bs"
      "lookup (entries_of B H ZSUPER) cur = Some r" "lookup (entries_of B H ZSUPER) ''$$super'' = Some ZSUPER" "s_scroot R = r" "scclas (super R) = cur"
      "smode (super R) = 0" "catalog B H = M" "stocked (Suc m) B (H r) r"
    using assms(1) by (auto simp: stocks_def)
  have ents: "entries_of B H r = es" using es S(4,9) by (auto simp: catalog_def)
  have r: "r \<noteq> ZSUPER" using index_super_name [OF S(3-5)] ns by blast
  show ?thesis
  proof (rule runs_conseq [OF index_delete [OF S(1-4) r S(6,8) k S(10) assms(2,3)]],
      simp only: split_paired_all prod.case, elim disjE conjE exE, goal_cases)
    case (1 e s')
    then show ?case by simp
  next
    case (2 e s' B' P' R' h' bs')
    have "s_scroot R' = r" "scclas (super R') = cur" "smode (super R') = 0"
      using 2(5) S(6-8) by (simp_all add: later_def super_later_def)
    moreover have "P' \<subseteq> {r}" using 2(3) S(2) by blast
    ultimately have "stocks m cur (M(cur \<mapsto> without k es)) s'"
        "scanning 0 cur (M(cur \<mapsto> without k es)) s' (beyond k es)"
      unfolding stocks_def scanning_def using 2(2,4,6-9) S(4,5,9) ents
      by (intro exI [of _ B'] exI [of _ P'] exI [of _ R'] exI [of _ "H(r := h')"] exI [of _ bs'] exI [of _ r]; simp)+
    then show ?case using 2(1) ents by simp
  qed
qed

lemma serves_delete_long:
  assumes "serves 0 cur M s" and es: "M cur = Some es"
    and k: "strncpy_term ZKYLEN key \<noteq> key" "lookup es (strncpy_term ZKYLEN key) \<noteq> None"
  shows "runs (bdelky (Some key) s) (\<lambda>(e, s'). e = QF2BIG \<or> e = QDELER \<and> serves 0 cur M s')"
proof -
  obtain B P R H bs r where S: "repr s B P R" "P \<subseteq> {r}" "index_ok B R H bs"
      "lookup (entries_of B H ZSUPER) cur = Some r" "lookup (entries_of B H ZSUPER) ''$$super'' = Some ZSUPER" "s_scroot R = r" "scclas (super R) = cur"
      "smode (super R) = 0" "catalog B H = M"
    using assms(1) by (auto simp: serves_def)
  have rr: "r \<in> root_set B H" using lookup_root [of B H cur r, OF S(4)] .
  have "lookup (entries_of B H r) (strncpy_term ZKYLEN key) \<noteq> None" using es k(2) S(4,9) by (auto simp: catalog_def)
  note D = index_delete_long [OF S(1-3) rr S(6,8) refl k(1) this]
  show ?thesis
  proof (rule runs_conseq [OF D], simp only: split_paired_all prod.case, elim disjE conjE exE, goal_cases)
    case (2 e s' B' R' h' bs')
    have "s_scroot R' = r" "scclas (super R') = cur" "smode (super R') = 0"
      using 2(4) S(6-8) by (simp_all add: later_def super_later_def)
    then have "serves 0 cur M s'"
      unfolding serves_def using 2(2,3,5,6) S(2,4,5,9)
      by (intro exI [of _ B'] exI [of _ P] exI [of _ R'] exI [of _ "H(r := h')"] exI [of _ bs'] exI [of _ r]) simp
    then show ?case using 2(1) by simp
  qed simp
qed

lemma stocks_find:
  assumes "stocks f cur M s" "f \<le> 10" and es: "M cur = Some es"
  shows "runs (bfndky k None s) (\<lambda>((e, w), s'). e = QF2BIG \<or> stocks f cur M s' \<and>
    (case lookup es (strncpy_term ZKYLEN k) of None \<Rightarrow> e = QNOKEY | Some x \<Rightarrow> e = 0 \<and> w = Some x))"
proof -
  obtain B P R H bs r where S: "repr s B P R" "P \<subseteq> {r}" "index_ok B R H bs"
      "lookup (entries_of B H ZSUPER) cur = Some r" "lookup (entries_of B H ZSUPER) ''$$super'' = Some ZSUPER" "s_scroot R = r" "scclas (super R) = cur"
      "smode (super R) = 0" "catalog B H = M" "stocked f B (H r) r"
    using assms(1) by (auto simp: stocks_def)
  have rr: "r \<in> root_set B H" using lookup_root [of B H cur r, OF S(4)] .
  have ents: "entries_of B H r = es" using es S(4,9) by (auto simp: catalog_def)
  show ?thesis
  proof (rule runs_conseq [OF index_find [OF S(1-3) rr S(6) refl, of k None]],
      simp only: split_paired_all prod.case, elim disjE conjE exE, goal_cases)
    case (1 e w s')
    then show ?case by simp
  next
    case (2 e w s' B' R' h' bs')
    have "s_scroot R' = r" "scclas (super R') = cur" "smode (super R') = 0"
      using 2(3) S(6-8) by (simp_all add: later_def super_later_def)
    then have "stocks f cur M s'"
      unfolding stocks_def using 2(1,2) 2(5,6,11) S(2,4,5,9,10) assms(2)
      by (intro exI [of _ B'] exI [of _ P] exI [of _ R'] exI [of _ "H(r := h')"] exI [of _ bs'] exI [of _ r]) simp
    then show ?case using 2(8) ents by simp
  qed
qed

fun delete_all :: "int \<Rightarrow> (string \<Rightarrow> 's \<Rightarrow> (int \<times> 's) option) \<Rightarrow> string list \<Rightarrow> 's \<Rightarrow> (int \<times> 's) option" where
  "delete_all full del [] s = Some (0, s)"
| "delete_all full del (k # ks) s = do {
     (e, s) \<leftarrow> del k s;
     if e = full then Some (e, s) else delete_all full del ks s
   }"

lemma lookup_filter: "lookup (filter (\<lambda>x. ke_key x \<notin> K) es) = lookup es |` (- K)"
proof
  fix k
  show "lookup (filter (\<lambda>x. ke_key x \<notin> K) es) k = (lookup es |` (- K)) k"
    by (induction es) (auto simp: lookup_def restrict_map_def)
qed

text \<open>An ordered index with deletion: \<open>keeps f s es\<close> says that \<open>f - 1\<close> keys can still be deleted.\<close>

locale erasable_index =
  fixes keeps :: "nat \<Rightarrow> 's \<Rightarrow> keyent list \<Rightarrow> bool"
    and ins :: "string \<Rightarrow> int \<Rightarrow> 's \<Rightarrow> (int \<times> 's) option"
    and find :: "string \<Rightarrow> 's \<Rightarrow> ((int \<times> int option) \<times> 's) option"
    and del :: "string \<Rightarrow> 's \<Rightarrow> (int \<times> 's) option"
    and norm :: "string \<Rightarrow> string" and full dup nokey :: int
  assumes is_index: "ordered_index (keeps f) ins find norm full dup nokey"
    and del_key: "keeps (Suc (Suc f)) s es \<Longrightarrow> norm k = k \<Longrightarrow> runs (del k s) (\<lambda>(e, s'). e = full \<or>
      e = (if lookup es k = None then nokey else 0) \<and> keeps (Suc f) s' (without k es))"
begin

lemma erase:
  "keeps (Suc f + length ks) s es \<Longrightarrow> \<forall>k \<in> set ks. norm k = k \<Longrightarrow> runs (delete_all full del ks s)
     (\<lambda>(e, s'). e = full \<or> e = 0 \<and> keeps (Suc f) s' (filter (\<lambda>x. ke_key x \<notin> set ks) es))"
proof (induction ks arbitrary: s es)
  case (Cons k ks)
  have c: "full \<noteq> 0" "full \<noteq> nokey" using ordered_index.codes [OF is_index] by blast+
  have k: "keeps (Suc (Suc (f + length ks))) s es" "norm k = k" "\<forall>k \<in> set ks. norm k = k" using Cons.prems by simp_all
  have f: "filter (\<lambda>x. ke_key x \<notin> set ks) (without k es) = filter (\<lambda>x. ke_key x \<notin> set (k # ks)) es"
    by (simp add: conj_commute)
  show ?case
    unfolding delete_all.simps
  proof (rule runs_bindI [OF del_key [OF k(1,2)]], simp only: split_paired_all prod.case, elim disjE conjE, goal_cases)
    case (2 e s')
    have "keeps (Suc f + length ks) s' (without k es)" using 2(2) by simp
    note IH = Cons.IH [OF this k(3), unfolded f]
    have "e \<noteq> full" using 2(1) c by auto
    then show ?case using IH by simp
  qed simp
qed simp

text \<open>Insertions, then deletions: what is left is what the insertions put there without the deleted keys.\<close>

lemma fill_then_erase:
  assumes s: "keeps (Suc f + length ks) s es" and k: "\<forall>k \<in> set ks. norm k = k"
  shows "runs (do { (e, s) \<leftarrow> insert_all full ins kvs s; if e = full then Some (e, s) else delete_all full del ks s })
    (\<lambda>(e, s'). e = full \<or> e = 0 \<and> (\<exists>es'. keeps (Suc f) s' es' \<and>
      lookup es' = keep_first norm kvs (lookup es) |` (- set ks)))"
proof (rule runs_bindI [OF ordered_index.fill [OF is_index s, of kvs]], simp only: split_paired_all prod.case, elim disjE conjE exE, goal_cases)
  case (2 e s' es')
  have c: "full \<noteq> 0" using ordered_index.codes [OF is_index] by blast
  have "runs (delete_all full del ks s') (\<lambda>(e, s'). e = full \<or> e = 0 \<and> (\<exists>es'. keeps (Suc f) s' es' \<and>
      lookup es' = keep_first norm kvs (lookup es) |` (- set ks)))"
    using 2(3) lookup_filter [of "set ks" es'] by (intro runs_conseq [OF erase [OF 2(2) k]]) auto
  then show ?case using 2(1) c by simp
qed simp

end

interpretation six: ordered_index "\<lambda>s es. f \<le> 10 \<and> cur \<noteq> ''$$super'' \<and> stocks f cur (M(cur \<mapsto> es)) s" binsky
  "\<lambda>k. bfndky k None" "strncpy_term ZKYLEN" QF2BIG QDUP QNOKEY for f cur M
proof
  show "QF2BIG \<noteq> 0" "QF2BIG \<noteq> QDUP" "QF2BIG \<noteq> QNOKEY" by (simp_all add: QF2BIG_def QDUP_def QNOKEY_def)
  show "sorted_keys es" if "f \<le> 10 \<and> cur \<noteq> ''$$super'' \<and> stocks f cur (M(cur \<mapsto> es)) s" for s es
    using serves_current [OF stocks_serves] that by fastforce
  show "runs (binsky k v s) (\<lambda>(e, s'). e = QF2BIG \<or> e = 0 \<and> f \<le> 10 \<and> cur \<noteq> ''$$super'' \<and>
      stocks f cur (M(cur \<mapsto> insert_at (lower (strncpy_term ZKYLEN k) es) (new_entry (strncpy_term ZKYLEN k) v) es)) s')"
    if a: "f \<le> 10 \<and> cur \<noteq> ''$$super'' \<and> stocks f cur (M(cur \<mapsto> es)) s" and n: "lookup es (strncpy_term ZKYLEN k) = None" for s es k v
    by (rule runs_conseq [OF stocks_insert [of f cur "M(cur \<mapsto> es)" s es k v]]) (use a n in auto)
  show "runs (binsky k v s) (\<lambda>(e, s'). e = QF2BIG \<or> e = QDUP \<and> f \<le> 10 \<and> cur \<noteq> ''$$super'' \<and> stocks f cur (M(cur \<mapsto> es)) s')"
    if a: "f \<le> 10 \<and> cur \<noteq> ''$$super'' \<and> stocks f cur (M(cur \<mapsto> es)) s" and n: "lookup es (strncpy_term ZKYLEN k) \<noteq> None" for s es k v
    by (rule runs_conseq [OF stocks_insert [of f cur "M(cur \<mapsto> es)" s es k v]]) (use a n in auto)
  show "runs (bfndky k None s) (\<lambda>((e, w), s'). e = QF2BIG \<or> (f \<le> 10 \<and> cur \<noteq> ''$$super'' \<and> stocks f cur (M(cur \<mapsto> es)) s') \<and>
      (case lookup es (strncpy_term ZKYLEN k) of None \<Rightarrow> e = QNOKEY | Some x \<Rightarrow> e = 0 \<and> w = Some x))"
    if a: "f \<le> 10 \<and> cur \<noteq> ''$$super'' \<and> stocks f cur (M(cur \<mapsto> es)) s" for s es k
    by (rule runs_conseq [OF stocks_find [of f cur "M(cur \<mapsto> es)" s es k]]) (use a in auto)
qed

interpretation bex: erasable_index "\<lambda>f s es. f \<le> 10 \<and> cur \<noteq> ''$$super'' \<and> stocks f cur (M(cur \<mapsto> es)) s" binsky
  "\<lambda>k. bfndky k None" "\<lambda>k. bdelky (Some k)" "strncpy_term ZKYLEN" QF2BIG QDUP QNOKEY for cur M
proof (rule erasable_index.intro)
  fix f
  show "ordered_index (\<lambda>s es. f \<le> 10 \<and> cur \<noteq> ''$$super'' \<and> stocks f cur (M(cur \<mapsto> es)) s) binsky
      (\<lambda>k. bfndky k None) (strncpy_term ZKYLEN) QF2BIG QDUP QNOKEY"
    by (rule six.ordered_index_axioms)
next
  fix f s es k
  assume a: "Suc (Suc f) \<le> 10 \<and> cur \<noteq> ''$$super'' \<and> stocks (Suc (Suc f)) cur (M(cur \<mapsto> es)) s" and k: "strncpy_term ZKYLEN k = k"
  show "runs (bdelky (Some k) s) (\<lambda>(e, s'). e = QF2BIG \<or> e = (if lookup es k = None then QNOKEY else 0) \<and>
      Suc f \<le> 10 \<and> cur \<noteq> ''$$super'' \<and> stocks (Suc f) cur (M(cur \<mapsto> without k es)) s')"
    by (rule runs_conseq [OF stocks_delete [of "Suc f" cur "M(cur \<mapsto> es)" s es k]]) (use a k in auto)
qed

end
