(* ===== verification/Samples.thy ===== *)
theory Samples
  imports Reopen Erase
begin

text \<open>
  Concrete states on which the properties are applied: \<open>fresh f\<close> is an open index over the file \<open>f\<close>
  whose cache is empty; \<open>sample\<close> is a file with a super root, a root of two leaves, a block on the
  free list, \<open>crowded\<close> one whose root is full; \<open>new_sess\<close> is a process that has no index open.
\<close>

section \<open>States\<close>

definition fresh :: "memrec list \<Rightarrow> st" where
  "fresh f = \<lparr>idxunt = Some f, idxfid = ''sample'', fd = 3, lckcnt = 0, shared = False,
     wt_threshold = 0,
     cntrls = [\<lparr>inmem = -1, busy = 0, writes = 0, lrunxt = 1\<rparr>,
       \<lparr>inmem = -1, busy = 0, writes = 0, lrunxt = 2\<rparr>, \<lparr>inmem = -1, busy = 0, writes = 0, lrunxt = -1\<rparr>],
     mems = [zero_memrec, zero_memrec, zero_memrec], lru = \<lparr>lrut = 2, lruh = 0\<rparr>,
     lf = \<lparr>lfkey = [], lfblk = ZNULL, lfpos = ZNULL, lfexct = False, draddr = ZNULL\<rparr>,
     stk = \<lparr>stkptr = -1, stkarr = replicate (nat STKMAX) 0\<rparr>, stat = zero_stats,
     super = \<lparr>sblkmx = int (length f), snfree = 1, sfreep = 4, scroot = 1, smode = 0, smod = 1,
       scclas = ''$$default''\<rparr>,
     qerror = 0, qname = [], qcode = 0, qarg = [], syserror = False, errno = 0,
     srh_keyent = zero_keyent, dup_keyent = zero_keyent, ioenv = (\<lambda>_ _. 0), lkenv = []\<rparr>"

lemma fresh_queue: "lru_queue (fresh f) [0, 1, 2]"
proof -
  have "{0..<3::int} = {0, 1, 2}" by auto
  then show ?thesis by (simp add: lru_queue_def fresh_def ZMXBLK_def)
qed

lemma fresh_repr:
  assumes "length f \<le> MXBLKS" "list_all wf_memrec f"
  shows "repr (fresh f) f {} (rest (fresh f))"
proof -
  have "\<exists>q. lru_queue (fresh f) q" using fresh_queue by blast
  then have "reps (fresh f) f f {} (rest (fresh f))"
    using assms
    by (auto simp: reps_def slots_distinct_def slot_ok_def fresh_def ZMXBLK_def less_Suc_eq
        numeral_eq_Suc nth_Cons')
  then show ?thesis using repr_reps by blast
qed

lemma fresh_rest:
  "super (rest (fresh f)) = super (fresh f)" "shared (rest (fresh f)) = False"
  "lckcnt (rest (fresh f)) = 0" "lkenv (rest (fresh f)) = []" "qerror (rest (fresh f)) = 0"
  "s_scroot (fresh f) = 1" "smode (super (fresh f)) = 0" "smod (super (fresh f)) = 1"
  "sfreep (super (fresh f)) = 4" "snfree (super (fresh f)) = 1" "sblkmx (super (fresh f)) = int (length f)"
  "wf_stk (stk (rest (fresh f)))" "stk_array (rest (fresh f))" "stack_of (stk (rest (fresh f))) = []"
  by (simp_all add: rest_def fresh_def wf_stk_def stack_of_def STKMAX_def)

section \<open>Blocks\<close>

definition block_of :: "int \<Rightarrow> int \<Rightarrow> int \<Rightarrow> (string \<times> int) list \<Rightarrow> int list \<Rightarrow> memrec" where
  "block_of type misc nx kvs ls =
     \<lparr>infblk = [push_bit (2 * ZBYTEW) ZVERS OR type, misc, nx, int (length kvs), 5, ZNULL],
      keyblk = map (\<lambda>(k, v). \<lparr>ke_key = k, ke_val = v, ke_dup = ZNULL\<rparr>) kvs @
        replicate (nat ZMXKEY - length kvs) zero_keyent,
      lnkblk = ls @ replicate (nat ZMXKEY + 1 - length ls) 0,
      dat = replicate (nat ZDATSZ) 0\<rparr>"

lemma wf_block_of:
  "length kvs \<le> nat ZMXKEY \<Longrightarrow> length ls \<le> nat ZMXKEY + 1 \<Longrightarrow> wf_memrec (block_of ty mi nx kvs ls)"
  by (simp add: wf_memrec_def block_of_def ZINFSZ_def)

lemma block_of_words:
  "nkeys_of (block_of ty mi nx kvs ls) = int (length kvs)"
  "word_of (block_of ty mi nx kvs ls) ZMISC = mi" "word_of (block_of ty mi nx kvs ls) ZNXBLK = nx"
  "word_of (block_of ty mi nx kvs ls) 0 = push_bit (2 * ZBYTEW) ZVERS OR ty"
  by (simp_all add: word_of_def block_of_def info_defs)

lemma block_of_type: "0 \<le> ty \<Longrightarrow> ty < 2 ^ 16 \<Longrightarrow> btype_of (block_of ty mi nx kvs ls) = ty"
  using pack_type(1) [of ty] by (simp add: btype_of_def block_of_words)

lemma block_of_entries:
  "length kvs \<le> nat ZMXKEY \<Longrightarrow> entries (block_of ty mi nx kvs ls) =
     map (\<lambda>(k, v). \<lparr>ke_key = k, ke_val = v, ke_dup = ZNULL\<rparr>) kvs"
  by (simp add: entries_def block_of_words) (simp add: block_of_def)

lemma block_of_links:
  "length ls = length kvs + 1 \<Longrightarrow> links (block_of ty mi nx kvs ls) = ls"
  by (simp add: links_def block_of_words) (simp add: block_of_def)

section \<open>A sample index\<close>

definition sample :: "memrec list" where
  "sample = [block_of ZROOT 1 4 [(''$$default'', 1), (''$$super'', 0)] [-1, -1, -1],
     block_of ZROOT 0 (-1) [(''m'', 20)] [2, 3],
     block_of ZINUSE 0 (-1) [(''a'', 10), (''c'', 11)] [-1, -1, -1],
     block_of ZINUSE 0 (-1) [(''x'', 30), (''z'', 31)] [-1, -1, -1],
     block_of ZFREE 0 (-1) [] []]"

abbreviation sstate :: st where "sstate \<equiv> fresh sample"

lemma sample_nth:
  "sample ! 0 = block_of ZROOT 1 4 [(''$$default'', 1), (''$$super'', 0)] [-1, -1, -1]"
  "sample ! Suc 0 = block_of ZROOT 0 (-1) [(''m'', 20)] [2, 3]"
  "sample ! 2 = block_of ZINUSE 0 (-1) [(''a'', 10), (''c'', 11)] [-1, -1, -1]"
  "sample ! 3 = block_of ZINUSE 0 (-1) [(''x'', 30), (''z'', 31)] [-1, -1, -1]"
  "sample ! 4 = block_of ZFREE 0 (-1) [] []"
  "length sample = 5"
  by (simp_all add: sample_def)

lemma sample_wf: "list_all wf_memrec sample"
  by (simp add: sample_def wf_block_of ZMXKEY_val)

lemma sample_repr: "repr sstate sample {} (rest sstate)"
  by (rule fresh_repr) (simp_all add: sample_wf sample_nth MXBLKS_def)

lemma sample_entries:
  "entries (sample ! Suc 0) = [\<lparr>ke_key = ''m'', ke_val = 20, ke_dup = ZNULL\<rparr>]"
  "entries (sample ! 2) = [\<lparr>ke_key = ''a'', ke_val = 10, ke_dup = ZNULL\<rparr>, \<lparr>ke_key = ''c'', ke_val = 11, ke_dup = ZNULL\<rparr>]"
  "entries (sample ! 3) = [\<lparr>ke_key = ''x'', ke_val = 30, ke_dup = ZNULL\<rparr>, \<lparr>ke_key = ''z'', ke_val = 31, ke_dup = ZNULL\<rparr>]"
  "links (sample ! Suc 0) = [2, 3]" "links (sample ! 2) = [-1, -1, -1]" "links (sample ! 3) = [-1, -1, -1]"
  by (simp_all add: sample_nth block_of_entries block_of_links ZMXKEY_val)

lemma string_less:
  "(CHR ''a'' < CHR ''c'')" "(CHR ''a'' < CHR ''m'')" "(CHR ''c'' < CHR ''m'')" "(CHR ''m'' < CHR ''x'')"
  "(CHR ''a'' < CHR ''x'')" "(CHR ''c'' < CHR ''x'')" "(CHR ''a'' < CHR ''z'')" "(CHR ''c'' < CHR ''z'')"
  "(CHR ''m'' < CHR ''z'')" "(CHR ''x'' < CHR ''z'')"
  by (simp_all add: less_char_def)

lemma sample_keys: "wf_keys (sample ! Suc 0)" "wf_keys (sample ! 2)" "wf_keys (sample ! 3)"
  by (auto simp: wf_keys_def sample_entries sorted_keys_def string_less)
     (auto simp: sample_nth block_of_words wf_block_of ZMXKEY_val)

lemma sample_tree_entries: "tree_entries sample 1 1 =
   [\<lparr>ke_key = ''a'', ke_val = 10, ke_dup = ZNULL\<rparr>, \<lparr>ke_key = ''c'', ke_val = 11, ke_dup = ZNULL\<rparr>,
    \<lparr>ke_key = ''m'', ke_val = 20, ke_dup = ZNULL\<rparr>, \<lparr>ke_key = ''x'', ke_val = 30, ke_dup = ZNULL\<rparr>,
    \<lparr>ke_key = ''z'', ke_val = 31, ke_dup = ZNULL\<rparr>]"
  by (simp add: sample_entries)

lemma sample_blocks: "tree_blocks sample 1 1 = [1, 2, 3]"
  by (simp add: sample_entries)

lemma sample_tree: "search_tree sample 1 1"
  unfolding search_tree_def sample_blocks sample_tree_entries
  using sample_keys
  by (simp add: sample_entries valid_blk_def sample_nth(6) sorted_keys_def string_less ZNULL_def)
     (simp add: sample_nth block_of_words)

text \<open>What the properties ask of the state.\<close>

lemma sample_ready:
  "\<not> shared (rest sstate)" "s_scroot (rest sstate) = 1" "stk_array (rest sstate)"
  "card ({} :: int set) < ZMXBLK" "update_ready (rest sstate) 1"
  "no_dups (tree_entries sample 1 1)" "no_split sample 1 1 (rest sstate)"
  "\<forall>c \<in> set (tree_blocks sample 1 1). nkeys_of (sample ! nat c) < ZMXKEY"
  "2 * (1 + 1) \<le> nat STKMAX" "valid_blk sample ZSUPER" "room {} b"
proof -
  show full: "\<forall>c \<in> set (tree_blocks sample 1 1). nkeys_of (sample ! nat c) < ZMXKEY"
    unfolding sample_blocks by (simp add: sample_nth block_of_words ZMXKEY_val)
  then show "no_split sample 1 1 (rest sstate)" by (simp add: no_split_def)
  show "no_dups (tree_entries sample 1 1)" unfolding sample_tree_entries by (simp add: no_dups_def)
qed (simp_all add: fresh_rest update_ready_def ZMXBLK_def STKMAX_def valid_blk_def ZSUPER_def
    sample_nth room_def)

lemma sample_lookup:
  "lookup (tree_entries sample 1 1) ''c'' = Some 11" "lookup (tree_entries sample 1 1) ''d'' = None"
  "strncpy_term ZKYLEN ''c'' = ''c''" "strncpy_term ZKYLEN ''d'' = ''d''"
  unfolding sample_tree_entries by (simp_all add: lookup_def strncpy_term_def ZKYLEN_def)

lemma sample_lookup_b:
  "lookup (tree_entries sample 1 1) ''b'' = None" "strncpy_term ZKYLEN ''b'' = ''b''"
  unfolding sample_tree_entries by (simp_all add: lookup_def strncpy_term_def ZKYLEN_def)

section \<open>Further states\<close>

lemma sample_free: "free_list sample (rest sstate) [4]"
  by (simp add: free_list_def fresh_rest sample_nth valid_blk_def block_of_type block_of_words
      ZFREE_def ZNULL_def)

lemma sample_super_ok: "super_ok (sample ! nat ZSUPER)"
  using pack_type(2) [of ZROOT]
  by (simp add: super_ok_def ZSUPER_def sample_nth block_of_words block_of_type ZROOT_def LFSHDR_def
      to_int32_def)

text \<open>The index file at its largest.\<close>

definition full_state :: st where
  "full_state =
     (fresh (replicate (MXBLKS - 1) zero_memrec))\<lparr>super := \<lparr>sblkmx = int (MXBLKS - 1), snfree = 0,
        sfreep = ZNULL, scroot = 1, smode = 0, smod = 0, scclas = []\<rparr>\<rparr>"

lemma full_repr: "repr full_state (replicate (MXBLKS - 1) zero_memrec) {} (rest full_state)"
proof -
  have "repr (fresh (replicate (MXBLKS - 1) zero_memrec)) (replicate (MXBLKS - 1) zero_memrec) {}
      (rest (fresh (replicate (MXBLKS - 1) zero_memrec)))"
    by (rule fresh_repr) (simp_all add: list_all_length)
  then show ?thesis by (auto simp: full_state_def rest_upd)
qed

lemma full_free: "free_list (replicate (MXBLKS - 1) zero_memrec) (rest full_state) []"
  by (simp add: free_list_def full_state_def rest_def)

lemma full_length: "MXBLKS \<le> length (replicate (MXBLKS - 1) zero_memrec) + 1"
  by (simp add: MXBLKS_def)

lemma full_error: "qerror (rest full_state) = 0"
  by (simp add: full_state_def rest_def fresh_def)

text \<open>The sample index opened in shared mode.\<close>

definition shared_state :: st where
  "shared_state = sstate\<lparr>shared := True\<rparr>"

lemma shared_repr: "repr shared_state sample {} (rest shared_state)"
  by (rule repr_frame_gen [OF sample_repr]) (simp_all add: shared_state_def)

lemma shared_fields:
  "shared (rest shared_state)" "lckcnt (rest shared_state) = 0" "lkenv (rest shared_state) = []"
  "qerror (rest shared_state) = 0" "s_scroot (rest shared_state) = 1"
  by (simp_all add: shared_state_def rest_def fresh_def)

text \<open>The sample as an index open for update.\<close>

lemma sample_types: "btype_of (sample ! 0) = ZROOT" "btype_of (sample ! Suc 0) = ZROOT"
  "btype_of (sample ! 2) = ZINUSE" "btype_of (sample ! 3) = ZINUSE"
  "0 < nkeys_of (sample ! 2)" "0 < nkeys_of (sample ! 3)"
  by (simp_all add: sample_nth block_of_type block_of_words ZROOT_def ZINUSE_def)

lemma sample_open: "open_tree sample (rest sstate) 1 1 [4]"
proof -
  have "typed_tree sample 1 1" unfolding typed_tree_def sample_blocks by (simp add: sample_types)
  moreover have "\<exists>c. in_use sample c \<and> c \<notin> set (tree_blocks sample 1 1)"
    unfolding sample_blocks using types_differ
    by (intro exI [of _ 0]) (simp add: valid_blk_def sample_nth(6) sample_types)
  ultimately show ?thesis
    using sample_tree sample_ready(6) sample_free
    by (simp add: open_tree_def sample_nth(6) MXBLKS_def del: tree_entries.simps tree_blocks.simps One_nat_def)
qed

text \<open>The same, locked as an index that is not shared is while it is open.\<close>

definition sheights :: heights where "sheights = (\<lambda>r. if r = 1 then 1 else 0)"

abbreviation ostate :: st where "ostate \<equiv> sstate\<lparr>lckcnt := 1\<rparr>"

lemma sample_super_tree: "tree_ok sample 0 0" "entries (sample ! 0) = super_entries"
proof -
  show e: "entries (sample ! 0) = super_entries"
    by (simp add: sample_nth block_of_entries ZMXKEY_val super_entries_def ZSUPER_def DEFAULT_ROOT_def)
  have ls: "links (sample ! 0) = [-1, -1, -1]" by (simp add: sample_nth block_of_links)
  have "wf_keys (sample ! 0)"
    using e names_sorted(1) by (simp add: wf_keys_def) (simp add: sample_nth wf_block_of block_of_words ZMXKEY_val)
  then show "tree_ok sample 0 0"
    using e ls names_sorted(1) sample_types(1)
    by (simp add: tree_ok_def search_tree_def typed_tree_def valid_blk_def no_dups_def super_entries_def
        sample_nth(6) ZNULL_def)
qed

lemma sample_forest: "root_set sample sheights = {0, 1}" "forest sample sheights"
  "entries_of sample sheights ZSUPER = super_entries"
proof -
  show e: "entries_of sample sheights ZSUPER = super_entries"
    using sample_super_tree(2) by (simp add: sheights_def ZSUPER_def)
  show rs: "root_set sample sheights = {0, 1}"
    unfolding root_set_def e by (auto simp: super_entries_def ZSUPER_def DEFAULT_ROOT_def)
  have "tree_ok sample 1 1"
    using sample_open by (simp add: tree_ok_def open_tree_def del: tree_entries.simps One_nat_def)
  then show "forest sample sheights"
    unfolding forest_def rs e using sample_super_tree(1) sample_blocks
    by (simp add: sheights_def super_entries_def ZSUPER_def DEFAULT_ROOT_def del: tree_blocks.simps(2) One_nat_def)
qed

lemma ostate_rest:
  "super (rest ostate) = super sstate" "\<not> shared (rest ostate)" "stk_array (rest ostate)" "lckcnt (rest ostate) = 1"
  "lkenv (rest ostate) = []"
  by (simp_all add: rest_def fresh_def STKMAX_def)

lemma sample_index: "index_ok sample (rest ostate) sheights [4]"
proof -
  have "free_list sample (rest ostate) [4]"
    using sample_free by (simp add: free_list_def ostate_rest) (simp add: rest_def)
  moreover have "saved sample (rest ostate)"
    using sample_super_ok by (simp add: saved_def ostate_rest fresh_rest)
  moreover have "plain_flags sample sheights"
    unfolding plain_flags_def sample_forest by (simp add: ZSUPER_def sample_nth block_of_words)
  ultimately show ?thesis
    using sample_forest(2) by (simp add: index_ok_def ostate_rest sample_nth(6) MXBLKS_def)
qed

abbreviation scatalog :: "string \<Rightarrow> keyent list option" where
  "scatalog \<equiv> [''$$default'' \<mapsto> tree_entries sample 1 1, ''$$super'' \<mapsto> super_entries]"

lemma sample_stocked: "stocked 2 sample 1 1"
  unfolding stocked_def sample_blocks by (simp add: sample_nth block_of_words)

lemma sample_stocks: "stocks 2 ''$$default'' scatalog ostate"
proof -
  have c: "catalog sample sheights = scatalog"
    unfolding catalog_def sample_forest(3) using sample_super_tree(2)
    by (auto simp: fun_eq_iff lookup_def super_entries_def sheights_def ZSUPER_def DEFAULT_ROOT_def
        simp del: tree_entries.simps(2) One_nat_def)
  have "lookup super_entries ''$$default'' = Some 1" "lookup super_entries ''$$super'' = Some ZSUPER"
    by (simp_all add: lookup_def super_entries_def DEFAULT_ROOT_def)
  moreover have "repr ostate sample {} (rest ostate)" by (rule repr_frame_gen [OF sample_repr]) simp_all
  moreover have "scclas (super sstate) = ''$$default''" by (simp add: fresh_def)
  ultimately show ?thesis
    unfolding stocks_def using sample_index c sample_forest(3) sample_stocked
    by (intro exI [of _ sample] exI [of _ "{}"] exI [of _ "rest ostate"] exI [of _ sheights] exI [of _ "[4]"] exI [of _ 1])
      (simp add: ZSUPER_def ostate_rest fresh_rest sheights_def del: One_nat_def)
qed

lemma sample_serves: "serves 0 ''$$default'' scatalog ostate"
  by (rule stocks_serves [OF sample_stocks])

text \<open>A key that the index cuts off, and the state after a key has left a leaf of the sample.\<close>

definition long_key :: string where "long_key = replicate 40 (CHR ''q'')"

lemma long_key: "length (strncpy_term ZKYLEN long_key) = 31" "strncpy_term ZKYLEN long_key \<noteq> long_key"
  "lookup (tree_entries sample 1 1) (strncpy_term ZKYLEN long_key) = None"
proof -
  show l: "length (strncpy_term ZKYLEN long_key) = 31" by (simp add: long_key_def strncpy_term_def ZKYLEN_def)
  then show "strncpy_term ZKYLEN long_key \<noteq> long_key" by (auto simp: long_key_def dest: arg_cong [of _ _ length])
  have "\<forall>x \<in> ke_key ` set (tree_entries sample 1 1). length x = 1" unfolding sample_tree_entries by simp
  then show "lookup (tree_entries sample 1 1) (strncpy_term ZKYLEN long_key) = None"
    using l unfolding lookup_None by fastforce
qed

definition lstate :: st where
  "lstate = sstate\<lparr>stk := \<lparr>stkptr = 1, stkarr = [1, 0] @ replicate 38 0\<rparr>, lf := (lf sstate)\<lparr>lfblk := 2\<rparr>\<rparr>"

lemma lstate_repr: "repr lstate sample {} (rest lstate)"
  unfolding lstate_def by (rule repr_frame_gen [OF sample_repr]) simp_all

lemma lstate_tree: "open_tree sample (rest lstate) 1 1 [4]" "route sample 1 1 [] 1 1" "at_leaf sample (rest lstate) 1 0 2"
proof -
  have "super (rest lstate) = super (rest sstate)" by (simp add: rest_def lstate_def)
  then show "open_tree sample (rest lstate) 1 1 [4]" using sample_open open_tree_super by blast
  show "at_leaf sample (rest lstate) 1 0 2"
    by (simp add: at_leaf_def sample_entries rest_def lstate_def wf_stk_def stack_of_def STKMAX_def)
qed simp

section \<open>A full root\<close>

definition letters :: "(string \<times> int) list" where
  "letters = map (\<lambda>i. ([char_of (97 + i)], int i)) [0..<22]"

definition crowded :: "memrec list" where
  "crowded = [block_of ZROOT 1 (-1) [(''$$default'', 1), (''$$super'', 0)] [-1, -1, -1],
     block_of ZROOT 0 (-1) letters (replicate 23 (-1))]"

abbreviation cstate :: st where
  "cstate \<equiv> (fresh crowded)\<lparr>super := \<lparr>sblkmx = 2, snfree = 0, sfreep = ZNULL, scroot = 1, smode = 0, smod = 1,
     scclas = ''$$default''\<rparr>\<rparr>"

lemma letters_sorted: "length letters = 22" "sorted_wrt (<) (map fst letters)"
  by (simp_all add: letters_def upt_rec char_of_def less_char_def)

lemma crowded_nth:
  "crowded ! 0 = block_of ZROOT 1 (-1) [(''$$default'', 1), (''$$super'', 0)] [-1, -1, -1]"
  "crowded ! Suc 0 = block_of ZROOT 0 (-1) letters (replicate 23 (-1))" "length crowded = 2"
  by (simp_all add: crowded_def)

lemma crowded_repr: "repr cstate crowded {} (rest cstate)"
proof -
  have "repr (fresh crowded) crowded {} (rest (fresh crowded))"
    by (rule fresh_repr) (simp_all add: crowded_def wf_block_of ZMXKEY_val MXBLKS_def letters_sorted)
  then show ?thesis by (auto simp: rest_upd)
qed

lemma crowded_open: "open_tree crowded (rest cstate) 0 1 []" "update_ready (rest cstate) 1"
  "nkeys_of (crowded ! Suc 0) = ZMXKEY"
proof -
  have e: "entries (crowded ! Suc 0) = map (\<lambda>(k, v). \<lparr>ke_key = k, ke_val = v, ke_dup = ZNULL\<rparr>) letters"
    "links (crowded ! Suc 0) = replicate 23 (-1)"
    by (simp_all add: crowded_nth block_of_entries block_of_links letters_sorted ZMXKEY_val)
  have sorted: "sorted_keys (entries (crowded ! Suc 0))"
    using letters_sorted(2) by (simp add: e sorted_keys_def comp_def case_prod_unfold)
  show nk: "nkeys_of (crowded ! Suc 0) = ZMXKEY"
    by (simp add: crowded_nth block_of_words letters_sorted ZMXKEY_val)
  have "wf_memrec (crowded ! Suc 0)" by (simp add: crowded_nth wf_block_of letters_sorted ZMXKEY_val)
  then have "wf_keys (crowded ! Suc 0)" using sorted nk by (simp add: wf_keys_def ZMXKEY_val)
  then have "search_tree crowded 0 1"
    using sorted by (simp add: search_tree_def valid_blk_def crowded_nth(3) e(2) ZNULL_def)
  moreover have ty: "btype_of (crowded ! 0) = ZROOT" "btype_of (crowded ! Suc 0) = ZROOT"
    by (simp_all add: crowded_nth block_of_type ZROOT_def)
  moreover have "\<exists>c. in_use crowded c \<and> c \<notin> set (tree_blocks crowded 0 1)"
    using ty types_differ by (intro exI [of _ 0]) (simp add: valid_blk_def crowded_nth(3))
  moreover have "free_list crowded (rest cstate) []" by (simp add: free_list_def rest_def crowded_nth(3))
  ultimately show "open_tree crowded (rest cstate) 0 1 []"
    by (simp add: open_tree_def typed_tree_def no_dups_def e crowded_nth(3) MXBLKS_def case_prod_unfold)
  show "update_ready (rest cstate) 1" by (simp add: update_ready_def rest_def fresh_def)
qed

lemma crowded_lookup:
  "strncpy_term ZKYLEN ''zz'' = ''zz''" "lookup (tree_entries crowded 0 1) ''zz'' = None"
  by (simp add: strncpy_term_def ZKYLEN_def)
    (auto simp: lookup_None crowded_nth block_of_entries letters_sorted ZMXKEY_val letters_def)

section \<open>A process without an open index\<close>

definition new_memory :: bta where
  "new_memory = null_bta\<lparr>fd := 3, cntrls := replicate ZMXBLK (slot 0 0 0 0), mems := replicate ZMXBLK zero_memrec,
     stk := \<lparr>stkptr = 0, stkarr = replicate (nat STKMAX) 0\<rparr>\<rparr>"

definition new_sess :: sess where
  "new_sess = \<lparr>btat = replicate ZMXACT null_bta, units = replicate ZMXACT [], btinited = True, fsys = Map.empty,
     glob = bta.more sstate\<rparr>"

lemma new_sess_calm:
  "os_ok (Some new_memory)" "calm new_sess" "length (units new_sess) = length (btat new_sess)"
  "fst (bnewap ''idx'' (sess_err [] 0 None new_sess)) = Some 0"
proof -
  show "os_ok (Some new_memory)" by (simp add: os_ok_def new_memory_def)
  show "calm new_sess" by (simp add: calm_def new_sess_def bta_extend_more) (simp add: fresh_def)
  show "fst (bnewap ''idx'' (sess_err [] 0 None new_sess)) = Some 0"
    by (simp add: bnewap_def sess_err_fields) (simp add: new_sess_def null_bta_def ZMXACT_def numeral_eq_Suc)
qed (simp add: new_sess_def)

text \<open>A process with the sample index open in its first slot.\<close>

definition open_sess :: sess where
  "open_sess = new_sess\<lparr>btat := (replicate ZMXACT null_bta)[0 := bta.truncate ostate], units := (replicate ZMXACT [])[0 := ''sample''],
     glob := bta.more ostate\<rparr>"

lemma open_sess_sample: "opened 0 ''sample'' 0 ''$$default'' scatalog open_sess"
proof -
  have "activate 0 open_sess = Some ostate"
    using bta_parts [of ostate] by (simp add: activate_def open_sess_def new_sess_def arr_get_def ZMXACT_def)
  then show ?thesis
    using sample_serves by (simp add: opened_def open_sess_def new_sess_def null_bta_def ZMXACT_def nth_list_update nth_replicate)
qed

lemma new_sess_ready: "ready_sess new_sess"
  using new_sess_calm(2) by (simp add: ready_sess_def new_sess_def)

end
