(* ===== verification/Command.thy ===== *)
theory Command
  imports Console
begin

text \<open>
  The command interpreter of \<open>src-main/btcmd.c\<close>: a line is split into a command and its arguments
  (\<open>tokenise\<close>), the command is looked up in the table of the application (\<open>find_cmd\<close>), and \<open>btcmd\<close>
  reads and carries out lines until a command asks to stop or the standard input ends. Command
  files may execute others, up to a depth of \<open>CMDFILEMAX\<close>. The model is of the build without the
  readline library; the interrupt handler, which ends all command files, is left out.

  A table entry holds a function pointer: here a value of a type \<open>'f\<close>, with the parameter \<open>call\<close>
  that says what a call through it does. \<open>'a\<close> is the state of the application.
\<close>

section \<open>The state of the interpreter\<close>

definition MAXBUFSZ :: nat where "MAXBUFSZ = 132"
definition MAXDESCSZ :: nat where "MAXDESCSZ = 512"
definition CMDFILEMAX :: int where "CMDFILEMAX = 5"

record 'f cmdblk =
  c_cmd :: string
  c_arg :: string
  c_qualifier :: string
  c_qual_int :: int
  c_all :: string
  c_nargs :: int
  c_unknown :: bool
  c_function :: "'f option"

record 'f cmdentry =
  e_cmd :: string
  e_abbrev :: string
  e_function :: 'f
  e_args :: string
  e_nargs :: int
  e_description :: string

text \<open>A stream: the standard input, or a command file with its name and what is left to read.\<close>

datatype stream = Stdin | Cfile string string

record ('f, 'a) shell =
  echo :: bool
  stop_on_error :: bool
  issue_prompt :: bool
  svp :: bool
  input :: "stream option"
  cmdinput :: "stream option list"
  cmdtop :: int
  cblk :: "'f cmdblk"
  current_app_cmds :: "'f cmdentry list"
  stdin_rest :: string
  stdin_tty :: bool
  cfiles :: "string \<Rightarrow> string option"
  ran :: "string list"
  term_out :: "outp list"
  app :: 'a

type_synonym ('f, 'a) command = "'f cmdblk \<Rightarrow> ('f, 'a) shell \<Rightarrow> (int \<times> ('f, 'a) shell) option"

definition say :: "outp \<Rightarrow> ('f, 'a) shell \<Rightarrow> ('f, 'a) shell" where
  "say l s = s\<lparr>term_out := term_out s @ [l]\<rparr>"

definition says :: "outp list \<Rightarrow> ('f, 'a) shell \<Rightarrow> ('f, 'a) shell" where
  "says ls s = s\<lparr>term_out := term_out s @ ls\<rparr>"

section \<open>The stack of command files\<close>

definition pushcf :: "stream option \<Rightarrow> ('f, 'a) shell \<Rightarrow> (bool \<times> ('f, 'a) shell) option" where
  "pushcf cf s =
     (if cmdtop s < CMDFILEMAX then do {
        st \<leftarrow> arr_set (cmdinput s) (cmdtop s) cf;
        Some (True, s\<lparr>cmdinput := st, cmdtop := cmdtop s + 1\<rparr>)
      } else Some (False, s))"

definition pullcf :: "('f, 'a) shell \<Rightarrow> (stream option \<times> ('f, 'a) shell) option" where
  "pullcf s =
     (if cmdtop s \<le> 0 then Some (None, s)
      else do {
        f \<leftarrow> arr_get (cmdinput s) (cmdtop s - 1);
        Some (f, s\<lparr>cmdtop := cmdtop s - 1\<rparr>)
      })"

section \<open>Help\<close>

text \<open>\<open>strbrk\<close>: the offset of the result in \<open>s\<close>, which ends with its NUL.\<close>

fun blank_before :: "string \<Rightarrow> nat \<Rightarrow> nat" where
  "blank_before s 0 = 0"
| "blank_before s (Suc p) = (if is_blank ((s @ [char_of (0 :: nat)]) ! Suc p) then Suc p else blank_before s p)"

definition strbrk :: "string \<Rightarrow> nat \<Rightarrow> nat" where
  "strbrk s mx =
     (if length s < mx then length s
      else (let p = blank_before s mx in if p = 0 then mx else p))"

definition maxdescwidth :: nat where "maxdescwidth = 47"

text \<open>The further lines of a description.\<close>

function help_lines :: "string \<Rightarrow> string list" where
  "help_lines d =
     (if d = [] then []
      else
        (let k = strbrk d maxdescwidth
         in (pad_left 20 [] @ '' '' @ pad_left 10 [] @ '' '' @ take k d) # help_lines (drop (k + 1) d)))"
  by pat_completeness auto
termination by (relation "measure length") auto

declare help_lines.simps [simp del]

definition help_entry :: "'f cmdentry \<Rightarrow> outp list" where
  "help_entry e =
     (let s = take (MAXBUFSZ - 1) (e_cmd e @ '','' @ e_abbrev e);
          desc = take MAXDESCSZ (e_description e);
          k = strbrk desc maxdescwidth
      in map Out ((pad_right 20 s @ '' '' @ pad_right 10 (e_args e) @ '' '' @ take k desc) #
                  help_lines (drop (k + 1) desc)))"

text \<open>The loop over the table: the output, and the entry whose function is called after it.\<close>

fun help_loop :: "string \<Rightarrow> 'f cmdentry list \<Rightarrow> (outp list \<times> 'f cmdentry option) option" where
  "help_loop cmd [] = None"
| "help_loop cmd (e # es) =
     (if STREMP (e_cmd e) then Some ([], if STREMP cmd then None else Some e)
      else if length (e_description e) = 0 then help_loop cmd es
      else if STREMP cmd \<or> strncmp_eq MAXBUFSZ (e_cmd e) cmd \<or> strncmp_eq MAXBUFSZ (e_abbrev e) cmd then
        (if \<not> STREMP cmd then Some (help_entry e, None)
         else do { (ls, r) \<leftarrow> help_loop cmd es; Some (help_entry e @ ls, r) })
      else help_loop cmd es)"

definition display_help ::
  "('f \<Rightarrow> ('f, 'a) command) \<Rightarrow> 'f cmdentry list \<Rightarrow> string \<Rightarrow> ('f, 'a) shell \<Rightarrow> ('f, 'a) shell option" where
  "display_help call cmds cmd s = do {
     let s = (if STREMP cmd then
                say (Out (pad_right 20 ''Command,Abbrev'' @ '' '' @ pad_right 10 ''Args'' @ '' Description'')) s
              else s);
     (ls, e) \<leftarrow> help_loop cmd cmds;
     let s = says ls s;
     case e of
       None \<Rightarrow> Some s
     | Some e \<Rightarrow> do {
         let s = s\<lparr>cblk := (cblk s)\<lparr>c_cmd := take (MAXBUFSZ - 1) cmd\<rparr>\<rparr>;
         (r, s) \<leftarrow> call (e_function e) (cblk s) s;
         Some s
       }
   }"

section \<open>The commands that every application gets\<close>

definition btcmd_noop :: "('f, 'a) command" where
  "btcmd_noop c s = Some (0, s)"

definition btcmd_comment :: "('f, 'a) command" where
  "btcmd_comment c s = Some (0, s)"

definition btcmd_prompt :: "('f, 'a) command" where
  "btcmd_prompt c s = Some (0, s\<lparr>issue_prompt := \<not> issue_prompt s\<rparr>)"

definition btcmd_execute :: "('f, 'a) command" where
  "btcmd_execute c s = do {
     (ok, s) \<leftarrow> pushcf (input s) s;
     if \<not> ok then Some (0, say (Err (''command file stack exhausted at: '' @ c_arg c)) s)
     else do {
       let s = (if input s = Some Stdin then s\<lparr>svp := issue_prompt s, issue_prompt := False\<rparr> else s);
       case cfiles s (c_arg c) of
         Some t \<Rightarrow> Some (0, s\<lparr>input := Some (Cfile (c_arg c) t)\<rparr>)
       | None \<Rightarrow> do {
           let s = say (Out (''unable to open execute file: '' @ c_arg c)) s;
           (f, s) \<leftarrow> pullcf s;
           let s = s\<lparr>input := f\<rparr>;
           Some (0, if f = Some Stdin then s\<lparr>issue_prompt := svp s\<rparr> else s)
         }
     }
   }"

definition btcmd_close_execute :: "('f, 'a) command" where
  "btcmd_close_execute c s =
     (if input s = None then None
      else do {
        (f, s) \<leftarrow> pullcf s;
        case f of
          None \<Rightarrow> Some (0, say (Err ''command file stack underflow'') (s\<lparr>input := Some Stdin\<rparr>))
        | Some f \<Rightarrow>
            (let s = s\<lparr>input := Some f\<rparr>
             in Some (0, if f = Stdin then s\<lparr>issue_prompt := svp s\<rparr> else s))
      })"

definition btcmd_system :: "('f, 'a) command" where
  "btcmd_system c s = Some (0, s\<lparr>ran := ran s @ [c_all c]\<rparr>)"

definition btcmd_help :: "('f \<Rightarrow> ('f, 'a) command) \<Rightarrow> ('f, 'a) command" where
  "btcmd_help call c s = do { s \<leftarrow> display_help call (current_app_cmds s) (c_arg c) s; Some (0, s) }"

definition btcmd_echo :: "('f, 'a) command" where
  "btcmd_echo c s =
     (if strncmp_eq 2 (c_arg c) ''on'' then Some (0, s\<lparr>echo := True\<rparr>)
      else if strncmp_eq 3 (c_arg c) ''off'' then Some (0, s\<lparr>echo := False\<rparr>)
      else Some (0, say (Err (''echo: '' @ (if echo s then ''on'' else ''off''))) s))"

definition btcmd_error :: "('f, 'a) command" where
  "btcmd_error c s =
     (if strncmp_eq 2 (c_arg c) ''on'' then Some (0, s\<lparr>stop_on_error := True\<rparr>)
      else if strncmp_eq 3 (c_arg c) ''off'' then Some (0, s\<lparr>stop_on_error := False\<rparr>)
      else Some (0, say (Err (''error: '' @ (if stop_on_error s then ''on'' else ''off''))) s))"

section \<open>From a line to a command\<close>

definition non_ws :: "string \<Rightarrow> string" where
  "non_ws str = dropWhile is_blank str"

text \<open>\<open>tokenise\<close>: the number of arguments with \<open>cmd\<close>, \<open>arg\<close>, \<open>qual\<close> and \<open>all\<close>.\<close>

definition tokenise :: "string \<Rightarrow> int \<times> string \<times> string \<times> string \<times> string" where
  "tokenise cmdbuf =
     (case strtok ('' '' @ newline) (take MAXBUFSZ cmdbuf) of
        None \<Rightarrow> (0, [], [], [], [])
      | Some (cmd, r) \<Rightarrow>
          (case strtok newline r of
             None \<Rightarrow> (0, cmd, [], [], [])
           | Some (all, r) \<Rightarrow>
               (case strtok ('' '' @ newline) all of
                  None \<Rightarrow> (0, cmd, [], [], all)
                | Some (arg, r) \<Rightarrow>
                    (case strtok ('' '' @ newline) r of
                       None \<Rightarrow> (1, cmd, arg, [], all)
                     | Some (qual, r) \<Rightarrow> (2, cmd, arg, qual, all)))))"

text \<open>An abbreviation of one character below \<open>'A'\<close> (as a signed \<open>char\<close>) needs no blank after it.\<close>

definition special_cmd :: "'f cmdentry \<Rightarrow> string \<Rightarrow> bool" where
  "special_cmd e cp =
     (case e_abbrev e of
        [a] \<Rightarrow> ((of_char a :: nat) < 65 \<or> 128 \<le> (of_char a :: nat)) \<and> cp \<noteq> [] \<and> hd cp = a
      | _ \<Rightarrow> False)"

text \<open>The loop of \<open>find_cmd\<close>; \<open>cmd\<close> is the token looked for.\<close>

fun find_loop :: "string \<Rightarrow> string \<Rightarrow> 'f cmdblk \<Rightarrow> 'f cmdentry list \<Rightarrow> 'f cmdblk option" where
  "find_loop cp cmd b [] = None"
| "find_loop cp cmd b (e # es) =
     (if STREMP (e_cmd e) then
        Some (if STREMP (c_cmd b) then b else b\<lparr>c_function := Some (e_function e), c_unknown := True\<rparr>)
      else if special_cmd e cp then
        Some (b\<lparr>c_function := Some (e_function e), c_all := tl cp\<rparr>)
      else if strncmp_eq MAXBUFSZ cmd (e_cmd e) \<or> strncmp_eq MAXBUFSZ cmd (e_abbrev e) then
        Some (b\<lparr>c_function := Some (e_function e), c_cmd := take (MAXBUFSZ - 1) (e_cmd e),
                c_nargs := (if e_nargs e \<noteq> 0 \<and> e_nargs e \<noteq> c_nargs b then -1 else c_nargs b)\<rparr>)
      else find_loop cp cmd b es)"

definition find_cmd :: "string \<Rightarrow> 'f cmdentry list \<Rightarrow> 'f cmdblk option" where
  "find_cmd cmdbuf cmds =
     (let cp = non_ws cmdbuf; (nargs, cmd, arg, qual, all) = tokenise cmdbuf
      in find_loop cp cmd
           \<lparr>c_cmd = cmd, c_arg = arg, c_qualifier = qual, c_qual_int = atoi qual, c_all = all,
            c_nargs = nargs, c_unknown = False, c_function = None\<rparr> cmds)"

section \<open>The interpreter\<close>

definition tty_input :: "('f, 'a) shell \<Rightarrow> bool" where
  "tty_input s = (input s = Some Stdin \<and> stdin_tty s)"

text \<open>A line from the current stream, after the prompt if that is a terminal; \<open>None\<close> at its end.\<close>

definition read_line :: "string \<Rightarrow> ('f, 'a) shell \<Rightarrow> (string option \<times> ('f, 'a) shell) option" where
  "read_line prompt s = do {
     let s = (if tty_input s \<and> issue_prompt s then say (Out prompt) s else s);
     case input s of
       None \<Rightarrow> None
     | Some Stdin \<Rightarrow>
         (case fgets MAXBUFSZ (stdin_rest s) of
            None \<Rightarrow> Some (None, s)
          | Some (l, r) \<Rightarrow> Some (Some l, s\<lparr>stdin_rest := r\<rparr>))
     | Some (Cfile n t) \<Rightarrow>
         (case fgets MAXBUFSZ t of
            None \<Rightarrow> Some (None, s)
          | Some (l, r) \<Rightarrow> Some (Some l, s\<lparr>input := Some (Cfile n r)\<rparr>))
   }"

partial_function (option) close_all :: "('f, 'a) shell \<Rightarrow> ('f, 'a) shell option" where
  "close_all s =
     (if input s \<noteq> Some Stdin then do { (e, s) \<leftarrow> btcmd_close_execute (cblk s) s; close_all s }
      else Some s)"

definition bad_args :: "string \<Rightarrow> ('f, 'a) shell \<Rightarrow> ('f, 'a) shell" where
  "bad_args cmd s = say (Err (cmd @ '': incorrect number of arguments.'')) s"

text \<open>What is done with a line that holds a command.\<close>

definition run_cmd ::
  "('f \<Rightarrow> ('f, 'a) command) \<Rightarrow> (int \<Rightarrow> ('f, 'a) shell \<Rightarrow> ('f, 'a) shell option) \<Rightarrow> string \<Rightarrow> string \<Rightarrow>
   'f \<Rightarrow> ('f, 'a) shell \<Rightarrow> (int \<times> ('f, 'a) shell) option" where
  "run_cmd call error_handler prompt cmdbuf f s =
     (if c_nargs (cblk s) < 0 then Some (1, bad_args (c_cmd (cblk s)) s)
      else do {
        let s = (if echo s \<and> \<not> tty_input s then say (Out (prompt @ cmdbuf)) s else s);
        (status, s) \<leftarrow> call f (cblk s) s;
        s \<leftarrow> (if 0 < status \<and> \<not> c_unknown (cblk s) then error_handler status s else Some s);
        Some (status, s)
      })"

partial_function (option) btcmd_loop ::
  "('f \<Rightarrow> ('f, 'a) command) \<Rightarrow> (int \<Rightarrow> ('f, 'a) shell \<Rightarrow> ('f, 'a) shell option) \<Rightarrow> string \<Rightarrow>
   'f cmdentry list \<Rightarrow> int \<Rightarrow> ('f, 'a) shell \<Rightarrow> (int \<times> ('f, 'a) shell) option" where
  "btcmd_loop call error_handler prompt cmds status s =
     (if status < 0 then Some (status, s)
      else do {
        (l, s) \<leftarrow> read_line prompt s;
        case l of
          None \<Rightarrow>
            if input s = Some Stdin then Some (0, s)
            else do {
              (e, s) \<leftarrow> btcmd_close_execute (cblk s) s;
              btcmd_loop call error_handler prompt cmds status s
            }
        | Some cmdbuf \<Rightarrow> do {
            b \<leftarrow> find_cmd cmdbuf cmds;
            let s = s\<lparr>cblk := b\<rparr>;
            case c_function b of
              None \<Rightarrow> btcmd_loop call error_handler prompt cmds status s
            | Some f \<Rightarrow> do {
                (status, s) \<leftarrow> run_cmd call error_handler prompt cmdbuf f s;
                if 0 < status \<and> stop_on_error s \<and> \<not> tty_input s then
                  (let s = say (Out ''command file processing terminated (error on).'') s
                   in if input s = Some Stdin then Some (0, s)
                      else do {
                        s \<leftarrow> close_all s;
                        btcmd_loop call error_handler prompt cmds status s
                      })
                else btcmd_loop call error_handler prompt cmds status s
              }
          }
      })"

definition btcmd ::
  "('f \<Rightarrow> ('f, 'a) command) \<Rightarrow> string \<Rightarrow> 'f cmdentry list \<Rightarrow>
   (int \<Rightarrow> ('f, 'a) shell \<Rightarrow> ('f, 'a) shell option) \<Rightarrow> ('f, 'a) shell \<Rightarrow> (int \<times> ('f, 'a) shell) option" where
  "btcmd call prompt cmds error_handler s =
     (let s = s\<lparr>input := (if input s = None then Some Stdin else input s), current_app_cmds := cmds,
                cblk := (cblk s)\<lparr>c_function := None\<rparr>\<rparr>
      in btcmd_loop call error_handler prompt cmds 0 s)"

text \<open>The loops, for evaluation.\<close>

declare close_all.simps [code] and
  btcmd_loop.simps [code]

section \<open>The nesting of command files\<close>

text \<open>
  The standard input is below all command files, and nowhere else. \<open>texts\<close> lists what is left of the
  streams from the bottom up; \<open>work\<close> weighs a character at a depth with more than a whole file one
  level deeper, so that a line read outweighs the file that it may open.
\<close>

definition cfile_rest :: "stream option \<Rightarrow> string" where
  "cfile_rest f = (case f of Some (Cfile n t) \<Rightarrow> t | _ \<Rightarrow> [])"

definition is_cfile :: "stream option \<Rightarrow> bool" where
  "is_cfile f = (case f of Some (Cfile n t) \<Rightarrow> True | _ \<Rightarrow> False)"

lemma cfile_simps [simp]:
  "cfile_rest (Some (Cfile n t)) = t" "is_cfile (Some (Cfile n t))"
  "\<not> is_cfile None" "\<not> is_cfile (Some Stdin)"
  by (simp_all add: cfile_rest_def is_cfile_def)

definition nesting_ok :: "('f, 'a) shell \<Rightarrow> bool" where
  "nesting_ok s \<longleftrightarrow> 0 \<le> cmdtop s \<and> cmdtop s \<le> CMDFILEMAX \<and> length (cmdinput s) = nat CMDFILEMAX \<and>
     (if cmdtop s = 0 then input s = Some Stdin
      else is_cfile (input s) \<and> cmdinput s ! 0 = Some Stdin \<and>
           (\<forall>i. 0 < i \<longrightarrow> i < nat (cmdtop s) \<longrightarrow> is_cfile (cmdinput s ! i)))"

definition texts :: "('f, 'a) shell \<Rightarrow> string list" where
  "texts s = stdin_rest s #
     (if cmdtop s = 0 then []
      else map cfile_rest (take (nat (cmdtop s) - 1) (drop 1 (cmdinput s))) @ [cfile_rest (input s)])"

primrec work :: "nat \<Rightarrow> nat \<Rightarrow> string list \<Rightarrow> nat" where
  "work L d [] = 0"
| "work L d (t # ts) = (length t + 1) * (L + 2) ^ d + work L (d - 1) ts"

lemma work_append: "work L d (ts @ us) = work L d ts + work L (d - length ts) us"
  by (induction ts arbitrary: d) auto

text \<open>What commands other than \<open>execute\<close> leave alone.\<close>

definition same_input :: "('f, 'a) shell \<Rightarrow> ('f, 'a) shell \<Rightarrow> bool" where
  "same_input s s' \<longleftrightarrow> input s' = input s \<and> cmdinput s' = cmdinput s \<and> cmdtop s' = cmdtop s \<and>
     stdin_rest s' = stdin_rest s \<and> cfiles s' = cfiles s"

lemma same_input_nesting: "same_input s s' \<Longrightarrow> nesting_ok s' = nesting_ok s \<and> texts s' = texts s"
  by (simp add: same_input_def nesting_ok_def texts_def)

lemma same_input_say [simp]: "same_input s (say l s)" "same_input s (says ls s)"
  by (simp_all add: same_input_def say_def says_def)

text \<open>\<open>reads s s'\<close>: a nonempty piece of the current stream is gone.\<close>

definition reads :: "('f, 'a) shell \<Rightarrow> ('f, 'a) shell \<Rightarrow> bool" where
  "reads s s' \<longleftrightarrow> cfiles s' = cfiles s \<and> cmdtop s' = cmdtop s \<and>
     (\<exists>ts t u. texts s = ts @ [t] \<and> texts s' = ts @ [u] \<and> length u < length t)"

lemma read_line_reads:
  assumes "nesting_ok s"
  shows "runs (read_line prompt s) (\<lambda>(l, s'). nesting_ok s' \<and> app s' = app s \<and>
           (if l = None then same_input s s' else reads s s'))"
proof (cases "cmdtop s = 0")
  case True
  then have i: "input s = Some Stdin" using assms by (simp add: nesting_ok_def)
  show ?thesis
    using assms i True fgets_shorter [of MAXBUFSZ "stdin_rest s"]
    by (auto simp: read_line_def Let_def say_def same_input_def reads_def nesting_ok_def texts_def
        MAXBUFSZ_def split: option.splits)
next
  case False
  then obtain n t where i: "input s = Some (Cfile n t)" and ok: "nesting_ok s"
    using assms by (auto simp: nesting_ok_def is_cfile_def split: option.splits stream.splits)
  have "\<not> tty_input s" by (simp add: tty_input_def i)
  then show ?thesis
    using ok i False fgets_shorter [of MAXBUFSZ t]
    by (auto simp: read_line_def same_input_def reads_def nesting_ok_def texts_def is_cfile_def
        cfile_rest_def MAXBUFSZ_def split: option.splits)
qed

lemma close_execute_pops:
  assumes "nesting_ok s" "cmdtop s \<noteq> 0"
  shows "runs (btcmd_close_execute c s) (\<lambda>(e, s'). e = 0 \<and> nesting_ok s' \<and> cfiles s' = cfiles s \<and>
           cmdtop s' = cmdtop s - 1 \<and> (\<exists>t. texts s = texts s' @ [t]) \<and> term_out s' = term_out s \<and> app s' = app s)"
proof -
  define k where "k = nat (cmdtop s) - 1"
  have top: "cmdtop s = int k + 1" and k: "k < 5" and len: "length (cmdinput s) = 5"
    using assms by (auto simp: nesting_ok_def k_def CMDFILEMAX_def)
  have inp: "input s \<noteq> None" using assms by (cases "input s") (auto simp: nesting_ok_def is_cfile_def)
  have bottom: "cmdinput s ! 0 = Some Stdin"
    and above: "\<And>i. 0 < i \<Longrightarrow> i \<le> k \<Longrightarrow> is_cfile (cmdinput s ! i)"
    using assms top by (auto simp: nesting_ok_def)
  show ?thesis
  proof (cases "k = 0")
    case True
    then show ?thesis
      using assms top len bottom inp
      by (auto simp: btcmd_close_execute_def pullcf_def nesting_ok_def texts_def CMDFILEMAX_def arr_get_def Let_def)
  next
    case False
    then obtain n t where f: "cmdinput s ! k = Some (Cfile n t)"
      using above [of k] by (auto simp: is_cfile_def split: option.splits stream.splits)
    have drop1: "take k (drop 1 (cmdinput s)) = take (k - 1) (drop 1 (cmdinput s)) @ [cmdinput s ! k]"
      using False k len by (cases k) (auto simp: take_Suc_conv_app_nth)
    have n1: "nat (int k + 1) = Suc k" by simp
    show ?thesis
      using assms top len bottom inp f False k above drop1 n1
      by (auto simp: btcmd_close_execute_def pullcf_def nesting_ok_def texts_def CMDFILEMAX_def arr_get_def
          Let_def is_cfile_def cfile_rest_def)
  qed
qed

text \<open>\<open>execute\<close> puts the current stream on the stack and opens a file, or changes nothing.\<close>

definition opens :: "('f, 'a) shell \<Rightarrow> ('f, 'a) shell \<Rightarrow> bool" where
  "opens s s' \<longleftrightarrow> cfiles s' = cfiles s \<and> cmdtop s < CMDFILEMAX \<and> cmdtop s' = cmdtop s + 1 \<and>
     (\<exists>n t. cfiles s n = Some t \<and> texts s' = texts s @ [t])"

lemma execute_opens:
  assumes "nesting_ok s"
  shows "runs (btcmd_execute c s) (\<lambda>(e, s'). e = 0 \<and> nesting_ok s' \<and> app s' = app s \<and>
           (cfiles s' = cfiles s \<and> cmdtop s' = cmdtop s \<and> texts s' = texts s \<or> opens s s'))"
proof (cases "cmdtop s < CMDFILEMAX")
  case False
  then show ?thesis
    using assms same_input_nesting [OF same_input_say(1) [where s = s and l = "Err (''command file stack exhausted at: '' @ c_arg c)"]]
    by (simp add: btcmd_execute_def pushcf_def say_def)
next
  case True
  define k where "k = nat (cmdtop s)"
  have top: "cmdtop s = int k" and k: "k < 5" and len: "length (cmdinput s) = 5"
    using assms True by (auto simp: nesting_ok_def k_def CMDFILEMAX_def)
  have above: "\<And>i. 0 < i \<Longrightarrow> i < k \<Longrightarrow> is_cfile (cmdinput s ! i)"
    using assms top by (auto simp: nesting_ok_def split: if_splits)
  have n1: "nat (int k + 1) = Suc k" by simp
  let ?st = "(cmdinput s)[k := input s]"
  show ?thesis
  proof (cases "k = 0")
    case True
    then show ?thesis
      using assms top len k
      by (auto simp: btcmd_execute_def pushcf_def pullcf_def nesting_ok_def texts_def CMDFILEMAX_def arr_get_def
          arr_set_def Let_def say_def opens_def is_cfile_def cfile_rest_def split: option.splits)
  next
    case False
    then have f: "is_cfile (input s)" and bottom: "cmdinput s ! 0 = Some Stdin"
      using assms top by (auto simp: nesting_ok_def)
    have ns: "input s \<noteq> Some Stdin" using f by (auto simp: is_cfile_def)
    have take1: "take k (drop 1 ?st) = take (k - 1) (drop 1 (cmdinput s)) @ [input s]"
      using False k len by (cases k) (auto simp: take_Suc_conv_app_nth drop_update_swap)
    have untouched: "take (k - Suc 0) (drop (Suc 0) ?st) = take (k - Suc 0) (drop (Suc 0) (cmdinput s))"
      using False by (cases k) (auto simp: drop_update_swap)
    have files: "\<And>i. 0 < i \<Longrightarrow> i \<le> k \<Longrightarrow> is_cfile (?st ! i)"
      using above f len k by (auto simp: nth_list_update)
    show ?thesis
    proof (cases "cfiles s (c_arg c)")
      case None
      then show ?thesis
        using assms top len k f bottom False ns n1 above
        by (auto simp: btcmd_execute_def pushcf_def pullcf_def nesting_ok_def texts_def CMDFILEMAX_def
            arr_get_def arr_set_def Let_def say_def untouched nth_list_update)
    next
      case (Some t)
      have 1: "btcmd_execute c s =
          Some (0, s\<lparr>cmdinput := ?st, cmdtop := int k + 1, input := Some (Cfile (c_arg c) t)\<rparr>)"
        using Some top len k ns by (simp add: btcmd_execute_def pushcf_def arr_set_def CMDFILEMAX_def)
      show ?thesis
        unfolding 1 runs_Some prod.case opens_def texts_def nesting_ok_def
        using Some top len k f bottom False n1 files
        by (auto simp: take1 [simplified] CMDFILEMAX_def)
    qed
  qed
qed

section \<open>The command loop ends\<close>

lemma work_pop: "work L d ts < work L d (ts @ [t])"
  by (simp add: work_append)

lemma work_prefix: "work L d ts \<le> work L d (ts @ us)"
  by (simp add: work_append)

lemma reads_work: "reads s s' \<Longrightarrow> work L d (texts s') < work L d (texts s)"
  by (auto simp: reads_def work_append)

lemma length_texts: "nesting_ok s \<Longrightarrow> length (texts s) = nat (cmdtop s) + 1"
  by (auto simp: texts_def nesting_ok_def CMDFILEMAX_def split: if_splits)

text \<open>A line read and the file that its command opens: the work is still less.\<close>

lemma reads_opens_work:
  assumes "reads s s'" "nesting_ok s'" "opens s' s''" and "\<And>n t. cfiles s' n = Some t \<Longrightarrow> length t \<le> L"
  shows "work L 5 (texts s'') < work L 5 (texts s)"
proof -
  obtain ts t u where r: "texts s = ts @ [t]" "texts s' = ts @ [u]" "length u < length t"
    using assms(1) by (auto simp: reads_def)
  obtain f where f: "texts s'' = texts s' @ [f]" "length f \<le> L"
    using assms(3,4) by (auto simp: opens_def)
  have "0 \<le> cmdtop s'" "cmdtop s' < 5" using assms(2,3) by (simp_all add: opens_def CMDFILEMAX_def nesting_ok_def)
  then have "length ts < 5" using length_texts [OF assms(2)] r(2) by simp
  then obtain d where d: "5 - length ts = Suc d" by (cases "5 - length ts") auto
  have "(length f + 1) * (L + 2) ^ d \<le> (L + 1) * (L + 2) ^ d" using f(2) by (intro mult_right_mono) auto
  also have "\<dots> < (L + 2) ^ Suc d" by simp
  finally have "(length f + 1) * (L + 2) ^ d < (L + 2) ^ Suc d" .
  moreover have "(length u + 2) * (L + 2) ^ Suc d \<le> (length t + 1) * (L + 2) ^ Suc d"
    using r(3) by (intro mult_right_mono) auto
  moreover have "5 - Suc (length ts) = d" using d by simp
  ultimately show ?thesis using r f d by (simp add: work_append algebra_simps)
qed

lemma close_all_runs:
  assumes "nesting_ok s"
  shows "runs (close_all s) (\<lambda>s'. nesting_ok s' \<and> input s' = Some Stdin \<and> cfiles s' = cfiles s \<and>
           app s' = app s \<and> (\<exists>ts. texts s = texts s' @ ts))"
  using assms
proof (induction "nat (cmdtop s)" arbitrary: s)
  case 0
  then have "input s = Some Stdin" by (auto simp: nesting_ok_def)
  with 0 show ?case by (subst close_all.simps) simp
next
  case (Suc k)
  have n: "cmdtop s \<noteq> 0" "input s \<noteq> Some Stdin" using Suc(2,3) by (auto simp: nesting_ok_def split: if_splits)
  have "runs (Option.bind (btcmd_close_execute (cblk s) s) (\<lambda>(e, s'). close_all s'))
      (\<lambda>s'. nesting_ok s' \<and> input s' = Some Stdin \<and> cfiles s' = cfiles s \<and> app s' = app s \<and>
           (\<exists>ts. texts s = texts s' @ ts))"
  proof (rule runs_bindI [OF close_execute_pops [OF Suc(3) n(1)]],
      simp only: split_paired_all prod.case, elim conjE exE, goal_cases)
    case (1 e s1 t)
    then have "runs (close_all s1) (\<lambda>s'. nesting_ok s' \<and> input s' = Some Stdin \<and> cfiles s' = cfiles s1 \<and>
        app s' = app s1 \<and> (\<exists>ts. texts s1 = texts s' @ ts))"
      using Suc(2) by (intro Suc(1)) simp_all
    then show ?case by (rule runs_conseq) (use 1 in auto)
  qed
  then show ?case by (subst close_all.simps) (simp add: n)
qed

lemma find_loop_total:
  "e \<in> set cmds \<Longrightarrow> STREMP (e_cmd e) \<Longrightarrow> \<exists>b. find_loop cp cmd c cmds = Some b"
  by (induction cmds) auto

lemma find_cmd_total: "e \<in> set cmds \<Longrightarrow> STREMP (e_cmd e) \<Longrightarrow> \<exists>b. find_cmd buf cmds = Some b"
  by (auto simp: find_cmd_def Let_def intro: find_loop_total split: prod.splits)

text \<open>What the interpreter needs of the functions in the table, and of the error handler.\<close>

definition calls_ok ::
  "('a \<Rightarrow> bool) \<Rightarrow> ('f \<Rightarrow> ('f, 'a) command) \<Rightarrow> (int \<Rightarrow> ('f, 'a) shell \<Rightarrow> ('f, 'a) shell option) \<Rightarrow> bool" where
  "calls_ok I call error_handler \<longleftrightarrow>
     (\<forall>f c s. nesting_ok s \<longrightarrow> I (app s) \<longrightarrow>
        runs (call f c s) (\<lambda>(e, s'). nesting_ok s' \<and> I (app s') \<and>
          (cfiles s' = cfiles s \<and> cmdtop s' = cmdtop s \<and> texts s' = texts s \<or> opens s s'))) \<and>
     (\<forall>e s. I (app s) \<longrightarrow> runs (error_handler e s) (\<lambda>s'. same_input s s' \<and> I (app s')))"

lemma run_cmd_runs:
  assumes c: "calls_ok I call error_handler" and n: "nesting_ok s" and i: "I (app s)"
  shows "runs (run_cmd call error_handler prompt buf f s) (\<lambda>(e, s'). nesting_ok s' \<and> I (app s') \<and>
          (cfiles s' = cfiles s \<and> cmdtop s' = cmdtop s \<and> texts s' = texts s \<or> opens s s'))"
proof (cases "c_nargs (cblk s) < 0")
  case True
  then show ?thesis
    using n i by (simp add: run_cmd_def bad_args_def same_input_nesting [OF same_input_say(1)])
      (simp add: say_def)
next
  case False
  define s1 where "s1 = (if echo s \<and> \<not> tty_input s then say (Out (prompt @ buf)) s else s)"
  have s1: "same_input s s1" "app s1 = app s" "nesting_ok s1" "cblk s1 = cblk s"
    using n same_input_nesting [OF same_input_say(1)] by (auto simp: s1_def same_input_def say_def nesting_ok_def)
  note eq = same_input_nesting [OF s1(1)]
  have h: "runs (error_handler e t) (\<lambda>s'. same_input t s' \<and> I (app s'))" if "I (app t)" for e t
    using c that by (simp add: calls_ok_def)
  show ?thesis
    unfolding run_cmd_def Let_def s1_def [symmetric]
    apply (simp only: False if_False)
    apply (rule runs_bindI [where P = "\<lambda>(e, s'). nesting_ok s' \<and> I (app s') \<and>
          (cfiles s' = cfiles s1 \<and> cmdtop s' = cmdtop s1 \<and> texts s' = texts s1 \<or> opens s1 s')"])
    using c s1 i apply (simp add: calls_ok_def)
    apply (simp only: split_paired_all prod.case)
    subgoal for e t
      apply (rule runs_bindI [where P = "\<lambda>s'. same_input t s' \<and> I (app s')"])
      using h [of t e] apply (auto simp: same_input_def intro: runs_conseq)[1]
      using eq s1(1) apply (auto simp: same_input_nesting opens_def dest: same_input_nesting) [1]
      using eq s1(1) apply (auto simp: same_input_def)
      done
    done
qed

lemma command_loop:
  assumes calls: "calls_ok I call error_handler"
    and table: "e \<in> set cmds" "STREMP (e_cmd e)"
    and files: "\<And>n t. cfiles s n = Some t \<Longrightarrow> length t \<le> L"
    and ok: "nesting_ok s" "I (app s)"
  shows "runs (btcmd_loop call error_handler prompt cmds status s)
           (\<lambda>(r, s'). nesting_ok s' \<and> I (app s') \<and> (r < 0 \<or> r = 0 \<and> input s' = Some Stdin))"
  using files ok
proof (induction "work L 5 (texts s)" arbitrary: s status rule: less_induct)
  case less
  let ?Q = "\<lambda>(r, s'). nesting_ok s' \<and> I (app s') \<and> (r < 0 \<or> r = 0 \<and> input s' = Some Stdin)"
  let ?loop = "btcmd_loop call error_handler prompt cmds"
  have again: "runs (?loop st t) ?Q"
    if "work L 5 (texts t) < work L 5 (texts s)" "cfiles t = cfiles s" "nesting_ok t" "I (app t)" for st t
    using that less(2) by (intro less(1)) auto
  show ?case
  proof (cases "status < 0")
    case True
    then show ?thesis using less(3,4) by (subst btcmd_loop.simps) simp
  next
    case False
    show ?thesis
      apply (subst btcmd_loop.simps)
      apply (simp only: False if_False)
      apply (rule runs_bindI [OF read_line_reads [OF less(3)]])
      apply (simp only: split_paired_all prod.case)
      subgoal for l t
      proof (cases l)
        case None
        assume "nesting_ok t \<and> app t = app s \<and> (if l = None then same_input s t else reads s t)"
        then have t: "nesting_ok t" "app t = app s" "same_input s t" using None by auto
        have eq: "texts t = texts s" "cfiles t = cfiles s" using same_input_nesting [OF t(3)] t(3)
          by (auto simp: same_input_def)
        show ?thesis
        proof (cases "input t = Some Stdin")
          case True
          then show ?thesis using None t less(4) by simp
        next
          case False
          then have n: "cmdtop t \<noteq> 0" using t(1) by (auto simp: nesting_ok_def)
          show ?thesis
            unfolding None option.case
            apply (simp only: False if_False)
            apply (rule runs_bindI [OF close_execute_pops [OF t(1) n]])
            apply (simp only: split_paired_all prod.case, elim conjE exE)
            apply (rule again)
            using eq t less(4) by (auto simp: work_append)
        qed
      next
        case (Some buf)
        assume "nesting_ok t \<and> app t = app s \<and> (if l = None then same_input s t else reads s t)"
        then have t: "nesting_ok t" "app t = app s" "reads s t" using Some by auto
        obtain b where b: "find_cmd buf cmds = Some b" using find_cmd_total [OF table] by blast
        define u where "u = t\<lparr>cblk := b\<rparr>"
        have u: "nesting_ok u" "I (app u)" "reads s u" "cfiles u = cfiles s" "texts u = texts t" "cmdtop u = cmdtop t"
          using t less(4) by (auto simp: u_def nesting_ok_def reads_def texts_def)
        show ?thesis
        proof (cases "c_function b")
          case None
          then show ?thesis
            using again [of u status] u reads_work [OF u(3), of L 5]
            by (simp add: Some b Let_def u_def [symmetric])
        next
          case (Some f)
          show ?thesis
            unfolding \<open>l = Some buf\<close> option.case b bind.bind_lunit Let_def u_def [symmetric] Some
            apply (rule runs_bindI [OF run_cmd_runs [OF calls u(1,2)]])
            apply (simp only: split_paired_all prod.case)
            subgoal premises v for st v
            proof -
              have w: "work L 5 (texts v) < work L 5 (texts s)" "cfiles v = cfiles s"
                using v u reads_work [OF u(3), of L 5] reads_opens_work [OF u(3) u(1), of v L] less(2)
                by (auto simp: opens_def)
              show ?thesis
              proof (cases "0 < st \<and> stop_on_error v \<and> \<not> tty_input v")
                case False
                have "runs (?loop st v) ?Q" using w v by (intro again) auto
                then show ?thesis by (simp only: False if_False)
              next
                case True
                define x where "x = say (Out ''command file processing terminated (error on).'') v"
                have x: "nesting_ok x" "I (app x)" "cfiles x = cfiles s" "texts x = texts v"
                  using v w same_input_nesting [OF same_input_say(1)] by (auto simp: x_def say_def)
                show ?thesis
                proof (cases "input x = Some Stdin")
                  case i: True
                  show ?thesis using True x i by (simp add: x_def [symmetric])
                next
                  case i: False
                  have "runs (Option.bind (close_all x) (?loop st)) ?Q"
                    apply (rule runs_bindI [OF close_all_runs [OF x(1)]])
                    apply (elim conjE exE)
                    apply (rule again)
                    using w x work_prefix le_less_trans apply (metis (no_types, lifting))
                    using x by auto
                  then show ?thesis using True i by (simp add: x_def [symmetric])
                qed
              qed
            qed
            done
        qed
      qed
      done
  qed
qed

end
