(* ===== verification/Diag.thy ===== *)
theory Diag
  imports Session Console
begin

text \<open>
  The diagnostic output of the library: the dump of a data block (\<open>bxdump\<close>), the list of the entries
  of a duplicate block (\<open>btdispdups\<close>) and \<open>bdbug\<close>, which prints the control block, the super root, the
  statistics, the stack, a block, or checks the structure of the tree. Each returns what it prints.
\<close>

section \<open>Dump of bytes\<close>

definition BYTELN :: int where "BYTELN = 16"

definition charset :: string where
  "charset = replicate 32 (CHR ''.'') @
     '' !'' @ [char_of (34 :: nat)] @ ''#$%&'' @ [char_of (39 :: nat)] @ ''()*+,-./'' @
     ''0123456789:;<=>?'' @ ''@ABCDEFGHIJKLMNO'' @ ''PQRSTUVWXYZ[.]^_'' @
     [char_of (96 :: nat)] @ ''abcdefghijklmno'' @ ''pqrstuvwxyz...~.''"

definition hex_digit :: "nat \<Rightarrow> char" where
  "hex_digit n = char_of (if n < 10 then 48 + n else 55 + n)"

definition dump_char :: "byte \<Rightarrow> char" where
  "dump_char b = (if 127 < unat b then charset ! 0 else charset ! unat b)"

definition dump_row :: "int \<Rightarrow> byte list \<Rightarrow> string" where
  "dump_row bytecount row =
     pad_zero 8 (itostr bytecount) @ '' '' @
     concat (map (\<lambda>(i, b). (if i mod 4 = 0 then '' '' else []) @
                  [hex_digit (unat b div 16), hex_digit (unat b mod 16)]) (enumerate 0 row)) @
     ''  *'' @ map dump_char row @ ''*''"

text \<open>The loop: \<open>lastbuf\<close> is an offset into the buffer.\<close>

partial_function (option) bxdump_loop ::
  "byte list \<Rightarrow> int \<Rightarrow> int \<Rightarrow> int option \<Rightarrow> bool \<Rightarrow> string list \<Rightarrow> string list option" where
  "bxdump_loop p sz bytecount lastbuf repeating out =
     (if sz - 1 \<le> bytecount then Some out
      else do {
        row \<leftarrow> arr_slice p bytecount BYTELN;
        same \<leftarrow> (case lastbuf of
                   None \<Rightarrow> Some False
                 | Some l \<Rightarrow> do { lrow \<leftarrow> arr_slice p l BYTELN; Some (row = lrow) });
        if same then
          bxdump_loop p sz (bytecount + BYTELN) lastbuf True
            (if repeating then out else out @ [''........''])
        else
          bxdump_loop p sz (bytecount + BYTELN) (Some bytecount) False
            (out @ [dump_row bytecount row])
      })"

definition bxdump :: "byte list \<Rightarrow> int \<Rightarrow> string list option" where
  "bxdump p sz = bxdump_loop p sz 0 None False []"

section \<open>Duplicate blocks\<close>

partial_function (option) dispdups_loop ::
  "int \<Rightarrow> int \<Rightarrow> string list \<Rightarrow> st \<Rightarrow> (string list \<times> st) option" where
  "dispdups_loop da mx out s =
     (if da < mx then do {
        (d, s) \<leftarrow> getdkey da s;
        case d of
          None \<Rightarrow> Some (out, s)
        | Some d \<Rightarrow>
            dispdups_loop (da + SIZEOF_DKEY + ZDOVRH) mx
              (out @ [fmt_d 20 da @ pad_left 32 (dk_key d) @ fmt_d 20 (dk_val d) @
                      fmt_d 20 (dk_deleted d) @ fmt_d 20 (dk_blink d) @ fmt_d 20 (dk_flink d)]) s
      } else Some (out, s))"

definition btdispdups :: "int \<Rightarrow> st \<Rightarrow> ((int \<times> string list) \<times> st) option" where
  "btdispdups blk s = do {
     (t, s) \<leftarrow> bgtinf blk ZBTYPE s;
     if t \<noteq> ZDUP then Some ((btgerr s, []), s)
     else do {
       (n, s) \<leftarrow> bgtinf blk ZNKEYS s;
       (out, s) \<leftarrow> dispdups_loop (mkdraddr blk 0) (mkdraddr blk n)
         [pad_left 20 ''Draddr'' @ pad_left 32 ''Key'' @ pad_left 20 ''Val'' @ pad_left 20 ''Del?'' @
          pad_left 20 ''Blink'' @ pad_left 20 ''Flink''] s;
       Some ((btgerr s, out), s)
     }
   }"

section \<open>The sections of the report\<close>

definition ZPAD :: int where
  "ZPAD = (ZBLKSZ - (int ZKYLEN + 3 * int ZBPW) * ZMXKEY - int ZBPW - int ZINFSZ * int ZBPW) div int ZBPW"

definition SIZEOF_MEMREC :: int where "SIZEOF_MEMREC = ZBLKSZ"

definition debug_super :: "st \<Rightarrow> string list" where
  "debug_super s =
     [''  Number of blocks: '' @ fmt_d 20 (sblkmx (super s)),
      ''  # free blocks:    '' @ fmt_d 20 (snfree (super s)),
      ''  First free:       '' @ fmt_d 20 (sfreep (super s)),
      ''  Current root blk: '' @ fmt_d 20 (s_scroot s),
      ''  Current root nm:  '' @ pad_left 20 (scclas (super s)),
      ''  Block overhead:   '' @ fmt_d 20 ZPAD,
      ''  Block size:       '' @ fmt_d 20 ZBLKSZ @ '' [memrec size: '' @ itostr SIZEOF_MEMREC @ '']'',
      ''  Keys per block:   '' @ fmt_d 20 ZMXKEY]"

definition debug_control :: "st \<Rightarrow> string list" where
  "debug_control s =
     [''  Index file: '' @ pad_left 20 (idxfid s),
      ''  Shared?:    '' @ fmt_d 20 (if shared s then 1 else 0),
      ''  Last key:   '' @ pad_left 20 (s_lfkey s),
      ''  Last blk:   '' @ fmt_d 20 (s_lfblk s),
      ''  Last pos:   '' @ fmt_d 20 (s_lfpos s),
      ''  Exact:      '' @ fmt_d 20 (if s_lfexct s then 1 else 0),
      ''  Dup addr:   '' @ fmt_d 20 (s_draddr s),
      ''  LRU head:   '' @ fmt_d 20 (lruh (lru s)),
      ''  LRU tail:   '' @ fmt_d 20 (lrut (lru s)),
      pad_left 10 ''Mblk'' @ pad_left 20 ''Blk'' @ pad_left 10 ''Busy'' @ pad_left 10 ''Writes'' @
        pad_left 10 ''Lrunxt''] @
     map (\<lambda>(i, c). fmt_d 10 (int i) @ fmt_d 20 (inmem c) @ fmt_d 10 (busy c) @ fmt_d 10 (writes c) @
            fmt_d 10 (lrunxt c)) (enumerate 0 (cntrls s))"

definition debug_stats :: "st \<Rightarrow> string list" where
  "debug_stats s =
     [''  Logical reads:   '' @ fmt_d 10 (xlogrd (stat s)),
      ''  Logical writes:  '' @ fmt_d 10 (xlogwr (stat s)),
      ''  Physical reads:  '' @ fmt_d 10 (xphyrd (stat s)),
      ''  Physical writes: '' @ fmt_d 10 (xphywr (stat s)),
      ''  Block splits:    '' @ fmt_d 10 (xsplit (stat s)),
      ''  Block joins:     '' @ fmt_d 10 (xjoin (stat s)),
      ''  Block balances:  '' @ fmt_d 10 (xbal (stat s)),
      ''  Blocks obtained: '' @ fmt_d 10 (xgot (stat s)),
      ''  Blocks freed:    '' @ fmt_d 10 (xrel (stat s))]"

text \<open>The loop of the space report: \<open>tblks\<close> and \<open>tnkeys\<close>.\<close>

partial_function (option) space_loop :: "int \<Rightarrow> int \<Rightarrow> int \<Rightarrow> st \<Rightarrow> ((int \<times> int) \<times> st) option" where
  "space_loop blkno tblks nk s = do {
     ((e, blkno), s) \<leftarrow> bnxtbk blkno s;
     ((ioerr, idx), s) \<leftarrow> brdblk blkno s;
     m \<leftarrow> get_mem idx s;
     n \<leftarrow> arr_get (infblk m) ZNKEYS;
     if blkno \<noteq> s_scroot s then space_loop blkno (tblks + 1) (nk + n) s
     else Some ((tblks + 1, nk + n), s)
   }"

definition debug_space :: "st \<Rightarrow> (outp list \<times> st) option" where
  "debug_space s = do {
     ((tblks, nk), s) \<leftarrow> space_loop ZNULL 0 0 s;
     Some ([Out ('' No. of key blocks: '' @ fmt_d 20 tblks),
            Out ('' Max. poss. keys:   '' @ fmt_d 20 (tblks * ZMXKEY)),
            Out ('' Actual keys:       '' @ fmt_d 20 nk),
            Out_percent '' Occupancy (%):     '' nk (tblks * ZMXKEY)], s)
   }"

text \<open>The report on a block. The arguments of the first \<open>fprintf\<close> are evaluated from left to right.\<close>

fun get_infos :: "int \<Rightarrow> (string \<times> int) list \<Rightarrow> st \<Rightarrow> (string list \<times> st) option" where
  "get_infos blkno [] s = Some ([], s)"
| "get_infos blkno ((l, w) # ws) s = do {
     (v, s) \<leftarrow> bgtinf blkno w s;
     (ls, s) \<leftarrow> get_infos blkno ws s;
     Some ((pad_right 12 l @ fmt_d 20 v) # ls, s)
   }"

definition debug_keys :: "memrec \<Rightarrow> string list option" where
  "debug_keys m = do {
     n \<leftarrow> arr_get (infblk m) ZNKEYS;
     rows \<leftarrow> those (map (\<lambda>j. do {
         k \<leftarrow> arr_get (keyblk m) j;
         l \<leftarrow> arr_get (lnkblk m) j;
         r \<leftarrow> arr_get (lnkblk m) (j + 1);
         Some (''  '' @ pad_left 32 (ke_key k) @ fmt_d 20 (ke_val k) @ fmt_d 20 (ke_dup k) @
               fmt_d 20 l @ fmt_d 20 r)
       }) [0..n - 1]);
     Some ((''  '' @ pad_left 32 ''Key'' @ '' '' @ pad_left 20 ''Val'' @ pad_left 20 ''Dup'' @
            pad_left 20 ''Llink'' @ pad_left 20 ''Rlink'') # rows)
   }"

definition debug_block :: "int \<Rightarrow> st \<Rightarrow> (string list \<times> st) option" where
  "debug_block blkno s = do {
     ((ioerr, idx), s) \<leftarrow> brdblk blkno s;
     if 0 \<le> idx then do {
       (infos, s) \<leftarrow> get_infos blkno [(''Block Type:'', ZBTYPE), (''Misc:'', ZMISC),
         (''Nxblk:'', ZNXBLK), (''Nkeys:'', ZNKEYS), (''Nblks:'', ZNBLKS), (''NxDup:'', ZNXDUP)] s;
       (t, s) \<leftarrow> bgtinf blkno ZBTYPE s;
       if t = ZDUP then do {
         ((e, ls), s) \<leftarrow> btdispdups blkno s;
         Some (infos @ ls, s)
       } else if t = ZDATA then do {
         m \<leftarrow> get_mem idx s;
         ls \<leftarrow> bxdump (dat m) ZDATSZ;
         Some (infos @ ls, s)
       } else do {
         m \<leftarrow> get_mem idx s;
         ls \<leftarrow> debug_keys m;
         Some (infos @ ls, s)
       }
     } else Some ([], bterr ''BDBUG'' QRDBLK (Some (itostr blkno)) s)
   }"

definition debug_stack :: "st \<Rightarrow> string list option" where
  "debug_stack s = do {
     rows \<leftarrow> those (map (\<lambda>i. do { v \<leftarrow> arr_get (stkarr (stk s)) i; Some (fmt_d 10 i @ fmt_d 20 v) })
                      [0..stkptr (stk s)]);
     Some ((pad_left 10 ''Level'' @ pad_left 20 ''Contents'') # rows)
   }"

definition debug_structure :: "int \<Rightarrow> st \<Rightarrow> (string list \<times> st) option" where
  "debug_structure blkno s = do {
     ((nkeys, ls), s) \<leftarrow> btkeys (blkno = ZNULL) s;
     Some (ls @ [if nkeys = ZNULL then ''Index structure damaged''
                 else ''Index structure OK (number of keys: '' @ itostr nkeys @ '')''], s)
   }"

section \<open>The report\<close>

text \<open>\<open>bdbug\<close>: the status and what is printed. The code looks at \<open>btact\<close> before it makes \<open>b\<close> the active
  index; the model is of a call for the index that is active.\<close>

definition bdbug :: "string \<Rightarrow> int \<Rightarrow> st \<Rightarrow> ((int \<times> outp list) \<times> st) option" where
  "bdbug cmd blkno s = do {
     let (e, s) = bvalap ''BDBUG'' (clear_err s);
     if e \<noteq> 0 then Some ((e, []), s)
     else do {
       (ok, s) \<leftarrow> lock_if_shared ''BDBUG'' s;
       (out, s) \<leftarrow>
         (if \<not> ok then Some ([], s)
          else if cmd = ''super'' then Some (map Out (debug_super s), s)
          else if cmd = ''control'' then Some (map Out (debug_control s), s)
          else if cmd = ''stats'' then Some (map Out (debug_stats s), s)
          else if cmd = ''space'' then debug_space s
          else if cmd = ''block'' then do { (ls, s) \<leftarrow> debug_block blkno s; Some (map Out ls, s) }
          else if cmd = ''stack'' then do { ls \<leftarrow> debug_stack s; Some (map Out ls, s) }
          else if cmd = ''structure'' then do { (ls, s) \<leftarrow> debug_structure blkno s; Some (map Out ls, s) }
          else Some ([], bterr ''BDBUG'' QBADOP None s));
       s \<leftarrow> unlock_if_shared s;
       Some ((btgerr s, out), s)
     }
   }"

text \<open>The loops, for evaluation.\<close>

declare bxdump_loop.simps [code] and
  dispdups_loop.simps [code] and
  space_loop.simps [code]

section \<open>The dump of a data block overruns it\<close>

text \<open>The last row of the dump starts at byte 992 of 1000 and takes sixteen bytes.\<close>

lemma bxdump_loop_overrun:
  assumes "length p = nat ZDATSZ" "bytecount = BYTELN * int n" "n \<le> 62"
  shows "bxdump_loop p ZDATSZ bytecount lastbuf repeating out = None"
  using assms(2,3)
proof (induction "62 - n" arbitrary: n bytecount lastbuf repeating out)
  case 0
  then have "arr_slice p bytecount BYTELN = None"
    using assms(1) by (auto simp: arr_slice_def BYTELN_def ZDATSZ_val)
  with 0 show ?case by (subst bxdump_loop.simps) (simp add: BYTELN_def ZDATSZ_val)
next
  case (Suc k)
  have IH: "bxdump_loop p ZDATSZ (bytecount + BYTELN) l r out' = None" for l r out'
    using Suc(2-4) by (intro Suc(1) [of "Suc n"]) (simp_all add: BYTELN_def)
  have "\<not> ZDATSZ - 1 \<le> bytecount" using Suc(2-4) by (simp add: BYTELN_def ZDATSZ_val)
  then show ?case
    by (subst bxdump_loop.simps) (simp add: IH split: option.splits bind_splits)
qed

end
