(* ===== verification/Shell.thy ===== *)
theory Shell
  imports Command Diag
begin

text \<open>
  The test harness \<open>src-main/bt.c\<close>: a command for every function of the library, over a list of open
  index files, of which one is in use (\<open>btp\<close>), and a list of data buffers. A command works on the
  state of the interpreter, whose \<open>app\<close> is the state kept here, and returns its status.
\<close>

section \<open>State\<close>

definition NORMAL_QUIT :: int where "NORMAL_QUIT = -1"
definition INSTANT_QUIT :: int where "INSTANT_QUIT = -2"
definition DATABUFSZ :: int where "DATABUFSZ = 80"

record bt_plist =
  p_fid :: "string option"
  p_b :: int

record bt_blist =
  b_name :: "string option"
  b_ptr :: "byte list"
  b_fn :: "string option"
  b_size :: int

text \<open>A file that \<open>cpfm\<close> may read: it is missing, \<open>fstat\<close> fails on it, it is not a regular file, or it
  holds these bytes.\<close>

datatype rfile = No_file | No_stat | Not_regular | Regular "byte list"

text \<open>
  The file-scope variables, the library (\<open>ses\<close>), and what the environment answers: \<open>mem_of n\<close> is the
  memory that \<open>malloc(n)\<close> returns, with arbitrary contents, \<open>os_of i\<close> what the \<open>i\<close>-th index file to be
  opened gets, \<open>rfiles\<close> the files that buffers are read from, \<open>sys_msg\<close> the messages of \<open>strerror\<close>.
\<close>

record btapp =
  phead :: "bt_plist list"
  bhead :: "bt_blist list"
  btp :: "int option"
  suppress_error_msg :: bool
  ses :: sess
  mem_of :: "int \<Rightarrow> byte list option"
  os_of :: "nat \<Rightarrow> bta option"
  nopens :: nat
  rfiles :: "string \<Rightarrow> rfile"
  sys_msg :: "int \<Rightarrow> string"

text \<open>The functions in the table of commands.\<close>

datatype btfun = F_noop | F_comment | F_execute | F_prompt | F_system | F_echo | F_error | F_help
  | F_buffer_create | F_buffer_delete | F_buffer_list | F_create_file | F_open_file
  | F_open_file_readonly | F_quit | F_close_file | F_find_key | F_define_key | F_show_debug
  | F_next_key | F_list | F_list_keys | F_prev_key | F_list_keys_prev | F_remove_key
  | F_remove_key_current | F_define_root | F_change_root | F_remove_root | F_file_list | F_use_file
  | F_define_data | F_find_data | F_update_data | F_update_data_current | F_remove_data
  | F_remove_data_current | F_size_data | F_list_data | F_list_data_prev | F_next_data
  | F_previous_data | F_lock_file | F_unlock_file | F_update_value | F_update_value_current
  | F_wr_thresh | F_decode_addr | F_dups | F_pos | F_chk_order | F_unknown_command

type_synonym bsh = "(btfun, btapp) shell"
type_synonym bcommand = "btfun cmdblk \<Rightarrow> bsh \<Rightarrow> (int \<times> bsh) option"

abbreviation upd_app :: "(btapp \<Rightarrow> btapp) \<Rightarrow> bsh \<Rightarrow> bsh" where
  "upd_app f s \<equiv> s\<lparr>app := f (app s)\<rparr>"

definition suppress :: "bsh \<Rightarrow> bsh" where
  "suppress s = upd_app (\<lambda>a. a\<lparr>suppress_error_msg := True\<rparr>) s"

text \<open>The pointer handed to the library: a slot, or NULL, which is outside the table of slots.\<close>

definition handle :: "bsh \<Rightarrow> int" where
  "handle s = (case btp (app s) of None \<Rightarrow> -1 | Some b \<Rightarrow> b)"

text \<open>A call of the library function \<open>fn\<close> for the index in use.\<close>

definition api :: "string \<Rightarrow> (int \<Rightarrow> 'r) \<Rightarrow> (st \<Rightarrow> ('r \<times> st) option) \<Rightarrow> bsh \<Rightarrow> ('r \<times> bsh) option" where
  "api fn bad f s = do {
     (r, ss) \<leftarrow> bt_api fn bad f (handle s) (ses (app s));
     Some (r, upd_app (\<lambda>a. a\<lparr>ses := ss\<rparr>) s)
   }"

abbreviation api_int :: "string \<Rightarrow> (st \<Rightarrow> (int \<times> st) option) \<Rightarrow> bsh \<Rightarrow> (int \<times> bsh) option" where
  "api_int fn f s \<equiv> api fn (\<lambda>e. e) f s"

definition str_bytes :: "string \<Rightarrow> byte list" where
  "str_bytes s = map (\<lambda>c. word_of_nat (of_char c)) s"

text \<open>The C string at the start of a buffer.\<close>

definition bytes_str :: "byte list \<Rightarrow> string" where
  "bytes_str bs = map (\<lambda>b. char_of (unat b)) (takeWhile (\<lambda>b. b \<noteq> 0) bs)"

section \<open>The list of open files\<close>

definition strsave :: "string \<Rightarrow> bsh \<Rightarrow> string option \<times> bsh" where
  "strsave t s =
     (case mem_of (app s) (int (length t) + 1) of
        None \<Rightarrow> (None, say (Err ''no memory for string'') s)
      | Some m \<Rightarrow> (Some t, s))"

definition SIZEOF_PLIST :: int where "SIZEOF_PLIST = 24"
definition SIZEOF_BLIST :: int where "SIZEOF_BLIST = 40"

definition add :: "string \<Rightarrow> int \<Rightarrow> bsh \<Rightarrow> int \<times> bsh" where
  "add f b s =
     (case mem_of (app s) SIZEOF_PLIST of
        None \<Rightarrow> (1, say (Err ''no memory for active file entry'') s)
      | Some m \<Rightarrow>
          (let (fid, s) = strsave f s
           in (0, upd_app (\<lambda>a. a\<lparr>phead := \<lparr>p_fid = fid, p_b = b\<rparr> # phead a\<rparr>) s)))"

text \<open>\<open>strcmp\<close> with the name of an entry, which is NULL when there was no memory for it.\<close>

fun get_loop :: "string \<Rightarrow> bt_plist list \<Rightarrow> int option option" where
  "get_loop f [] = Some None"
| "get_loop f (p # ps) = do {
     fid \<leftarrow> p_fid p;
     if strcmp fid f = 0 then Some (Some (p_b p)) else get_loop f ps
   }"

definition get :: "string \<Rightarrow> bsh \<Rightarrow> int option option" where
  "get f s = get_loop f (phead (app s))"

fun del_loop :: "int \<Rightarrow> bt_plist list \<Rightarrow> int \<times> bt_plist list" where
  "del_loop b [] = (1, [])"
| "del_loop b (p # ps) =
     (if b = p_b p then (0, ps) else (let (r, ps) = del_loop b ps in (r, p # ps)))"

definition del :: "int \<Rightarrow> bsh \<Rightarrow> int \<times> bsh" where
  "del b s =
     (let (r, ps) = del_loop b (phead (app s))
      in (r, upd_app (\<lambda>a. a\<lparr>phead := ps\<rparr>) s))"

section \<open>The list of data buffers\<close>

definition add_data :: "string \<Rightarrow> int \<Rightarrow> bsh \<Rightarrow> bool \<times> bsh" where
  "add_data f sz s =
     (case mem_of (app s) SIZEOF_BLIST of
        None \<Rightarrow> (False, say (Err ''bt: no memory for new data buffer header'') s)
      | Some h \<Rightarrow>
          (let (name, s) = strsave f s
           in case mem_of (app s) sz of
                None \<Rightarrow> (False, say (Err ''bt: unable to allocate enough memory'') s)
              | Some m \<Rightarrow>
                  (let fill = (if f = [] then 0 else word_of_nat (of_char (hd f)));
                       b = \<lparr>b_name = name, b_ptr = map (\<lambda>x. fill) m, b_fn = None, b_size = sz\<rparr>
                   in (True, upd_app (\<lambda>a. a\<lparr>bhead := b # bhead a\<rparr>) s))))"

fun get_data_loop :: "string \<Rightarrow> bt_blist list \<Rightarrow> bt_blist option option" where
  "get_data_loop f [] = Some None"
| "get_data_loop f (b # bs) = do {
     n \<leftarrow> b_name b;
     if strcmp n f = 0 then Some (Some b) else get_data_loop f bs
   }"

definition get_data :: "string \<Rightarrow> bsh \<Rightarrow> bt_blist option option" where
  "get_data f s = get_data_loop f (bhead (app s))"

fun del_data_loop :: "string \<Rightarrow> bt_blist list \<Rightarrow> (bool \<times> bt_blist list) option" where
  "del_data_loop n [] = Some (False, [])"
| "del_data_loop n (b # bs) = do {
     m \<leftarrow> b_name b;
     if strcmp n m = 0 then Some (True, bs)
     else do { (r, bs) \<leftarrow> del_data_loop n bs; Some (r, b # bs) }
   }"

definition del_data :: "string \<Rightarrow> bsh \<Rightarrow> (bool \<times> bsh) option" where
  "del_data n s = do {
     (r, bs) \<leftarrow> del_data_loop n (bhead (app s));
     Some (r, upd_app (\<lambda>a. a\<lparr>bhead := bs\<rparr>) s)
   }"

definition quoted :: "string \<Rightarrow> string" where
  "quoted s = [char_of (39 :: nat)] @ s @ [char_of (39 :: nat)]"

definition BUFSZ :: nat where "BUFSZ = 256"

text \<open>The loop of \<open>cpfm\<close> over what is left of the file; the file does not change while it is read.\<close>

function cpfm_loop :: "byte list \<Rightarrow> int \<Rightarrow> byte list \<Rightarrow> byte list option" where
  "cpfm_loop buf off left =
     (let items = take BUFSZ left
      in case arr_blit buf off items of
           None \<Rightarrow> None
         | Some buf \<Rightarrow>
             if length items \<noteq> BUFSZ then Some buf
             else cpfm_loop buf (off + int (length items)) (drop BUFSZ left))"
  by pat_completeness auto
termination by (relation "measure (\<lambda>(buf, off, left). length left)") (auto simp: BUFSZ_def)

declare cpfm_loop.simps [simp del]

definition cpfm :: "string \<Rightarrow> bsh \<Rightarrow> (bt_blist option \<times> bsh) option" where
  "cpfm fn s =
     (case rfiles (app s) fn of
        No_file \<Rightarrow> Some (None, say (Err (''bt: unable to open file '' @ quoted fn)) s)
      | No_stat \<Rightarrow> Some (None, say (Err (''bt: fstat failed for file '' @ quoted fn)) s)
      | Not_regular \<Rightarrow> Some (None, say (Err (''bt: file '' @ quoted fn @ '' is not a regular file'')) s)
      | Regular contents \<Rightarrow>
          (case mem_of (app s) SIZEOF_BLIST of
             None \<Rightarrow> Some (None, say (Err ''bt: no memory for buffer index entry'') s)
           | Some h \<Rightarrow>
               (let (f, s) = strsave fn s
                in case mem_of (app s) (int (length contents)) of
                     None \<Rightarrow> Some (None, say (Err ''bt: no memory for buffer'') s)
                   | Some m \<Rightarrow> do {
                       p \<leftarrow> cpfm_loop m 0 contents;
                       Some (Some \<lparr>b_name = None, b_ptr = p, b_fn = f, b_size = int (length contents)\<rparr>, s)
                     })))"

definition add_data_file :: "string \<Rightarrow> string \<Rightarrow> bsh \<Rightarrow> bsh option" where
  "add_data_file bn fn s = do {
     (b, s) \<leftarrow> cpfm fn s;
     case b of
       None \<Rightarrow> Some s
     | Some b \<Rightarrow>
         (let (name, s) = strsave bn s
          in Some (upd_app (\<lambda>a. a\<lparr>bhead := b\<lparr>b_name := name\<rparr> # bhead a\<rparr>) s))
   }"

section \<open>Commands on buffers and files\<close>

definition buffer_create :: bcommand where
  "buffer_create c s = do {
     (d, s) \<leftarrow> del_data (c_arg c) s;
     if c_qual_int c = 0 then do { s \<leftarrow> add_data_file (c_arg c) (c_qualifier c) s; Some (0, s) }
     else
       (let (ok, s) = add_data (c_arg c) (c_qual_int c) s
        in Some (if \<not> ok then (1, say (Err (''cannot create data buffer: '' @ c_arg c)) s) else (0, s)))
   }"

definition buffer_delete :: bcommand where
  "buffer_delete c s = do {
     (ok, s) \<leftarrow> del_data (c_arg c) s;
     Some (if \<not> ok then (1, say (Err (''unable to delete data buffer: '' @ c_arg c)) s) else (0, s))
   }"

definition buffer_line :: "bt_blist \<Rightarrow> outp option" where
  "buffer_line b = do {
     n \<leftarrow> b_name b;
     Some (Out (n @ '' '' @ [char_of (9 :: nat)] @ ''['' @ itostr (b_size b) @ '' bytes]'' @
       (case b_fn b of Some f \<Rightarrow> ''  ('' @ f @ '')'' | None \<Rightarrow> [])))
   }"

definition buffer_list :: bcommand where
  "buffer_list c s = do { ls \<leftarrow> those (map buffer_line (bhead (app s))); Some (0, says ls s) }"

definition shared_arg :: "btfun cmdblk \<Rightarrow> bool" where
  "shared_arg c = (c_qualifier c \<noteq> [] \<and> hd (c_qualifier c) = CHR ''s'')"

text \<open>What the three commands that open a file do with the handle that they get.\<close>

definition opened_file :: "string \<Rightarrow> int option \<times> sess \<Rightarrow> bsh \<Rightarrow> int \<times> bsh" where
  "opened_file f r s =
     (let s = upd_app (\<lambda>a. a\<lparr>ses := snd r, nopens := nopens a + 1\<rparr>) s
      in case fst r of
           None \<Rightarrow> (1, s)
         | Some b \<Rightarrow> (0, snd (add f b (upd_app (\<lambda>a. a\<lparr>btp := Some b\<rparr>) s))))"

definition create_file :: bcommand where
  "create_file c s = do {
     r \<leftarrow> btcrt (os_of (app s) (nopens (app s))) (c_arg c) 0 (shared_arg c) (ses (app s));
     Some (opened_file (c_arg c) r s)
   }"

definition open_file :: bcommand where
  "open_file c s = do {
     r \<leftarrow> btopn (os_of (app s) (nopens (app s))) (c_arg c) 0 (shared_arg c) (ses (app s));
     Some (opened_file (c_arg c) r s)
   }"

definition open_file_readonly :: bcommand where
  "open_file_readonly c s = do {
     r \<leftarrow> btopn (os_of (app s) (nopens (app s))) (c_arg c) 1 (shared_arg c) (ses (app s));
     Some (opened_file (c_arg c) r s)
   }"

definition quit :: bcommand where
  "quit c s = Some (if strcmp (c_arg c) ''x'' = 0 then INSTANT_QUIT else NORMAL_QUIT, s)"

definition call_btcls :: "int \<Rightarrow> bsh \<Rightarrow> (int \<times> bsh) option" where
  "call_btcls b s = do {
     (e, ss) \<leftarrow> btcls b (ses (app s));
     Some (e, upd_app (\<lambda>a. a\<lparr>ses := ss\<rparr>) s)
   }"

text \<open>\<open>shutdown\<close>: true if all files could be closed, otherwise the program exits with a failure. The
  freed buffers are gone.\<close>

fun shutdown_loop :: "bt_plist list \<Rightarrow> bsh \<Rightarrow> (int \<times> bsh) option" where
  "shutdown_loop [] s = Some (0, upd_app (\<lambda>a. a\<lparr>phead := []\<rparr>) s)"
| "shutdown_loop (p # ps) s = do {
     (status, s) \<leftarrow> call_btcls (p_b p) s;
     let s = upd_app (\<lambda>a. a\<lparr>phead := ps\<rparr>) s;
     if status = 0 then shutdown_loop ps s else Some (status, s)
   }"

definition shutdown :: "bsh \<Rightarrow> (bool \<times> bsh) option" where
  "shutdown s = do {
     let s = upd_app (\<lambda>a. a\<lparr>bhead := []\<rparr>) s;
     (status, s) \<leftarrow> shutdown_loop (phead (app s)) s;
     Some (if status \<noteq> 0 then (False, say (Err ''Failed to close all btree index files'') s) else (True, s))
   }"

definition close_file :: bcommand where
  "close_file c s =
     (case btp (app s) of
        None \<Rightarrow> Some (0, say (Out ''no in-use file to close'') s)
      | Some b \<Rightarrow> do {
          (status, s) \<leftarrow> call_btcls b s;
          if status = 0 then
            (let s = snd (del b s)
             in case phead (app s) of
                  [] \<Rightarrow> Some (status, say (Out ''warning: no in-use btree file'') (upd_app (\<lambda>a. a\<lparr>btp := None\<rparr>) s))
                | p # ps \<Rightarrow> do {
                    fid \<leftarrow> p_fid p;
                    Some (status, say (Out (''btree file '' @ fid @ '' now in use''))
                                    (upd_app (\<lambda>a. a\<lparr>btp := Some (p_b p)\<rparr>) s))
                  })
          else Some (status, s)
        })"

text \<open>The list of open files; a name that is NULL cannot be printed.\<close>

definition file_line :: "int option \<Rightarrow> bt_plist \<Rightarrow> outp option" where
  "file_line b p = do { fid \<leftarrow> p_fid p; Some (Out (fid @ (if b = Some (p_b p) then '' (in-use)'' else []))) }"

definition file_list :: bcommand where
  "file_list c s = do { ls \<leftarrow> those (map (file_line (btp (app s))) (phead (app s))); Some (0, says ls s) }"

definition use_file :: bcommand where
  "use_file c s =
     (if STREMP (c_arg c) then
        (case (case btp (app s) of
                 None \<Rightarrow> None
               | Some b \<Rightarrow> List.find (\<lambda>p. p_b p = b) (phead (app s))) of
           Some p \<Rightarrow> do { fid \<leftarrow> p_fid p; Some (0, say (Out (''in-use file: '' @ fid)) s) }
         | None \<Rightarrow> Some (0, say (Out ''no in-use index file.'') s))
      else do {
        r \<leftarrow> get (c_arg c) s;
        case r of
          Some b \<Rightarrow> Some (0, upd_app (\<lambda>a. a\<lparr>btp := Some b\<rparr>) s)
        | None \<Rightarrow>
            Some (1, suppress (say (Out (''File '' @ c_arg c @ '' not found; current file unchanged'')) s))
      })"

section \<open>Commands on keys\<close>

definition key_line :: "string \<Rightarrow> int \<Rightarrow> outp" where
  "key_line k v = Out (''Key: '' @ quoted k @ '' = '' @ itostr v)"

definition find_key :: bcommand where
  "find_key c s = do {
     ((status, val), s) \<leftarrow> api ''BFNDKY'' (\<lambda>e. (e, None)) (bfndky (c_arg c) None) s;
     if status = 0 then do { v \<leftarrow> val; Some (status, say (key_line (c_arg c) v) s) }
     else Some (if status = QNOKEY \<and> STREMP (c_arg c) then 0 else status, s)
   }"

definition define_key :: bcommand where
  "define_key c s =
     (if STREMP (c_arg c) then Some (1, suppress (say (Out ''No key specified.'') s))
      else api_int ''BINSKY'' (binsky (c_arg c) (c_qual_int c)) s)"

definition show_debug :: bcommand where
  "show_debug c s = do {
     ((status, ls), s) \<leftarrow> api ''BDBUG'' (\<lambda>e. (e, []))
       (bdbug (c_arg c) (if strcmp (c_qualifier c) ''v'' = 0 then ZNULL else c_qual_int c)) s;
     Some (status, says ls s)
   }"

text \<open>One step of a walk: \<open>bnxtky\<close> or \<open>bprvky\<close> with the caller's \<open>key\<close> and \<open>val\<close>.\<close>

definition next_step :: "kv \<Rightarrow> bsh \<Rightarrow> ((int \<times> kv) \<times> bsh) option" where
  "next_step kv s = api ''BNXTKY'' (\<lambda>e. (e, kv)) (bnxtky kv) s"

definition prev_step :: "kv \<Rightarrow> bsh \<Rightarrow> ((int \<times> kv) \<times> bsh) option" where
  "prev_step kv s = api ''BPRVKY'' (\<lambda>e. (e, kv)) (bprvky kv) s"

definition step_key :: "(kv \<Rightarrow> bsh \<Rightarrow> ((int \<times> kv) \<times> bsh) option) \<Rightarrow> bcommand" where
  "step_key step c s = do {
     ((status, kv), s) \<leftarrow> step (None, None) s;
     if status = QNOKEY then Some (status, suppress (say (Out ''No more keys'') s))
     else if status = 0 then do {
       k \<leftarrow> fst kv;
       v \<leftarrow> snd kv;
       Some (status, say (key_line k v) s)
     } else Some (status, s)
   }"

definition next_key :: bcommand where
  "next_key c s = step_key next_step c s"

definition prev_key :: bcommand where
  "prev_key c s = step_key prev_step c s"

text \<open>The loop of the three listings: what is printed for a key, and the count.\<close>

partial_function (option) list_loop ::
  "(kv \<Rightarrow> bsh \<Rightarrow> ((int \<times> kv) \<times> bsh) option) \<Rightarrow> (string \<Rightarrow> int \<Rightarrow> outp) \<Rightarrow> int \<Rightarrow> kv \<Rightarrow> bsh \<Rightarrow>
   ((int \<times> int) \<times> bsh) option" where
  "list_loop step line count kv s = do {
     ((status, kv), s) \<leftarrow> step kv s;
     if status = 0 then do {
       k \<leftarrow> fst kv;
       v \<leftarrow> snd kv;
       list_loop step line (count + 1) kv (say (line k v) s)
     } else Some ((status, count), s)
   }"

definition listed :: "string \<Rightarrow> (int \<times> int) \<times> bsh \<Rightarrow> int \<times> bsh" where
  "listed what r =
     (let ((status, count), s) = r; done = (status = 0 \<or> status = QNOKEY)
      in (if done then 0 else status,
          if done \<and> what = ''c'' then say (Out (itostr count @ '' keys listed'')) s else s))"

definition list_cmd :: bcommand where
  "list_cmd c s = do { r \<leftarrow> list_loop next_step key_line 0 (None, None) s; Some (listed (c_arg c) r) }"

definition list_keys :: bcommand where
  "list_keys c s = do {
     r \<leftarrow> list_loop next_step (\<lambda>k v. Out k) 0 (None, None) s;
     Some (listed (c_arg c) r)
   }"

definition list_keys_prev :: bcommand where
  "list_keys_prev c s = do { r \<leftarrow> list_loop prev_step key_line 0 (None, None) s; Some (listed (c_arg c) r) }"

definition remove_key :: bcommand where
  "remove_key c s = api_int ''BDELKY'' (bdelky (Some (c_arg c))) s"

definition remove_key_current :: bcommand where
  "remove_key_current c s = api_int ''BDELKY'' (bdelky None) s"

definition update_value :: bcommand where
  "update_value c s = api_int ''BUPDKY'' (bupdky (Some (c_arg c)) (c_qual_int c)) s"

definition update_value_current :: bcommand where
  "update_value_current c s = api_int ''BUPDKY'' (bupdky None (to_int32 (strtol (c_arg c)))) s"

text \<open>\<open>check-order\<close>: the loop with the last key, the keys read, and the status.\<close>

partial_function (option) chk_loop ::
  "string \<Rightarrow> int \<Rightarrow> kv \<Rightarrow> bsh \<Rightarrow> ((int \<times> int) \<times> bsh) option" where
  "chk_loop last_key count kv s = do {
     ((status, kv), s) \<leftarrow> next_step kv s;
     if status = 0 then do {
       k \<leftarrow> fst kv;
       if strcmp last_key k > 0 then
         Some ((1, count + 1),
               suppress (say (Out (''Index disordered at '' @ last_key @ '': found '' @ k @ '' next.'')) s))
       else chk_loop (strncpy_term ZKYLEN k) (count + 1) kv s
     } else Some ((status, count), s)
   }"

definition chk_order :: bcommand where
  "chk_order c s = do {
     s \<leftarrow> (if strncmp_eq 1 (c_qualifier c) ''s'' \<or> strncmp_eq 1 (c_arg c) ''s'' then do {
             (e, s) \<leftarrow> api_int ''BTPOS'' (btpos ZSTART) s;
             Some s
           } else Some s);
     ((status, count), s) \<leftarrow> chk_loop [] 0 (None, None) s;
     let s = (if strncmp_eq 1 (c_arg c) ''c'' \<or> strncmp_eq 1 (c_qualifier c) ''c''
              then say (Out (itostr count @ '' keys checked'')) s else s);
     Some (if status = 0 \<or> status = QNOKEY then 0 else status, s)
   }"

definition pos_cmd :: bcommand where
  "pos_cmd c s = api_int ''BTPOS'' (btpos (if strcmp (c_arg c) ''s'' = 0 then ZSTART else ZEND)) s"

section \<open>Commands on roots and the file\<close>

definition root_cmd :: "string \<Rightarrow> (string \<Rightarrow> st \<Rightarrow> (int \<times> st) option) \<Rightarrow> string \<Rightarrow> bcommand" where
  "root_cmd fn f msg c s = do {
     (status, s) \<leftarrow> api_int fn (f (c_arg c)) s;
     Some (status, if status = QNOKEY then suppress (say (Out (msg @ quoted (c_arg c))) s) else s)
   }"

definition define_root :: bcommand where
  "define_root c s = root_cmd ''BTCRTR'' btcrtr (''Can'' @ [char_of (39 :: nat)] @ ''t create root: '') c s"

definition change_root :: bcommand where
  "change_root c s = root_cmd ''BTCHGR'' btchgr (''Can'' @ [char_of (39 :: nat)] @ ''t change root to: '') c s"

definition remove_root :: bcommand where
  "remove_root c s = root_cmd ''BTDELR'' btdelr ''No such root as '' c s"

definition lock_file :: bcommand where
  "lock_file c s = api_int ''BTLOCK'' btlock s"

definition unlock_file :: bcommand where
  "unlock_file c s = api_int ''BTUNLOCK'' btunlock s"

definition wr_thresh :: bcommand where
  "wr_thresh c s = api_int ''BTTHRESH'' (\<lambda>s. Some (btthresh (to_int32 (strtol (c_arg c))) s)) s"

definition dups_cmd :: bcommand where
  "dups_cmd c s = api_int ''BTDUPS'' (btdups (if strcmp (c_arg c) ''on'' = 0 then 1 else 0)) s"

definition decode_addr :: bcommand where
  "decode_addr c s = do {
     ((status, val), s) \<leftarrow>
       (if strcmp (c_qualifier c) ''i'' = 0 then Some ((0, Some (atoi (c_arg c))), s)
        else api ''BFNDKY'' (\<lambda>e. (e, None)) (bfndky (c_arg c) None) s);
     if status = 0 then do {
       v \<leftarrow> val;
       let (dblk, offset) = cnvdraddr v;
       Some (status, say (Out (''Key: '' @ quoted (c_arg c) @ '' = '' @ itostr v @ '', dblk: '' @ itostr dblk @
                               '', offset; '' @ itostr offset)) s)
     } else Some (status, s)
   }"

section \<open>Commands on data records\<close>

text \<open>The data of \<open>define-data\<close> and the updates: a string, or \<open>*b\<close> for the data buffer \<open>b\<close>; \<open>None\<close> if
  there is no such buffer.\<close>

definition data_arg :: "string \<Rightarrow> bsh \<Rightarrow> byte list option option" where
  "data_arg q s =
     (if q \<noteq> [] \<and> hd q = CHR ''*'' then do { b \<leftarrow> get_data (tl q) s; Some (map_option b_ptr b) }
      else Some (Some (str_bytes q)))"

definition define_data :: bcommand where
  "define_data c s = do {
     d \<leftarrow> data_arg (c_qualifier c) s;
     case d of
       Some bs \<Rightarrow> api_int ''BTINS'' (btins (c_arg c) (Some bs)) s
     | None \<Rightarrow> Some (0, suppress (say (Out (''bt: no such data buffer: '' @ tl (c_qualifier c))) s))
   }"

definition update_with :: "string option \<Rightarrow> string \<Rightarrow> bsh \<Rightarrow> (int \<times> bsh) option" where
  "update_with key q s = do {
     d \<leftarrow> data_arg q s;
     case d of
       Some bs \<Rightarrow> api_int ''BTUPD'' (btupd key (Some bs)) s
     | None \<Rightarrow> Some (1, suppress (say (Out (''No such data buffer: '' @ tl q)) s))
   }"

definition update_data :: bcommand where
  "update_data c s = update_with (Some (c_arg c)) (c_qualifier c) s"

definition update_data_current :: bcommand where
  "update_data_current c s = update_with None (c_arg c) s"

definition remove_data :: bcommand where
  "remove_data c s = api_int ''BTDEL'' (btdel (Some (c_arg c))) s"

definition remove_data_current :: bcommand where
  "remove_data_current c s = api_int ''BTDEL'' (btdel None) s"

text \<open>\<open>find-data\<close>: the record is read into a buffer of \<open>datasize + 1\<close> bytes, which gets a NUL after the
  bytes read.\<close>

definition find_data :: bcommand where
  "find_data c s = do {
     ((status, size), s) \<leftarrow>
       (if strcmp (c_qualifier c) ''d'' = 0
        then api ''BTRECS'' (\<lambda>e. (e, None)) (btrecs (Some (c_arg c))) s
        else Some ((0, Some DATABUFSZ), s));
     (status, s) \<leftarrow>
       (if status = 0 then do {
          datasize \<leftarrow> size;
          let buf = mem_of (app s) (datasize + 1);
          let s = (if buf = None then suppress (say (Err ''Unable to allocate memory'') s) else s);
          ((status, out), s) \<leftarrow> api ''BTSEL'' (\<lambda>e. (e, None)) (btsel (c_arg c) datasize) s;
          if status = 0 then do {
            m \<leftarrow> buf;
            (n, bs) \<leftarrow> out;
            m \<leftarrow> arr_blit m 0 bs;
            m \<leftarrow> arr_set m n 0;
            Some (status, says [Out ''Data record:'', Out (bytes_str m)] s)
          } else Some (status, s)
        } else Some (status, s));
     if status = QNOKEY then
       (if \<not> STREMP (c_arg c) then
          Some (status, suppress (say (Out (''No such key as '' @ quoted (c_arg c))) s))
        else Some (0, s))
     else Some (status, s)
   }"

definition size_data :: bcommand where
  "size_data c s = do {
     ((status, size), s) \<leftarrow> api ''BTRECS'' (\<lambda>e. (e, None))
       (btrecs (if strcmp (c_arg c) [] = 0 then None else Some (c_arg c))) s;
     if status = 0 then do {
       n \<leftarrow> size;
       Some (status, say (Out (''Key '' @ quoted (c_arg c) @ '' record size: '' @ itostr n @ '' bytes'')) s)
     } else Some (status, s)
   }"

text \<open>A record in the 80 byte buffer of the listings, as the string that is printed.\<close>

definition data_str :: "int \<Rightarrow> byte list \<Rightarrow> string option" where
  "data_str n bs = do {
     buf \<leftarrow> arr_blit (replicate (nat DATABUFSZ) 0) 0 bs;
     buf \<leftarrow> arr_set buf (if n = DATABUFSZ then n - 1 else n) 0;
     Some (bytes_str buf)
   }"

definition next_record :: "kv \<Rightarrow> bsh \<Rightarrow> ((int \<times> kv \<times> (int \<times> byte list) option) \<times> bsh) option" where
  "next_record kv s = api ''BTSELN'' (\<lambda>e. (e, kv, None)) (btseln kv DATABUFSZ) s"

definition prev_record :: "kv \<Rightarrow> bsh \<Rightarrow> ((int \<times> kv \<times> (int \<times> byte list) option) \<times> bsh) option" where
  "prev_record kv s = api ''BTSELP'' (\<lambda>e. (e, kv, None)) (btselp kv DATABUFSZ) s"

partial_function (option) list_data_loop ::
  "(kv \<Rightarrow> bsh \<Rightarrow> ((int \<times> kv \<times> (int \<times> byte list) option) \<times> bsh) option) \<Rightarrow> int \<Rightarrow> kv \<Rightarrow> bsh \<Rightarrow>
   ((int \<times> int) \<times> bsh) option" where
  "list_data_loop step nkeys kv s = do {
     ((status, kv, out), s) \<leftarrow> step kv s;
     if status = 0 then do {
       k \<leftarrow> fst kv;
       (n, bs) \<leftarrow> out;
       d \<leftarrow> data_str n bs;
       list_data_loop step (nkeys + 1) kv
         (say (Out (''Key: '' @ quoted k @ '' - Data: '' @ quoted d)) s)
     } else Some ((status, nkeys), s)
   }"

definition list_data :: bcommand where
  "list_data c s = do { r \<leftarrow> list_data_loop next_record 0 (None, None) s; Some (listed (c_arg c) r) }"

definition list_data_prev :: bcommand where
  "list_data_prev c s = do { r \<leftarrow> list_data_loop prev_record 0 (None, None) s; Some (listed (c_arg c) r) }"

text \<open>\<open>next-data\<close> and \<open>previous-data\<close>; the format has no closing quote.\<close>

definition step_data ::
  "(kv \<Rightarrow> bsh \<Rightarrow> ((int \<times> kv \<times> (int \<times> byte list) option) \<times> bsh) option) \<Rightarrow> bcommand" where
  "step_data step c s = do {
     ((status, kv, out), s) \<leftarrow> step (None, None) s;
     if status = 0 then do {
       k \<leftarrow> fst kv;
       (n, bs) \<leftarrow> out;
       d \<leftarrow> data_str n bs;
       Some (status, say (Out (''Key: '' @ quoted k @ '' - Data: '' @ [char_of (39 :: nat)] @ d)) s)
     } else Some (status, s)
   }"

definition next_data :: bcommand where
  "next_data c s = step_data next_record c s"

definition previous_data :: bcommand where
  "previous_data c s = step_data prev_record c s"

section \<open>The table and the program\<close>

definition unknown_command :: bcommand where
  "unknown_command c s = Some (0, say (Out (''unknown command: '' @ c_cmd c @ '': type ? for help.'')) s)"

text \<open>What a call through a pointer of the table does. The one function that calls through the table
  itself is \<open>btcmd_help\<close>, and it calls \<open>unknown_command\<close> there.\<close>

definition bt_base :: "btfun \<Rightarrow> bcommand" where
  "bt_base f = (case f of
     F_noop \<Rightarrow> btcmd_noop | F_comment \<Rightarrow> btcmd_comment | F_execute \<Rightarrow> btcmd_execute
   | F_prompt \<Rightarrow> btcmd_prompt | F_system \<Rightarrow> btcmd_system | F_echo \<Rightarrow> btcmd_echo | F_error \<Rightarrow> btcmd_error
   | F_help \<Rightarrow> (\<lambda>c s. None)
   | F_buffer_create \<Rightarrow> buffer_create | F_buffer_delete \<Rightarrow> buffer_delete | F_buffer_list \<Rightarrow> buffer_list
   | F_create_file \<Rightarrow> create_file | F_open_file \<Rightarrow> open_file | F_open_file_readonly \<Rightarrow> open_file_readonly
   | F_quit \<Rightarrow> quit | F_close_file \<Rightarrow> close_file | F_find_key \<Rightarrow> find_key | F_define_key \<Rightarrow> define_key
   | F_show_debug \<Rightarrow> show_debug | F_next_key \<Rightarrow> next_key | F_list \<Rightarrow> list_cmd | F_list_keys \<Rightarrow> list_keys
   | F_prev_key \<Rightarrow> prev_key | F_list_keys_prev \<Rightarrow> list_keys_prev | F_remove_key \<Rightarrow> remove_key
   | F_remove_key_current \<Rightarrow> remove_key_current | F_define_root \<Rightarrow> define_root
   | F_change_root \<Rightarrow> change_root | F_remove_root \<Rightarrow> remove_root | F_file_list \<Rightarrow> file_list
   | F_use_file \<Rightarrow> use_file | F_define_data \<Rightarrow> define_data | F_find_data \<Rightarrow> find_data
   | F_update_data \<Rightarrow> update_data | F_update_data_current \<Rightarrow> update_data_current
   | F_remove_data \<Rightarrow> remove_data | F_remove_data_current \<Rightarrow> remove_data_current
   | F_size_data \<Rightarrow> size_data | F_list_data \<Rightarrow> list_data | F_list_data_prev \<Rightarrow> list_data_prev
   | F_next_data \<Rightarrow> next_data | F_previous_data \<Rightarrow> previous_data | F_lock_file \<Rightarrow> lock_file
   | F_unlock_file \<Rightarrow> unlock_file | F_update_value \<Rightarrow> update_value
   | F_update_value_current \<Rightarrow> update_value_current | F_wr_thresh \<Rightarrow> wr_thresh
   | F_decode_addr \<Rightarrow> decode_addr | F_dups \<Rightarrow> dups_cmd | F_pos \<Rightarrow> pos_cmd | F_chk_order \<Rightarrow> chk_order
   | F_unknown_command \<Rightarrow> unknown_command)"

definition call_bt :: "btfun \<Rightarrow> bcommand" where
  "call_bt f = (if f = F_help then btcmd_help bt_base else bt_base f)"

abbreviation entry :: "string \<Rightarrow> string \<Rightarrow> btfun \<Rightarrow> string \<Rightarrow> int \<Rightarrow> string \<Rightarrow> btfun cmdentry" where
  "entry c a f args n d \<equiv>
     \<lparr>e_cmd = c, e_abbrev = a, e_function = f, e_args = args, e_nargs = n, e_description = d\<rparr>"

definition bt_cmds :: "btfun cmdentry list" where
  "bt_cmds = [
   entry ''buffer'' ''b'' F_buffer_create ''{b n|b f}'' 2
     ''Create data buffer named b, with either n bytes, or contents of file f.'',
   entry ''buffer-delete'' ''bd'' F_buffer_delete ''b'' 1
     ''Delete data buffer named b.'',
   entry ''buffer-list'' ''bl'' F_buffer_list [] 0
     ''List defined data buffers.'',
   entry ''change-root'' ''cr'' F_change_root ''root'' 1
     ''Change to named root.'',
   entry ''check-order'' ''co'' F_chk_order ''[c] [s]'' 0
     (''Check lexicographic key ordering. c causes the number keys read to be '' @
      ''displayed.  s qualifier positions before first key prior to checking key order.''),
   entry ''close'' ''x'' F_close_file [] 0
     ''Close current index file.'',
   entry ''comment'' ''#'' F_comment ''string'' 0
     ''Following text will be ignored.'',
   entry ''create'' ''c'' F_create_file ''file [s]'' 0
     ''Create index file. s qualifier indicates shared mode.'',
   entry ''decode-address'' ''da'' F_decode_addr ''key [i]'' 0
     (''Print decoded data segment address for key. i qualifier indicates key is a '' @
      ''segment address and should be decoded immediately.''),
   entry ''define'' ''d'' F_define_key ''key [val]'' 0
     ''Define key with associated value.'',
   entry ''define-data'' ''dd'' F_define_data ''key {s|*b}'' 2
     (''Define key with data.  Specify string s or use *b to refer to previously '' @
      ''defined data buffer.''),
   entry ''define-root'' ''dr'' F_define_root ''root'' 1
     ''Define new root.'',
   entry ''dups'' ''dp'' F_dups ''[on|off]'' 0
     ''Set/unset duplicate key support on current root.'',
   entry ''echo'' ''ec'' F_echo ''[on|off]'' 0
     ''Echo commands when on and reading from file.'',
   entry ''error'' ''er'' F_error ''[on|off]'' 0
     ''Stop processing command files on error.'',
   entry ''execute'' ''e'' F_execute ''filename'' 1
     ''Commence reading commands from file. execute commands may be nested.'',
   entry ''find'' ''f'' F_find_key ''[key]'' 0
     (''Find key.  If found returns key and value. If key is omitted, will position '' @
      ''before first key in index file.''),
   entry ''find-data'' ''fd'' F_find_data ''key [d]'' 0
     ''Find key with data. Use d qualifier to display entire data record.'',
   entry ''file-list'' ''fl'' F_file_list [] 0
     ''List open index files.'',
   entry ''help'' ''?'' F_help ''[cmd]'' 0
     ''Provide help on all supported commands,or just cmd if present.'',
   entry ''list'' ''l'' F_list ''[c]'' 0
     (''List all keys and values following last find operation.  c causes count of keys '' @
      ''to be displayed.''),
   entry ''list-data'' ''ld'' F_list_data ''[c]'' 0
     ''List all keys and data following last find operation.'',
   entry ''list-data-prev'' ''ldp'' F_list_data_prev [] 0
     ''List all keys and data prior to key returned by last find operation.'',
   entry ''list-keys'' ''lk'' F_list_keys ''[c]'' 0
     (''List all keys (no data values) following last find operation.  c causes count '' @
      ''of keys to be displayed.''),
   entry ''list-prev'' ''lp'' F_list_keys_prev ''[c]'' 0
     (''List all keys prior to key of last find operation.  c causes count of keys to '' @
      ''be displayed.''),
   entry ''lock'' ''lk'' F_lock_file [] 0
     ''Lock current index file.'',
   entry ''next'' ''n'' F_next_key [] 0
     ''Display next key and value.'',
   entry ''next-data'' ''nd'' F_next_data [] 0
     ''Display next key and associated data.'',
   entry ''open'' ''o'' F_open_file ''file [s]'' 0
     ''Open existing index file.  s qualifier indicates shared mode.'',
   entry ''open-readonly'' ''or'' F_open_file_readonly ''file [s]'' 0
     ''Open existing index file in read-only mode.  s qualifier indicates shared.'',
   entry ''position'' ''pos'' F_pos ''{s|e}'' 1
     ''Position current root.  s positions prior to first key; e after last key.'',
   entry ''previous'' ''prv'' F_prev_key [] 0
     ''Display previous key and value.'',
   entry ''previous-data'' ''pd'' F_previous_data [] 0
     ''Display previous key and associated data.'',
   entry ''prompt'' ''p'' F_prompt [] 0
     ''Toggle prompting before reading command.'',
   entry ''quit'' ''q'' F_quit ''[x]'' 0
     ''Quit bt program.  If x arg specified, terminate without closing open index files.'',
   entry ''remove'' ''r'' F_remove_key ''key'' 1
     ''Remove key.'',
   entry ''remove-cur'' ''rc'' F_remove_key_current [] 0
     ''Remove key at current index postion.'',
   entry ''remove-data'' ''rd'' F_remove_data ''key'' 1
     ''Remove key and associated data.'',
   entry ''remove-data-cur'' ''rdc'' F_remove_data_current [] 0
     ''Remove current key from context, and associated data.'',
   entry ''remove-root'' ''rr'' F_remove_root ''root'' 1
     ''Remove root.'',
   entry ''show'' ''s'' F_show_debug ''arg'' 0
     ''Show debug info. arg one of control,super,stats,space,stack,structure [v], block n.'',
   entry ''size-data'' ''sd'' F_size_data ''[key]'' 0
     (''Display size of data record for key. If key omitted, returns data record size '' @
      ''for current key in context.''),
   entry ''system'' ''!'' F_system ''string'' 0
     ''Run shell command.'',
   entry ''unlock'' ''ulk'' F_unlock_file [] 0
     ''Unlock current index file.'',
   entry ''update-data'' ''ud'' F_update_data ''key [s|*b]'' 0
     (''Update data associated with key using string s or contents of data buffer *b.  '' @
      ''If both omitted, update uses zero-length string.''),
   entry ''update-data-cur'' ''udc'' F_update_data_current ''{s|*b}'' 1
     (''Update data associated with current key in context, using string s or contents '' @
      ''of data buffer *b.''),
   entry ''update-value'' ''uv'' F_update_value ''key val'' 2
     ''Update value of key to val.'',
   entry ''update-value-cur'' ''uvc'' F_update_value_current ''val'' 1
     ''Update value of current key in context to val.'',
   entry ''use-file'' ''u'' F_use_file ''[file]'' 0
     ''Make file current in-use index file.'',
   entry ''write-threshold'' ''wt'' F_wr_thresh ''n'' 1
     ''Set write threshold for current index file as n.'',
   entry [] [] F_unknown_command [] 0
     ''Unknown command found'']"

section \<open>Errors and the main program\<close>

definition report_error :: "int \<Rightarrow> bsh \<Rightarrow> bsh option" where
  "report_error i s =
     (if suppress_error_msg (app s) then Some (upd_app (\<lambda>a. a\<lparr>suppress_error_msg := False\<rparr>) s)
      else do {
        ((status, ioerr, name, msg), g) \<leftarrow>
          btcerr (sys_msg (app s)) (bta.extend null_bta (glob (ses (app s))));
        let s = upd_app (\<lambda>a. a\<lparr>ses := (ses a)\<lparr>glob := bta.more g\<rparr>\<rparr>) s;
        Some (if status \<noteq> 0 then say (Out (''('' @ name @ '') ['' @ itostr status @ ''] '' @ msg)) s else s)
      })"

text \<open>The exit status: true is \<open>EXIT_SUCCESS\<close>.\<close>

definition bt_main :: "bsh \<Rightarrow> (bool \<times> bsh) option" where
  "bt_main s = do {
     let (e, ss) = btinit (ses (app s));
     let s = upd_app (\<lambda>a. a\<lparr>ses := ss\<rparr>) s;
     if e \<noteq> 0 then do { s \<leftarrow> report_error 0 s; Some (False, s) }
     else do {
       (quit_type, s) \<leftarrow> btcmd call_bt ''bt: '' bt_cmds report_error s;
       if quit_type = NORMAL_QUIT then shutdown s else Some (True, s)
     }
   }"

text \<open>The loops, for evaluation.\<close>

declare list_loop.simps [code] and
  chk_loop.simps [code] and
  list_data_loop.simps [code]

section \<open>What the words of a line reach\<close>

text \<open>The entry that the search stops at, for a word at the start of the line.\<close>

definition takes :: "string \<Rightarrow> btfun cmdentry \<Rightarrow> bool" where
  "takes w e \<longleftrightarrow> STREMP (e_cmd e) \<or> special_cmd e w \<or> w = e_cmd e \<or> w = e_abbrev e"

definition plain_word :: "string \<Rightarrow> bool" where
  "plain_word w \<longleftrightarrow> w \<noteq> [] \<and> length w < MAXBUFSZ \<and> (\<forall>c \<in> set w. \<not> is_blank c \<and> c \<noteq> char_of (10 :: nat))"

lemma special_cmd_hd: "w \<noteq> [] \<Longrightarrow> special_cmd e (w @ r) = special_cmd e w"
  by (auto simp: special_cmd_def split: list.splits)

lemma find_loop_takes:
  assumes "plain_word w" "c_cmd b = w" "find (takes w) cmds = Some e"
    and "\<And>e. e \<in> set cmds \<Longrightarrow> length (e_cmd e) < MAXBUFSZ \<and> length (e_abbrev e) < MAXBUFSZ"
  shows "\<exists>b'. find_loop (w @ r) w b cmds = Some b' \<and> c_function b' = Some (e_function e)"
  using assms(3,4)
proof (induction cmds)
  case (Cons f fs)
  have l: "strncmp_eq MAXBUFSZ w (e_cmd f) = (w = e_cmd f)" "strncmp_eq MAXBUFSZ w (e_abbrev f) = (w = e_abbrev f)"
    using Cons.prems(2) [of f] assms(1) by (simp_all add: strncmp_eq_def plain_word_def)
  have n: "w \<noteq> []" using assms(1) by (simp add: plain_word_def)
  show ?case
    using Cons n assms(2) by (auto simp: takes_def l special_cmd_hd STREMP_def split: if_splits)
qed simp

lemma find_cmd_takes:
  assumes w: "plain_word w" and r: "r = [] \<or> hd r = CHR '' '' \<or> hd r = char_of (10 :: nat)"
    and len: "length (w @ r) < MAXBUFSZ" and e: "find (takes w) cmds = Some e"
    and t: "\<And>e. e \<in> set cmds \<Longrightarrow> length (e_cmd e) < MAXBUFSZ \<and> length (e_abbrev e) < MAXBUFSZ"
  shows "\<exists>b. find_cmd (w @ r) cmds = Some b \<and> c_function b = Some (e_function e)"
proof -
  have n: "w \<noteq> []" and b: "\<not> is_blank (hd w)" and nb: "\<forall>c \<in> set w. \<not> is_blank c \<and> c \<noteq> char_of (10 :: nat)"
    using w by (auto simp: plain_word_def)
  have cp: "non_ws (w @ r) = w @ r" using n b by (cases w) (auto simp: non_ws_def)
  have "set w \<inter> set ('' '' @ newline) = {}" using nb by (auto simp: newline_def is_blank_def)
  then have "strtok ('' '' @ newline) (take MAXBUFSZ (w @ r)) = Some (w, drop 1 r)"
    using strtok_first [of w "'' '' @ newline" r] n r len by (auto simp: newline_def)
  then have "fst (snd (tokenise (w @ r))) = w" by (simp add: tokenise_def split: option.splits)
  then obtain nargs arg qual all where k: "tokenise (w @ r) = (nargs, w, arg, qual, all)"
    by (cases "tokenise (w @ r)") auto
  show ?thesis
    unfolding find_cmd_def Let_def cp k prod.case by (rule find_loop_takes [OF w _ e t]) auto
qed

text \<open>Every command is reached by its name, and by its abbreviation, but for \<open>lock\<close>, whose
  abbreviation comes second.\<close>

fun takes_pair :: "string \<Rightarrow> string \<times> string \<Rightarrow> bool" where
  "takes_pair w (c, a) =
     (c = [] \<or> (case a of [x] \<Rightarrow> (of_char x < (65 :: nat) \<or> 128 \<le> (of_char x :: nat)) \<and> hd w = x | _ \<Rightarrow> False) \<or>
      w = c \<or> w = a)"

definition first_at :: "string \<Rightarrow> (string \<times> string) list \<Rightarrow> nat" where
  "first_at w ws = length (takeWhile (\<lambda>p. \<not> takes_pair w p) ws)"

lemma bt_cmds_words:
  "map (\<lambda>e. (e_cmd e, e_abbrev e)) bt_cmds =
    [(''buffer'', ''b''), (''buffer-delete'', ''bd''), (''buffer-list'', ''bl''),
     (''change-root'', ''cr''), (''check-order'', ''co''), (''close'', ''x''),
     (''comment'', ''#''), (''create'', ''c''), (''decode-address'', ''da''),
     (''define'', ''d''), (''define-data'', ''dd''), (''define-root'', ''dr''),
     (''dups'', ''dp''), (''echo'', ''ec''), (''error'', ''er''),
     (''execute'', ''e''), (''find'', ''f''), (''find-data'', ''fd''),
     (''file-list'', ''fl''), (''help'', ''?''), (''list'', ''l''),
     (''list-data'', ''ld''), (''list-data-prev'', ''ldp''), (''list-keys'', ''lk''),
     (''list-prev'', ''lp''), (''lock'', ''lk''), (''next'', ''n''),
     (''next-data'', ''nd''), (''open'', ''o''), (''open-readonly'', ''or''),
     (''position'', ''pos''), (''previous'', ''prv''), (''previous-data'', ''pd''),
     (''prompt'', ''p''), (''quit'', ''q''), (''remove'', ''r''),
     (''remove-cur'', ''rc''), (''remove-data'', ''rd''), (''remove-data-cur'', ''rdc''),
     (''remove-root'', ''rr''), (''show'', ''s''), (''size-data'', ''sd''),
     (''system'', ''!''), (''unlock'', ''ulk''), (''update-data'', ''ud''),
     (''update-data-cur'', ''udc''), (''update-value'', ''uv''), (''update-value-cur'', ''uvc''),
     (''use-file'', ''u''), (''write-threshold'', ''wt''), ([], [])]"
  by (simp add: bt_cmds_def)

lemma words_first:
  "(\<lambda>ws. list_all (\<lambda>(i, c, a). first_at c ws = i \<and> (a \<noteq> ''lk'' \<longrightarrow> first_at a ws = i)) (enumerate 0 (butlast ws)))
    (map (\<lambda>e. (e_cmd e, e_abbrev e)) bt_cmds)"
  unfolding bt_cmds_words by code_simp

lemma words_plain:
  "(\<lambda>ws. list_all (\<lambda>(c, a). plain_word c \<and> plain_word a \<and> c \<noteq> []) (butlast ws) \<and>
     list_all (\<lambda>(c, a). length c < MAXBUFSZ \<and> length a < MAXBUFSZ) ws \<and> length ws = 51)
    (map (\<lambda>e. (e_cmd e, e_abbrev e)) bt_cmds)"
  unfolding bt_cmds_words by code_simp

lemma find_first_at:
  assumes "w \<noteq> []" "i < length es" "first_at w (map (\<lambda>e. (e_cmd e, e_abbrev e)) es) = i"
  shows "find (takes w) es = Some (es ! i)"
proof -
  have t: "takes w e = takes_pair w (e_cmd e, e_abbrev e)" for e
    using assms(1) by (auto simp: takes_def special_cmd_def STREMP_def split: list.splits)
  have "length (takeWhile (\<lambda>e. \<not> takes w e) es) = i"
    using assms(3) by (simp add: first_at_def takeWhile_map o_def t)
  moreover from this have "takes w (es ! i)" using assms(2) nth_length_takeWhile [of "\<lambda>e. \<not> takes w e" es] by auto
  ultimately show ?thesis
    using assms(2) by (auto simp: find_Some_iff intro!: exI [of _ i] dest: nth_mem takeWhile_nth set_takeWhileD)
      (metis nth_mem set_takeWhileD takeWhile_nth)
qed

text \<open>The words of an entry lead to it.\<close>

lemma bt_cmds_reached:
  assumes e: "e \<in> set bt_cmds" "e_cmd e \<noteq> []" and w: "w = e_cmd e \<or> w = e_abbrev e \<and> w \<noteq> ''lk''"
  shows "plain_word w \<and> find (takes w) bt_cmds = Some e"
proof -
  let ?ws = "map (\<lambda>e. (e_cmd e, e_abbrev e)) bt_cmds"
  have n: "length bt_cmds = 51" using words_plain by simp
  obtain i where i: "i < 51" "bt_cmds ! i = e" using e(1) n by (auto simp: in_set_conv_nth)
  have "last ?ws = ([], [])" unfolding bt_cmds_words by simp
  then have "?ws ! 50 = ([], [])" using n by (subst (asm) last_conv_nth) auto
  then have "i \<noteq> 50" using i e(2) n by auto
  then have i50: "i < 50" using i(1) by simp
  have b: "butlast ?ws ! i = (e_cmd e, e_abbrev e)" using i50 i(2) n by (simp add: nth_butlast)
  have "(e_cmd e, e_abbrev e) \<in> set (butlast ?ws)"
    unfolding b [symmetric] using i50 n by (intro nth_mem) simp
  then have p: "plain_word (e_cmd e)" "plain_word (e_abbrev e)" using words_plain by (auto simp: list_all_iff)
  have "(i, e_cmd e, e_abbrev e) \<in> set (enumerate 0 (butlast ?ws))"
    using b i50 n by (force simp: in_set_enumerate_eq)
  then have "first_at (e_cmd e) ?ws = i" "e_abbrev e \<noteq> ''lk'' \<longrightarrow> first_at (e_abbrev e) ?ws = i"
    using words_first by (auto simp: list_all_iff)
  then show ?thesis
    using w p i n find_first_at [of w i bt_cmds] by (auto simp: plain_word_def)
qed

text \<open>The word that two entries have: the first of them wins.\<close>

lemma lk_lists_keys: "map_option c_function (find_cmd (''lk'' @ newline) bt_cmds) = Some (Some F_list_keys)"
  by code_simp

end
