(* ===== verification/Listing.thy ===== *)
theory Listing
  imports Shell Scan Create
begin

text \<open>
  The commands of the test harness on an index that is in use: \<open>find\<close>, \<open>define\<close>, \<open>list\<close> and
  \<open>check-order\<close> over the interface of an index (\<open>serves\<close>, \<open>scanning\<close>).
\<close>

section \<open>The index in use\<close>

definition in_use :: "(st \<Rightarrow> bool) \<Rightarrow> bsh \<Rightarrow> bool" where
  "in_use Q s \<longleftrightarrow> (\<exists>b st. btp (app s) = Some b \<and> b < int ZMXACT \<and> activate b (ses (app s)) = Some st \<and> Q st)"

text \<open>A call of the library changes the session, and nothing else of the program.\<close>

definition library_only :: "bsh \<Rightarrow> bsh \<Rightarrow> bool" where
  "library_only s s' \<longleftrightarrow> s' = upd_app (\<lambda>a. a\<lparr>ses := ses (app s')\<rparr>) s"

lemma library_only_fields:
  "library_only s s' \<Longrightarrow> term_out s' = term_out s \<and> suppress_error_msg (app s') = suppress_error_msg (app s) \<and>
     phead (app s') = phead (app s) \<and> bhead (app s') = bhead (app s)"
proof -
  assume "library_only s s'"
  then have e: "s' = upd_app (\<lambda>a. a\<lparr>ses := ses (app s')\<rparr>) s" by (simp add: library_only_def)
  have a: "app s' = (app s)\<lparr>ses := ses (app s')\<rparr>" using arg_cong [OF e, of app] by simp
  show ?thesis
    using arg_cong [OF e, of term_out] arg_cong [OF a, of suppress_error_msg] arg_cong [OF a, of phead]
      arg_cong [OF a, of bhead] by simp
qed

lemma in_use_mono: "in_use P s \<Longrightarrow> (\<And>st. P st \<Longrightarrow> Q st) \<Longrightarrow> in_use Q s"
  by (auto simp: in_use_def)

lemma in_use_say [simp]: "in_use Q (say l s) = in_use Q s" "in_use Q (says ls s) = in_use Q s"
  by (simp_all add: in_use_def say_def says_def)

lemma term_say [simp]: "term_out (say l s) = term_out s @ [l]" "app (say l s) = app s"
  by (simp_all add: say_def)

lemma api_runs:
  assumes u: "in_use Q s" and f: "\<And>st. Q st \<Longrightarrow> runs (f st) (\<lambda>(r, st'). P r st')"
  shows "runs (api fn bad f s) (\<lambda>(r, s'). in_use (P r) s' \<and> library_only s s')"
proof -
  obtain b st where b: "btp (app s) = Some b" "b < int ZMXACT" "activate b (ses (app s)) = Some st" "Q st"
    using u by (auto simp: in_use_def)
  have "0 \<le> b" using b(3) by (auto simp: activate_def arr_get_def split: if_splits)
  have "runs (in_slot b f (ses (app s))) (\<lambda>(r, ss'). \<exists>st'. P r st' \<and> activate b ss' = Some st')"
    by (rule runs_conseq [OF in_slot_runs [of b "ses (app s)" st f, OF b(3) f [OF b(4)]]]) auto
  then show ?thesis
    using b(1,2) \<open>0 \<le> b\<close>
    by (auto simp: api_def bt_api_def handle_def runs_bind in_use_def library_only_def intro: runs_conseq)
qed

section \<open>Walking in the harness\<close>

lemma take_mono_list: "xs \<le> ys \<Longrightarrow> take n xs \<le> take n (ys :: 'a :: linorder list)"
proof (induction n arbitrary: xs ys)
  case (Suc n)
  then show ?case by (cases xs; cases ys) auto
qed simp

lemma next_step_runs:
  assumes "in_use (\<lambda>st. scanning md cur M st (e # es)) s"
  shows "runs (next_step kv s) (\<lambda>((c, kv'), s'). c = 0 \<and> kv' = shown e \<and>
           in_use (\<lambda>st. scanning md cur M st es) s' \<and> library_only s s')"
proof -
  have "runs (bnxtky kv st) (\<lambda>(r, st'). fst r = 0 \<and> snd r = shown e \<and> scanning md cur M st' es)"
    if "scanning md cur M st (e # es)" for st
    by (rule runs_conseq [OF bcur.nxt_some [OF that]]) auto
  from api_runs [OF assms this] show ?thesis
    unfolding next_step_def by (rule runs_conseq) (auto simp: in_use_def)
qed

lemma next_step_end:
  assumes "in_use (\<lambda>st. scanning md cur M st []) s"
  shows "runs (next_step kv s) (\<lambda>((c, kv'), s'). c = QNOKEY \<and> kv' = kv \<and>
           in_use (\<lambda>st. scanning md cur M st []) s' \<and> library_only s s')"
proof -
  have "runs (bnxtky kv st) (\<lambda>(r, st'). fst r = QNOKEY \<and> snd r = kv \<and> scanning md cur M st' [])"
    if "scanning md cur M st []" for st
    by (rule runs_conseq [OF bcur.nxt_none [OF that]]) auto
  from api_runs [OF assms this] show ?thesis
    unfolding next_step_def by (rule runs_conseq) (auto simp: in_use_def)
qed

text \<open>The walk of the harness is a cursor too; it prints nothing by itself.\<close>

definition walking :: "int \<Rightarrow> string \<Rightarrow> (string \<Rightarrow> keyent list option) \<Rightarrow> outp list \<Rightarrow> bsh \<Rightarrow> keyent list \<Rightarrow> bool" where
  "walking md cur M T s es \<longleftrightarrow>
     in_use (\<lambda>st. scanning md cur M st es) s \<and> term_out s = T \<and> \<not> suppress_error_msg (app s)"

interpretation shcur: cursor "walking md cur M T" next_step shown QNOKEY for md cur M T
proof
  show "QNOKEY \<noteq> 0" by (simp add: QNOKEY_def)
  show "runs (next_step kv s) (\<lambda>((c, kv'), s'). c = 0 \<and> kv' = shown e \<and> walking md cur M T s' es)"
    if "walking md cur M T s (e # es)" for s e es kv
    by (rule runs_conseq [OF next_step_runs [of md cur M e es s kv]])
      (use that in \<open>auto simp: walking_def dest: library_only_fields\<close>)
  show "runs (next_step kv s) (\<lambda>((c, kv'), s'). c = QNOKEY \<and> kv' = kv \<and> walking md cur M T s' [])"
    if "walking md cur M T s []" for s kv
    by (rule runs_conseq [OF next_step_end [of md cur M s kv]])
      (use that in \<open>auto simp: walking_def dest: library_only_fields\<close>)
qed

lemma walking_say: "walking md cur M T s es \<Longrightarrow> walking md cur M (T @ [l]) (say l s) es"
  by (simp add: walking_def)

abbreviation key_of :: "keyent \<Rightarrow> string" where
  "key_of e \<equiv> strncpy_term ZKYLEN (ke_key e)"

lemma list_loop_runs:
  "walking md cur M T s es \<Longrightarrow> runs (list_loop next_step line n kv s) (\<lambda>((c, n'), s').
     c = QNOKEY \<and> n' = n + int (length es) \<and>
     walking md cur M (T @ map (\<lambda>e. line (key_of e) (ke_val e)) es) s' [])"
proof (induction es arbitrary: s T n kv)
  case Nil
  then show ?case
    by (subst list_loop.simps) (auto simp: runs_bind QNOKEY_def intro: runs_conseq [OF shcur.nxt_none])
next
  case (Cons e es)
  show ?case
  proof (subst list_loop.simps, rule runs_bindI [OF shcur.nxt_some [OF Cons.prems]],
      simp only: split_paired_all prod.case, elim conjE, goal_cases)
    case (1 c k v s')
    show ?case
      using 1 Cons.IH [OF walking_say [OF 1(3)], of "n + 1" "(k, v)" "line (key_of e) (ke_val e)"]
      by (auto simp: shown_def algebra_simps)
  qed
qed

text \<open>The check of the order compares neighbours only, so what it needs is that no key is below the
  one before it.\<close>

lemma chk_loop_runs:
  "walking md cur M T s es \<Longrightarrow> sorted (last_key # map key_of es) \<Longrightarrow>
     runs (chk_loop last_key n kv s) (\<lambda>((c, n'), s').
       c = QNOKEY \<and> n' = n + int (length es) \<and> walking md cur M T s' [])"
proof (induction es arbitrary: s last_key n kv)
  case Nil
  then show ?case
    by (subst chk_loop.simps) (auto simp: runs_bind QNOKEY_def intro: runs_conseq [OF shcur.nxt_none])
next
  case (Cons e es)
  have le: "\<not> strcmp last_key (key_of e) > 0" using Cons.prems(2) strcmp_cases by (auto simp: not_less)
  show ?case
  proof (subst chk_loop.simps, rule runs_bindI [OF shcur.nxt_some [OF Cons.prems(1)]],
      simp only: split_paired_all prod.case, elim conjE, goal_cases)
    case (1 c k v s')
    have idem: "strncpy_term ZKYLEN (key_of e) = key_of e" by (simp add: strncpy_term_def)
    show ?case
      using 1 Cons.IH [OF 1(3), of "key_of e" "n + 1" "(k, v)"] Cons.prems(2) le
      by (auto simp: shown_def idem algebra_simps)
  qed
qed

lemma sorted_key_of:
  assumes "sorted_keys es"
  shows "sorted ([] # map key_of es)"
proof -
  have "sorted_wrt (\<lambda>a b. key_of a \<le> key_of b) es"
    using assms unfolding sorted_keys_def sorted_wrt_map
    by (rule sorted_wrt_mono_rel [rotated]) (simp add: strncpy_term_def take_mono_list)
  then show ?thesis by (simp add: sorted_wrt_map)
qed

section \<open>The commands\<close>

lemma pos_start_runs:
  assumes u: "in_use (serves md cur M) s" and es: "M cur = Some es"
  shows "runs (api_int ''BTPOS'' (btpos ZSTART) s) (\<lambda>(e, s'). e = 0 \<and> library_only s s' \<and>
           in_use (\<lambda>st. scanning md cur M st es) s')"
proof -
  have f: "runs (btpos ZSTART st) (\<lambda>(e, st'). e = 0 \<and> scanning md cur M st' es)" if "serves md cur M st" for st
    using scanning_start [OF that es] .
  show ?thesis by (rule runs_conseq [OF api_runs [OF u f]]) (auto simp: in_use_def)
qed

lemma in_use_scanning: "in_use (\<lambda>st. scanning md cur M st es) s \<Longrightarrow> in_use (serves md cur M) s"
  by (erule in_use_mono) (rule scanning_serves)

text \<open>\<open>position s\<close> and \<open>list c\<close>.\<close>

lemma list_after_start:
  assumes u: "in_use (serves md cur M) s" "M cur = Some es" and n: "\<not> suppress_error_msg (app s)"
    and c: "c_arg c = ''s''" "c_arg c' = ''c''"
  shows "runs (do { (e, s) \<leftarrow> pos_cmd c s; list_cmd c' s }) (\<lambda>(e, s'). e = 0 \<and> in_use (serves md cur M) s' \<and>
    term_out s' = term_out s @ map (\<lambda>e. key_line (key_of e) (ke_val e)) es @
      [Out (itostr (int (length es)) @ '' keys listed'')])"
proof -
  have p: "pos_cmd c s = api_int ''BTPOS'' (btpos ZSTART) s" by (simp add: pos_cmd_def c)
  show ?thesis
    unfolding p
  proof (rule runs_bindI [OF pos_start_runs [OF u]], simp only: split_paired_all prod.case, elim conjE, goal_cases)
    case (1 e s1)
    then have "walking md cur M (term_out s) s1 es" using n by (simp add: walking_def library_only_fields)
    from list_loop_runs [OF this, of key_line 0 "(None, None)"] show ?case
      by (auto simp: list_cmd_def runs_bind listed_def c Let_def walking_def elim!: runs_conseq intro: in_use_scanning)
  qed
qed

text \<open>\<open>check-order s c\<close> finds an index in order.\<close>

lemma check_order_clean:
  assumes u: "in_use (serves md cur M) s" "M cur = Some es" and n: "\<not> suppress_error_msg (app s)"
    and c: "c_arg c = ''s''" "c_qualifier c = ''c''"
  shows "runs (chk_order c s) (\<lambda>(e, s'). e = 0 \<and> in_use (serves md cur M) s' \<and> \<not> suppress_error_msg (app s') \<and>
    term_out s' = term_out s @ [Out (itostr (int (length es)) @ '' keys checked'')])"
proof -
  obtain es' where "M cur = Some es'" "sorted_keys es'"
  proof -
    obtain st where "serves md cur M st" using u(1) by (auto simp: in_use_def)
    then show ?thesis using that serves_current by blast
  qed
  then have so: "sorted_keys es" using u(2) by simp
  have q: "strncmp_eq 1 (c_qualifier c) ''s'' = False" "strncmp_eq 1 (c_arg c) ''s'' = True"
    "strncmp_eq 1 (c_arg c) ''c'' = False" "strncmp_eq 1 (c_qualifier c) ''c'' = True"
    by (simp_all add: strncmp_eq_def c)
  have "runs (do { (e, s1) \<leftarrow> api_int ''BTPOS'' (btpos ZSTART) s; chk_loop [] 0 (None, None) s1 })
      (\<lambda>((st, n), s1). st = QNOKEY \<and> n = int (length es) \<and> walking md cur M (term_out s) s1 [])"
  proof (rule runs_bindI [OF pos_start_runs [OF u]], simp only: split_paired_all prod.case, elim conjE, goal_cases)
    case (1 e s1)
    then have "walking md cur M (term_out s) s1 es" using n by (simp add: walking_def library_only_fields)
    from chk_loop_runs [OF this sorted_key_of [OF so], of 0 "(None, None)"] show ?case
      by (auto elim!: runs_conseq)
  qed
  then show ?thesis
    unfolding chk_order_def q simp_thms if_True
    using in_use_scanning [of md cur M "[]"]
    by (auto simp: runs_bind walking_def Let_def elim!: runs_conseq)
qed

end
