(* ===== verification/Copy.thy ===== *)
theory Copy
  imports Session Console
begin

text \<open>
  The programs that use the library as any application does: \<open>samples/btcopy.c\<close> copies the current
  root of an index key by key, \<open>src-main/kcp.c\<close> copies all roots with their data records, and the stress
  drivers \<open>src-main/bigt.c\<close> and \<open>src-main/bigtdel.c\<close> fill and empty an index. The arguments are those
  after the program name; the interrupt handler of the drivers is left out.
\<close>

section \<open>The environment of a program\<close>

text \<open>\<open>p_mem n\<close> is the memory that \<open>malloc(n)\<close> returns, \<open>p_os i\<close> what the \<open>i\<close>-th index file to be opened
  gets (see \<open>bacini\<close>), \<open>p_msg\<close> is \<open>strerror\<close>.\<close>

record progenv =
  p_mem :: "int \<Rightarrow> byte list option"
  p_os :: "nat \<Rightarrow> bta option"
  p_msg :: "int \<Rightarrow> string"

definition print_bterror :: "progenv \<Rightarrow> string \<Rightarrow> sess \<Rightarrow> (outp list \<times> sess) option" where
  "print_bterror env prog ss = do {
     ((e, ioerr, fname, msg), g) \<leftarrow> btcerr (p_msg env) (bta.extend null_bta (glob ss));
     Some ([Err (prog @ '': btree error ('' @ itostr e @ '') ['' @ fname @ ''] - '' @ msg)],
           ss\<lparr>glob := bta.more g\<rparr>)
   }"

section \<open>btcopy\<close>

text \<open>The loop \<open>while (bnxtky(b1,key,&i) == 0) binsky(b2,key,i)\<close>; the list collects the status of each
  \<open>binsky\<close>, which the code ignores.\<close>

partial_function (option) btcopy_loop :: "int \<Rightarrow> int \<Rightarrow> kv \<Rightarrow> int list \<Rightarrow> sess \<Rightarrow> (int list \<times> sess) option" where
  "btcopy_loop b1 b2 kv es ss = do {
     ((e, kv), ss) \<leftarrow> bt_api ''BNXTKY'' (\<lambda>e. (e, kv)) (bnxtky kv) b1 ss;
     if e = 0 then do {
       k \<leftarrow> fst kv;
       i \<leftarrow> snd kv;
       (e, ss) \<leftarrow> bt_call ''BINSKY'' (binsky k i) b2 ss;
       btcopy_loop b1 b2 kv (es @ [e]) ss
     } else Some (es, ss)
   }"

text \<open>The part between the two opens and the return; the result is the list of ignored statuses.\<close>

definition btcopy_body :: "progenv \<Rightarrow> string \<Rightarrow> string \<Rightarrow> sess \<Rightarrow> ((int list \<times> outp list) \<times> sess) option" where
  "btcopy_body env old new ss = do {
     (b1, ss) \<leftarrow> btopn (p_os env 0) old 0 False ss;
     case b1 of
       None \<Rightarrow> Some (([], []), ss)
     | Some b1 \<Rightarrow> do {
         (b2, ss) \<leftarrow> btcrt (p_os env 1) new 0 False ss;
         (r, ss) \<leftarrow>
           (case b2 of
              None \<Rightarrow> Some (([], []), ss)
            | Some b2 \<Rightarrow> do {
                (e, ss) \<leftarrow> bt_call ''BTPOS'' (btpos ZSTART) b1 ss;
                (es, ss) \<leftarrow> btcopy_loop b1 b2 (None, None) [] ss;
                (e, ss) \<leftarrow> btcls b2 ss;
                Some ((es, [Out ''..copying'']), ss)
              });
         (e, ss) \<leftarrow> btcls b1 ss;
         Some (r, ss)
       }
   }"

definition btcopy_main :: "progenv \<Rightarrow> string list \<Rightarrow> sess \<Rightarrow> ((int \<times> int list \<times> outp list) \<times> sess) option" where
  "btcopy_main env args ss =
     (case args of
        [old, new] \<Rightarrow> do {
          let (e, ss) = btinit ss;
          ((es, out), ss) \<leftarrow> btcopy_body env old new ss;
          Some ((0, es, out), ss)
        }
      | _ \<Rightarrow> Some ((1, [], [Err ''btcopy: usage: btcopy old_file new_file'']), ss))"

section \<open>kcp\<close>

definition SUPER :: string where "SUPER = ''$$super''"

text \<open>\<open>kalloc\<close> tests the address of the pointer, so a failing \<open>malloc\<close> goes unnoticed and the program
  goes on with NULL: \<open>None\<close>.\<close>

definition kalloc :: "progenv \<Rightarrow> int \<Rightarrow> unit option" where
  "kalloc env n = map_option (\<lambda>m. ()) (p_mem env n)"

text \<open>The loop \<open>while (bufsiz == rsiz)\<close>: the status of a \<open>btsel\<close> that failed, or the record; with the
  size of the buffer, which is static.\<close>

partial_function (option) grow_loop ::
  "progenv \<Rightarrow> int \<Rightarrow> string \<Rightarrow> int \<Rightarrow> int \<times> byte list \<Rightarrow> sess \<Rightarrow> ((int \<times> int \<times> int \<times> byte list) \<times> sess) option" where
  "grow_loop env inn key bufsiz r ss =
     (if bufsiz = fst r then do {
        let bufsiz = bufsiz + bufsiz;
        u \<leftarrow> kalloc env bufsiz;
        ((status, out), ss) \<leftarrow> bt_api ''BTSEL'' (\<lambda>e. (e, None)) (btsel key bufsiz) inn ss;
        if status \<noteq> 0 then Some ((status, bufsiz, r), ss)
        else do { r \<leftarrow> out; grow_loop env inn key bufsiz r ss }
      } else Some ((0, bufsiz, r), ss))"

partial_function (option) copyroot_loop ::
  "progenv \<Rightarrow> int \<Rightarrow> int \<Rightarrow> kv \<Rightarrow> int \<Rightarrow> sess \<Rightarrow> ((int \<times> int) \<times> sess) option" where
  "copyroot_loop env inn out kv bufsiz ss = do {
     ((status, kv, r), ss) \<leftarrow> bt_api ''BTSELN'' (\<lambda>e. (e, kv, None)) (btseln kv bufsiz) inn ss;
     if status \<noteq> 0 then Some ((if status = QNOKEY then 0 else status, bufsiz), ss)
     else do {
       key \<leftarrow> fst kv;
       r \<leftarrow> r;
       ((status, bufsiz, r), ss) \<leftarrow> grow_loop env inn key bufsiz r ss;
       if status \<noteq> 0 then Some ((status, bufsiz), ss)
       else do {
         (status, ss) \<leftarrow> bt_call ''BTINS'' (btins key (if fst r < 0 then None else Some (take (nat (fst r)) (snd r)))) out ss;
         if status = 0 then copyroot_loop env inn out kv bufsiz ss
         else Some ((if status = QNOKEY then 0 else status, bufsiz), ss)
       }
     }
   }"

text \<open>\<open>copyroot\<close>: the buffer is \<open>None\<close> before the first call allocates it.\<close>

definition copyroot ::
  "progenv \<Rightarrow> int \<Rightarrow> int \<Rightarrow> string \<Rightarrow> int option \<Rightarrow> sess \<Rightarrow> ((int \<times> int option) \<times> sess) option" where
  "copyroot env inn out rootname buf ss = do {
     bufsiz \<leftarrow> (case buf of None \<Rightarrow> do { u \<leftarrow> kalloc env 1024; Some 1024 } | Some n \<Rightarrow> Some n);
     (status, ss) \<leftarrow> bt_call ''BTCHGR'' (btchgr rootname) inn ss;
     if status \<noteq> 0 then Some ((status, Some bufsiz), ss)
     else do {
       (status, ss) \<leftarrow> bt_call ''BTCRTR'' (btcrtr rootname) out ss;
       if \<not> (status = QDUP \<or> status = 0) then Some ((status, Some bufsiz), ss)
       else do {
         ((status, i), ss) \<leftarrow> bt_api ''BFNDKY'' (\<lambda>e. (e, None)) (bfndky [] None) inn ss;
         if \<not> (status = QNOKEY \<or> status = 0) then Some ((status, Some bufsiz), ss)
         else do {
           ((status, bufsiz), ss) \<leftarrow> copyroot_loop env inn out (None, None) bufsiz ss;
           Some ((status, Some bufsiz), ss)
         }
       }
     }
   }"

text \<open>The loop of \<open>main\<close> over the roots, from the entry \<open>kv\<close> of the super root on.\<close>

partial_function (option) roots_loop ::
  "progenv \<Rightarrow> int \<Rightarrow> int \<Rightarrow> kv \<Rightarrow> int option \<Rightarrow> sess \<Rightarrow> (int \<times> sess) option" where
  "roots_loop env inn out kv buf ss = do {
     root \<leftarrow> fst kv;
     ((status, buf), ss) \<leftarrow>
       (if strcmp root SUPER \<noteq> 0 then do {
          ((status, buf), ss) \<leftarrow> copyroot env inn out root buf ss;
          if status \<noteq> 0 then Some ((Some status, buf), ss)
          else do {
            (status, ss) \<leftarrow> bt_call ''BTCHGR'' (btchgr SUPER) inn ss;
            Some ((if status \<noteq> 0 then Some status else None, buf), ss)
          }
        } else Some ((None, buf), ss));
     case status of
       Some e \<Rightarrow> Some (e, ss)
     | None \<Rightarrow> do {
         ((e, i), ss) \<leftarrow> bt_api ''BFNDKY'' (\<lambda>e. (e, snd kv)) (bfndky root (snd kv)) inn ss;
         ((e, kv), ss) \<leftarrow> bt_api ''BNXTKY'' (\<lambda>e. (e, (Some root, i))) (bnxtky (Some root, i)) inn ss;
         if e = 0 then roots_loop env inn out kv buf ss
         else Some (if e = QNOKEY then 0 else e, ss)
       }
   }"

definition kcp_roots :: "progenv \<Rightarrow> int \<Rightarrow> int \<Rightarrow> sess \<Rightarrow> (int \<times> sess) option" where
  "kcp_roots env inn out ss = do {
     (status, ss) \<leftarrow> bt_call ''BTCHGR'' (btchgr SUPER) inn ss;
     if status \<noteq> 0 then Some (status, ss)
     else do {
       ((status, i), ss) \<leftarrow> bt_api ''BFNDKY'' (\<lambda>e. (e, None)) (bfndky [] None) inn ss;
       if \<not> (status = QNOKEY \<or> status = 0) then Some (status, ss)
       else do {
         ((status, kv), ss) \<leftarrow> bt_api ''BNXTKY'' (\<lambda>e. (e, (Some [], i))) (bnxtky (Some [], i)) inn ss;
         if status \<noteq> 0 then Some (status, ss) else roots_loop env inn out kv None ss
       }
     }
   }"

text \<open>Both files are closed in turn, each failure printed. The exit status: true is \<open>EXIT_SUCCESS\<close>.\<close>

definition kcp_close :: "progenv \<Rightarrow> string \<Rightarrow> int \<Rightarrow> sess \<Rightarrow> ((bool \<times> outp list) \<times> sess) option" where
  "kcp_close env prog b ss = do {
     (e, ss) \<leftarrow> btcls b ss;
     if e \<noteq> 0 then do { (msg, ss) \<leftarrow> print_bterror env prog ss; Some ((False, msg), ss) }
     else Some ((True, []), ss)
   }"

definition kcp_fail :: "progenv \<Rightarrow> string \<Rightarrow> sess \<Rightarrow> ((bool \<times> outp list) \<times> sess) option" where
  "kcp_fail env prog ss = do { (msg, ss) \<leftarrow> print_bterror env prog ss; Some ((False, msg), ss) }"

definition kcp_main :: "progenv \<Rightarrow> string \<Rightarrow> string list \<Rightarrow> sess \<Rightarrow> ((bool \<times> outp list) \<times> sess) option" where
  "kcp_main env prog args ss =
     (case args of
        old # new # xs \<Rightarrow>
          (let (e, ss) = btinit ss
           in if e \<noteq> 0 then kcp_fail env prog ss
              else do {
                (inn, ss) \<leftarrow> btopn (p_os env 0) old 0 False ss;
                case inn of
                  None \<Rightarrow> kcp_fail env prog ss
                | Some inn \<Rightarrow> do {
                    (out, ss) \<leftarrow> btcrt (p_os env 1) new 0 False ss;
                    case out of
                      None \<Rightarrow> kcp_fail env prog ss
                    | Some out \<Rightarrow> do {
                        (status, ss) \<leftarrow> kcp_roots env inn out ss;
                        ((ok, msg), ss) \<leftarrow>
                          (if status \<noteq> 0 then kcp_fail env prog ss else Some ((True, []), ss));
                        ((ok1, msg1), ss) \<leftarrow> kcp_close env prog inn ss;
                        ((ok2, msg2), ss) \<leftarrow> kcp_close env prog out ss;
                        Some ((ok \<and> ok1 \<and> ok2, msg @ msg1 @ msg2), ss)
                      }
                  }
              })
      | _ \<Rightarrow> Some ((False, [Err (prog @ '': usage: '' @ prog @ '' old_file new_file'')]), ss))"

section \<open>bigt and bigtdel\<close>

text \<open>The options of the drivers: \<open>-n\<close> and (\<open>bigt\<close> only) \<open>-s\<close>, each with the next argument as its value. The
  result is \<open>Inl c\<close> for an unknown switch \<open>c\<close>; a missing value is \<open>atoi(NULL)\<close>, that is \<open>None\<close>.\<close>

record bigopts =
  nrecs :: int
  datasize :: int

fun switches :: "bool \<Rightarrow> string \<Rightarrow> string list \<Rightarrow> bigopts \<Rightarrow> (char + string list \<times> bigopts) option" where
  "switches sized [] as op = Some (Inr (as, op))"
| "switches sized (c # cs) as op =
     (if c = CHR ''n'' then
        (case as of [] \<Rightarrow> None | a # as \<Rightarrow> switches sized cs as (op\<lparr>nrecs := atoi a\<rparr>))
      else if sized \<and> c = CHR ''s'' then
        (case as of [] \<Rightarrow> None | a # as \<Rightarrow> switches sized cs as (op\<lparr>datasize := atoi a\<rparr>))
      else Some (Inl c))"

lemma switches_shorter: "switches sized cs as op = Some (Inr (as', op')) \<Longrightarrow> length as' \<le> length as"
  by (induction sized cs as op rule: switches.induct) (auto split: if_splits list.splits)

function options :: "bool \<Rightarrow> string list \<Rightarrow> bigopts \<Rightarrow> (char + bigopts) option" where
  "options sized [] op = Some (Inr op)"
| "options sized (a # as) op =
     (if a \<noteq> [] \<and> hd a = CHR ''-'' then
        (case switches sized (tl a) as op of
           None \<Rightarrow> None
         | Some (Inl c) \<Rightarrow> Some (Inl c)
         | Some (Inr (as', op')) \<Rightarrow> options sized as' op')
      else Some (Inr op))"
  by pat_completeness auto
termination by (relation "measure (\<lambda>(_, as, _). length as)") (auto dest: switches_shorter)

definition print_error :: "progenv \<Rightarrow> sess \<Rightarrow> (outp list \<times> sess) option" where
  "print_error env ss = do {
     ((e, ioerr, rname, msg), g) \<leftarrow> btcerr (p_msg env) (bta.extend null_bta (glob ss));
     Some ([Out ([char_of (9 :: nat)] @ ''BTree error: '' @ itostr e @ '' ['' @ rname @ '']: '' @ msg)],
           ss\<lparr>glob := bta.more g\<rparr>)
   }"

text \<open>The loop over the keys \<open>i\<close>, \<open>n\<close> of them, with the library function and the word for the message.\<close>

fun big_loop ::
  "progenv \<Rightarrow> string \<Rightarrow> string \<Rightarrow> (string \<Rightarrow> st \<Rightarrow> (int \<times> st) option) \<Rightarrow> int \<Rightarrow> nat \<Rightarrow> int \<Rightarrow> sess \<Rightarrow>
   ((bool \<times> outp list) \<times> sess) option" where
  "big_loop env what fn f bt 0 i ss = Some ((True, []), ss)"
| "big_loop env what fn f bt (Suc n) i ss = do {
     let key = take (ZKYLEN - 1) (itostr i);
     (status, ss) \<leftarrow> bt_call fn (f key) bt ss;
     if status \<noteq> 0 then do {
       (msg, ss) \<leftarrow> print_error env ss;
       Some ((False, Out (''While attempting to '' @ what @ '' key: '' @ key @ '';'') # msg), ss)
     } else big_loop env what fn f bt n (i + 1) ss
   }"

definition big_fin :: "progenv \<Rightarrow> outp list \<Rightarrow> sess \<Rightarrow> ((bool \<times> outp list) \<times> sess) option" where
  "big_fin env out ss = do { (msg, ss) \<leftarrow> print_error env ss; Some ((False, out @ msg), ss) }"

definition DATASIZE :: int where "DATASIZE = ZBLKSZ * 5"

definition bigt_main :: "progenv \<Rightarrow> string list \<Rightarrow> sess \<Rightarrow> ((bool \<times> outp list) \<times> sess) option" where
  "bigt_main env args ss = do {
     p \<leftarrow> options True args \<lparr>nrecs = BTINT_MAX, datasize = DATASIZE\<rparr>;
     case p of
       Inl c \<Rightarrow> Some ((False, [Err (''bigt: unknown command switch: -'' @ [c])]), ss)
     | Inr op \<Rightarrow>
         if \<not> 0 < datasize op then
           Some ((False, [Err (''Illegal datasize specified: '' @ itostr (datasize op) @ ''.'')]), ss)
         else case p_mem env (datasize op) of
           None \<Rightarrow> Some ((False, [Err (''No memory for data record ('' @ itostr (datasize op) @
                                      '' bytes requested).'')]), ss)
         | Some m \<Rightarrow>
             (let rec = map (\<lambda>x. word_of_nat (of_char (CHR ''D''))) m; (e, ss) = btinit ss
              in if e \<noteq> 0 then big_fin env [] ss
                 else do {
                   (bt, ss) \<leftarrow> btcrt (p_os env 0) ''test_db'' 0 False ss;
                   case bt of
                     None \<Rightarrow> big_fin env [] ss
                   | Some bt \<Rightarrow> do {
                       ((ok, out), ss) \<leftarrow> big_loop env ''insert'' ''BTINS'' (\<lambda>k. btins k (Some rec)) bt
                         (nat (nrecs op)) 0 ss;
                       (e, ss) \<leftarrow> btcls bt ss;
                       if e \<noteq> 0 then big_fin env out ss else Some ((ok, out), ss)
                     }
                 })
   }"

definition bigtdel_main :: "progenv \<Rightarrow> string list \<Rightarrow> sess \<Rightarrow> ((bool \<times> outp list) \<times> sess) option" where
  "bigtdel_main env args ss = do {
     p \<leftarrow> options False args \<lparr>nrecs = BTINT_MAX, datasize = 0\<rparr>;
     case p of
       Inl c \<Rightarrow> Some ((False, [Err (''bigtdel: unknown command switch: -'' @ [c])]), ss)
     | Inr op \<Rightarrow>
         (let (e, ss) = btinit ss
          in if e \<noteq> 0 then big_fin env [] ss
             else do {
               (bt, ss) \<leftarrow> btopn (p_os env 0) ''test_db'' 0 False ss;
               case bt of
                 None \<Rightarrow> big_fin env [] ss
               | Some bt \<Rightarrow> do {
                   ((ok, out), ss) \<leftarrow> big_loop env ''delete'' ''BTDEL'' (\<lambda>k. btdel (Some k)) bt
                     (nat (nrecs op)) 0 ss;
                   (e, ss) \<leftarrow> btcls bt ss;
                   if e \<noteq> 0 then big_fin env out ss else Some ((ok, out), ss)
                 }
             })
   }"

text \<open>The loops, for evaluation.\<close>

declare btcopy_loop.simps [code] and
  grow_loop.simps [code] and
  copyroot_loop.simps [code] and
  roots_loop.simps [code]

end
