(* ===== verification/Programs.thy ===== *)
theory Programs
  imports Samples Listing Copy
begin

text \<open>Concrete states of the programs: the test harness with the sample index in use, and an interpreter
  whose only command file executes itself.\<close>

definition sample_app :: btapp where
  "sample_app = \<lparr>phead = [\<lparr>p_fid = Some ''sample'', p_b = 0\<rparr>], bhead = [], btp = Some 0,
     suppress_error_msg = False, ses = open_sess, mem_of = (\<lambda>n. None), os_of = (\<lambda>i. None), nopens = 0,
     rfiles = (\<lambda>f. No_file), sys_msg = (\<lambda>e. [])\<rparr>"

definition no_block :: "'f cmdblk" where
  "no_block = \<lparr>c_cmd = [], c_arg = [], c_qualifier = [], c_qual_int = 0, c_all = [], c_nargs = 0,
     c_unknown = False, c_function = None\<rparr>"

definition start_shell :: "'a \<Rightarrow> ('f, 'a) shell" where
  "start_shell a = \<lparr>echo = False, stop_on_error = False, issue_prompt = True, svp = False,
     input = Some Stdin, cmdinput = replicate 5 None, cmdtop = 0, cblk = no_block, current_app_cmds = [],
     stdin_rest = ''e again'', stdin_tty = True,
     cfiles = (\<lambda>f. if f = ''again'' then Some (''e again'' @ newline) else None), ran = [], term_out = [],
     app = a\<rparr>"

lemma start_shell_nesting: "nesting_ok (start_shell a)"
  by (simp add: nesting_ok_def start_shell_def CMDFILEMAX_def)

lemma sample_in_use: "in_use (serves 0 ''$$default'' scatalog) (start_shell sample_app)"
proof -
  have "\<exists>s. activate 0 open_sess = Some s \<and> serves 0 ''$$default'' scatalog s"
    using open_sess_sample by (simp add: opened_def)
  then show ?thesis by (simp add: in_use_def start_shell_def sample_app_def ZMXACT_def)
qed

text \<open>An application whose one command is \<open>execute\<close>.\<close>

definition only_execute :: "unit \<Rightarrow> (unit, unit) command" where
  "only_execute f = btcmd_execute"

definition execute_cmds :: "unit cmdentry list" where
  "execute_cmds = [\<lparr>e_cmd = ''execute'', e_abbrev = ''e'', e_function = (), e_args = [], e_nargs = 1, e_description = []\<rparr>,
     \<lparr>e_cmd = [], e_abbrev = [], e_function = (), e_args = [], e_nargs = 0, e_description = []\<rparr>]"

lemma only_execute_ok: "calls_ok (\<lambda>a. True) only_execute (\<lambda>e s. Some s)"
  unfolding calls_ok_def only_execute_def
  by (auto simp: same_input_def intro!: runs_conseq [OF execute_opens])

end
