(* ===== verification/Spec2Isabelle.thy ===== *)
theory Spec2Isabelle
  imports Programs
begin

text \<open>
  btlib is a library for B-tree indexes in a file. An application creates or opens an index (\<open>btcrt\<close>,
  \<open>btopn\<close>), works on one of its roots (\<open>btchgr\<close>, \<open>btcrtr\<close>, \<open>btdelr\<close>) with keys (\<open>binsky\<close>, \<open>bfndky\<close>,
  \<open>bdelky\<close>, \<open>bnxtky\<close>, \<open>bprvky\<close>) or records (\<open>btins\<close>, \<open>btsel\<close>, \<open>btupd\<close>, \<open>btdel\<close>), and closes it
  (\<open>btcls\<close>). This development translates the library (\<open>src/src-lib\<close>, \<open>src/inc\<close>) and proves what its
  components promise to one another, up to the life of an index from its creation on.

  \<^bold>\<open>Conventions.\<close> A C function is a HOL function of its name that takes the state last and returns
  \<open>(result \<times> state) option\<close>; out-parameters are further results. \<open>None\<close> is undefined behaviour (an
  access outside an array, a NULL pointer) or a loop that does not end; \<open>runs m P\<close> says that \<open>m\<close>
  returns, with a result that satisfies \<open>P\<close>, so every property stated with it includes termination
  and memory safety. Errors are the codes that the code returns, and the error record of \<open>bterr\<close> is
  part of the state. \<open>BTint\<close> is a 32-bit \<open>int\<close>: file
  positions and the words of data blocks wrap as in the code (\<open>to_int32\<close>); counters (writes, statistics,
  \<open>smod\<close>) are integers that do not wrap.

  \<^bold>\<open>Theories and code.\<close>
  \<^item> \<open>Prelude\<close>: the operation type, C arrays and strings (\<open>strcmp\<close>, \<open>strncpy\<close>), list lemmas.
  \<^item> \<open>Consts\<close>, \<open>State\<close>: the constants of \<open>bc.h\<close> for the default build (blocks of 1024 bytes, 22 keys in a
    block, 3 cache slots, a stack of 40 values) and the structures of \<open>bt.h\<close> as records. \<open>st\<close> is
    \<open>*btact\<close> with the file-scope variables; the file is the list of its blocks.
  \<^item> \<open>Errors\<close> (\<open>bterr.c\<close>, \<open>bvalap.c\<close>), \<open>Stack\<close> (\<open>btstk.c\<close>), \<open>Lru\<close> (\<open>btque.c\<close>), \<open>Cache\<close> (\<open>brdblk.c\<close>,
    \<open>bwrblk.c\<close>, \<open>bgtslt.c\<close>, \<open>bsetbs.c\<close>, \<open>bacini.c\<close>), \<open>Info\<close> (\<open>bgtinf.c\<close>, \<open>bstinf.c\<close>, \<open>bsetbk.c\<close>), \<open>KeyBlock\<close>
    (\<open>bsrhbk.c\<close>, \<open>bputky.c\<close>, \<open>brepky.c\<close>, \<open>bremky.c\<close>, \<open>bcpybk.c\<close>), \<open>Alloc\<close> (\<open>bgtfre.c\<close>, \<open>bmkfre.c\<close>), \<open>Lock\<close>
    (\<open>bsuper.c\<close>, \<open>bsemap.c\<close>, \<open>btsync\<close>): the layers below the tree.
  \<^item> \<open>Find\<close> (\<open>bfndky.c\<close>, \<open>bsptbk.c\<close>, \<open>bleaf.c\<close>, \<open>binsky.c\<close>, \<open>bmodky.c\<close>, \<open>bupdky.c\<close>), \<open>Delete\<close> (\<open>bdelky.c\<close> and
    what it calls), \<open>Walk\<close> (\<open>bnxtky.c\<close>, \<open>bprvky.c\<close>, \<open>btpos.c\<close>, \<open>bnxtbk.c\<close>, \<open>butil.c\<close>), \<open>Dup\<close> (\<open>btdupkey.c\<close>),
    \<open>Bytes\<close>, \<open>Data\<close>, \<open>Records\<close> (\<open>btdata.c\<close>), \<open>Roots\<close> (\<open>btchgr.c\<close>, \<open>btcrtr.c\<close>, \<open>btdelr.c\<close>, \<open>btdups.c\<close>,
    \<open>btlock.c\<close>, \<open>btthresh.c\<close>), \<open>Session\<close> (\<open>btinit.c\<close>, \<open>bnewap.c\<close>, \<open>bacini.c\<close>, \<open>bacfre.c\<close>, \<open>btcrt.c\<close>, \<open>btopn.c\<close>,
    \<open>btcls.c\<close>): the operations on trees, records, roots and files.
  \<^item> \<open>Store\<close>: the cache as an abstract store of blocks. \<open>repr s B P R\<close> says that the state \<open>s\<close> stands for
    the blocks \<open>B\<close> with the blocks \<open>P\<close> pinned and the rest \<open>R\<close> of the state; every operation is specified
    over it, whatever blocks are in the slots.
  \<^item> \<open>Trees\<close>: the tree under a block (\<open>wf_tree\<close>, \<open>search_tree\<close>) and the list of entries that it stands
    for (\<open>tree_entries\<close>). \<open>Search\<close>, \<open>Insert\<close>: the search without splits and the insertion into a leaf.
    \<open>Split\<close>, \<open>Grow\<close>: what \<open>bsptbk\<close> does to the blocks, and that the tree keeps its entries. \<open>Descend\<close>: the
    search that splits full blocks on its way down. \<open>Update\<close>: \<open>binsky\<close>. \<open>Position\<close>: the position in a tree
    that a search leaves, as the list of the entries after it.
  \<^item> \<open>Route\<close>: the way from the root to a leaf as the stack holds it, and what a change at its end makes of
    the tree. \<open>Repair\<close>: what \<open>bjoin\<close> and \<open>balbk1\<close> do to the blocks. \<open>Merge\<close>, \<open>Mend\<close>: the tree after
    \<open>bjnblk\<close>, \<open>balblk\<close> and the demotion of an emptied root. \<open>Remove\<close>: \<open>bdelk1\<close> on one tree. \<open>Erase\<close>:
    \<open>bdelky\<close> over the interface of an index.
  \<^item> \<open>Forest\<close>: all trees of a file, one for every entry of the super root. \<open>Index\<close>: the interface of an
    index without its blocks. \<open>Create\<close>, \<open>Switch\<close>, \<open>Reopen\<close>, \<open>Scan\<close>: \<open>btcrt\<close>, \<open>btchgr\<close>, \<open>btcls\<close> with \<open>btopn\<close>,
    and the walks with \<open>bnxtky\<close>, over that interface.
  \<^item> \<open>Console\<close> (what the programs use of the C library), \<open>Diag\<close> (\<open>bdbug.c\<close>, \<open>bxdump.c\<close>, \<open>btdispdups\<close>), \<open>Command\<close>
    (\<open>src-main/btcmd.c\<close>), \<open>Shell\<close> (\<open>src-main/bt.c\<close>), \<open>Copy\<close> (\<open>src-main/kcp.c\<close>, \<open>bigt.c\<close>, \<open>bigtdel.c\<close>,
    \<open>samples/btcopy.c\<close>): the programs over the library. \<open>Listing\<close>: commands of the harness over the interface
    of an index.
  \<^item> \<open>Samples\<close>, \<open>Programs\<close>: concrete states for the witnesses.

  \<^bold>\<open>Interfaces.\<close> The locales \<open>bounded_stack\<close> (\<open>Stack\<close>, interpreted on \<open>bpush\<close> and \<open>bpull\<close>), \<open>codec\<close>
  (\<open>Bytes\<close>, on the words and addresses in data blocks), \<open>ordered_index\<close> (\<open>Index\<close>, on \<open>binsky\<close> and
  \<open>bfndky\<close>), \<open>erasable_index\<close> (\<open>Erase\<close>, which adds the law of \<open>bdelky\<close>) and \<open>cursor\<close> (\<open>Scan\<close>, on
  \<open>bnxtky\<close>; \<open>Listing\<close>, on the steps of the harness) state what a component promises its clients; the
  proofs inside them are the client's side.

  \<^bold>\<open>Invariant of an index.\<close> \<open>open_tree B R h b bs\<close>: under block \<open>b\<close> there is a search tree of height \<open>h\<close> of
  blocks in use, without duplicate chains; the blocks \<open>bs\<close> are the free list that the super root
  counts; some block in use (the super root) is outside the tree. \<open>update_ready\<close> adds that the index
  is open for update and not shared. \<open>index_ok\<close> says that of all trees of the file. \<open>serves md cur M s\<close>
  hides the blocks: the index is open in the mode \<open>md\<close>, its root \<open>cur\<close> is current, and the root of name
  \<open>n\<close> holds the entries \<open>M n\<close> (\<open>M\<close> is its \<open>catalog\<close>); \<open>scanning md cur M s es\<close> adds that the entries \<open>es\<close>
  are still to come.

  \<^bold>\<open>Reserve of an index.\<close> A deletion repairs the tree only around the leaf that lost a key, and \<open>bjnblk\<close> and
  \<open>balblk\<close> may leave both neighbours as they are, so blocks run short as keys are deleted. \<open>stocked f B h b\<close> says
  that every block below the root \<open>b\<close> has at least \<open>f\<close> keys, and \<open>stocks f cur M s\<close> adds this to
  \<open>serves 0 cur M s\<close> for the current root. Splits leave ten keys, a deletion takes at most one from the
  reserve. The properties of deletion ask for what the deletions take, and one key more: with it no
  block below the root is ever emptied, so that \<open>bdemte\<close> only demotes the root. What \<open>bdemte\<close> does for an
  emptied block below the root is translated, but has no property: there it puts down a wrong key when the
  neighbour is full, since \<open>bsptbk\<close> overwrites the entry it points to.

  \<^bold>\<open>Bounds and termination.\<close> Loops of the code are \<open>partial_function (option)\<close> or structural recursion;
  no fuel is used. The search ends because a split either uses up a block of the at most
  \<open>MXBLKS\<close> = 2^21 blocks of a file or a level of the descent is passed (\<open>stock\<close> in \<open>Split\<close>). A
  block that is not a leaf has at least two children, so the number of blocks of the largest file
  bounds the height, and the stack of 40 values never overflows in a search (\<open>tree_height\<close> in \<open>Grow\<close>).

  \<^bold>\<open>What the environment is.\<close> \<open>ioenv\<close> says which file operations fail and \<open>lkenv\<close> how requests for the
  file lock end; both are arbitrary in the definitions, and the properties over \<open>repr\<close> are for I/O that
  succeeds. The memory that \<open>malloc\<close> returns is a parameter with arbitrary contents (\<open>os_ok\<close>).

  \<^bold>\<open>The programs.\<close> An interpreter state is a record \<open>shell\<close> over the state of its application; a command
  table holds values of a datatype in place of function pointers, and one function (\<open>call_bt\<close>) says what
  a call through the table does. The interpreter ends because a line that is read outweighs the file
  that its command may open (\<open>work\<close> in \<open>Command\<close>).

  \<^bold>\<open>Not modelled.\<close> The recovery program \<open>src-main/btr.c\<close>, which reads damaged and older files through other C
  views of the memory of a block; \<open>samples/btsort.c\<close> and the generators of test input; interrupt handlers
  and the build with the readline library; the signal handler behind the lock time-out (its effect is
  an answer of \<open>lkenv\<close>); the 64-bit build; concurrent processes other than through what the file
  holds when a lock is granted.

  \<^bold>\<open>Proved and not proved.\<close> Properties cover creation, closing and reopening, the change of the root, search,
  insertion, splitting, deletion with its joins and balancing, forward walks, the cache, the allocator,
  write-back and locks, key blocks, the stack, the error record, the encodings, and of the programs the
  interpreter, its command table and the listing commands. The backward walk, duplicate chains, data
  records, the demotion below the root, and the creation and deletion of roots are translated in full,
  and used through these definitions, but have no property of their own yet beyond those of the layers
  they call.
\<close>

section \<open>An index from its creation on\<close>

text \<open>
  C1. The life of an index: \<open>btcrt\<close> of a new file, insertions by \<open>binsky\<close>, \<open>btcls\<close>, \<open>btopn\<close> for reading in
  whatever slot is free and with whatever memory, a search by \<open>bfndky\<close>. Unless the file reaches its
  largest size, the reopened index answers for every key what a finite map would that keeps the first
  value put in for a key.
\<close>

theorem index_survives_close:
  assumes "os_ok (Some m)" "os_ok (Some m')" "ready_sess ss" "fst (bnewap fid (sess_err [] 0 None ss)) = Some b" "fid \<noteq> []"
  shows "runs (do {
      (h, ss) \<leftarrow> btcrt (Some m) fid 0 False ss;
      h \<leftarrow> h;
      (e, ss) \<leftarrow> in_slot h (insert_all QF2BIG binsky kvs) ss;
      if e = QF2BIG then Some (QF2BIG, None)
      else do {
        (e, h, ss) \<leftarrow> do { (e, ss) \<leftarrow> btcls h ss; (h, ss) \<leftarrow> btopn (Some m') fid 1 False ss; Some (e, h, ss) };
        case h of None \<Rightarrow> Some (sess_gerr ss, None)
        | Some h \<Rightarrow> do { ((e, w), ss) \<leftarrow> in_slot h (bfndky key None) ss; Some (e, w) } } })
    (\<lambda>(e, w). e = QF2BIG \<or>
      (case keep_first (strncpy_term ZKYLEN) kvs Map.empty (strncpy_term ZKYLEN key) of
         None \<Rightarrow> e = QNOKEY | Some x \<Rightarrow> e = 0 \<and> w = Some x))"
proof (rule runs_bindI [OF btcrt_opened [OF assms(1,3,4)]], simp only: split_paired_all prod.case, elim conjE, goal_cases)
  case (1 h ss1)
  let ?P = "\<lambda>(e, w). e = QF2BIG \<or>
      (case keep_first (strncpy_term ZKYLEN) kvs Map.empty (strncpy_term ZKYLEN key) of
         None \<Rightarrow> e = QNOKEY | Some x \<Rightarrow> e = 0 \<and> w = Some x)"
  have empty: "lookup [] = Map.empty" by (simp add: lookup_def fun_eq_iff)
  have fill: "runs (in_slot b (insert_all QF2BIG binsky kvs) ss1) (\<lambda>(e, ss2). e = QF2BIG \<or> e \<noteq> QF2BIG \<and>
      (\<exists>es. opened b fid 0 ''$$default'' (new_catalog(''$$default'' \<mapsto> es)) ss2 \<and>
        lookup es = keep_first (strncpy_term ZKYLEN) kvs Map.empty))"
    using filled_slot [OF 1(2), of kvs] empty by simp
  have find: "runs (in_slot b' (bfndky key None) ss3) (\<lambda>((e, w), ss4). ?P (e, w))"
    if "opened b' fid 1 ''$$default'' (new_catalog(''$$default'' \<mapsto> es)) ss3"
      "lookup es = keep_first (strncpy_term ZKYLEN) kvs Map.empty" for b' es ss3
    by (rule runs_conseq [OF found_slot [OF that(1)]]) (use that(2) in auto)
  show ?case
    unfolding 1(1) Option.bind.simps
  proof (rule runs_bindI [OF fill], simp only: split_paired_all prod.case, elim exE conjE disjE, goal_cases)
    case (1 e ss2)
    then show ?case by simp
  next
    case (2 e ss2 es)
    have "(new_catalog(''$$default'' \<mapsto> es)) ''$$default'' \<noteq> None" by simp
    note re = reopened [OF 2(2) assms(5) this assms(2), of 1]
    show ?case
      unfolding if_not_P [OF 2(1)]
    proof (rule runs_bindI [OF re], simp only: split_paired_all prod.case, elim exE conjE disjE, goal_cases)
      case (1 e h ss3)
      then show ?case by simp
    next
      case (2 e h ss3 b')
      show ?case
        unfolding 2(2) option.case
        by (rule runs_bindI [OF find [OF 2(3) \<open>lookup es = _\<close>]]) auto
    qed
  qed
qed

theorem index_survives_close_witness:
  "runs (do {
      (h, ss) \<leftarrow> btcrt (Some new_memory) ''idx'' 0 False new_sess;
      h \<leftarrow> h;
      (e, ss) \<leftarrow> in_slot h (insert_all QF2BIG binsky [(''b'', 2), (''a'', 1), (''b'', 3)]) ss;
      if e = QF2BIG then Some (QF2BIG, None)
      else do {
        (e, h, ss) \<leftarrow> do { (e, ss) \<leftarrow> btcls h ss; (h, ss) \<leftarrow> btopn (Some new_memory) ''idx'' 1 False ss; Some (e, h, ss) };
        case h of None \<Rightarrow> Some (sess_gerr ss, None)
        | Some h \<Rightarrow> do { ((e, w), ss) \<leftarrow> in_slot h (bfndky ''b'' None) ss; Some (e, w) } } })
    (\<lambda>(e, w). e = QF2BIG \<or> e = 0 \<and> w = Some 2)"
  by (rule runs_conseq [OF index_survives_close [OF new_sess_calm(1,1) new_sess_ready new_sess_calm(4)]])
    (auto simp: strncpy_term_def ZKYLEN_def)

text \<open>
  C2. \<open>btcls\<close> writes back an index and \<open>btopn\<close> reads it in: with the default root current, every root has
  the entries that it had. The open fails only if the super root must be split in a file that cannot
  grow, which needs an access mode in uninitialised memory that reads as update.
\<close>

theorem close_and_reopen:
  assumes "opened b fid md cur M ss" "fid \<noteq> []" "M ''$$default'' \<noteq> None" "os_ok (Some m)"
  shows "runs (do { (e, ss) \<leftarrow> btcls b ss; (h, ss) \<leftarrow> btopn (Some m) fid mode False ss; Some (e, h, ss) })
    (\<lambda>(e, h, ss'). e = 0 \<and> (h = None \<and> smode (super m) = 0 \<and> sess_gerr ss' = QF2BIG \<or>
      (\<exists>b'. h = Some b' \<and> opened b' fid mode ''$$default'' M ss')))"
  by (rule reopened [OF assms])

theorem close_and_reopen_witness:
  "runs (do { (e, ss) \<leftarrow> btcls 0 open_sess; (h, ss) \<leftarrow> btopn (Some (new_memory\<lparr>super := (super new_memory)\<lparr>smode := 7\<rparr>\<rparr>)) ''sample'' 0 False ss; Some (e, h, ss) })
    (\<lambda>(e, h, ss'). e = 0 \<and> (\<exists>b'. h = Some b' \<and> opened b' ''sample'' 0 ''$$default'' scatalog ss'))"
proof -
  let ?m = "new_memory\<lparr>super := (super new_memory)\<lparr>smode := 7\<rparr>\<rparr>"
  have "os_ok (Some ?m)" using new_sess_calm(1) by (simp add: os_ok_def)
  from close_and_reopen [OF open_sess_sample _ _ this, of 0] show ?thesis
    by (auto elim!: runs_conseq)
qed

text \<open>
  C3. \<open>btchgr\<close> makes the root of the given name current and leaves the index as it is; if there is no
  such root it says so and the current root stays.
\<close>

theorem change_root:
  assumes "serves md cur M s"
  shows "runs (btchgr n s) (\<lambda>(e, s'). e = QF2BIG \<and> md = 0 \<or>
    (if M (strncpy_term ZKYLEN n) = None then e = QNOKEY \<and> serves md cur M s'
     else e = 0 \<and> serves md (strncpy_term ZKYLEN n) M s'))"
  by (rule serves_chgr [OF assms])

theorem change_root_witness:
  "runs (btchgr ''$$super'' ostate) (\<lambda>(e, s'). e = QF2BIG \<or> e = 0 \<and> serves 0 ''$$super'' scatalog s')"
  by (rule runs_conseq [OF change_root [OF sample_serves, of "''$$super''"]])
    (auto simp: strncpy_term_def ZKYLEN_def)

text \<open>
  C4. The same without closing the index in between: \<open>btcrt\<close> of a new file, insertions by \<open>binsky\<close>, a search by \<open>bfndky\<close>; unless the file reaches its
  largest size, the index answers for every key what a finite map would that keeps the first value
  put in for a key, however often its blocks were split on the way.
\<close>

theorem index_from_creation:
  assumes "os_ok (Some m)" "calm ss" "length (units ss) = length (btat ss)"
    and "fst (bnewap fid (sess_err [] 0 None ss)) = Some b"
  shows "runs (do {
      (h, ss) \<leftarrow> btcrt (Some m) fid 0 False ss;
      h \<leftarrow> h;
      (e, ss) \<leftarrow> in_slot h (insert_all QF2BIG binsky kvs) ss;
      if e = QF2BIG then Some (QF2BIG, None)
      else do { ((e, w), ss) \<leftarrow> in_slot h (bfndky key None) ss; Some (e, w) } })
    (\<lambda>(e, w). e = QF2BIG \<or>
      (case keep_first (strncpy_term ZKYLEN) kvs Map.empty (strncpy_term ZKYLEN key) of
         None \<Rightarrow> e = QNOKEY | Some x \<Rightarrow> e = 0 \<and> w = Some x))"
proof (rule runs_bindI [OF btcrt_new [OF assms]], clarify)
  fix ss1 s assume s: "activate b ss1 = Some s" "serves 0 ''$$default'' new_catalog s"
  then have s2: "''$$default'' \<noteq> ''$$super'' \<and> serves 0 ''$$default'' (new_catalog(''$$default'' \<mapsto> [])) s"
    by (simp add: fun_upd_twist)
  have empty: "lookup [] = Map.empty" by (simp add: lookup_def fun_eq_iff)
  note fill = in_slot_runs [of b ss1 s "insert_all QF2BIG binsky kvs", OF s(1) bix.fill [OF s2, of kvs]]
  note find = in_slot_runs [where f = "bfndky key None", OF _ bix.find_key]
  show "runs (do { h \<leftarrow> Some b; (e, ss) \<leftarrow> in_slot h (insert_all QF2BIG binsky kvs) ss1;
      if e = QF2BIG then Some (QF2BIG, None)
      else do { ((e, w), ss) \<leftarrow> in_slot h (bfndky key None) ss; Some (e, w) } })
    (\<lambda>(e, w). e = QF2BIG \<or>
      (case keep_first (strncpy_term ZKYLEN) kvs Map.empty (strncpy_term ZKYLEN key) of
         None \<Rightarrow> e = QNOKEY | Some x \<Rightarrow> e = 0 \<and> w = Some x))"
    unfolding Option.bind.simps
  proof (rule runs_bindI [OF fill], simp only: split_paired_all prod.case, elim exE conjE disjE, goal_cases)
    case (1 e ss2 s2)
    then show ?case by simp
  next
    case (2 e ss2 s2 es)
    have "e \<noteq> QF2BIG" using 2(3) by (simp add: QF2BIG_def)
    moreover have "runs (do { ((e, w), ss) \<leftarrow> in_slot b (bfndky key None) ss2; Some (e, w) })
      (\<lambda>(e, w). e = QF2BIG \<or>
        (case lookup es (strncpy_term ZKYLEN key) of None \<Rightarrow> e = QNOKEY | Some x \<Rightarrow> e = 0 \<and> w = Some x))"
      by (rule runs_bindI [OF find [OF 2(1) conjI [OF 2(5,6)]]]) (auto split: option.splits)
    ultimately show ?case using 2(4) empty by simp
  qed
qed

theorem index_from_creation_witness:
  "runs (do {
      (h, ss) \<leftarrow> btcrt (Some new_memory) ''idx'' 0 False new_sess;
      h \<leftarrow> h;
      (e, ss) \<leftarrow> in_slot h (insert_all QF2BIG binsky [(''b'', 2), (''a'', 1), (''b'', 3)]) ss;
      if e = QF2BIG then Some (QF2BIG, None)
      else do { ((e, w), ss) \<leftarrow> in_slot h (bfndky ''b'' None) ss; Some (e, w) } })
    (\<lambda>(e, w). e = QF2BIG \<or> e = 0 \<and> w = Some 2)"
  by (rule runs_conseq [OF index_from_creation [OF new_sess_calm]])
    (auto simp: strncpy_term_def ZKYLEN_def)

text \<open>
  C5. A walk over a root: after \<open>btpos\<close> to its start the calls of \<open>bnxtky\<close> hand out every entry once, in
  the order of the keys, and then end with \<open>QNOKEY\<close>; the index stays what it is. So the usual loop of an
  application over an index ends.
\<close>

theorem walk_in_order:
  assumes "serves md cur M s" "M cur = Some es"
  shows "runs (do { (e, s) \<leftarrow> btpos ZSTART s; scan_loop bnxtky kv [] s })
    (\<lambda>((e, kvs), s'). e = QNOKEY \<and> kvs = map shown es \<and> sorted_keys es \<and> serves md cur M s')"
proof -
  have "sorted_keys es" using serves_current [OF assms(1)] assms(2) by auto
  then have "runs (scan_loop bnxtky kv [] s') (\<lambda>((e, kvs), s'). e = QNOKEY \<and> kvs = map shown es \<and> sorted_keys es \<and> serves md cur M s')"
    if "scanning md cur M s' es" for s'
    by (intro runs_conseq [OF bcur.scan [OF that]]) (auto dest: scanning_serves)
  then show ?thesis by (intro runs_bindI [OF scanning_start [OF assms]]) auto
qed

theorem walk_in_order_witness:
  "runs (do { (e, s) \<leftarrow> btpos ZSTART ostate; scan_loop bnxtky (None, None) [] s })
    (\<lambda>((e, kvs), s'). e = QNOKEY \<and>
      kvs = [(Some ''a'', Some 10), (Some ''c'', Some 11), (Some ''m'', Some 20), (Some ''x'', Some 30), (Some ''z'', Some 31)])"
proof -
  have "map shown (tree_entries sample 1 1) =
      [(Some ''a'', Some 10), (Some ''c'', Some 11), (Some ''m'', Some 20), (Some ''x'', Some 30), (Some ''z'', Some 31)]"
    unfolding sample_tree_entries by (simp add: shown_def strncpy_term_def ZKYLEN_def)
  then show ?thesis
    by (intro runs_conseq [OF walk_in_order [OF sample_serves, of "tree_entries sample 1 1" "(None, None)"]])
      (auto simp del: tree_entries.simps One_nat_def)
qed

text \<open>
  C6. A walk over a range: after \<open>bfndky\<close> for a key, whether the index has it or not, \<open>bnxtky\<close> hands out the
  entries with greater keys in order and then ends.
\<close>

theorem walk_from_key:
  assumes "serves md cur M s" "M cur = Some es"
  shows "runs (do { ((e, w), s) \<leftarrow> bfndky key None s;
      if e = QF2BIG then Some ((QF2BIG, []), s) else scan_loop bnxtky kv [] s })
    (\<lambda>((e, kvs), s'). e = QF2BIG \<and> md = 0 \<or> e = QNOKEY \<and> serves md cur M s' \<and>
      kvs = map shown (filter (\<lambda>x. strncpy_term ZKYLEN key < ke_key x) es))"
proof (rule runs_bindI [OF scanning_find [OF assms, of key]], simp only: split_paired_all prod.case, elim disjE conjE, goal_cases)
  case (1 e w s')
  then show ?case by simp
next
  case (2 e w s')
  have "e \<noteq> QF2BIG" using 2(2) by (auto simp: QF2BIG_def QNOKEY_def split: option.splits)
  moreover have "runs (scan_loop bnxtky kv [] s') (\<lambda>((e, kvs), s'). e = QF2BIG \<and> md = 0 \<or> e = QNOKEY \<and> serves md cur M s' \<and>
      kvs = map shown (filter (\<lambda>x. strncpy_term ZKYLEN key < ke_key x) es))"
    by (rule runs_conseq [OF bcur.scan [OF 2(1)]]) (auto dest: scanning_serves)
  ultimately show ?case by simp
qed

theorem walk_from_key_witness:
  "runs (do { ((e, w), s) \<leftarrow> bfndky ''d'' None ostate;
      if e = QF2BIG then Some ((QF2BIG, []), s) else scan_loop bnxtky (None, None) [] s })
    (\<lambda>((e, kvs), s'). e = QF2BIG \<or> e = QNOKEY \<and> kvs = [(Some ''m'', Some 20), (Some ''x'', Some 30), (Some ''z'', Some 31)])"
proof -
  have "map shown (filter (\<lambda>x. strncpy_term ZKYLEN ''d'' < ke_key x) (tree_entries sample 1 1)) =
      [(Some ''m'', Some 20), (Some ''x'', Some 30), (Some ''z'', Some 31)]"
    unfolding sample_tree_entries by (simp add: shown_def strncpy_term_def ZKYLEN_def string_less)
  then show ?thesis
    by (intro runs_conseq [OF walk_from_key [OF sample_serves, of "tree_entries sample 1 1" "''d''" "(None, None)"]])
      (auto simp del: tree_entries.simps One_nat_def)
qed

text \<open>
  C7. The test harness lists an index: after \<open>position s\<close>, \<open>list c\<close> prints every key of the current root
  with its value once, in the order of the keys, and then the count, and ends without an error.
\<close>

theorem list_in_order:
  assumes "in_use (serves md cur M) s" "M cur = Some es" "\<not> suppress_error_msg (app s)"
    and "c_arg c = ''s''" "c_arg c' = ''c''"
  shows "runs (do { (e, s) \<leftarrow> pos_cmd c s; list_cmd c' s }) (\<lambda>(e, s'). e = 0 \<and> in_use (serves md cur M) s' \<and>
    term_out s' = term_out s @ map (\<lambda>e. key_line (key_of e) (ke_val e)) es @
      [Out (itostr (int (length es)) @ '' keys listed'')])"
  by (rule list_after_start [OF assms])

theorem list_in_order_witness:
  "runs (do { (e, s) \<leftarrow> pos_cmd (no_block\<lparr>c_arg := ''s''\<rparr>) (start_shell sample_app);
       list_cmd (no_block\<lparr>c_arg := ''c''\<rparr>) s })
    (\<lambda>(e, s'). e = 0 \<and> length (term_out s') = Suc (length (tree_entries sample 1 1)))"
  by (rule runs_conseq [OF list_in_order [OF sample_in_use]])
    (auto simp: start_shell_def sample_app_def simp del: tree_entries.simps One_nat_def)

text \<open>
  C8. The check of the order, \<open>check-order s c\<close>, never complains about an index: it ends without an error
  and without a message other than the number of keys, which is that of the entries.
\<close>

theorem check_order:
  assumes "in_use (serves md cur M) s" "M cur = Some es" "\<not> suppress_error_msg (app s)"
    and "c_arg c = ''s''" "c_qualifier c = ''c''"
  shows "runs (chk_order c s) (\<lambda>(e, s'). e = 0 \<and> in_use (serves md cur M) s' \<and> \<not> suppress_error_msg (app s') \<and>
    term_out s' = term_out s @ [Out (itostr (int (length es)) @ '' keys checked'')])"
  by (rule check_order_clean [OF assms])

theorem check_order_witness:
  "runs (chk_order (no_block\<lparr>c_arg := ''s'', c_qualifier := ''c''\<rparr>) (start_shell sample_app))
    (\<lambda>(e, s'). e = 0 \<and> term_out s' = [Out (itostr (int (length (tree_entries sample 1 1))) @ '' keys checked'')])"
  by (rule runs_conseq [OF check_order [OF sample_in_use]])
    (auto simp: start_shell_def sample_app_def simp del: tree_entries.simps One_nat_def)

text \<open>
  C9. \<open>binsky\<close> of a new key into an index open for update: full blocks on the way to its leaf are split,
  the entry goes to its place among the entries of the tree, and the invariant of the index holds
  again; blocks in use outside the tree do not change. It fails only when the file cannot grow.
\<close>

theorem insert_key:
  assumes "repr s B P R" "P \<subseteq> {b}" "update_ready R b" "open_tree B R h b bs"
    and "k = strncpy_term ZKYLEN key" "lookup (tree_entries B h b) k = None"
  shows "runs (binsky key v s) (\<lambda>(e, s').
    e = QF2BIG \<and> (\<exists>B' P' R' h'. repr s' B' P' R' \<and> MXBLKS \<le> length B' + 1 \<and>
      tree_entries B' h' b = tree_entries B h b) \<or>
    e = 0 \<and> (\<exists>B' R' h' bs'. repr s' B' P R' \<and> update_ready R' b \<and> open_tree B' R' h' b bs' \<and>
      others_kept B h b B' h' \<and>
      tree_entries B' h' b = insert_at (lower k (tree_entries B h b)) (new_entry k v) (tree_entries B h b)))"
proof (rule runs_conseq [OF binsky_enter [OF assms, of v]], goal_cases)
  case (1 x)
  then show ?case
  proof (cases x, simp only: prod.case, elim disjE conjE, goal_cases)
    case (1 e s')
    then show ?case unfolding too_big_def resplit_def by blast
  next
    case (2 e s')
    then show ?case unfolding entered_def keyent.simps by blast
  qed
qed

theorem insert_key_witness:
  "runs (binsky ''zz'' 99 cstate) (\<lambda>(e, s').
    e = QF2BIG \<and> (\<exists>B' P' R' h'. repr s' B' P' R' \<and> MXBLKS \<le> length B' + 1 \<and>
      tree_entries B' h' 1 = tree_entries crowded 0 1) \<or>
    e = 0 \<and> (\<exists>B' R' h' bs'. repr s' B' {} R' \<and> update_ready R' 1 \<and> open_tree B' R' h' 1 bs' \<and>
      others_kept crowded 0 1 B' h' \<and>
      tree_entries B' h' 1 = insert_at (lower ''zz'' (tree_entries crowded 0 1)) (new_entry ''zz'' 99) (tree_entries crowded 0 1)))"
  by (rule insert_key [OF crowded_repr empty_subsetI crowded_open(2,1)]) (use crowded_lookup in simp_all)

text \<open>
  C10. \<open>binsky\<close> refuses a key that the tree has when its root does not allow duplicates: the error is
  \<open>QDUP\<close> and the index holds what it held.
\<close>

theorem insert_duplicate:
  assumes "repr s B P R" "P \<subseteq> {b}" "update_ready R b" "open_tree B R h b bs"
    and "k = strncpy_term ZKYLEN key" "lookup (tree_entries B h b) k \<noteq> None" "word_of (B ! nat b) ZMISC = 0"
  shows "runs (binsky key v s) (\<lambda>(e, s').
    e = QF2BIG \<and> (\<exists>B' P' R'. repr s' B' P' R' \<and> MXBLKS \<le> length B' + 1) \<or>
    e = QDUP \<and> (\<exists>B' R' h' bs'. repr s' B' P R' \<and> update_ready R' b \<and> open_tree B' R' h' b bs' \<and>
      others_kept B h b B' h' \<and> tree_entries B' h' b = tree_entries B h b))"
proof (rule runs_conseq [OF binsky_refuse [OF assms, of v]], goal_cases)
  case (1 x)
  then show ?case
  proof (cases x, simp only: prod.case, elim disjE conjE, goal_cases)
    case (1 e s')
    then show ?case unfolding too_big_def by blast
  next
    case (2 e s')
    then show ?case by blast
  qed
qed

theorem insert_duplicate_witness:
  "runs (binsky ''c'' 12 sstate) (\<lambda>(e, s').
    e = QF2BIG \<and> (\<exists>B' P' R'. repr s' B' P' R' \<and> MXBLKS \<le> length B' + 1) \<or>
    e = QDUP \<and> (\<exists>B' R' h' bs'. repr s' B' {} R' \<and> update_ready R' 1 \<and> open_tree B' R' h' 1 bs' \<and>
      others_kept sample 1 1 B' h' \<and> tree_entries B' h' 1 = tree_entries sample 1 1))"
  by (rule insert_duplicate [OF sample_repr empty_subsetI sample_ready(5) sample_open refl])
    (simp_all add: sample_lookup sample_nth block_of_words del: tree_entries.simps One_nat_def)

text \<open>
  C11. Filling: insertions into an index whose roots allow no duplicates keep the current root in order,
  amount to updates of a finite map at the keys that it does not have yet, and leave every other root
  of the file as it is.
\<close>

theorem fill_index:
  assumes "serves 0 cur M s" "M cur = Some es" "cur \<noteq> ''$$super''"
  shows "runs (insert_all QF2BIG binsky kvs s) (\<lambda>(e, s'). e = QF2BIG \<or>
    e = 0 \<and> (\<exists>es'. serves 0 cur (M(cur \<mapsto> es')) s' \<and> sorted_keys es' \<and>
      lookup es' = keep_first (strncpy_term ZKYLEN) kvs (lookup es)))"
proof -
  have "cur \<noteq> ''$$super'' \<and> serves 0 cur (M(cur \<mapsto> es)) s" using assms by (simp add: fun_upd_idem)
  then show ?thesis
    by (intro runs_conseq [OF bix.fill, of cur M es s kvs]) (auto dest: bix.holds_sorted [OF conjI])
qed

theorem fill_index_witness:
  "runs (insert_all QF2BIG binsky [(''b'', 5), (''c'', 6)] ostate) (\<lambda>(e, s'). e = QF2BIG \<or>
    e = 0 \<and> (\<exists>es'. serves 0 ''$$default'' (scatalog(''$$default'' \<mapsto> es')) s' \<and>
      lookup es' ''b'' = Some 5 \<and> lookup es' ''c'' = Some 11))"
  by (rule runs_conseq [OF fill_index [OF sample_serves, of "tree_entries sample 1 1" "[(''b'', 5), (''c'', 6)]"]])
    (use sample_lookup sample_lookup_b in \<open>auto simp del: tree_entries.simps One_nat_def\<close>)

text \<open>
  C12. \<open>bdelky\<close> of an index whose blocks below the root have at least two keys each removes the key it is given:
  the current root keeps its other entries in order, the other roots stay what they are, and a walk goes on
  behind the place of the key. The joins and the balancing leave no block short by more than one key. A
  key that the root does not have is reported, and nothing else happens. Only the searches can fail, in
  a file that cannot grow.
\<close>

theorem delete_key:
  assumes "stocks (Suc m) cur M s" "1 \<le> m" "m \<le> 9" "M cur = Some es" "cur \<noteq> ''$$super''" "strncpy_term ZKYLEN k = k"
  shows "runs (bdelky (Some k) s) (\<lambda>(e, s'). e = QF2BIG \<or> e = (if lookup es k = None then QNOKEY else 0) \<and>
    (let M' = M(cur \<mapsto> filter (\<lambda>x. ke_key x \<noteq> k) es) in
      stocks m cur M' s' \<and> scanning 0 cur M' s' (filter (\<lambda>x. k < ke_key x) es)))"
  unfolding Let_def using assms by (intro stocks_delete) simp_all

theorem delete_key_witness:
  "runs (bdelky (Some ''m'') ostate) (\<lambda>(e, s'). e = QF2BIG \<or> e = 0 \<and> (\<exists>M' es.
    scanning 0 ''$$default'' M' s' es \<and> map ke_key (the (M' ''$$default'')) = [''a'', ''c'', ''x'', ''z''] \<and>
    map ke_key es = [''x'', ''z'']))"
proof -
  have "stocks (Suc 1) ''$$default'' scatalog ostate" using sample_stocks by (simp add: numeral_2_eq_2)
  note D = delete_key [OF this, of "tree_entries sample 1 1" "''m''"]
  have l: "lookup (tree_entries sample 1 1) ''m'' \<noteq> None"
    unfolding lookup_None sample_tree_entries by simp
  let ?M = "scatalog(''$$default'' \<mapsto> filter (\<lambda>x. ke_key x \<noteq> ''m'') (tree_entries sample 1 1))"
  have m: "map ke_key (the (?M ''$$default'')) = [''a'', ''c'', ''x'', ''z'']"
      "map ke_key (filter (\<lambda>x. ''m'' < ke_key x) (tree_entries sample 1 1)) = [''x'', ''z'']"
    unfolding sample_tree_entries by (simp_all add: less_char_def)
  show ?thesis
  proof (rule runs_conseq [OF D], goal_cases)
    case (6 x)
    obtain e s' where x: "x = (e, s')" by (cases x)
    let ?E = "filter (\<lambda>x. ''m'' < ke_key x) (tree_entries sample 1 1)"
    have "e = QF2BIG \<or> e = 0 \<and> scanning 0 ''$$default'' ?M s' ?E"
      using 6 unfolding x prod.case Let_def if_not_P [OF l] by blast
    then show ?case unfolding x prod.case
      by (elim disjE conjE) (rule disjI1, assumption, intro disjI2 conjI exI [of _ ?M] exI [of _ ?E] m, assumption+)
  qed (simp_all add: strncpy_term_def ZKYLEN_def del: tree_entries.simps One_nat_def)
qed

text \<open>
  C13. After insertions, deletions: on an index whose blocks below the root have more keys than there are
  keys to delete (ten, if it was only inserted into), any insertions by \<open>binsky\<close> followed by up to nine
  deletions by \<open>bdelky\<close> amount to updates of a finite map and a restriction of it.
\<close>

theorem delete_after_fill:
  assumes "stocks (Suc (length ks)) cur M s" "length ks \<le> 9" "M cur = Some es" "cur \<noteq> ''$$super''"
    and "\<forall>k \<in> set ks. strncpy_term ZKYLEN k = k"
  shows "runs (do { (e, s) \<leftarrow> insert_all QF2BIG binsky kvs s;
      if e = QF2BIG then Some (e, s) else delete_all QF2BIG (\<lambda>k. bdelky (Some k)) ks s })
    (\<lambda>(e, s'). e = QF2BIG \<or> e = 0 \<and> (\<exists>es'. stocks 1 cur (M(cur \<mapsto> es')) s' \<and> sorted_keys es' \<and>
      lookup es' = keep_first (strncpy_term ZKYLEN) kvs (lookup es) |` (- set ks)))"
proof -
  have "Suc 0 + length ks \<le> 10 \<and> cur \<noteq> ''$$super'' \<and> stocks (Suc 0 + length ks) cur (M(cur \<mapsto> es)) s"
    using assms by (simp add: fun_upd_idem)
  note D = bex.fill_then_erase [OF this assms(5), of kvs]
  show ?thesis
  proof (rule runs_conseq [OF D], simp only: split_paired_all prod.case, elim disjE conjE exE, goal_cases)
    case (2 e s' es')
    have "sorted_keys es'" using six.holds_sorted [of "Suc 0" cur M es' s'] 2 by simp
    then show ?case using 2 by auto
  qed simp
qed

theorem delete_after_fill_witness:
  "runs (do { (e, s) \<leftarrow> insert_all QF2BIG binsky [(''b'', 5), (''c'', 6)] ostate;
      if e = QF2BIG then Some (e, s) else delete_all QF2BIG (\<lambda>k. bdelky (Some k)) [''m''] s })
    (\<lambda>(e, s'). e = QF2BIG \<or> e = 0 \<and> (\<exists>es'. serves 0 ''$$default'' (scatalog(''$$default'' \<mapsto> es')) s' \<and>
      lookup es' ''b'' = Some 5 \<and> lookup es' ''c'' = Some 11 \<and> lookup es' ''m'' = None))"
proof -
  have "stocks (Suc (length [''m''])) ''$$default'' scatalog ostate" using sample_stocks by (simp add: numeral_2_eq_2)
  note D = delete_after_fill [OF this, of "tree_entries sample 1 1" "[(''b'', 5), (''c'', 6)]"]
  have "strncpy_term ZKYLEN ''m'' = ''m''" by (simp add: strncpy_term_def ZKYLEN_def)
  then have D2: "runs (do { (e, s) \<leftarrow> insert_all QF2BIG binsky [(''b'', 5), (''c'', 6)] ostate;
      if e = QF2BIG then Some (e, s) else delete_all QF2BIG (\<lambda>k. bdelky (Some k)) [''m''] s })
    (\<lambda>(e, s'). e = QF2BIG \<or> e = 0 \<and> (\<exists>es'. stocks 1 ''$$default'' (scatalog(''$$default'' \<mapsto> es')) s' \<and> sorted_keys es' \<and>
      lookup es' = keep_first (strncpy_term ZKYLEN) [(''b'', 5), (''c'', 6)] (lookup (tree_entries sample 1 1)) |` (- set [''m''])))"
    by (intro D) simp_all
  show ?thesis
  proof (rule runs_conseq [OF D2], simp only: split_paired_all prod.case, elim disjE conjE exE, goal_cases)
    case (2 e s' es')
    then show ?case using stocks_serves [OF 2(2)] sample_lookup sample_lookup_b
      by (intro disjI2 conjI exI [of _ es']) (simp_all del: tree_entries.simps One_nat_def)
  qed simp
qed

text \<open>
  C14. A key that is too long for the index: \<open>binsky\<close> and \<open>bfndky\<close> cut it off, but \<open>bdelky\<close> compares the key
  that it has found with the whole argument, reports \<open>QDELER\<close> and deletes nothing.
\<close>

theorem delete_long_key:
  assumes "serves 0 cur M s" "M cur = Some es" "strncpy_term ZKYLEN key \<noteq> key" "lookup es (strncpy_term ZKYLEN key) \<noteq> None"
  shows "runs (bdelky (Some key) s) (\<lambda>(e, s'). e = QF2BIG \<or> e = QDELER \<and> serves 0 cur M s')"
  by (rule serves_delete_long [OF assms])

theorem delete_long_key_witness:
  "runs (do { (e, s) \<leftarrow> binsky long_key 5 ostate; if e = 0 then bdelky (Some long_key) s else Some (e, s) })
    (\<lambda>(e, s'). e = QF2BIG \<or> e = QDELER)"
proof (rule runs_bindI [OF serves_insert [OF sample_serves, of "tree_entries sample 1 1" long_key 5]], simp, simp,
    simp only: split_paired_all prod.case, elim disjE conjE, goal_cases)
  case (1 e s')
  then show ?case by (simp add: QF2BIG_def)
next
  case (2 e s')
  let ?k = "strncpy_term ZKYLEN long_key" and ?T = "tree_entries sample 1 1"
  let ?es = "insert_at (lower ?k ?T) (new_entry ?k 5) ?T"
  have "lookup ?es ?k \<noteq> None" unfolding lookup_None by (simp add: set_insert_at del: tree_entries.simps One_nat_def)
  moreover have "e = 0" "serves 0 ''$$default'' (scatalog(''$$default'' \<mapsto> ?es)) s'" using 2 long_key(3) by simp_all
  ultimately have "e = 0" and D: "runs (bdelky (Some long_key) s')
      (\<lambda>(e, s'). e = QF2BIG \<or> e = QDELER \<and> serves 0 ''$$default'' (scatalog(''$$default'' \<mapsto> ?es)) s')"
    using delete_long_key [of "''$$default''" "scatalog(''$$default'' \<mapsto> ?es)" s' ?es, OF _ _ long_key(2)] by simp_all
  then show ?case by (auto intro: runs_conseq [OF D])
qed

text \<open>
  C15. The repair of a tree after a key has left the leaf \<open>c\<close>: \<open>bjnblk\<close>, \<open>balblk\<close> and the loop around \<open>bdemte\<close>,
  as \<open>bdelk1\<close> calls them, leave a well-formed tree with the same entries, every block of the right type,
  in order and not short of keys, and leave every block outside the tree alone.
\<close>

theorem repair_keeps_tree:
  assumes "repr s B P R" "P \<subseteq> {b}" "open_tree B R h b bs" "route B h b ps 1 pb" "at_leaf B R pb p c"
    and "stocked m B h b" "0 < m" "pb = b \<or> int m < nkeys_of (B ! nat pb)"
  shows "runs (do {
      (cblk, s) \<leftarrow> bjnblk s;
      s \<leftarrow> (if cblk = ZNULL then balblk s else Some s);
      demote_loop cblk s })
    (\<lambda>s'. \<exists>B' P' R' h' bs'. repr s' B' P' R' \<and> P' \<subseteq> P \<and> open_tree B' R' h' b bs' \<and> typed_tree B' h' b \<and>
      stocked m B' h' b \<and> others_kept B h b B' h' \<and> tree_entries B' h' b = tree_entries B h b)"
  by (rule runs_conseq [OF repair_spec [OF assms]]) (unfold mended_def reshaped_def open_tree_def, blast)

theorem repair_keeps_tree_witness:
  "runs (do {
      (cblk, s) \<leftarrow> bjnblk lstate;
      s \<leftarrow> (if cblk = ZNULL then balblk s else Some s);
      demote_loop cblk s })
    (\<lambda>s'. \<exists>B' P' R' h' bs'. repr s' B' P' R' \<and> open_tree B' R' h' 1 bs' \<and>
      tree_entries B' h' 1 = tree_entries sample 1 1)"
  by (rule runs_conseq [OF repair_keeps_tree [OF lstate_repr empty_subsetI lstate_tree sample_stocked zero_less_numeral disjI1 [OF refl]]])
    blast



section \<open>Searching\<close>

text \<open>
  C17. \<open>bfndky\<close> on an index open for update splits the full blocks it meets and still finds what is there:
  the result is that of a lookup among the entries, which stay the same; the search always ends and
  its stack never overflows.
\<close>

theorem find_while_splitting:
  assumes "repr s B P R" "P \<subseteq> {b}" "update_ready R b" "open_tree B R h b bs" "k = strncpy_term ZKYLEN key"
  shows "runs (bfndky key v s) (\<lambda>((e, w), s').
    e = QF2BIG \<and> (\<exists>B' P' R'. repr s' B' P' R' \<and> MXBLKS \<le> length B' + 1) \<or>
    (case lookup (tree_entries B h b) k of None \<Rightarrow> e = QNOKEY | Some x \<Rightarrow> e = 0 \<and> w = Some x) \<and>
    (\<exists>B' R' h' bs'. repr s' B' P R' \<and> open_tree B' R' h' b bs' \<and> others_kept B h b B' h' \<and>
      tree_entries B' h' b = tree_entries B h b))"
proof (rule runs_conseq [OF bfndky_update [OF assms, of v]], simp only: split_paired_all prod.case, elim disjE conjE exE, goal_cases)
  case (1 e w s')
  then show ?case unfolding too_big_def by blast
next
  case (2 e w s' B' R' h' bs' res)
  have o: "open_tree B' R' h' b bs'" "tree_entries B' h' b = tree_entries B h b" "others_kept B h b B' h'"
    using 2(2) by (simp_all add: resplit_def)
  then have st: "search_tree B' h' b" by (simp add: open_tree_def)
  have "open_tree B' (find_end k (fst res = 0) R') h' b bs'"
    using o(1) by (simp add: open_tree_def free_list_def find_end_def)
  moreover have "case lookup (tree_entries B h b) k of None \<Rightarrow> e = QNOKEY | Some x \<Rightarrow> e = 0 \<and> w = Some x"
    using find_status [OF st 2(3)] o(2) 2(5,6) by (auto split: option.split)
  ultimately show ?case using 2(1) o(2,3) by blast
qed

theorem find_while_splitting_witness:
  "runs (bfndky ''zz'' None cstate) (\<lambda>((e, w), s').
    e = QF2BIG \<and> (\<exists>B' P' R'. repr s' B' P' R' \<and> MXBLKS \<le> length B' + 1) \<or> e = QNOKEY)"
  by (rule runs_conseq [OF find_while_splitting [OF crowded_repr empty_subsetI crowded_open(2,1) refl]])
    (use crowded_lookup in \<open>auto simp del: tree_entries.simps\<close>)

text \<open>
  C18. \<open>bfndky\<close> on an open index that is not shared, whose tree needs no split and holds no duplicates:
  the call returns, a key of the tree is found with its value, every other key gives \<open>QNOKEY\<close>, and no
  block changes.
\<close>

theorem find_key:
  assumes "repr s B P R" "\<not> shared R" "s_scroot R = b" "stk_array R"
    and "search_tree B h b" "card P < ZMXBLK" "no_split B h b R" "no_dups (tree_entries B h b)"
    and "2 * (h + 1) \<le> nat STKMAX"
  shows "runs (bfndky key v s) (\<lambda>((e, w), s'). \<exists>R'. repr s' B P R' \<and>
    (case lookup (tree_entries B h b) (strncpy_term ZKYLEN key) of
       None \<Rightarrow> e = QNOKEY | Some x \<Rightarrow> e = 0 \<and> w = Some x))"
proof -
  have t: "wf_tree B h b" using assms(5) by (simp add: search_tree_def)
  show ?thesis
    by (rule runs_conseq [OF bfndky_spec [OF assms(1-4) t assms(6-9) refl, of key v]])
      (auto split: option.split simp: find_status_pair(1) [OF assms(5)] dest: find_status_pair(2) [OF assms(5)])
qed

theorem find_key_witness:
  "runs (bfndky ''c'' None sstate) (\<lambda>((e, w), s'). e = 0 \<and> w = Some 11) \<and>
   runs (bfndky ''d'' None sstate) (\<lambda>((e, w), s'). e = QNOKEY)"
proof -
  have f: "runs (bfndky key None sstate) (\<lambda>((e, w), s'). \<exists>R'. repr s' sample {} R' \<and>
    (case lookup (tree_entries sample 1 1) (strncpy_term ZKYLEN key) of
       None \<Rightarrow> e = QNOKEY | Some x \<Rightarrow> e = 0 \<and> w = Some x))" for key
    by (rule find_key [OF sample_repr sample_ready(1-3) sample_tree sample_ready(4,7,6,9)])
  have "runs (bfndky ''c'' None sstate) (\<lambda>((e, w), s'). e = 0 \<and> w = Some 11)"
    using f [of "''c''"] by (rule runs_conseq) (auto simp: sample_lookup simp del: tree_entries.simps One_nat_def)
  moreover have "runs (bfndky ''d'' None sstate) (\<lambda>((e, w), s'). e = QNOKEY)"
    using f [of "''d''"] by (rule runs_conseq) (auto simp: sample_lookup simp del: tree_entries.simps One_nat_def)
  ultimately show ?thesis by blast
qed

section \<open>The block cache\<close>

text \<open>
  C19. The cache is transparent: \<open>brdblk\<close> of a block of the file brings it into a slot with the contents
  that the store gives it, whatever slot had to be freed (and written back) for it; no block of the
  store changes, no pin is lost, and no slot becomes dirty.
\<close>

theorem read_block:
  assumes "repr s B P R" "valid_blk B blk" "room P blk"
  shows "runs (brdblk blk s) (\<lambda>((e, i), s'). e = 0 \<and> at_slot s' i blk \<and>
    mems s' ! nat i = B ! nat blk \<and> repr s' B P R \<and> settled s s')"
  by (rule runs_conseq [OF brdblk_dirty [OF assms]]) (auto simp: slot_block)

theorem read_block_witness:
  "runs (brdblk 3 sstate) (\<lambda>((e, i), s'). e = 0 \<and> mems s' ! nat i = sample ! 3)"
  by (rule runs_conseq [OF read_block [OF sample_repr, of 3]])
    (auto simp: valid_blk_def sample_nth(6) sample_ready(11))

text \<open>
  C20. \<open>bgtslt\<close> never gives away a pinned block: with fewer pinned blocks than slots it returns a slot
  that is neither busy nor dirty, and no block of the store changes.
\<close>

theorem get_slot:
  assumes "repr s B P R" "card P < ZMXBLK"
  shows "runs (bgtslt s) (\<lambda>(i, s'). repr s' B P R \<and> 0 \<le> i \<and> i < int ZMXBLK \<and>
    inmem (cntrls s' ! nat i) \<notin> P \<and> busy (cntrls s' ! nat i) = 0 \<and> writes (cntrls s' ! nat i) = 0)"
proof -
  obtain f where f: "reps s f B P R" using assms(1) repr_reps by blast
  have "inmem (cntrls s' ! i) \<notin> P" if r: "reps s' f' B P R" and i: "i < ZMXBLK" "busy (cntrls s' ! i) = 0"
    for s' f' i
  proof
    assume "inmem (cntrls s' ! i) \<in> P"
    then obtain j where j: "j < ZMXBLK" "busy (cntrls s' ! j) \<noteq> 0" "inmem (cntrls s' ! j) = inmem (cntrls s' ! i)"
      using reps_pins [OF r] by blast
    then have "0 \<le> inmem (cntrls s' ! j)" using reps_D(8) [OF r j(1)] by (simp add: slot_ok_def)
    then have "j = i" using reps_D(2,5) [OF r] i j unfolding slots_distinct_def by metis
    then show False using i j by simp
  qed
  then show ?thesis
    by (intro runs_conseq [OF bgtslt_spec [OF f assms(2)]]) (auto simp: repr_reps)
qed

theorem get_slot_witness:
  "runs (bgtslt sstate) (\<lambda>(i, s'). busy (cntrls s' ! nat i) = 0 \<and> writes (cntrls s' ! nat i) = 0)"
  by (rule runs_conseq [OF get_slot [OF sample_repr sample_ready(4)]]) auto

text \<open>
  C21. The queue of the slots is a least recently used queue: \<open>bqmove\<close> takes a slot out of its place and
  puts it at the tail; the slots' other control words stay as they are.
\<close>

theorem queue_move:
  assumes "lru_queue s q" "i \<in> set q"
  shows "runs (bqmove i s) (\<lambda>s'. lru_queue s' (remove1 i q @ [i]) \<and> same_slots s s')"
  by (rule bqmove_spec [OF assms])

theorem queue_move_witness: "runs (bqmove 1 sstate) (\<lambda>s'. lru_queue s' [0, 2, 1])"
  by (rule runs_conseq [OF queue_move [OF fresh_queue]]) auto



section \<open>The allocator\<close>

text \<open>
  C23. \<open>bgtfre\<close> with an empty free list extends the file by one block; the blocks of the store do not
  change, and the new one is cached.
\<close>

theorem alloc_grows_file:
  assumes "repr s B P R" "free_list B R []" "card P < ZMXBLK" "length B + 1 < MXBLKS"
  shows "runs (bgtfre s) (\<lambda>(x, s'). x = int (length B) \<and>
    (\<exists>m R'. wf_memrec m \<and> repr s' (B @ [m]) P R' \<and> free_list (B @ [m]) R' []))"
  by (rule runs_conseq [OF bgtfre_grow [OF assms]]) auto

theorem alloc_grows_file_witness:
  "runs (do { (x, s) \<leftarrow> bgtfre sstate; bgtfre s }) (\<lambda>(x, s'). x = 5)"
proof (rule runs_bindI [OF bgtfre_pop [OF sample_repr sample_free sample_ready(11)]], clarify)
  fix s n
  assume "repr s sample {} (popped (rest sstate) n)" "free_list sample (popped (rest sstate) n) []"
  from alloc_grows_file [OF this sample_ready(4)]
  show "runs (bgtfre s) (\<lambda>(x, s'). x = 5)"
    by (auto simp: sample_nth(6) MXBLKS_def elim!: runs_conseq)
qed

text \<open>
  C24. The largest file: when a further block would end beyond the largest file position, \<open>bgtfre\<close>
  reports \<open>QF2BIG\<close>, returns \<open>ZNULL\<close> and leaves the store alone.
\<close>

theorem alloc_limit:
  assumes "repr s B P R" "free_list B R []" "MXBLKS \<le> length B + 1" "qerror R = 0"
  shows "runs (bgtfre s) (\<lambda>(x, s'). x = ZNULL \<and> qerror s' = QF2BIG \<and> (\<exists>R'. repr s' B P R'))"
proof -
  have "qerror s = 0" using repr_fields(9) [OF assms(1)] assms(4) by simp
  then show ?thesis
    using bgtfre_full [OF assms(1-3)] repr_frame(10) [OF assms(1)] by (auto simp: bterr_records)
qed

theorem alloc_limit_witness:
  "runs (bgtfre (full_state)) (\<lambda>(x, s'). x = ZNULL \<and> qerror s' = QF2BIG)"
  by (rule runs_conseq [OF alloc_limit [OF full_repr full_free]]) (auto simp: full_length full_error)



section \<open>Super root and lock\<close>



text \<open>
  C27. Locks nest: any number of further \<open>block\<close>s inside a lock, followed by as many \<open>bulock\<close>s, changes
  nothing; in particular no inner unlock writes anything or gives the lock up.
\<close>

theorem locks_nest:
  assumes "0 < lckcnt s"
  shows "runs (iterate n (\<lambda>s. do { (ok, s) \<leftarrow> block s; Some s }) s)
    (\<lambda>t. lckcnt t = lckcnt s + int n \<and> iterate n bulock t = Some s)"
  using nested_locks [OF assms] by (simp add: nested_unlocks assms)

theorem locks_nest_witness:
  "runs (iterate 3 (\<lambda>s. do { (ok, s) \<leftarrow> block s; Some s }) (sstate\<lparr>lckcnt := 1\<rparr>))
    (\<lambda>t. lckcnt t = 4 \<and> iterate 3 bulock t = Some (sstate\<lparr>lckcnt := 1\<rparr>))"
  using locks_nest [of "sstate\<lparr>lckcnt := 1\<rparr>" 3] by simp





section \<open>Key blocks\<close>

text \<open>
  C30. \<open>bsrhbk\<close> of a key in a block with sorted keys: the search ends, \<open>s_result\<close> is 0 exactly if the
  block has the key, and from \<open>s_loc\<close> and the sign of \<open>s_result\<close> the caller gets the number of keys
  below it; no block changes. An empty block gives no entry.
\<close>

theorem search_block:
  assumes "repr s B P R" "valid_blk B blk" "room P blk" "wf_keys (B ! nat blk)"
    and "s_key a = Some k" "s_loc a = -1"
  shows "runs (bsrhbk blk a s) (\<lambda>((kep, a'), s'). (\<exists>R'. repr s' B P R') \<and>
    kep = (entries (B ! nat blk) \<noteq> []) \<and>
    (kep \<longrightarrow> (\<exists>res i. s_result a' = Some res \<and> s_loc a' = int i \<and> i < length (entries (B ! nat blk)) \<and>
      (res = 0 \<longleftrightarrow> k \<in> ke_key ` set (entries (B ! nat blk))) \<and>
      lower k (entries (B ! nat blk)) = (if 0 < res then i + 1 else i) \<and>
      srh_keyent s' = entries (B ! nat blk) ! i)))"
proof -
  note n = wf_keys_D(7) [OF assms(4)]
  show ?thesis
    by (rule runs_conseq [OF bsrhbk_search [OF assms(1-3) refl assms(4-6)]])
      (use n in \<open>fastforce simp: found_at_def dest: repr_fields(15) zero_le_imp_eq_int split: if_splits\<close>)
qed

theorem search_block_witness:
  "runs (bsrhbk 2 (srh_args (Some ''c'') (-1)) sstate) (\<lambda>((kep, a'), s'). kep \<and> s_result a' = Some 0 \<and> s_loc a' = 1)"
  by (rule runs_conseq [OF search_block [OF sample_repr _ sample_ready(11), of 2 _ "''c''"]])
    (auto simp: valid_blk_def sample_nth(6) sample_keys sample_entries srh_args_def lower_def string_less
      split: if_splits)



text \<open>
  C32. \<open>bremky\<close> undoes \<open>bputky\<close>: a key put into a leaf and removed from its place leaves the keys and the
  links of the block as they were.
\<close>

theorem put_then_remove:
  assumes "repr s B P R" "valid_blk B blk" "room P blk" "wf_keys (B ! nat blk)"
    and "nkeys_of (B ! nat blk) < ZMXKEY" "ke_key k \<notin> ke_key ` set (entries (B ! nat blk))"
    and "set (links (B ! nat blk)) = {ZNULL}" "p = lower (ke_key k) (entries (B ! nat blk))"
  shows "runs (do { s \<leftarrow> bputky blk k ZNULL ZNULL s; bremky blk (int p) s }) (\<lambda>s'. \<exists>m.
    repr s' (B[nat blk := m]) P R \<and> entries m = entries (B ! nat blk) \<and> links m = links (B ! nat blk))"
proof -
  let ?b = "B ! nat blk"
  note D = wf_keys_D [OF assms(4)]
  have p: "p \<le> length (entries ?b)" using assms(8) lower_le by simp
  have l: "p < length (links ?b)" using p D(2,3) by simp
  then have "links ?b ! p = ZNULL" using assms(7) nth_mem by blast
  then have n: "take p (links ?b) @ ZNULL # drop (Suc p) (links ?b) = links ?b"
    using id_take_nth_drop [OF l] by simp
  show ?thesis
  proof (rule runs_bindI [OF bputky_spec [OF assms(1-3) refl assms(4,5)]], goal_cases)
    case (2 s1)
    then obtain m where m: "put_ok k ZNULL ZNULL ?b m" "repr s1 (B[nat blk := m]) P R" by blast
    have wf: "wf_keys m" using put_ok_keys [OF assms(4) m(1) assms(5,6)] .
    have v: "valid_blk (B[nat blk := m]) blk" "(B[nat blk := m]) ! nat blk = m"
      using assms(2) by (auto simp: valid_blk_def)
    have "remove_at p (entries m) = entries ?b" using m(1) p assms(8) by (simp add: put_ok_def insert_at_def remove_at_def)
    moreover have "remove_at (Suc p) (links m) = links ?b"
      using m(1) p D(2,3) assms(8) n
      by (simp add: put_ok_def put_links_def remove_at_def min_absorb2)
    moreover have "int p < nkeys_of m" using m(1) p D(7) by (simp add: put_ok_def)
    ultimately show ?case
      using bremky_spec [OF m(2) v(1) assms(3) refl, unfolded v(2), OF wf, of "int p"]
      by (auto simp: rem_ok_def elim!: runs_conseq)
  qed simp
qed

theorem put_then_remove_witness:
  "runs (do { s \<leftarrow> bputky 3 \<lparr>ke_key = ''n'', ke_val = 7, ke_dup = ZNULL\<rparr> ZNULL ZNULL sstate; bremky 3 0 s })
    (\<lambda>s'. \<exists>m. repr s' (sample[3 := m]) {} (rest sstate) \<and> map ke_key (entries m) = [''x'', ''z''])"
  by (rule runs_conseq [OF put_then_remove [OF sample_repr _ sample_ready(11), of 3 _ 0, simplified]])
    (auto simp: valid_blk_def sample_nth(6) sample_keys sample_entries lower_def less_char_def ZNULL_def,
     auto simp: sample_nth block_of_words ZMXKEY_val)



section \<open>Stack, errors and encodings\<close>

text \<open>
  C34. The stack is last in, first out up to its capacity: values pushed are pulled in the opposite
  order, and the stack is then as before.
\<close>

theorem stack_lifo:
  assumes "wf_stk (stk s)" "length (stack_of (stk s)) + length vs \<le> nat STKMAX"
  shows "runs (do { s \<leftarrow> push_all bpush vs s; pull_n bpull (length vs) s })
    (\<lambda>(ws, s'). ws = rev vs \<and> wf_stk (stk s') \<and> stack_of (stk s') = stack_of (stk s))"
  by (rule bstk.push_pull [OF assms])

theorem stack_lifo_witness:
  "runs (do { s \<leftarrow> push_all bpush [5, 6, 7] sstate; pull_n bpull 3 s })
    (\<lambda>(ws, s'). ws = [7, 6, 5] \<and> wf_stk (stk s') \<and> stack_of (stk s') = [])"
  using stack_lifo [of sstate "[5, 6, 7]"]
  by (simp add: fresh_def wf_stk_def stack_of_def STKMAX_def numeral_3_eq_3 del: push_all.simps pull_n.simps)

text \<open>
  C35. The guard of \<open>bpush\<close> is one too weak: a push onto a stack that holds \<open>STKMAX\<close> values passes it
  and stores outside the array, while a pull from an empty stack is reported as \<open>QSTKUF\<close>.
\<close>

theorem stack_limits:
  assumes "wf_stk (stk s)"
  shows "(length (stack_of (stk s)) = nat STKMAX \<longrightarrow> \<not> (STKMAX \<le> stkptr (stk s)) \<and> bpush v s = None) \<and>
    (stack_of (stk s) = [] \<longrightarrow> bpull s = Some (0, bterr ''BPULL'' QSTKUF None s))"
  using bpush_full [OF assms] bpull_empty [OF assms] stack_length [OF assms] by (auto simp: STKMAX_def)

theorem stack_limits_witness:
  "bpull sstate = Some (0, bterr ''BPULL'' QSTKUF None sstate)"
  using stack_limits [of sstate] by (simp add: fresh_def wf_stk_def stack_of_def STKMAX_def)





section \<open>The command interpreter and the diagnostics\<close>



text \<open>
  C39. Every command of the harness is reached by its name and by its abbreviation, with anything after a
  blank, except that \<open>lk\<close>, the abbreviation given for \<open>lock\<close>, lists the keys.
\<close>

theorem command_words:
  assumes "e \<in> set bt_cmds" "e_cmd e \<noteq> []" "w = e_cmd e \<or> w = e_abbrev e \<and> w \<noteq> ''lk''"
    and "r = [] \<or> hd r = CHR '' '' \<or> hd r = char_of (10 :: nat)" "length (w @ r) < MAXBUFSZ"
  shows "(\<exists>b. find_cmd (w @ r) bt_cmds = Some b \<and> c_function b = Some (e_function e)) \<and>
    map_option c_function (find_cmd (''lk'' @ newline) bt_cmds) = Some (Some F_list_keys)"
proof -
  have p: "plain_word w" "find (takes w) bt_cmds = Some e" using bt_cmds_reached [OF assms(1-3)] by auto
  have "length (e_cmd f) < MAXBUFSZ \<and> length (e_abbrev f) < MAXBUFSZ" if "f \<in> set bt_cmds" for f
    using words_plain that by (auto simp: list_all_iff)
  from find_cmd_takes [OF p(1) assms(4,5) p(2) this] show ?thesis using lk_lists_keys by simp
qed

theorem command_words_witness:
  "\<exists>b. find_cmd (''pos'' @ '' s'') bt_cmds = Some b \<and> c_function b = Some F_pos"
proof -
  let ?e = "entry ''position'' ''pos'' F_pos ''{s|e}'' 1
    ''Position current root.  s positions prior to first key; e after last key.''"
  have "?e \<in> set bt_cmds" by (simp add: bt_cmds_def)
  from command_words [OF this, of "''pos''" "'' s''"] show ?thesis by (simp add: MAXBUFSZ_def)
qed

text \<open>
  C40. The hexadecimal dump of a data block reads beyond the block: its last row starts at byte 992 of the
  1000 bytes and takes sixteen. So no dump of a data block has a meaning, whatever is in it.
\<close>

theorem dump_overrun:
  assumes "length p = nat ZDATSZ"
  shows "bxdump p ZDATSZ = None"
  unfolding bxdump_def by (rule bxdump_loop_overrun [OF assms, of _ 0]) simp_all

theorem dump_overrun_witness: "bxdump (replicate 1000 0) ZDATSZ = None"
  by (rule dump_overrun) (simp add: ZDATSZ_val)

end
